(* ===== verification/Prelude.thy ===== *)
theory Prelude
  imports Main "HOL-Library.Word" "HOL-Library.Code_Target_Numeral"
begin

unbundle bit_operations_syntax

text \<open>
  Shared vocabulary of the development: the machine integers of the C++ sources, byte sequences,
  \<^verbatim>\<open>std::expected\<close> as a sum type, little-endian byte encodings and the list lemmas the component
  theories use. Sizes of in-memory containers (\<^verbatim>\<open>size_t\<close>) are natural numbers; addresses
  (\<^verbatim>\<open>uintptr_t\<close>) and fixed-width fields are words, because their wrap-around is observable.
\<close>

section \<open>Types\<close>

type_synonym byte = "8 word"
type_synonym u16 = "16 word"
type_synonym u32 = "32 word"
type_synonym u64 = "64 word"

text \<open>\<^verbatim>\<open>std::expected<T, std::string>\<close>: the error text on the left, the value on the right.\<close>

type_synonym 'a expected = "string + 'a"

named_theorems byte_simps \<open>rewriting byte sequences and their values\<close>
named_theorems parse_shrinks \<open>a successful parsing step leaves a shorter input\<close>

section \<open>Results\<close>

fun is_ok :: "'e + 'a \<Rightarrow> bool" where
  "is_ok (Inl e) = False"
| "is_ok (Inr a) = True"

lemma is_ok_iff: "is_ok r \<longleftrightarrow> (\<exists>a. r = Inr a)"
  by (cases r) auto

lemma sum_case_InrE:
  assumes "(case r of Inl e \<Rightarrow> Inl e | Inr a \<Rightarrow> f a) = Inr b"
  obtains a where "r = Inr a" "f a = Inr b"
  using assms by (cases r) auto

section \<open>Little-endian values\<close>

text \<open>The number a byte sequence denotes, least significant byte first.\<close>

fun le_val :: "byte list \<Rightarrow> nat" where
  "le_val [] = 0"
| "le_val (b # bs) = unat b + 256 * le_val bs"

text \<open>The low \<open>n\<close> bytes of a word in memory order on a little-endian host.\<close>

definition le_bytes :: "nat \<Rightarrow> 'a::len word \<Rightarrow> byte list" where
  "le_bytes n w = map (\<lambda>i. ucast (drop_bit (8 * i) w)) [0..<n]"

lemma length_le_bytes [simp]: "length (le_bytes n w) = n"
  by (simp add: le_bytes_def)

lemma unat_byte_less [simp]: "unat (b :: byte) < 256"
  using unsigned_less [of b, where 'a = nat] by simp

lemma le_val_bound: "le_val bs < 256 ^ length bs"
proof (induction bs)
  case (Cons b bs)
  have "unat b + 256 * k < 256 * m" if "k < m" for k m
    using that unat_byte_less [of b] by linarith
  from this [OF Cons.IH] show ?case by simp
qed simp

lemma le_val_append [byte_simps]:
  "le_val (xs @ ys) = le_val xs + 256 ^ length xs * le_val ys"
  by (induction xs) (auto simp: algebra_simps)

lemma le_val_sum: "le_val bs = (\<Sum>i<length bs. unat (bs ! i) * 256 ^ i)"
proof (induction bs)
  case (Cons b bs)
  have "(\<Sum>i<length (b # bs). unat ((b # bs) ! i) * 256 ^ i)
      = unat b + (\<Sum>i<length bs. unat (bs ! i) * 256 ^ Suc i)"
    by (simp add: sum.lessThan_Suc_shift del: sum.lessThan_Suc)
  also have "\<dots> = unat b + 256 * (\<Sum>i<length bs. unat (bs ! i) * 256 ^ i)"
    by (simp add: sum_distrib_left algebra_simps)
  finally show ?case using Cons by simp
qed simp

lemma le_val_inject:
  assumes "length xs = length ys" "le_val xs = le_val ys"
  shows "xs = ys"
  using assms
proof (induction xs ys rule: list_induct2)
  case (Cons x xs y ys)
  have "unat x = (unat x + 256 * le_val xs) mod 256" by simp
  also have "\<dots> = (unat y + 256 * le_val ys) mod 256" using Cons.prems by simp
  also have "\<dots> = unat y" by simp
  finally have "x = y" by (simp add: word_unat_eq_iff)
  with Cons show ?case by simp
qed simp

text \<open>Shifting a byte in at the bottom of a word is multiplication and addition.\<close>

lemma push_byte_or:
  fixes v :: "'a::len word" and b :: byte
  assumes "8 \<le> LENGTH('a)"
  shows "push_bit 8 v OR ucast b = 256 * v + ucast b"
proof -
  have "push_bit 8 v AND (ucast b :: 'a word) = 0"
    by (rule bit_eqI) (auto simp: bit_simps dest: bit_imp_le_length)
  then have "push_bit 8 v OR ucast b = push_bit 8 v + (ucast b :: 'a word)"
    by (simp add: disjunctive_add_eq_or)
  then show ?thesis by (simp add: push_bit_eq_mult mult.commute)
qed

lemma foldl_push_byte:
  fixes v :: "'a::len word"
  assumes "8 \<le> LENGTH('a)"
  shows "foldl (\<lambda>v b. push_bit 8 v OR ucast (b :: byte)) v bs
       = v * 256 ^ length bs + of_nat (le_val (rev bs))"
proof (induction bs arbitrary: v)
  case (Cons b bs)
  have "(of_nat (unat b) :: 'a word) = ucast b" by (simp add: unsigned_ucast_eq)
  then show ?case using Cons push_byte_or [OF assms, of v b]
    by (simp add: byte_simps algebra_simps)
qed simp

lemma le_bytes_Suc: "le_bytes (Suc n) w = ucast w # le_bytes n (drop_bit 8 w)"
  by (simp add: le_bytes_def upt_conv_Cons del: upt_Suc)
     (auto simp: map_Suc_upt [symmetric] add.commute simp del: upt_Suc)

lemma le_val_le_bytes: "le_val (le_bytes n w) = unat w mod 256 ^ n"
proof (induction n arbitrary: w)
  case 0
  then show ?case by (simp add: le_bytes_def)
next
  case (Suc n)
  have u: "unat (ucast w :: byte) = unat w mod 256"
    by (simp add: unsigned_ucast_eq take_bit_eq_mod)
  have d: "unat (drop_bit 8 w) = unat w div 256"
    by (simp add: unat_drop_bit_eq drop_bit_eq_div [of 8 "unat w"])
  show ?case using Suc [of "drop_bit 8 w"]
    by (simp add: le_bytes_Suc u d mod_mult2_eq)
qed

end
