(* ===== verification/Text.thy ===== *)
theory Text
  imports Prelude
begin

text \<open>
  The text primitives of the C++ standard library that the sources use on byte strings: number
  printing (\<^verbatim>\<open>std::to_string\<close>, \<^verbatim>\<open>std::to_chars\<close>, \<^verbatim>\<open>printf\<close> with \<^verbatim>\<open>%llx\<close>, \<^verbatim>\<open>%llu\<close>, \<^verbatim>\<open>%02x\<close>),
  digit classification, \<^verbatim>\<open>strtoull\<close> with base 0, \<^verbatim>\<open>find_first_not_of\<close>-style trimming and
  \<^verbatim>\<open>find\<close>/\<^verbatim>\<open>find_last_of\<close>. A \<^verbatim>\<open>std::string\<close> is a list of 8-bit characters. The lemmas show that
  printing and reading a number are inverse.
\<close>

unbundle bit_operations_syntax

section \<open>Digits\<close>

definition char_code :: "char \<Rightarrow> nat" where
  "char_code c = of_char c"

definition digit_value :: "char \<Rightarrow> nat option" where
  "digit_value c =
    (let k = char_code c in
     if 48 \<le> k \<and> k \<le> 57 then Some (k - 48)
     else if 97 \<le> k \<and> k \<le> 102 then Some (k - 97 + 10)
     else if 65 \<le> k \<and> k \<le> 70 then Some (k - 65 + 10)
     else None)"

definition is_digit_of :: "nat \<Rightarrow> char \<Rightarrow> bool" where
  "is_digit_of base c = (case digit_value c of None \<Rightarrow> False | Some d \<Rightarrow> d < base)"

definition digit_char :: "nat \<Rightarrow> char" where
  "digit_char d = ''0123456789abcdef'' ! d"

definition digit_char_upper :: "nat \<Rightarrow> char" where
  "digit_char_upper d = ''0123456789ABCDEF'' ! d"

lemma less_16_cases:
  assumes "d < (16 :: nat)"
  obtains "d = 0" | "d = 1" | "d = 2" | "d = 3" | "d = 4" | "d = 5" | "d = 6" | "d = 7"
    | "d = 8" | "d = 9" | "d = 10" | "d = 11" | "d = 12" | "d = 13" | "d = 14" | "d = 15"
  using assms by atomize_elim presburger

lemma digit_value_char [simp]: "d < 16 \<Longrightarrow> digit_value (digit_char d) = Some d"
  by (erule less_16_cases) (simp_all add: digit_value_def digit_char_def char_code_def)

lemma digit_value_char_upper [simp]: "d < 16 \<Longrightarrow> digit_value (digit_char_upper d) = Some d"
  by (erule less_16_cases) (simp_all add: digit_value_def digit_char_upper_def char_code_def)

lemma digit_value_less: "digit_value c = Some d \<Longrightarrow> d < 16"
  by (auto simp: digit_value_def Let_def split: if_splits)

lemma is_digit_of_char: "d < base \<Longrightarrow> base \<le> 16 \<Longrightarrow> is_digit_of base (digit_char d)"
  by (simp add: is_digit_of_def)

lemma is_digit_of_char_upper: "d < base \<Longrightarrow> base \<le> 16 \<Longrightarrow> is_digit_of base (digit_char_upper d)"
  by (simp add: is_digit_of_def)

section \<open>Printing numbers\<close>

text \<open>The digits of a number, most significant first; zero has one digit.\<close>

fun digits_of :: "nat \<Rightarrow> nat \<Rightarrow> nat list" where
  "digits_of base n = (if base < 2 \<or> n < base then [n] else digits_of base (n div base) @ [n mod base])"

declare digits_of.simps [simp del]

definition show_base :: "nat \<Rightarrow> nat \<Rightarrow> string" where
  "show_base base n = map digit_char (digits_of base n)"

definition show_hex_upper :: "nat \<Rightarrow> string" where
  "show_hex_upper n = map digit_char_upper (digits_of 16 n)"

text \<open>\<^verbatim>\<open>std::to_string\<close> of a signed integer.\<close>

definition show_int :: "int \<Rightarrow> string" where
  "show_int i = (if i < 0 then CHR ''-'' # show_base 10 (nat (- i)) else show_base 10 (nat i))"

text \<open>Two lower-case hexadecimal digits of a byte, as \<^verbatim>\<open>%02x\<close> prints it, and upper-case ones.\<close>

definition hex2 :: "byte \<Rightarrow> string" where
  "hex2 b = [digit_char (unat b div 16), digit_char (unat b mod 16)]"

definition hex2_upper :: "byte \<Rightarrow> string" where
  "hex2_upper b = [digit_char_upper (unat b div 16), digit_char_upper (unat b mod 16)]"

section \<open>Reading numbers\<close>

definition digit_or_0 :: "char \<Rightarrow> nat" where
  "digit_or_0 c = (case digit_value c of None \<Rightarrow> 0 | Some d \<Rightarrow> d)"

definition run_value :: "nat \<Rightarrow> string \<Rightarrow> nat" where
  "run_value base ds = foldl (\<lambda>v c. v * base + digit_or_0 c) 0 ds"

definition is_space :: "char \<Rightarrow> bool" where
  "is_space c = (let k = char_code c in k = 32 \<or> (9 \<le> k \<and> k \<le> 13))"

text \<open>
  \<^verbatim>\<open>strtoull(text, &end, 0)\<close>: the value, the unread rest (the whole text when nothing converts) and
  whether \<^verbatim>\<open>errno\<close> becomes \<^verbatim>\<open>ERANGE\<close>.
\<close>

definition strtoull0 :: "string \<Rightarrow> u64 \<times> string \<times> bool" where
  "strtoull0 s =
    (let t = dropWhile is_space s;
         neg = (t \<noteq> [] \<and> hd t = CHR ''-'');
         u = (if t \<noteq> [] \<and> (hd t = CHR ''-'' \<or> hd t = CHR ''+'') then tl t else t);
         hexp = (length u \<ge> 3 \<and> u ! 0 = CHR ''0'' \<and> (u ! 1 = CHR ''x'' \<or> u ! 1 = CHR ''X'') \<and> is_digit_of 16 (u ! 2));
         base = (if hexp then 16 else if u \<noteq> [] \<and> hd u = CHR ''0'' then 8 else 10);
         body = (if hexp then drop 2 u else u);
         ds = takeWhile (is_digit_of base) body
     in if ds = [] then (0, s, False)
        else let n = run_value base ds; rest = dropWhile (is_digit_of base) body in
          if n \<ge> 2 ^ 64 then (- 1, rest, True)
          else (if neg then - of_nat n else of_nat n, rest, False))"

section \<open>Trimming and searching\<close>

definition trim_of :: "char set \<Rightarrow> string \<Rightarrow> string" where
  "trim_of ws s = rev (dropWhile (\<lambda>c. c \<in> ws) (rev (dropWhile (\<lambda>c. c \<in> ws) s)))"

text \<open>The part after the last occurrence of a character, the whole text when it does not occur.\<close>

definition after_last :: "char \<Rightarrow> string \<Rightarrow> string" where
  "after_last c s = rev (takeWhile (\<lambda>x. x \<noteq> c) (rev s))"

section \<open>Printing and reading are inverse\<close>

lemma digits_of_less:
  assumes "2 \<le> base"
  shows "\<forall>d \<in> set (digits_of base n). d < base"
  using assms
proof (induction base n rule: digits_of.induct)
  case (1 base n)
  then show ?case by (subst digits_of.simps) (auto intro: mod_less_divisor)
qed

lemma digits_of_nonempty [simp]: "digits_of base n \<noteq> []"
  by (subst digits_of.simps) simp

lemma foldl_digits_of:
  assumes "2 \<le> base"
  shows "foldl (\<lambda>v d. v * base + d) 0 (digits_of base n) = n"
  using assms
proof (induction base n rule: digits_of.induct)
  case (1 base n)
  then show ?case by (subst digits_of.simps) auto
qed

lemma foldl_cong_set:
  "(\<And>a x. x \<in> set xs \<Longrightarrow> f a x = g a x) \<Longrightarrow> foldl f a xs = foldl g a xs"
  by (induction xs arbitrary: a) auto

lemma run_value_show_base:
  assumes "2 \<le> base" "base \<le> 16"
  shows "run_value base (show_base base n) = n"
proof -
  have "run_value base (show_base base n) = foldl (\<lambda>v d. v * base + d) 0 (digits_of base n)"
    unfolding run_value_def show_base_def foldl_map
    using digits_of_less [OF assms(1), of n] assms
    by (intro foldl_cong_set) (auto simp: digit_or_0_def)
  then show ?thesis using foldl_digits_of [OF assms(1)] by simp
qed

lemma run_value_show_hex_upper: "run_value 16 (show_hex_upper n) = n"
proof -
  have "run_value 16 (show_hex_upper n) = foldl (\<lambda>v d. v * 16 + d) 0 (digits_of 16 n)"
    unfolding run_value_def show_hex_upper_def foldl_map
    using digits_of_less [of 16 n]
    by (intro foldl_cong_set) (auto simp: digit_or_0_def)
  then show ?thesis using foldl_digits_of [of 16 n] by simp
qed

lemma show_base_digits:
  assumes "2 \<le> base" "base \<le> 16"
  shows "\<forall>c \<in> set (show_base base n). is_digit_of base c"
  using digits_of_less [OF assms(1), of n] assms by (auto simp: show_base_def is_digit_of_char)

lemma show_hex_upper_digits: "\<forall>c \<in> set (show_hex_upper n). is_digit_of 16 c"
  using digits_of_less [of 16 n] by (auto simp: show_hex_upper_def is_digit_of_char_upper)

lemma show_base_nonempty [simp]: "show_base base n \<noteq> []" "show_hex_upper n \<noteq> []"
  by (simp_all add: show_base_def show_hex_upper_def)

lemma hd_digits_of: "2 \<le> base \<Longrightarrow> hd (digits_of base n) = 0 \<longleftrightarrow> n = 0"
proof (induction base n rule: digits_of.induct)
  case (1 base n)
  show ?case
  proof (cases "n < base")
    case True
    then show ?thesis by (subst digits_of.simps) simp
  next
    case False
    with 1 have "hd (digits_of base (n div base)) = 0 \<longleftrightarrow> n div base = 0" by simp
    moreover have "n div base \<noteq> 0" "n \<noteq> 0" using False 1 by (auto simp: div_eq_0_iff)
    ultimately show ?thesis using False 1 by (subst digits_of.simps) simp
  qed
qed

lemma takeWhile_all [simp]: "\<forall>c \<in> set xs. P c \<Longrightarrow> takeWhile P xs = xs"
  by (induction xs) auto

lemma dropWhile_all [simp]: "\<forall>c \<in> set xs. P c \<Longrightarrow> dropWhile P xs = []"
  by (induction xs) auto

lemma digit_not_special:
  assumes "is_digit_of base c"
  shows "\<not> is_space c" "c \<noteq> CHR ''-''" "c \<noteq> CHR ''+''" "c \<noteq> CHR '':''" "c \<noteq> CHR ''x''" "c \<noteq> CHR ''X''"
  using assms
  by (auto simp: is_digit_of_def digit_value_def is_space_def char_code_def Let_def split: if_splits)

lemma strtoull0_plain:
  assumes "s \<noteq> []" "\<forall>c \<in> set s. is_digit_of 10 c" "hd s \<noteq> CHR ''0''" "run_value 10 s < 2 ^ 64"
  shows "strtoull0 s = (of_nat (run_value 10 s), [], False)"
proof -
  obtain c r where s: "s = c # r" using assms(1) by (cases s) auto
  with assms digit_not_special [of 10 c] show ?thesis
    by (simp add: strtoull0_def Let_def)
qed

lemma strtoull0_hex:
  assumes "s \<noteq> []" "\<forall>c \<in> set s. is_digit_of 16 c" "run_value 16 s < 2 ^ 64"
  shows "strtoull0 (CHR ''0'' # CHR ''x'' # s) = (of_nat (run_value 16 s), [], False)"
proof -
  obtain c r where s: "s = c # r" using assms(1) by (cases s) auto
  with assms show ?thesis
    by (simp add: strtoull0_def Let_def is_space_def char_code_def)
qed

lemma strtoull0_zero: "strtoull0 ''0'' = (0, [], False)"
  by code_simp

lemma hd_show_base: "2 \<le> base \<Longrightarrow> base \<le> 16 \<Longrightarrow> n \<noteq> 0 \<Longrightarrow> hd (show_base base n) \<noteq> CHR ''0''"
proof -
  assume a: "2 \<le> base" "base \<le> 16" "n \<noteq> 0"
  then have h: "hd (digits_of base n) \<noteq> 0" "hd (digits_of base n) < base"
    using hd_digits_of [of base n] digits_of_less [of base n] hd_in_set [OF digits_of_nonempty] by auto
  have "digit_value (digit_char (hd (digits_of base n))) = Some (hd (digits_of base n))"
    using h a by simp
  moreover have "digit_value (CHR ''0'') = Some 0" by (simp add: digit_value_def char_code_def)
  ultimately have "digit_char (hd (digits_of base n)) \<noteq> CHR ''0''" using h(1) by (metis option.inject)
  then show ?thesis by (simp add: show_base_def hd_map)
qed

text \<open>Reading a printed number back, in decimal and in hexadecimal with its prefix.\<close>

lemma strtoull0_show_dec:
  assumes "n < 2 ^ 64"
  shows "strtoull0 (show_base 10 n) = (of_nat n, [], False)"
proof (cases "n = 0")
  case True
  have "show_base 10 0 = ''0''" by code_simp
  with True strtoull0_zero show ?thesis by simp
next
  case False
  then show ?thesis
    using strtoull0_plain [of "show_base 10 n"] show_base_digits [of 10 n] run_value_show_base [of 10 n]
      hd_show_base [of 10 n] assms by simp
qed

lemma strtoull0_show_hex:
  assumes "n < 2 ^ 64"
  shows "strtoull0 (CHR ''0'' # CHR ''x'' # show_base 16 n) = (of_nat n, [], False)"
  using strtoull0_hex [of "show_base 16 n"] show_base_digits [of 16 n] run_value_show_base [of 16 n] assms
  by simp

end
