(* ===== verification/Machine.thy ===== *)
theory Machine
  imports Prelude
begin

text \<open>
  The description of a target machine (\<^verbatim>\<open>src/core/target_machine.hpp\<close>, \<^verbatim>\<open>src/core/target_machine.cpp\<close>):
  architecture, byte order, ABI and pointer width, the decoders that read them from an ELF or PE
  header, and the choice of an instruction decoder for them (\<^verbatim>\<open>src/arch/target_arch.cpp\<close>). Headers
  are byte lists; every read past the end that the code guards against is a branch of the model.
\<close>

unbundle bit_operations_syntax

section \<open>Data\<close>

datatype CpuArchitecture =
    CA_Unknown | CA_X86_32 | CA_X86_64 | CA_Arm32 | CA_Arm64 | CA_RiscV32 | CA_RiscV64
  | CA_Mips32 | CA_Mips64 | CA_PowerPC32 | CA_PowerPC64 | CA_S390X | CA_Arm64EC | CA_Arm64X | CA_Other

datatype ByteOrder = BO_Unknown | BO_Little | BO_Big

datatype TargetAbi =
    TA_Unknown | TA_LinuxI386 | TA_LinuxX86_64 | TA_LinuxX32 | TA_LinuxArmEabi | TA_LinuxAarch64
  | TA_LinuxRiscV | TA_LinuxOther | TA_WindowsI386 | TA_WindowsX64 | TA_WindowsArm
  | TA_WindowsArm64 | TA_WindowsArm64EC | TA_WindowsArm64X

datatype InstructionMode = IM_Unknown | IM_X86_32 | IM_X86_64 | IM_Arm | IM_Thumb | IM_Aarch64 | IM_Other

datatype TargetTransport = TT_Local | TT_CEServer | TT_Gdb | TT_Unknown

datatype TargetRuntime = TR_Native | TR_Wine | TR_Emulated | TR_Unknown

record TargetMachine =
  architecture :: CpuArchitecture
  byteOrder :: ByteOrder
  abi :: TargetAbi
  instructionMode :: InstructionMode
  pointerWidth :: nat
  instructionByteOrder :: ByteOrder

text \<open>The default member initialisers of the struct.\<close>

definition default_machine :: TargetMachine where
  "default_machine = \<lparr> architecture = CA_Unknown, byteOrder = BO_Unknown, abi = TA_Unknown,
     instructionMode = IM_Unknown, pointerWidth = 0, instructionByteOrder = BO_Unknown \<rparr>"

definition hasPointers :: "TargetMachine \<Rightarrow> bool" where
  "hasPointers m \<longleftrightarrow> pointerWidth m = 4 \<or> pointerWidth m = 8"

definition isX86 :: "TargetMachine \<Rightarrow> bool" where
  "isX86 m \<longleftrightarrow> architecture m = CA_X86_32 \<or> architecture m = CA_X86_64"

record TargetDescription =
  host :: TargetMachine
  program :: TargetMachine
  transport :: TargetTransport
  runtime :: TargetRuntime
  mixedCode :: bool
  live :: bool
  otherOwner :: bool
  tracerPid :: int
  pendingRecovery :: bool

section \<open>Names\<close>

fun cpuArchitectureName :: "CpuArchitecture \<Rightarrow> string" where
  "cpuArchitectureName CA_Unknown = ''unknown''"
| "cpuArchitectureName CA_X86_32 = ''x86-32''"
| "cpuArchitectureName CA_X86_64 = ''x86-64''"
| "cpuArchitectureName CA_Arm32 = ''ARM32''"
| "cpuArchitectureName CA_Arm64 = ''ARM64''"
| "cpuArchitectureName CA_RiscV32 = ''RISC-V32''"
| "cpuArchitectureName CA_RiscV64 = ''RISC-V64''"
| "cpuArchitectureName CA_Mips32 = ''MIPS32''"
| "cpuArchitectureName CA_Mips64 = ''MIPS64''"
| "cpuArchitectureName CA_PowerPC32 = ''PowerPC32''"
| "cpuArchitectureName CA_PowerPC64 = ''PowerPC64''"
| "cpuArchitectureName CA_S390X = ''s390x''"
| "cpuArchitectureName CA_Arm64EC = ''ARM64EC''"
| "cpuArchitectureName CA_Arm64X = ''ARM64X''"
| "cpuArchitectureName CA_Other = ''other''"

fun byteOrderName :: "ByteOrder \<Rightarrow> string" where
  "byteOrderName BO_Little = ''little-endian''"
| "byteOrderName BO_Big = ''big-endian''"
| "byteOrderName BO_Unknown = ''unknown''"

fun targetAbiName :: "TargetAbi \<Rightarrow> string" where
  "targetAbiName TA_Unknown = ''unknown''"
| "targetAbiName TA_LinuxI386 = ''Linux i386''"
| "targetAbiName TA_LinuxX86_64 = ''Linux x86-64''"
| "targetAbiName TA_LinuxX32 = ''Linux x32''"
| "targetAbiName TA_LinuxArmEabi = ''Linux ARM EABI''"
| "targetAbiName TA_LinuxAarch64 = ''Linux AArch64''"
| "targetAbiName TA_LinuxRiscV = ''Linux RISC-V''"
| "targetAbiName TA_LinuxOther = ''Linux other''"
| "targetAbiName TA_WindowsI386 = ''Windows i386''"
| "targetAbiName TA_WindowsX64 = ''Windows x64''"
| "targetAbiName TA_WindowsArm = ''Windows ARM''"
| "targetAbiName TA_WindowsArm64 = ''Windows ARM64''"
| "targetAbiName TA_WindowsArm64EC = ''Windows ARM64EC''"
| "targetAbiName TA_WindowsArm64X = ''Windows ARM64X''"

section \<open>The machine the program was built for\<close>

text \<open>
  The preprocessor branches on the compiler's target macros; the model takes them as a value:
  the instruction set macro that is defined, the pointer size and the host byte order.
\<close>

datatype build_isa = Build_x86_64 | Build_i386 | Build_aarch64 | Build_arm | Build_riscv
  | Build_s390x | Build_powerpc64 | Build_mips | Build_other

record build_target =
  build_isa :: build_isa
  build_pointer_size :: nat
  build_big_endian :: bool
  build_riscv_xlen :: nat

definition nativeTargetMachine :: "build_target \<Rightarrow> TargetMachine" where
  "nativeTargetMachine b =
    (let m = default_machine \<lparr> pointerWidth := build_pointer_size b,
               byteOrder := (if build_big_endian b then BO_Big else BO_Little) \<rparr>;
         m = (case build_isa b of
           Build_x86_64 \<Rightarrow> m \<lparr> architecture := CA_X86_64, instructionMode := IM_X86_64,
              abi := (if build_pointer_size b = 4 then TA_LinuxX32 else TA_LinuxX86_64) \<rparr>
         | Build_i386 \<Rightarrow> m \<lparr> architecture := CA_X86_32, instructionMode := IM_X86_32, abi := TA_LinuxI386 \<rparr>
         | Build_aarch64 \<Rightarrow> m \<lparr> architecture := CA_Arm64, instructionMode := IM_Aarch64, abi := TA_LinuxAarch64 \<rparr>
         | Build_arm \<Rightarrow> m \<lparr> architecture := CA_Arm32, instructionMode := IM_Arm, abi := TA_LinuxArmEabi \<rparr>
         | Build_riscv \<Rightarrow> m \<lparr> architecture := (if build_riscv_xlen b = 64 then CA_RiscV64 else CA_RiscV32),
              instructionMode := IM_Other, abi := TA_LinuxRiscV \<rparr>
         | Build_s390x \<Rightarrow> m \<lparr> architecture := CA_S390X, instructionMode := IM_Other, abi := TA_LinuxOther \<rparr>
         | Build_powerpc64 \<Rightarrow> m \<lparr> architecture := CA_PowerPC64, instructionMode := IM_Other, abi := TA_LinuxOther \<rparr>
         | Build_mips \<Rightarrow> m \<lparr> architecture := (if build_pointer_size b = 8 then CA_Mips64 else CA_Mips32),
              instructionMode := IM_Other, abi := TA_LinuxOther \<rparr>
         | Build_other \<Rightarrow> m \<lparr> architecture := CA_Other, instructionMode := IM_Other, abi := TA_LinuxOther \<rparr>);
         m = m \<lparr> instructionByteOrder := byteOrder m \<rparr>
     in if architecture m = CA_Arm64 then m \<lparr> instructionByteOrder := BO_Little \<rparr> else m)"

section \<open>Integers in target byte order\<close>

definition decodeTargetUnsigned :: "byte list \<Rightarrow> ByteOrder \<Rightarrow> u64 expected" where
  "decodeTargetUnsigned bytes order =
    (if bytes = [] \<or> length bytes > 8 \<or> order = BO_Unknown
     then Inl ''Invalid integer width or unknown target byte order''
     else Inr (foldl (\<lambda>value i.
            let index = (if order = BO_Little then length bytes - 1 - i else i)
            in push_bit 8 value OR ucast (bytes ! index)) 0 [0..<length bytes]))"

text \<open>
  \<^verbatim>\<open>*decodeTargetUnsigned(h.subspan(offset, count), order)\<close>, the dereferenced result. The callers
  establish that the field lies inside the header.
\<close>

definition header_field :: "byte list \<Rightarrow> nat \<Rightarrow> nat \<Rightarrow> ByteOrder \<Rightarrow> u64" where
  "header_field h offset n order =
    (case decodeTargetUnsigned (take n (drop offset h)) order of Inl _ \<Rightarrow> 0 | Inr v \<Rightarrow> v)"

section \<open>ELF headers\<close>

text \<open>The \<^verbatim>\<open>switch (machine)\<close> of \<^verbatim>\<open>parseElfTarget\<close>: the ELF machine numbers of \<^verbatim>\<open>elf.h\<close>.\<close>

definition elf_machine_switch :: "bool \<Rightarrow> u64 \<Rightarrow> TargetMachine \<Rightarrow> TargetMachine expected" where
  "elf_machine_switch wide machine m =
    (if machine = 3 then
       (if wide then Inl ''ELF i386 has a 64-bit class''
        else Inr (m \<lparr> architecture := CA_X86_32, instructionMode := IM_X86_32, abi := TA_LinuxI386 \<rparr>))
     else if machine = 62 then
       Inr (m \<lparr> architecture := CA_X86_64, instructionMode := IM_X86_64,
                abi := (if wide then TA_LinuxX86_64 else TA_LinuxX32) \<rparr>)
     else if machine = 40 then
       (if wide then Inl ''ELF ARM32 has a 64-bit class''
        else Inr (m \<lparr> architecture := CA_Arm32, instructionMode := IM_Arm, abi := TA_LinuxArmEabi \<rparr>))
     else if machine = 183 then
       Inr (m \<lparr> architecture := CA_Arm64, instructionMode := IM_Aarch64,
                abi := (if wide then TA_LinuxAarch64 else TA_Unknown) \<rparr>)
     else if machine = 243 then
       Inr (m \<lparr> architecture := (if wide then CA_RiscV64 else CA_RiscV32), abi := TA_LinuxRiscV \<rparr>)
     else if machine = 8 then Inr (m \<lparr> architecture := (if wide then CA_Mips64 else CA_Mips32) \<rparr>)
     else if machine = 20 then Inr (m \<lparr> architecture := CA_PowerPC32 \<rparr>)
     else if machine = 21 then Inr (m \<lparr> architecture := CA_PowerPC64 \<rparr>)
     else if machine = 22 then Inr (m \<lparr> architecture := (if wide then CA_S390X else CA_Other) \<rparr>)
     else Inr (m \<lparr> architecture := CA_Other \<rparr>))"

definition parseElfTarget :: "byte list \<Rightarrow> TargetMachine expected" where
  "parseElfTarget h =
    (if length h < 16 \<or> h ! 0 \<noteq> 0x7f \<or> h ! 1 \<noteq> 0x45 \<or> h ! 2 \<noteq> 0x4c \<or> h ! 3 \<noteq> 0x46
     then Inl ''Missing ELF identification''
     else if (h ! 4 \<noteq> 1 \<and> h ! 4 \<noteq> 2) \<or> (h ! 5 \<noteq> 1 \<and> h ! 5 \<noteq> 2) \<or> h ! 6 \<noteq> 1
     then Inl ''Invalid ELF class, byte order, or version''
     else let wide = (h ! 4 = 2) in
     if length h < (if wide then 64 else 52) then Inl ''Truncated ELF header''
     else
       let order = (if h ! 5 = 2 then BO_Big else BO_Little);
           m = default_machine \<lparr> pointerWidth := (if wide then 8 else 4), byteOrder := order,
                 instructionByteOrder := order, instructionMode := IM_Other, abi := TA_LinuxOther \<rparr>
       in case elf_machine_switch wide (header_field h 18 2 order) m of
            Inl e \<Rightarrow> Inl e
          | Inr m \<Rightarrow>
              if isX86 m \<and> byteOrder m \<noteq> BO_Little
              then Inl ''x86 ELF declares an invalid big-endian encoding''
              else
                let m = (if architecture m = CA_Arm32 \<and> header_field h 36 4 order AND 0x00800000 \<noteq> 0
                         then m \<lparr> instructionByteOrder := BO_Little \<rparr> else m);
                    m = (if architecture m = CA_Arm64 \<or> architecture m = CA_RiscV32 \<or> architecture m = CA_RiscV64
                         then m \<lparr> instructionByteOrder := BO_Little \<rparr> else m)
                in Inr m)"

section \<open>PE headers\<close>

text \<open>The operating-system constants .NET ReadyToRun images XOR into the machine field.\<close>

definition r2r_os :: "u64 list" where
  "r2r_os = [0x7B79, 0x4644, 0xADC4, 0x1993, 0x1992]"

fun readyToRunMachine :: "u64 \<Rightarrow> u64 list \<Rightarrow> (u64 \<times> bool)" where
  "readyToRunMachine machine [] = (machine, False)"
| "readyToRunMachine machine (os # rest) =
    (let native = machine XOR os in
     if native = 0x14c \<or> native = 0x8664 \<or> native = 0x1c4 \<or> native = 0xaa64
     then (native, True) else readyToRunMachine machine rest)"

definition pe_machine_switch :: "u64 \<Rightarrow> TargetMachine \<Rightarrow> TargetMachine" where
  "pe_machine_switch machine m =
    (if machine = 0x14c then m \<lparr> architecture := CA_X86_32, abi := TA_WindowsI386, instructionMode := IM_X86_32 \<rparr>
     else if machine = 0x8664 then m \<lparr> architecture := CA_X86_64, abi := TA_WindowsX64, instructionMode := IM_X86_64 \<rparr>
     else if machine = 0x1c0 \<or> machine = 0x1c2 \<or> machine = 0x1c4 then
       m \<lparr> architecture := CA_Arm32, abi := TA_WindowsArm,
           instructionMode := (if machine = 0x1c0 then IM_Arm else IM_Thumb) \<rparr>
     else if machine = 0xaa64 then m \<lparr> architecture := CA_Arm64, abi := TA_WindowsArm64, instructionMode := IM_Aarch64 \<rparr>
     else if machine = 0xa641 then m \<lparr> architecture := CA_Arm64EC, abi := TA_WindowsArm64EC \<rparr>
     else if machine = 0xa64e then m \<lparr> architecture := CA_Arm64X, abi := TA_WindowsArm64X \<rparr>
     else m \<lparr> architecture := CA_Other \<rparr>)"

definition r2r_abi :: "TargetMachine \<Rightarrow> TargetMachine" where
  "r2r_abi m = m \<lparr> abi := (if architecture m = CA_X86_32 then TA_LinuxI386
     else if architecture m = CA_X86_64 then TA_LinuxX86_64
     else if architecture m = CA_Arm32 then TA_LinuxArmEabi else TA_LinuxAarch64) \<rparr>"

definition parsePeTarget :: "byte list \<Rightarrow> TargetMachine expected" where
  "parsePeTarget h =
    (if length h < 0x40 \<or> h ! 0 \<noteq> 0x4d \<or> h ! 1 \<noteq> 0x5a then Inl ''Missing DOS header''
     else let pe = unat (header_field h 0x3c 4 BO_Little) in
     if pe < 0x40 \<or> pe > length h \<or> length h - pe < 26 \<or>
        h ! pe \<noteq> 0x50 \<or> h ! (pe + 1) \<noteq> 0x45 \<or> h ! (pe + 2) \<noteq> 0 \<or> h ! (pe + 3) \<noteq> 0
     then Inl ''Truncated or invalid PE header''
     else let (machine, readyToRunOverride) =
                readyToRunMachine (header_field h (pe + 4) 2 BO_Little) r2r_os;
              optionalSize = unat (header_field h (pe + 20) 2 BO_Little)
     in if optionalSize < 60 \<or> optionalSize > length h - pe - 24 then Inl ''Truncated PE optional header''
     else let magic = header_field h (pe + 24) 2 BO_Little in
     if magic \<noteq> 0x10b \<and> magic \<noteq> 0x20b then Inl ''Unknown PE optional header''
     else let m = default_machine \<lparr> pointerWidth := (if magic = 0x20b then 8 else 4),
                    byteOrder := BO_Little, instructionByteOrder := BO_Little \<rparr>;
              m = pe_machine_switch machine m;
              m = (if readyToRunOverride then r2r_abi m else m);
              requires32 = (architecture m = CA_X86_32 \<or> architecture m = CA_Arm32);
              requires64 = (architecture m = CA_X86_64 \<or> architecture m = CA_Arm64 \<or>
                            architecture m = CA_Arm64EC \<or> architecture m = CA_Arm64X)
     in if (requires32 \<and> pointerWidth m \<noteq> 4) \<or> (requires64 \<and> pointerWidth m \<noteq> 8)
        then Inl ''PE machine and optional-header width disagree''
        else Inr m)"

definition peLoadConfigDirectory :: "byte list \<Rightarrow> (u32 \<times> u32) option" where
  "peLoadConfigDirectory h =
    (if length h < 0x40 then None
     else let pe = unat (header_field h 0x3c 4 BO_Little) in
     if pe < 0x40 \<or> pe > length h \<or> length h - pe < 24 + 200 then None
     else let optionalSize = unat (header_field h (pe + 20) 2 BO_Little) in
     if header_field h (pe + 24) 2 BO_Little \<noteq> 0x20b \<or> optionalSize < 200 then None
     else let entry = take 8 (drop (pe + 24 + 112 + 10 * 8) h);
              rva = ucast (header_field entry 0 4 BO_Little);
              size = ucast (header_field entry 4 4 BO_Little)
     in if rva = 0 \<or> size = 0 then None else Some (rva, size))"

definition withPeHybridMetadata :: "TargetMachine \<Rightarrow> byte list \<Rightarrow> TargetMachine" where
  "withPeHybridMetadata machine loadConfig =
    (let chpe = 200 in
     if pointerWidth machine \<noteq> 8 \<or> length loadConfig < chpe + 8 then machine
     else let declared = unat (header_field loadConfig 0 4 BO_Little) in
     if declared < chpe + 8 \<or> header_field loadConfig chpe 8 BO_Little = 0 then machine
     else if architecture machine = CA_X86_64 then
       machine \<lparr> architecture := CA_Arm64EC, abi := TA_WindowsArm64EC, instructionMode := IM_Unknown \<rparr>
     else if architecture machine = CA_Arm64 then
       machine \<lparr> architecture := CA_Arm64X, abi := TA_WindowsArm64X, instructionMode := IM_Unknown \<rparr>
     else machine)"

section \<open>Choosing an instruction decoder\<close>

datatype Arch =
    Arch_X86_32 | Arch_X86_64 | Arch_ARM32 | Arch_ARM64 | Arch_ARMThumb | Arch_ARM32_BE | Arch_ARMThumb_BE
  | Arch_RISCV32 | Arch_RISCV64 | Arch_PPC64 | Arch_PPC64_BE | Arch_S390X | Arch_MIPS64 | Arch_MIPS64_BE

datatype AsmArch = Asm_X86_32 | Asm_X86_64 | Asm_ARM32 | Asm_ARM64 | Asm_ARMThumb | Asm_ARM32_BE | Asm_ARMThumb_BE

text \<open>\<^verbatim>\<open>Disassembler::supports\<close>: only Capstone 5 and later decode RISC-V; the API version is a parameter.\<close>

definition disassembler_supports :: "nat \<Rightarrow> Arch \<Rightarrow> bool" where
  "disassembler_supports cs_api_major arch =
    (if cs_api_major \<ge> 5 then True else arch \<noteq> Arch_RISCV32 \<and> arch \<noteq> Arch_RISCV64)"

definition disassemblerArchFor :: "nat \<Rightarrow> TargetMachine \<Rightarrow> Arch expected" where
  "disassemblerArchFor cs_api_major m =
    (case architecture m of
       CA_X86_32 \<Rightarrow> Inr Arch_X86_32
     | CA_X86_64 \<Rightarrow> Inr Arch_X86_64
     | CA_Arm64 \<Rightarrow> Inr Arch_ARM64
     | CA_RiscV32 \<Rightarrow>
         if \<not> disassembler_supports cs_api_major Arch_RISCV32
         then Inl ''No RISC-V decoder in this Capstone build (Capstone 5 or newer is required)''
         else Inr Arch_RISCV32
     | CA_RiscV64 \<Rightarrow>
         if \<not> disassembler_supports cs_api_major Arch_RISCV64
         then Inl ''No RISC-V decoder in this Capstone build (Capstone 5 or newer is required)''
         else Inr Arch_RISCV64
     | CA_PowerPC64 \<Rightarrow>
         if instructionByteOrder m = BO_Unknown then Inl ''PowerPC instruction byte order is unknown''
         else Inr (if instructionByteOrder m = BO_Big then Arch_PPC64_BE else Arch_PPC64)
     | CA_S390X \<Rightarrow> Inr Arch_S390X
     | CA_Mips64 \<Rightarrow>
         if instructionByteOrder m = BO_Unknown then Inl ''MIPS instruction byte order is unknown''
         else Inr (if instructionByteOrder m = BO_Big then Arch_MIPS64_BE else Arch_MIPS64)
     | CA_Arm32 \<Rightarrow>
         if instructionByteOrder m = BO_Unknown then Inl ''ARM instruction byte order is unknown''
         else let big = (instructionByteOrder m = BO_Big) in
           if instructionMode m = IM_Thumb then Inr (if big then Arch_ARMThumb_BE else Arch_ARMThumb)
           else if instructionMode m = IM_Arm then Inr (if big then Arch_ARM32_BE else Arch_ARM32)
           else Inl ''ARM instruction mode is unknown''
     | CA_Arm64EC \<Rightarrow> Inl (cpuArchitectureName CA_Arm64EC @ '' code mixes ARM64 and x64 instructions; choosing the decoder per address needs the image's CHPE code-range map, which is not implemented'')
     | CA_Arm64X \<Rightarrow> Inl (cpuArchitectureName CA_Arm64X @ '' code mixes ARM64 and x64 instructions; choosing the decoder per address needs the image's CHPE code-range map, which is not implemented'')
     | a \<Rightarrow> Inl (''No instruction backend for '' @ cpuArchitectureName a))"

definition assemblerArchFor :: "Arch \<Rightarrow> AsmArch expected" where
  "assemblerArchFor arch =
    (case arch of
       Arch_X86_32 \<Rightarrow> Inr Asm_X86_32
     | Arch_X86_64 \<Rightarrow> Inr Asm_X86_64
     | Arch_ARM32 \<Rightarrow> Inr Asm_ARM32
     | Arch_ARM64 \<Rightarrow> Inr Asm_ARM64
     | Arch_ARMThumb \<Rightarrow> Inr Asm_ARMThumb
     | Arch_ARM32_BE \<Rightarrow> Inr Asm_ARM32_BE
     | Arch_ARMThumb_BE \<Rightarrow> Inr Asm_ARMThumb_BE
     | Arch_RISCV32 \<Rightarrow> Inl ''No assembler backend for RISC-V (Keystone has none); disassembly is available''
     | Arch_RISCV64 \<Rightarrow> Inl ''No assembler backend for RISC-V (Keystone has none); disassembly is available''
     | _ \<Rightarrow> Inl ''No assembler backend for this instruction set in this build; disassembly is available'')"

section \<open>Decoding integers\<close>

lemma decode_little:
  assumes "bs \<noteq> []" "length bs \<le> 8"
  shows "decodeTargetUnsigned bs BO_Little = Inr (of_nat (le_val bs))"
proof -
  have "foldl (\<lambda>v i. push_bit 8 v OR ucast (bs ! (length bs - Suc i))) 0 [0..<length bs]
      = foldl (\<lambda>v b. push_bit 8 v OR ucast b) (0 :: u64) (map (\<lambda>i. bs ! (length bs - Suc i)) [0..<length bs])"
    by (simp add: foldl_map)
  also have "map (\<lambda>i. bs ! (length bs - Suc i)) [0..<length bs] = rev bs"
    by (rule nth_equalityI) (auto simp: rev_nth)
  finally show ?thesis using assms
    by (simp add: decodeTargetUnsigned_def Let_def foldl_push_byte)
qed

lemma decode_big:
  assumes "bs \<noteq> []" "length bs \<le> 8"
  shows "decodeTargetUnsigned bs BO_Big = Inr (of_nat (le_val (rev bs)))"
proof -
  have "foldl (\<lambda>v i. push_bit 8 v OR ucast (bs ! i)) 0 [0..<length bs]
      = foldl (\<lambda>v b. push_bit 8 v OR ucast b) (0 :: u64) (map ((!) bs) [0..<length bs])"
    by (simp add: foldl_map)
  then show ?thesis using assms
    by (simp add: decodeTargetUnsigned_def Let_def map_nth foldl_push_byte)
qed

lemma unat_of_le_val:
  assumes "length bs \<le> 8"
  shows "unat (of_nat (le_val bs) :: u64) = le_val bs"
proof -
  have "le_val bs < 256 ^ length bs" by (rule le_val_bound)
  also have "\<dots> \<le> (256 :: nat) ^ 8" using assms by (intro power_increasing) auto
  finally have "le_val bs < 2 ^ 64" by simp
  then show ?thesis by (simp add: unat_of_nat take_bit_nat_eq_self)
qed

text \<open>
  Reading an integer in target byte order never fails for widths 1 to 8 with a known order, and
  returns exactly the number the bytes denote: byte \<open>i\<close> has weight \<open>256 ^ i\<close> on a little-endian
  target and \<open>256 ^ (n - 1 - i)\<close> on a big-endian one. Nothing is lost to the 64-bit accumulator.
\<close>

theorem decodeTargetUnsigned_value:
  assumes "bs \<noteq> []" "length bs \<le> 8" "order \<noteq> BO_Unknown"
  shows "\<exists>v. decodeTargetUnsigned bs order = Inr v \<and>
     unat v = (\<Sum>i<length bs. unat (bs ! (if order = BO_Little then i else length bs - 1 - i)) * 256 ^ i)"
proof (cases order)
  case BO_Little
  then show ?thesis using assms decode_little unat_of_le_val le_val_sum by auto
next
  case BO_Big
  have "le_val (rev bs) = (\<Sum>i<length bs. unat (bs ! (length bs - 1 - i)) * 256 ^ i)"
    by (simp add: le_val_sum rev_nth)
  then show ?thesis using assms BO_Big decode_big unat_of_le_val [of "rev bs"] by auto
qed (use assms in simp)

theorem decodeTargetUnsigned_value_witness:
  "\<exists>v. decodeTargetUnsigned [0x34, 0x12] BO_Big = Inr v \<and> unat v = 0x3412"
  using decodeTargetUnsigned_value [of "[0x34, 0x12]" BO_Big] by simp

section \<open>What an accepted header guarantees\<close>

text \<open>The consistency the rest of the program relies on once a header has been accepted.\<close>

definition machine_consistent :: "TargetMachine \<Rightarrow> bool" where
  "machine_consistent m \<longleftrightarrow>
     hasPointers m \<and> byteOrder m \<noteq> BO_Unknown \<and> instructionByteOrder m \<noteq> BO_Unknown \<and>
     (isX86 m \<longrightarrow> byteOrder m = BO_Little \<and> instructionByteOrder m = BO_Little) \<and>
     (architecture m = CA_X86_32 \<or> architecture m = CA_Arm32 \<longrightarrow> pointerWidth m = 4) \<and>
     (architecture m = CA_Arm64 \<or> architecture m = CA_RiscV32 \<or> architecture m = CA_RiscV64 \<longrightarrow>
        instructionByteOrder m = BO_Little) \<and>
     (architecture m = CA_Arm32 \<longrightarrow> instructionMode m = IM_Arm \<or> instructionMode m = IM_Thumb) \<and>
     architecture m \<noteq> CA_Unknown"

lemmas machine_defs = machine_consistent_def hasPointers_def isX86_def default_machine_def

lemma elf_machine_switch_fields:
  assumes "elf_machine_switch wide k m = Inr m'"
  shows "pointerWidth m' = pointerWidth m" "byteOrder m' = byteOrder m"
    "instructionByteOrder m' = instructionByteOrder m"
    "architecture m' = CA_X86_32 \<or> architecture m' = CA_Arm32 \<Longrightarrow> \<not> wide"
    "architecture m' = CA_Arm32 \<Longrightarrow> instructionMode m' = IM_Arm"
    "architecture m' \<noteq> CA_Unknown"
    "architecture m' = CA_X86_64 \<Longrightarrow> abi m' = (if wide then TA_LinuxX86_64 else TA_LinuxX32)"
    "architecture m' \<noteq> CA_Arm64EC \<and> architecture m' \<noteq> CA_Arm64X"
  using assms by (auto simp: elf_machine_switch_def split: if_splits)

text \<open>The last adjustment of \<^verbatim>\<open>parseElfTarget\<close> only touches the instruction byte order.\<close>

definition elf_finish :: "byte list \<Rightarrow> ByteOrder \<Rightarrow> TargetMachine \<Rightarrow> TargetMachine" where
  "elf_finish h order m =
    (let m = (if architecture m = CA_Arm32 \<and> header_field h 36 4 order AND 0x00800000 \<noteq> 0
              then m \<lparr> instructionByteOrder := BO_Little \<rparr> else m)
     in if architecture m = CA_Arm64 \<or> architecture m = CA_RiscV32 \<or> architecture m = CA_RiscV64
        then m \<lparr> instructionByteOrder := BO_Little \<rparr> else m)"

lemma elf_finish_fields:
  "architecture (elf_finish h order m) = architecture m"
  "pointerWidth (elf_finish h order m) = pointerWidth m"
  "byteOrder (elf_finish h order m) = byteOrder m"
  "instructionMode (elf_finish h order m) = instructionMode m"
  "architecture m = CA_Arm64 \<or> architecture m = CA_RiscV32 \<or> architecture m = CA_RiscV64 \<Longrightarrow>
     instructionByteOrder (elf_finish h order m) = BO_Little"
  "instructionByteOrder (elf_finish h order m) = instructionByteOrder m \<or>
     instructionByteOrder (elf_finish h order m) = BO_Little"
  by (auto simp: elf_finish_def Let_def)

definition elf_start :: "byte list \<Rightarrow> TargetMachine" where
  "elf_start h = (let order = (if h ! 5 = 2 then BO_Big else BO_Little) in
     default_machine \<lparr> pointerWidth := (if h ! 4 = 2 then 8 else 4), byteOrder := order,
       instructionByteOrder := order, instructionMode := IM_Other, abi := TA_LinuxOther \<rparr>)"

lemma parseElfTarget_cases:
  assumes "parseElfTarget h = Inr m"
  obtains k order m0 where "elf_machine_switch (h ! 4 = 2) k (elf_start h) = Inr m0"
    "\<not> (isX86 m0 \<and> byteOrder m0 \<noteq> BO_Little)" "m = elf_finish h order m0"
proof -
  let ?order = "if h ! 5 = 2 then BO_Big else BO_Little"
  let ?k = "header_field h 18 2 ?order"
  have "(case elf_machine_switch (h ! 4 = 2) ?k (elf_start h) of Inl e \<Rightarrow> Inl e
      | Inr m \<Rightarrow> if isX86 m \<and> byteOrder m \<noteq> BO_Little
          then Inl ''x86 ELF declares an invalid big-endian encoding''
          else Inr (elf_finish h ?order m)) = Inr m"
    using assms unfolding parseElfTarget_def elf_start_def elf_finish_def Let_def
    by (simp only: split: if_split_asm) simp_all
  then obtain m0 where "elf_machine_switch (h ! 4 = 2) ?k (elf_start h) = Inr m0"
    "(if isX86 m0 \<and> byteOrder m0 \<noteq> BO_Little
      then Inl ''x86 ELF declares an invalid big-endian encoding''
      else Inr (elf_finish h ?order m0)) = Inr m"
    by (rule sum_case_InrE)
  then show thesis by (intro that [of ?k m0 ?order]) (simp_all split: if_split_asm)
qed

lemma parseElfTarget_consistent_aux:
  assumes "parseElfTarget h = Inr m"
  shows "machine_consistent m \<and> architecture m \<noteq> CA_Arm64EC \<and> architecture m \<noteq> CA_Arm64X"
  using assms
proof (rule parseElfTarget_cases)
  fix k order m0
  assume sw: "elf_machine_switch (h ! 4 = 2) k (elf_start h) = Inr m0"
    and x86: "\<not> (isX86 m0 \<and> byteOrder m0 \<noteq> BO_Little)" and m: "m = elf_finish h order m0"
  note f = elf_machine_switch_fields [OF sw]
  have s: "pointerWidth (elf_start h) = (if h ! 4 = 2 then 8 else 4)"
    "byteOrder (elf_start h) = BO_Little \<or> byteOrder (elf_start h) = BO_Big"
    "instructionByteOrder (elf_start h) = byteOrder (elf_start h)"
    by (simp_all add: elf_start_def Let_def)
  have "instructionByteOrder m \<noteq> BO_Unknown" "byteOrder m \<noteq> BO_Unknown" "hasPointers m"
    using elf_finish_fields [where h = h and order = order and m = m0] s f(1-3) by (auto simp: m hasPointers_def)
  moreover have "isX86 m \<longrightarrow> byteOrder m = BO_Little \<and> instructionByteOrder m = BO_Little"
    using elf_finish_fields [where h = h and order = order and m = m0] s f(1-3) x86 by (auto simp: m isX86_def)
  ultimately show ?thesis
    using elf_finish_fields [where h = h and order = order and m = m0] s f by (auto simp: m machine_consistent_def)
qed

lemma pe_machine_switch_fields:
  "pointerWidth (pe_machine_switch k m) = pointerWidth m"
  "byteOrder (pe_machine_switch k m) = byteOrder m"
  "instructionByteOrder (pe_machine_switch k m) = instructionByteOrder m"
  "architecture (pe_machine_switch k m) = CA_Arm32 \<Longrightarrow>
     instructionMode (pe_machine_switch k m) = IM_Arm \<or> instructionMode (pe_machine_switch k m) = IM_Thumb"
  "architecture (pe_machine_switch k m) \<noteq> CA_Unknown"
  "architecture (pe_machine_switch k m) \<noteq> CA_RiscV32 \<and> architecture (pe_machine_switch k m) \<noteq> CA_RiscV64"
  by (auto simp: pe_machine_switch_def)

lemma r2r_abi_fields:
  "architecture (r2r_abi m) = architecture m" "pointerWidth (r2r_abi m) = pointerWidth m"
  "byteOrder (r2r_abi m) = byteOrder m" "instructionMode (r2r_abi m) = instructionMode m"
  "instructionByteOrder (r2r_abi m) = instructionByteOrder m"
  by (simp_all add: r2r_abi_def)

lemma parsePeTarget_cases:
  assumes "parsePeTarget h = Inr m"
  obtains k w over where "w = 4 \<or> w = 8"
    "m = (if over then r2r_abi else id) (pe_machine_switch k (default_machine \<lparr> pointerWidth := w,
            byteOrder := BO_Little, instructionByteOrder := BO_Little \<rparr>))"
    "architecture m = CA_X86_32 \<or> architecture m = CA_Arm32 \<Longrightarrow> pointerWidth m = 4"
    "architecture m = CA_X86_64 \<or> architecture m = CA_Arm64 \<or> architecture m = CA_Arm64EC \<or>
       architecture m = CA_Arm64X \<Longrightarrow> pointerWidth m = 8"
proof -
  let ?pe = "unat (header_field h 0x3c 4 BO_Little)"
  obtain k over where r: "readyToRunMachine (header_field h (?pe + 4) 2 BO_Little) r2r_os = (k, over)"
    by fastforce
  let ?w = "if header_field h (?pe + 24) 2 BO_Little = 0x20b then 8 else (4 :: nat)"
  show thesis
    by (rule that [of ?w over k])
       (use assms r in \<open>auto simp: parsePeTarget_def Let_def split: if_splits\<close>)
qed

lemma parsePeTarget_consistent_aux:
  assumes "parsePeTarget h = Inr m"
  shows "machine_consistent m"
  using assms
  by (rule parsePeTarget_cases)
     (auto simp: machine_consistent_def hasPointers_def isX86_def pe_machine_switch_fields r2r_abi_fields
        dest: pe_machine_switch_fields(4))

text \<open>
  A header that \<^verbatim>\<open>parseElfTarget\<close> or \<^verbatim>\<open>parsePeTarget\<close> accepts describes a consistent machine:
  pointers are 4 or 8 bytes wide, both byte orders are known, x86 is little-endian, i386 and ARM32
  have 4-byte pointers, A64 and RISC-V instructions are little-endian and ARM32 has an instruction mode.
\<close>

theorem parsed_header_consistent:
  assumes "parseElfTarget h = Inr m \<or> parsePeTarget h = Inr m"
  shows "machine_consistent m"
  using assms parseElfTarget_consistent_aux parsePeTarget_consistent_aux by blast

definition sample_elf :: "byte list" where
  "sample_elf = [0x7f, 0x45, 0x4c, 0x46, 2, 1, 1] @ replicate 11 0 @ [62, 0] @ replicate 44 0"

lemma sample_elf_parse:
  "parseElfTarget sample_elf = Inr \<lparr> architecture = CA_X86_64, byteOrder = BO_Little, abi = TA_LinuxX86_64,
     instructionMode = IM_X86_64, pointerWidth = 8, instructionByteOrder = BO_Little \<rparr>"
  by code_simp

theorem parsed_header_consistent_witness:
  "machine_consistent \<lparr> architecture = CA_X86_64, byteOrder = BO_Little, abi = TA_LinuxX86_64,
     instructionMode = IM_X86_64, pointerWidth = 8, instructionByteOrder = BO_Little \<rparr>"
  by (rule parsed_header_consistent [of sample_elf]) (simp add: sample_elf_parse)

text \<open>
  For a machine read from a header, choosing an instruction decoder fails only because the
  instruction set has no backend (or RISC-V with an old Capstone), never because a byte order or an
  ARM mode is unknown.
\<close>

theorem parsed_header_decoder:
  assumes "parseElfTarget h = Inr m \<or> parsePeTarget h = Inr m"
  shows "is_ok (disassemblerArchFor v m) \<longleftrightarrow>
     architecture m \<in> {CA_X86_32, CA_X86_64, CA_Arm32, CA_Arm64, CA_PowerPC64, CA_S390X, CA_Mips64} \<or>
     architecture m \<in> {CA_RiscV32, CA_RiscV64} \<and> v \<ge> 5"
proof -
  have "machine_consistent m"
    using assms parseElfTarget_consistent_aux parsePeTarget_consistent_aux by blast
  then show ?thesis
    by (cases "architecture m")
       (auto simp: disassemblerArchFor_def disassembler_supports_def machine_consistent_def Let_def)
qed

theorem parsed_header_decoder_witness:
  "is_ok (disassemblerArchFor 4 \<lparr> architecture = CA_X86_64, byteOrder = BO_Little, abi = TA_LinuxX86_64,
     instructionMode = IM_X86_64, pointerWidth = 8, instructionByteOrder = BO_Little \<rparr>)"
  using parsed_header_decoder [of sample_elf, OF disjI1, OF sample_elf_parse, of 4] by simp

end
