(* ===== verification/CoreTypes.thy ===== *)
theory CoreTypes
  imports Text Machine
begin

text \<open>
  The value types, freeze modes, memory regions and modules of \<^verbatim>\<open>src/core/types.hpp\<close> and the
  module-relative display of an address of \<^verbatim>\<open>src/core/types.cpp\<close>.
\<close>

unbundle bit_operations_syntax

section \<open>Memory\<close>

text \<open>\<^verbatim>\<open>MemProt\<close> is a bit set over Read = 1, Write = 2, Exec = 4; its \<^verbatim>\<open>&\<close> tests for a common bit.\<close>

type_synonym MemProt = u32

abbreviation Prot_None :: MemProt where "Prot_None \<equiv> 0"
abbreviation Prot_Read :: MemProt where "Prot_Read \<equiv> 1"
abbreviation Prot_Write :: MemProt where "Prot_Write \<equiv> 2"
abbreviation Prot_Exec :: MemProt where "Prot_Exec \<equiv> 4"
abbreviation Prot_All :: MemProt where "Prot_All \<equiv> 7"

definition prot_or :: "MemProt \<Rightarrow> MemProt \<Rightarrow> MemProt" where
  "prot_or a b = a OR b"

definition prot_has :: "MemProt \<Rightarrow> MemProt \<Rightarrow> bool" where
  "prot_has a b \<longleftrightarrow> a AND b \<noteq> 0"

datatype MemType = MT_Private | MT_Mapped | MT_Image

datatype MemState = MS_Free | MS_Committed

record MemoryRegion =
  r_base :: u64
  r_size :: nat
  r_protection :: MemProt
  r_type :: MemType
  r_state :: MemState
  r_path :: string
  r_fileOffset :: "u64 option"

record ModuleInfo =
  m_base :: u64
  m_size :: u64
  m_name :: string
  m_path :: string
  m_is64bit :: bool
  m_machine :: TargetMachine

section \<open>Value types and freezing\<close>

datatype ValueType = VT_Byte | VT_Int16 | VT_Int32 | VT_Int64 | VT_Float | VT_Double | VT_String
  | VT_UnicodeString | VT_ByteArray | VT_Binary | VT_All | VT_Grouped | VT_Custom | VT_Pointer

fun valueTypeName :: "ValueType \<Rightarrow> string" where
  "valueTypeName VT_Byte = ''Byte''"
| "valueTypeName VT_Int16 = ''2 Bytes''"
| "valueTypeName VT_Int32 = ''4 Bytes''"
| "valueTypeName VT_Int64 = ''8 Bytes''"
| "valueTypeName VT_Float = ''Float''"
| "valueTypeName VT_Double = ''Double''"
| "valueTypeName VT_String = ''String''"
| "valueTypeName VT_UnicodeString = ''Unicode String''"
| "valueTypeName VT_ByteArray = ''Array of byte''"
| "valueTypeName VT_Binary = ''Binary''"
| "valueTypeName VT_All = ''All''"
| "valueTypeName VT_Grouped = ''Grouped''"
| "valueTypeName VT_Custom = ''Custom''"
| "valueTypeName VT_Pointer = ''Pointer''"

datatype ScanCompare = SC_Exact | SC_Greater | SC_Less | SC_Between | SC_Unknown | SC_Changed | SC_Unchanged
  | SC_Increased | SC_Decreased | SC_IncreasedBy | SC_DecreasedBy | SC_SameAsFirst

datatype FreezeMode = FM_Normal | FM_IncreaseOnly | FM_DecreaseOnly | FM_NeverIncrease | FM_NeverDecrease

text \<open>
  \<^verbatim>\<open>freezeShouldWrite\<close> compares two doubles with \<^verbatim>\<open><\<close> and \<^verbatim>\<open>>\<close>; the comparison is a parameter \<open>lt\<close>,
  which for NaN operands is false both ways.
\<close>

definition freezeShouldWrite :: "('d \<Rightarrow> 'd \<Rightarrow> bool) \<Rightarrow> FreezeMode \<Rightarrow> 'd \<Rightarrow> 'd \<Rightarrow> bool" where
  "freezeShouldWrite lt mode current frozen =
    (case mode of
       FM_IncreaseOnly \<Rightarrow> lt current frozen
     | FM_NeverDecrease \<Rightarrow> lt current frozen
     | FM_DecreaseOnly \<Rightarrow> lt frozen current
     | FM_NeverIncrease \<Rightarrow> lt frozen current
     | FM_Normal \<Rightarrow> True)"

text \<open>One tick of the freezer on a stored value: rewrite it when the mode says so.\<close>

definition freeze_tick :: "('d \<Rightarrow> 'd \<Rightarrow> bool) \<Rightarrow> FreezeMode \<Rightarrow> 'd \<Rightarrow> 'd \<Rightarrow> 'd" where
  "freeze_tick lt mode frozen current = (if freezeShouldWrite lt mode current frozen then frozen else current)"

section \<open>Module-relative addresses\<close>

definition module_contains :: "u64 \<Rightarrow> ModuleInfo \<Rightarrow> bool" where
  "module_contains addr m \<longleftrightarrow> m_size m \<noteq> 0 \<and> m_base m \<le> addr \<and> addr < m_base m + m_size m"

text \<open>The loop of \<^verbatim>\<open>moduleOffsetString\<close>: the first of the smallest modules that contain the address.\<close>

fun best_module :: "u64 \<Rightarrow> ModuleInfo option \<Rightarrow> ModuleInfo list \<Rightarrow> ModuleInfo option" where
  "best_module addr best [] = best"
| "best_module addr best (m # ms) =
    (if m_size m = 0 then best_module addr best ms
     else if m_base m \<le> addr \<and> addr < m_base m + m_size m then
       (case best of
          None \<Rightarrow> best_module addr (Some m) ms
        | Some b \<Rightarrow> best_module addr (if m_size m < m_size b then Some m else best) ms)
     else best_module addr best ms)"

definition moduleOffsetString :: "ModuleInfo list \<Rightarrow> u64 \<Rightarrow> string" where
  "moduleOffsetString modules addr =
    (case best_module addr None modules of
       None \<Rightarrow> []
     | Some best \<Rightarrow>
         (let name = (if m_name best \<noteq> [] then m_name best else m_path best)
          in after_last (CHR ''/'') name @ ''+0x'' @ show_hex_upper (unat (addr - m_base best))))"

section \<open>Properties\<close>

lemma best_module_sound:
  assumes "best_module addr best ms = Some r"
  shows "(r \<in> set ms \<and> module_contains addr r \<or> best = Some r) \<and>
     (\<forall>m \<in> set ms. module_contains addr m \<longrightarrow> m_size r \<le> m_size m) \<and>
     (\<forall>b. best = Some b \<longrightarrow> m_size r \<le> m_size b)"
  using assms
proof (induction ms arbitrary: best)
  case (Cons m ms)
  show ?case
  proof (cases "module_contains addr m")
    case False
    with Cons show ?thesis by (auto simp: module_contains_def split: if_splits)
  next
    case True
    let ?b = "case best of None \<Rightarrow> Some m | Some b \<Rightarrow> if m_size m < m_size b then Some m else best"
    have "best_module addr ?b ms = Some r"
      using Cons.prems True by (cases best) (auto simp: module_contains_def)
    note ih = Cons.IH [OF this]
    show ?thesis
    proof (cases best)
      case None
      with ih True show ?thesis by auto
    next
      case (Some b)
      with ih True show ?thesis by (auto split: if_splits)
    qed
  qed
qed simp

lemma best_module_complete:
  "best_module addr best ms = None \<longleftrightarrow> best = None \<and> (\<forall>m \<in> set ms. \<not> module_contains addr m)"
  by (induction ms arbitrary: best) (auto simp: module_contains_def split: option.splits)

text \<open>
  \<^verbatim>\<open>moduleOffsetString\<close> is empty exactly when no module contains the address; otherwise it names a
  containing module that is no larger than any other containing one (the innermost of nested
  mappings), by its file name, with the offset of the address inside that module, in hexadecimal,
  smaller than the module.
\<close>

theorem moduleOffsetString_innermost:
  "(moduleOffsetString ms addr = [] \<longleftrightarrow> (\<forall>m. m \<in> set ms \<longrightarrow> \<not> module_contains addr m)) \<and>
   (moduleOffsetString ms addr \<noteq> [] \<longrightarrow>
     (\<exists>m off. m \<in> set ms \<and> module_contains addr m \<and>
        (\<forall>m'. m' \<in> set ms \<and> module_contains addr m' \<longrightarrow> m_size m \<le> m_size m') \<and>
        addr = m_base m + of_nat off \<and> off < unat (m_size m) \<and>
        moduleOffsetString ms addr =
          after_last (CHR ''/'') (if m_name m \<noteq> [] then m_name m else m_path m) @ ''+0x'' @ show_hex_upper off))"
proof (cases "best_module addr None ms")
  case None
  then show ?thesis using best_module_complete [of addr None ms] by (simp add: moduleOffsetString_def)
next
  case (Some b)
  have ne: "moduleOffsetString ms addr \<noteq> []" by (simp add: moduleOffsetString_def Some Let_def)
  from best_module_sound [OF Some] have b: "b \<in> set ms" "module_contains addr b"
    "\<forall>m \<in> set ms. module_contains addr m \<longrightarrow> m_size b \<le> m_size m" by auto
  have "m_base b \<le> addr" "addr < m_base b + m_size b" using b(2) by (auto simp: module_contains_def)
  then have "addr - m_base b < m_size b" by uint_arith
  then have off: "unat (addr - m_base b) < unat (m_size b)" by (simp add: word_less_nat_alt)
  have "addr = m_base b + of_nat (unat (addr - m_base b))" by simp
  moreover have "moduleOffsetString ms addr = after_last (CHR ''/'') (if m_name b \<noteq> [] then m_name b else m_path b)
      @ ''+0x'' @ show_hex_upper (unat (addr - m_base b))"
    by (simp add: moduleOffsetString_def Some Let_def)
  ultimately have "\<exists>m off. m \<in> set ms \<and> module_contains addr m \<and>
        (\<forall>m'. m' \<in> set ms \<and> module_contains addr m' \<longrightarrow> m_size m \<le> m_size m') \<and>
        addr = m_base m + of_nat off \<and> off < unat (m_size m) \<and>
        moduleOffsetString ms addr =
          after_last (CHR ''/'') (if m_name m \<noteq> [] then m_name m else m_path m) @ ''+0x'' @ show_hex_upper off"
    using b off by blast
  with ne b show ?thesis by blast
qed

definition sample_modules :: "ModuleInfo list" where
  "sample_modules =
    [\<lparr> m_base = 0x1000, m_size = 0x9000, m_name = ''outer.so'', m_path = [], m_is64bit = True, m_machine = default_machine \<rparr>,
     \<lparr> m_base = 0x2000, m_size = 0x1000, m_name = [], m_path = ''/opt/game/inner.bin'', m_is64bit = True, m_machine = default_machine \<rparr>]"

theorem moduleOffsetString_innermost_witness:
  "moduleOffsetString sample_modules 0x20ab = ''inner.bin+0xAB'' \<and>
   (\<exists>m off. m \<in> set sample_modules \<and> module_contains 0x20ab m \<and> 0x20ab = m_base m + of_nat off \<and> off < unat (m_size m))"
proof -
  have v: "moduleOffsetString sample_modules 0x20ab = ''inner.bin+0xAB''" by code_simp
  with moduleOffsetString_innermost [of sample_modules "0x20ab"] show ?thesis by auto
qed

text \<open>
  Freezing bounds a value: for a total order on values, after one tick a floor mode leaves a value
  no smaller than the frozen one, a ceiling mode one no larger, the normal mode the frozen one.
\<close>

lemma freeze_bounds:
  fixes frozen current :: "'d::linorder"
  shows "freeze_tick (<) FM_Normal frozen current = frozen \<and>
    freeze_tick (<) FM_IncreaseOnly frozen current = max frozen current \<and>
    freeze_tick (<) FM_NeverDecrease frozen current = max frozen current \<and>
    freeze_tick (<) FM_DecreaseOnly frozen current = min frozen current \<and>
    freeze_tick (<) FM_NeverIncrease frozen current = min frozen current"
  by (auto simp: freeze_tick_def freezeShouldWrite_def max_def min_def)

end
