(* ===== verification/Codec.thy ===== *)
theory Codec
  imports CoreTypes
begin

text \<open>
  Value codecs and scalar transforms (\<^verbatim>\<open>src/core/value_codec.hpp\<close>, \<^verbatim>\<open>src/core/value_transform.hpp\<close>):
  the reversible transforms between the logical value a user sees and the bytes stored in the target,
  their textual form, and the formatting and parsing of integer values. All arithmetic is on 64-bit
  words masked to the value's width, as in the sources.
\<close>

unbundle bit_operations_syntax

section \<open>Codecs\<close>

datatype CodecOp = Op_None | Op_Xor | Op_Add | Op_Rol | Op_Ror

record ValueCodec =
  op :: CodecOp
  key :: u64

definition maskFor :: "nat \<Rightarrow> u64" where
  "maskFor bytes = (if bytes \<ge> 8 then - 1 else push_bit (bytes * 8) 1 - 1)"

text \<open>The rotate count arrives as a 32-bit \<^verbatim>\<open>unsigned\<close>.\<close>

definition rotl :: "u64 \<Rightarrow> u32 \<Rightarrow> nat \<Rightarrow> u64" where
  "rotl v n bytes =
    (let w = bytes * 8; n = unat n mod w; m = maskFor bytes; v = v AND m
     in if n \<noteq> 0 then (push_bit n v OR drop_bit (w - n) v) AND m else v)"

definition rotr :: "u64 \<Rightarrow> u32 \<Rightarrow> nat \<Rightarrow> u64" where
  "rotr v n bytes =
    (let w = bytes * 8; n = unat n mod w; m = maskFor bytes; v = v AND m
     in if n \<noteq> 0 then (drop_bit n v OR push_bit (w - n) v) AND m else v)"

definition encode :: "ValueCodec \<Rightarrow> u64 \<Rightarrow> nat \<Rightarrow> u64" where
  "encode c logical bytes =
    (let m = maskFor bytes; v = logical AND m in
     case op c of
       Op_None \<Rightarrow> v
     | Op_Xor \<Rightarrow> (v XOR key c) AND m
     | Op_Add \<Rightarrow> (v + key c) AND m
     | Op_Rol \<Rightarrow> rotl v (ucast (key c)) bytes
     | Op_Ror \<Rightarrow> rotr v (ucast (key c)) bytes)"

definition decode :: "ValueCodec \<Rightarrow> u64 \<Rightarrow> nat \<Rightarrow> u64" where
  "decode c stored bytes =
    (let m = maskFor bytes; v = stored AND m in
     case op c of
       Op_None \<Rightarrow> v
     | Op_Xor \<Rightarrow> (v XOR key c) AND m
     | Op_Add \<Rightarrow> (v - key c) AND m
     | Op_Rol \<Rightarrow> rotr v (ucast (key c)) bytes
     | Op_Ror \<Rightarrow> rotl v (ucast (key c)) bytes)"

definition active :: "ValueCodec \<Rightarrow> bool" where
  "active c \<longleftrightarrow> op c \<noteq> Op_None"

definition codec_parse :: "string \<Rightarrow> ValueCodec option" where
  "codec_parse spec =
    (if CHR '':'' \<notin> set spec then None
     else let name = takeWhile (\<lambda>c. c \<noteq> CHR '':'') spec;
              arg = tl (dropWhile (\<lambda>c. c \<noteq> CHR '':'') spec)
     in if arg = [] then None
     else let (k, rest, erange) = strtoull0 arg
     in if rest = arg \<or> rest \<noteq> [] \<or> erange then None
     else if name = ''xor'' then Some \<lparr> op = Op_Xor, key = k \<rparr>
     else if name = ''add'' then Some \<lparr> op = Op_Add, key = k \<rparr>
     else if name = ''rol'' then Some \<lparr> op = Op_Rol, key = k \<rparr>
     else if name = ''ror'' then Some \<lparr> op = Op_Ror, key = k \<rparr>
     else None)"

definition describe :: "ValueCodec \<Rightarrow> string" where
  "describe c =
    (case op c of
       Op_None \<Rightarrow> ''none''
     | Op_Xor \<Rightarrow> ''xor:0x'' @ show_base 16 (unat (key c))
     | Op_Add \<Rightarrow> ''add:'' @ show_base 10 (unat (key c))
     | Op_Rol \<Rightarrow> ''rol:'' @ show_base 10 (unat (key c))
     | Op_Ror \<Rightarrow> ''ror:'' @ show_base 10 (unat (key c)))"

section \<open>Scalars in memory\<close>

definition scalarWidth :: "ValueType \<Rightarrow> nat" where
  "scalarWidth t = (case t of
     VT_Byte \<Rightarrow> 1 | VT_Int16 \<Rightarrow> 2 | VT_Int32 \<Rightarrow> 4 | VT_Float \<Rightarrow> 4
   | VT_Int64 \<Rightarrow> 8 | VT_Double \<Rightarrow> 8 | VT_Pointer \<Rightarrow> 8 | _ \<Rightarrow> 0)"

definition isIntegerScalar :: "ValueType \<Rightarrow> bool" where
  "isIntegerScalar t \<longleftrightarrow> t = VT_Byte \<or> t = VT_Int16 \<or> t = VT_Int32 \<or> t = VT_Int64"

text \<open>
  The stored bytes are the first \<open>scalarWidth t\<close> bytes at the pointer; \<^verbatim>\<open>memcpy\<close> into a zeroed
  64-bit integer on a little-endian host is \<^const>\<open>le_val\<close>.
\<close>

definition decodeScalarBits :: "ValueType \<Rightarrow> byte list \<Rightarrow> bool \<Rightarrow> ValueCodec \<Rightarrow> u64" where
  "decodeScalarBits type stored bigEndian codec =
    (let w = scalarWidth type in
     if w = 0 then 0
     else let buf = take w stored;
              buf = (if bigEndian \<and> w > 1 then rev buf else buf);
              raw = of_nat (le_val buf)
     in if active codec \<and> isIntegerScalar type then decode codec raw w else raw)"

definition encodeScalarBits :: "ValueType \<Rightarrow> u64 \<Rightarrow> bool \<Rightarrow> ValueCodec \<Rightarrow> byte list" where
  "encodeScalarBits type logicalBits bigEndian codec =
    (let w = scalarWidth type in
     if w = 0 then []
     else let raw = (if active codec \<and> isIntegerScalar type then encode codec logicalBits w else logicalBits);
              out = le_bytes w raw
     in if bigEndian \<and> w > 1 then rev out else out)"

section \<open>Integer text\<close>

definition clamp_width :: "int \<Rightarrow> nat" where
  "clamp_width width = (if width < 1 then 1 else if width > 8 then 8 else nat width)"

text \<open>The signed reading of the masked bits: a sign extension for the widths 1, 2 and 4.\<close>

definition signed_scalar :: "nat \<Rightarrow> u64 \<Rightarrow> int" where
  "signed_scalar width u =
    (if width = 1 then sint (ucast u :: 8 word)
     else if width = 2 then sint (ucast u :: 16 word)
     else if width = 4 then sint (ucast u :: 32 word)
     else sint u)"

definition formatIntegerScalar :: "u64 \<Rightarrow> int \<Rightarrow> bool \<Rightarrow> bool \<Rightarrow> string" where
  "formatIntegerScalar bits width isSigned hex =
    (let width = clamp_width width;
         mask = (if width \<ge> 8 then - 1 else push_bit (width * 8) 1 - 1);
         u = bits AND mask
     in if hex then ''0x'' @ show_base 16 (unat u)
        else if isSigned then show_int (signed_scalar width u)
        else show_base 10 (unat u))"

fun parse_digits :: "nat \<Rightarrow> u64 \<Rightarrow> string \<Rightarrow> u64 option" where
  "parse_digits base val [] = Some val"
| "parse_digits base val (c # cs) =
    (case digit_value c of
       None \<Rightarrow> None
     | Some d \<Rightarrow>
         if d \<ge> base then None
         else if val > (- 1 - of_nat d) div of_nat base then None
         else parse_digits base (val * of_nat base + of_nat d) cs)"

text \<open>\<^verbatim>\<open>ok\<close> and the result in one option; the result is the two's-complement bits of the \<^verbatim>\<open>int64_t\<close>.\<close>

definition parseIntegerScalar :: "string \<Rightarrow> bool \<Rightarrow> u64 option" where
  "parseIntegerScalar s hex =
    (let t = trim_of {CHR '' '', CHR 0x09} s in
     if t = [] then None
     else let neg = (hd t = CHR ''-'');
              t = (if hd t = CHR ''-'' \<or> hd t = CHR ''+'' then tl t else t);
              pre = (length t > 1 \<and> t ! 0 = CHR ''0'' \<and> (t ! 1 = CHR ''x'' \<or> t ! 1 = CHR ''X''));
              base = (if pre then 16 else if hex then 16 else 10);
              t = (if pre then drop 2 t else t)
     in if t = [] then None
     else case parse_digits base 0 t of
            None \<Rightarrow> None
          | Some val \<Rightarrow>
              if neg \<and> val > push_bit 63 1 then None
              else Some (if neg then 0 - val else val))"

section \<open>Masks and rotations, bit by bit\<close>

lemma maskFor_mask: "bytes \<le> 8 \<Longrightarrow> maskFor bytes = mask (8 * bytes)"
  by (auto simp: maskFor_def mask_eq_decr_exp push_bit_eq_mult mult.commute mask_eq_exp_minus_1)

lemma bit_maskFor: "bytes \<le> 8 \<Longrightarrow> bit (maskFor bytes) i \<longleftrightarrow> i < 8 * bytes"
  by (auto simp: maskFor_mask bit_simps dest: bit_imp_le_length)

lemma mod8_less: "0 < bytes \<Longrightarrow> (x::nat) mod (bytes * 8) < 8 * bytes"
  by (metis mod_less_divisor mult.commute nat_0_less_mult_iff zero_less_numeral)

lemma bit_rotl:
  assumes "0 < bytes" "bytes \<le> 8" "i < 8 * bytes" "k = unat n mod (bytes * 8)"
  shows "bit (rotl v n bytes) i \<longleftrightarrow> (if i < k then bit v (8 * bytes + i - k) else bit v (i - k))"
proof -
  have k: "k < 8 * bytes" using assms by (simp only: mod8_less)
  show ?thesis using assms(1-3) k
    unfolding rotl_def Let_def assms(4) [symmetric]
    by (auto simp: bit_maskFor bit_simps mult.commute [of bytes 8] dest: bit_imp_le_length)
qed

lemma bit_rotr:
  assumes "0 < bytes" "bytes \<le> 8" "i < 8 * bytes" "k = unat n mod (bytes * 8)"
  shows "bit (rotr v n bytes) i \<longleftrightarrow> (if k + i < 8 * bytes then bit v (k + i) else bit v (k + i - 8 * bytes))"
proof -
  have k: "k < 8 * bytes" using assms by (simp only: mod8_less)
  have e: "i - (8 * bytes - k) = k + i - 8 * bytes" using k by simp
  show ?thesis using assms(1-3) k
    unfolding rotr_def Let_def assms(4) [symmetric]
    by (auto simp: bit_maskFor bit_simps mult.commute [of bytes 8] e dest: bit_imp_le_length)
qed

lemma rot_masked:
  assumes "bytes \<le> 8" "\<not> i < 8 * bytes"
  shows "\<not> bit (rotl v n bytes) i" "\<not> bit (rotr v n bytes) i"
  using assms by (auto simp: rotl_def rotr_def Let_def bit_maskFor bit_simps)

lemma rotr_rotl: "0 < bytes \<Longrightarrow> bytes \<le> 8 \<Longrightarrow> rotr (rotl v n bytes) n bytes = v AND maskFor bytes"
proof (rule bit_eqI)
  fix i assume a: "0 < bytes" "bytes \<le> 8"
  define k where "k = unat n mod (bytes * 8)"
  have k: "k < 8 * bytes" using a by (simp only: k_def mod8_less)
  show "bit (rotr (rotl v n bytes) n bytes) i \<longleftrightarrow> bit (v AND maskFor bytes) i"
    using a k rot_masked(2) [of bytes i]
    by (cases "i < 8 * bytes")
       (auto simp: bit_rotr [OF _ _ _ k_def] bit_rotl [OF _ _ _ k_def] bit_maskFor bit_simps)
qed

lemma rotl_rotr: "0 < bytes \<Longrightarrow> bytes \<le> 8 \<Longrightarrow> rotl (rotr v n bytes) n bytes = v AND maskFor bytes"
proof (rule bit_eqI)
  fix i assume a: "0 < bytes" "bytes \<le> 8"
  define k where "k = unat n mod (bytes * 8)"
  have k: "k < 8 * bytes" using a by (simp only: k_def mod8_less)
  show "bit (rotl (rotr v n bytes) n bytes) i \<longleftrightarrow> bit (v AND maskFor bytes) i"
    using a k rot_masked(1) [of bytes i]
    by (cases "i < 8 * bytes")
       (auto simp: bit_rotr [OF _ _ _ k_def] bit_rotl [OF _ _ _ k_def] bit_maskFor bit_simps)
qed

lemma rot_mask_arg:
  "rotl (v AND maskFor bytes) n bytes = rotl v n bytes" "rotr (v AND maskFor bytes) n bytes = rotr v n bytes"
  by (simp_all add: rotl_def rotr_def Let_def and.assoc)

lemma rotl_mask_result: "bytes \<le> 8 \<Longrightarrow> rotl v n bytes AND maskFor bytes = rotl v n bytes"
  by (rule bit_eqI) (use rot_masked(1) bit_maskFor in \<open>unfold bit_and_iff, blast\<close>)

lemma rotr_mask_result: "bytes \<le> 8 \<Longrightarrow> rotr v n bytes AND maskFor bytes = rotr v n bytes"
  by (rule bit_eqI) (use rot_masked(2) bit_maskFor in \<open>unfold bit_and_iff, blast\<close>)

lemma take_bit_add_left:
  "n \<le> LENGTH('a) \<Longrightarrow> take_bit n (take_bit n a + b) = take_bit n (a + b :: 'a::len word)"
  by transfer (simp add: min_def take_bit_take_bit, metis take_bit_add take_bit_take_bit min.idem)

lemma take_bit_diff_left:
  "n \<le> LENGTH('a) \<Longrightarrow> take_bit n (take_bit n a - b) = take_bit n (a - b :: 'a::len word)"
  by transfer (simp add: min_def take_bit_take_bit, metis take_bit_diff take_bit_take_bit min.idem)

lemma mask_add_sub:
  assumes "bytes \<le> 8"
  shows "(((v AND maskFor bytes) + k AND maskFor bytes) - k) AND maskFor bytes = v AND maskFor bytes"
    and "(((v AND maskFor bytes) - k AND maskFor bytes) + k) AND maskFor bytes = v AND maskFor bytes"
  using assms
  by (simp_all add: maskFor_mask take_bit_add_left take_bit_diff_left flip: take_bit_eq_mask)

lemma mask_xor_xor:
  "((((v AND m) XOR k) AND m) XOR k) AND m = v AND (m :: u64)"
  by (rule bit_eqI) (auto simp: bit_simps)

lemma codec_roundtrip_aux:
  assumes "0 < bytes" "bytes \<le> 8"
  shows "decode c (encode c v bytes) bytes = v AND maskFor bytes \<and>
    encode c (decode c v bytes) bytes = v AND maskFor bytes"
proof -
  note defs = encode_def decode_def Let_def CodecOp.case
  note rots = rot_mask_arg rotl_mask_result [OF assms(2)] rotr_mask_result [OF assms(2)]
    rotr_rotl [OF assms] rotl_rotr [OF assms]
  have idem: "(x AND m) AND m = x AND (m :: u64)" for x m by (simp add: and.assoc)
  have "decode c (encode c v bytes) bytes = v AND maskFor bytes"
    by (cases "op c") (simp_all only: defs rots idem mask_add_sub [OF assms(2)] mask_xor_xor)
  moreover have "encode c (decode c v bytes) bytes = v AND maskFor bytes"
    by (cases "op c") (simp_all only: defs rots idem mask_add_sub [OF assms(2)] mask_xor_xor)
  ultimately show ?thesis ..
qed

text \<open>
  C28: every codec is reversible at every width: decoding what was encoded gives back the logical
  value, and encoding what was decoded gives back the stored one, both truncated to the width. This
  holds for XOR, addition with wrap-around and both rotations, whatever the key.
\<close>

theorem codec_roundtrip:
  assumes "0 < bytes" "bytes \<le> 8"
  shows "decode c (encode c v bytes) bytes = v AND maskFor bytes \<and>
    encode c (decode c v bytes) bytes = v AND maskFor bytes"
  using assms by (rule codec_roundtrip_aux)

theorem codec_roundtrip_witness:
  "decode \<lparr> op = Op_Rol, key = 0x100000005 \<rparr> (encode \<lparr> op = Op_Rol, key = 0x100000005 \<rparr> 0xABCD 2) 2 = 0xABCD"
proof -
  have "0 < (2::nat)" "(2::nat) \<le> 8" by simp_all
  from codec_roundtrip [OF this, of "\<lparr> op = Op_Rol, key = 0x100000005 \<rparr>" "0xABCD"]
  show ?thesis by (simp add: maskFor_def)
qed

section \<open>Codec text\<close>

text \<open>
  The textual form of a codec reads back as the same codec, so a codec saved in a table survives.
\<close>

theorem codec_parse_describe:
  assumes "active c"
  shows "codec_parse (describe c) = Some c"
proof -
  have n: "unat (key c) < 2 ^ 64" using unsigned_less [of "key c", where 'a = nat] by simp
  note dec = strtoull0_show_dec [OF n] and hex = strtoull0_show_hex [OF n]
  have "[] \<noteq> show_base 10 (unat (key c))" by (metis show_base_nonempty(1))
  with assms show ?thesis
    by (cases "op c")
       (simp_all add: active_def codec_parse_def describe_def dec hex Let_def ValueCodec.equality)
qed

theorem codec_parse_describe_witness:
  "codec_parse (describe \<lparr> op = Op_Xor, key = 0xDEADBEEF \<rparr>) = Some \<lparr> op = Op_Xor, key = 0xDEADBEEF \<rparr>"
  by (rule codec_parse_describe) (simp add: active_def)

section \<open>Stored scalars\<close>

lemma unat_and_maskFor: "bytes \<le> 8 \<Longrightarrow> unat (v AND maskFor bytes) = unat v mod 256 ^ bytes"
proof -
  assume "bytes \<le> 8"
  then have "unat (v AND maskFor bytes) = unat (take_bit (8 * bytes) v)"
    by (simp add: maskFor_mask take_bit_eq_mask)
  also have "\<dots> = unat v mod 2 ^ (8 * bytes)" by (simp only: unsigned_take_bit_eq take_bit_eq_mod [of _ "unat v"])
  finally show ?thesis by (simp add: power_mult)
qed

lemma of_le_val_le_bytes: "w \<le> 8 \<Longrightarrow> of_nat (le_val (le_bytes w v)) = v AND maskFor w"
  by (simp add: le_val_le_bytes unat_and_maskFor [symmetric])

lemma scalarWidth_le: "scalarWidth t \<le> 8"
  by (simp add: scalarWidth_def split: ValueType.split)

lemma encode_masked: "bytes \<le> 8 \<Longrightarrow> encode c v bytes AND maskFor bytes = encode c v bytes"
  by (cases "op c") (simp_all only: encode_def Let_def CodecOp.case and.assoc and.idem rotl_mask_result rotr_mask_result)

text \<open>
  Writing a scalar and reading it back gives the logical value truncated to the type's width,
  in both byte orders and under every codec; the number of stored bytes is the type's width.
\<close>

theorem scalar_roundtrip:
  assumes "0 < scalarWidth t"
  shows "decodeScalarBits t (encodeScalarBits t v be c) be c = v AND maskFor (scalarWidth t) \<and>
    length (encodeScalarBits t v be c) = scalarWidth t"
proof -
  let ?w = "scalarWidth t"
  let ?raw = "if active c \<and> isIntegerScalar t then encode c v ?w else v"
  have len: "length (encodeScalarBits t v be c) = ?w"
    using assms by (simp add: encodeScalarBits_def Let_def)
  have "(if be \<and> ?w > 1 then rev (take ?w (encodeScalarBits t v be c)) else take ?w (encodeScalarBits t v be c))
      = le_bytes ?w ?raw"
    using assms by (simp add: encodeScalarBits_def Let_def)
  then have "decodeScalarBits t (encodeScalarBits t v be c) be c =
      (if active c \<and> isIntegerScalar t then decode c (?raw AND maskFor ?w) ?w else ?raw AND maskFor ?w)"
    using assms scalarWidth_le [of t] by (simp add: decodeScalarBits_def Let_def of_le_val_le_bytes)
  also have "\<dots> = v AND maskFor ?w"
    using codec_roundtrip_aux [OF assms scalarWidth_le, of c v] encode_masked [OF scalarWidth_le, of c v t] by auto
  finally show ?thesis using len by simp
qed

theorem scalar_roundtrip_witness:
  "decodeScalarBits VT_Int16 (encodeScalarBits VT_Int16 0x1ABCD True \<lparr> op = Op_Xor, key = 0x55AA \<rparr>) True
     \<lparr> op = Op_Xor, key = 0x55AA \<rparr> = 0xABCD"
proof -
  have w: "0 < scalarWidth VT_Int16" by (simp add: scalarWidth_def)
  let ?c = "\<lparr> op = Op_Xor, key = 0x55AA \<rparr>"
  have "decodeScalarBits VT_Int16 (encodeScalarBits VT_Int16 0x1ABCD True ?c) True ?c
      = 0x1ABCD AND maskFor (scalarWidth VT_Int16)"
    by (rule scalar_roundtrip [OF w, THEN conjunct1])
  also have "\<dots> = 0xABCD" by (simp add: scalarWidth_def maskFor_def)
  finally show ?thesis .
qed

section \<open>Integer text round trip\<close>

lemma foldl_digits_ge: "0 < base \<Longrightarrow> (v::nat) \<le> foldl (\<lambda>v c. v * base + digit_or_0 c) v cs"
proof (induction cs arbitrary: v)
  case (Cons c cs)
  have "v \<le> v * base + digit_or_0 c" using Cons.prems by (cases base) auto
  also have "\<dots> \<le> foldl (\<lambda>v c. v * base + digit_or_0 c) (v * base + digit_or_0 c) cs"
    by (rule Cons.IH) (rule Cons.prems)
  finally show ?case by simp
qed simp

lemma unat_of_nat_small: "n < 2 ^ 64 \<Longrightarrow> unat (of_nat n :: u64) = n"
  by (simp add: unat_of_nat take_bit_nat_eq_self)

lemma overflow_guard:
  fixes v :: u64
  assumes "d < base" "base \<le> 16" "unat v * base + d < 2 ^ 64"
  shows "\<not> v > (- 1 - of_nat d) div of_nat base"
    and "unat (v * of_nat base + of_nat d) = unat v * base + d"
proof -
  have b: "0 < base" "base < 2 ^ 64" "d < 2 ^ 64" using assms by simp_all
  have m: "unat (- 1 - of_nat d :: u64) = 2 ^ 64 - 1 - d"
    using b by (simp add: unat_sub unat_of_nat_small word_le_nat_alt unsigned_minus_1_eq_mask mask_eq_exp_minus_1)
  have "unat ((- 1 - of_nat d) div of_nat base :: u64) = (2 ^ 64 - 1 - d) div base"
    using b by (simp add: unat_div_distrib m unat_of_nat_small)
  moreover have "unat v \<le> (2 ^ 64 - 1 - d) div base"
    using assms b by (simp add: less_eq_div_iff_mult_less_eq)
  ultimately show "\<not> v > (- 1 - of_nat d) div of_nat base"
    by (simp add: word_less_nat_alt not_less)
  have "(v * of_nat base + of_nat d) = of_nat (unat v * base + d)" by simp
  then show "unat (v * of_nat base + of_nat d) = unat v * base + d"
    using assms(3) unat_of_nat_small by metis
qed

lemma parse_digits_ok:
  assumes "2 \<le> base" "base \<le> 16" "\<forall>c \<in> set cs. is_digit_of base c"
    "foldl (\<lambda>v c. v * base + digit_or_0 c) (unat v) cs < 2 ^ 64"
  shows "parse_digits base v cs = Some (of_nat (foldl (\<lambda>v c. v * base + digit_or_0 c) (unat v) cs))"
  using assms(3,4)
proof (induction cs arbitrary: v)
  case (Cons c cs)
  from Cons.prems obtain d where d: "digit_value c = Some d" "d < base"
    by (auto simp: is_digit_of_def split: option.splits)
  then have dc: "digit_or_0 c = d" by (simp add: digit_or_0_def)
  have "unat v * base + d < 2 ^ 64"
    using Cons.prems foldl_digits_ge [of base "unat v * base + d" cs] assms(1) by (simp add: dc)
  note g = overflow_guard [OF d(2) assms(2) this]
  show ?case using Cons.prems Cons.IH [of "v * of_nat base + of_nat d"] d g by (simp add: dc)
qed simp

lemma parse_digits_show:
  "2 \<le> base \<Longrightarrow> base \<le> 16 \<Longrightarrow> n < 2 ^ 64 \<Longrightarrow> parse_digits base 0 (show_base base n) = Some (of_nat n)"
  using parse_digits_ok [of base "show_base base n" 0] show_base_digits [of base n] run_value_show_base [of base n]
  by (simp add: run_value_def)

lemma trim_of_id:
  assumes "s \<noteq> []" "hd s \<notin> ws" "last s \<notin> ws"
  shows "trim_of ws s = s"
proof -
  have "dropWhile (\<lambda>c. c \<in> ws) s = s" using assms by (cases s) auto
  moreover have "dropWhile (\<lambda>c. c \<in> ws) (rev s) = rev s" using assms by (cases s rule: rev_cases) auto
  ultimately show ?thesis by (simp add: trim_of_def)
qed

lemma show_base_ends:
  assumes "2 \<le> base" "base \<le> 16"
  shows "is_digit_of base (hd (show_base base n))" "is_digit_of base (last (show_base base n))"
  using show_base_digits [OF assms, of n] by (simp_all add: hd_in_set last_in_set)

lemma digit_not_blank: "is_digit_of base c \<Longrightarrow> c \<notin> {CHR '' '', CHR 0x09}"
  using digit_not_special(1) [of base c] by (auto simp: is_space_def char_code_def)

lemma show_base_not_blank:
  assumes "2 \<le> base" "base \<le> 16"
  shows "hd (show_base base n) \<notin> {CHR '' '', CHR 0x09}" "last (show_base base n) \<notin> {CHR '' '', CHR 0x09}"
  using show_base_ends [OF assms, of n] by (auto dest: digit_not_blank)

lemma show_base_no_prefix:
  assumes "2 \<le> base" "base \<le> 16"
  shows "\<not> (length (show_base base n) > 1 \<and> show_base base n ! 0 = CHR ''0'' \<and>
     (show_base base n ! 1 = CHR ''x'' \<or> show_base base n ! 1 = CHR ''X''))"
  using show_base_digits [OF assms, of n] digit_not_special(5,6) [of base]
  by (metis nth_mem)

lemma show_base_no_sign:
  assumes "2 \<le> base" "base \<le> 16"
  shows "hd (show_base base n) \<noteq> CHR ''-''" "hd (show_base base n) \<noteq> CHR ''+''"
  using show_base_ends(1) [OF assms, of n] digit_not_special(2,3) [of base] by auto

lemma parseIntegerScalar_dec:
  assumes "n < 2 ^ 64"
  shows "parseIntegerScalar (show_base 10 n) False = Some (of_nat n)"
proof -
  have t: "trim_of {CHR '' '', CHR 0x09} (show_base 10 n) = show_base 10 n"
    by (rule trim_of_id) (use show_base_not_blank [of 10 n] in simp_all)
  show ?thesis unfolding parseIntegerScalar_def Let_def t
    using show_base_no_prefix [of 10 n] show_base_no_sign [of 10 n] parse_digits_show [of 10 n] assms by auto
qed

lemma parseIntegerScalar_neg:
  assumes "0 < n" "n \<le> 2 ^ 63"
  shows "parseIntegerScalar (CHR ''-'' # show_base 10 n) False = Some (- of_nat n)"
proof -
  have t: "trim_of {CHR '' '', CHR 0x09} (CHR ''-'' # show_base 10 n) = CHR ''-'' # show_base 10 n"
    by (rule trim_of_id) (use show_base_not_blank [of 10 n] in simp_all)
  have le: "\<not> (of_nat n :: u64) > push_bit 63 1"
    using assms by (simp add: word_less_nat_alt unat_of_nat_small)
  show ?thesis unfolding parseIntegerScalar_def Let_def t
    using show_base_no_prefix [of 10 n] le parse_digits_show [of 10 n] assms by auto
qed

lemma parseIntegerScalar_hex:
  assumes "n < 2 ^ 64"
  shows "parseIntegerScalar (''0x'' @ show_base 16 n) hex = Some (of_nat n)"
proof -
  have t: "trim_of {CHR '' '', CHR 0x09} (''0x'' @ show_base 16 n) = ''0x'' @ show_base 16 n"
    by (rule trim_of_id) (use show_base_not_blank [of 16 n] in simp_all)
  show ?thesis unfolding parseIntegerScalar_def Let_def t
    using parse_digits_show [of 16 n] assms by simp
qed

lemma signed_scalar_range:
  "- (2 ^ 63) \<le> signed_scalar w u" "signed_scalar w u < 2 ^ 63"
  using sint_greater_eq [of u] sint_less [of u] sint_greater_eq [of "ucast u :: 32 word"] sint_less [of "ucast u :: 32 word"]
    sint_greater_eq [of "ucast u :: 16 word"] sint_less [of "ucast u :: 16 word"]
    sint_greater_eq [of "ucast u :: 8 word"] sint_less [of "ucast u :: 8 word"]
  by (auto simp: signed_scalar_def)

lemma show_int_word:
  assumes "- (2 ^ 63) \<le> i" "i < 2 ^ 63"
  shows "parseIntegerScalar (show_int i) False = Some (word_of_int i)"
proof (cases "i < 0")
  case True
  then have "0 < nat (- i)" "nat (- i) \<le> 2 ^ 63" using assms by auto
  from parseIntegerScalar_neg [OF this] True show ?thesis by (simp add: show_int_def)
next
  case False
  then have "nat i < 2 ^ 64" using assms by auto
  from parseIntegerScalar_dec [OF this] False show ?thesis by (simp add: show_int_def)
qed

lemma signed_cast_masked:
  fixes u :: u64
  assumes "LENGTH('b::len) = 8 * k" "k \<le> 8"
  shows "word_of_int (sint (ucast u :: 'b word)) AND maskFor k = u AND maskFor k"
  by (rule bit_eqI) (use assms in \<open>auto simp: bit_simps bit_maskFor\<close>)

lemma signed_scalar_masked:
  assumes "1 \<le> w" "w \<le> 8" "u = u AND maskFor w"
  shows "word_of_int (signed_scalar w u) AND maskFor w = u"
proof -
  have "word_of_int (signed_scalar w u) AND maskFor w = u AND maskFor w"
    using signed_cast_masked [where 'b = 8, of 1] signed_cast_masked [where 'b = 16, of 2]
      signed_cast_masked [where 'b = 32, of 4]
    by (auto simp: signed_scalar_def)
  with assms(3) show ?thesis by simp
qed

text \<open>
  An integer shown in the editor (signed, unsigned or hexadecimal) and typed back in the same
  mode is accepted and denotes the same bits at the value's width: editing without changing the text
  never changes the stored value.
\<close>

theorem integer_text_roundtrip:
  assumes "1 \<le> w" "w \<le> 8"
  shows "\<exists>v. parseIntegerScalar (formatIntegerScalar bits (int w) isSigned hex) hex = Some v \<and>
     v AND maskFor w = bits AND maskFor w"
proof -
  let ?u = "bits AND maskFor w"
  have w: "clamp_width (int w) = w" using assms by (simp add: clamp_width_def)
  have f: "formatIntegerScalar bits (int w) isSigned hex =
      (if hex then ''0x'' @ show_base 16 (unat ?u) else if isSigned then show_int (signed_scalar w ?u)
       else show_base 10 (unat ?u))"
    by (simp only: formatIntegerScalar_def w maskFor_def Let_def)
  have u: "unat ?u < 2 ^ 64" using unsigned_less [of ?u, where 'a = nat] by simp
  have idem: "?u = ?u AND maskFor w" by (simp add: and.assoc)
  show ?thesis
    using parseIntegerScalar_hex [OF u] parseIntegerScalar_dec [OF u]
      show_int_word [OF signed_scalar_range] signed_scalar_masked [OF assms idem] idem
    unfolding f by (cases hex; cases isSigned) auto
qed

theorem integer_text_roundtrip_witness:
  "\<exists>v. parseIntegerScalar (formatIntegerScalar 0xFFFE (int 2) True False) False = Some v \<and>
     v AND maskFor 2 = 0xFFFE AND maskFor 2"
  by (rule integer_text_roundtrip) simp_all

end
