(* ===== verification/Json.thy ===== *)
theory Json
  imports Text
begin

text \<open>
  The JSON value, parser and writer of \<^verbatim>\<open>src/core/json.hpp\<close> and \<^verbatim>\<open>src/core/json.cpp\<close>. The parser's
  state \<^verbatim>\<open>(input_, pos_)\<close> is the unread suffix of the input, \<^verbatim>\<open>depth_\<close> an argument, failure is
  \<^const>\<open>None\<close>. A value keeps every field of the C++ struct. The \<^verbatim>\<open>unordered_map\<close> is an association
  list with distinct keys in insertion order; the container's own iteration order would only show in
  the members that \<^verbatim>\<open>write\<close> appends when \<^verbatim>\<open>objectOrder\<close> does not list them.
\<close>

unbundle bit_operations_syntax

section \<open>Values\<close>

datatype VType = TNull | TBool | TNumber | TString | TArray | TObject

datatype JValue = JV (jtype: VType) (boolValue: bool) (stringValue: string) (arrayValue: "JValue list")
  (objectValue: "(string \<times> JValue) list") (objectOrder: "string list")

definition default_value :: JValue where
  "default_value = JV TNull False [] [] [] []"

fun set_type :: "VType \<Rightarrow> JValue \<Rightarrow> JValue" where
  "set_type t (JV _ b s a m k) = JV t b s a m k"

fun set_bool :: "bool \<Rightarrow> JValue \<Rightarrow> JValue" where
  "set_bool b (JV _ _ s a m k) = JV TBool b s a m k"

fun set_text :: "VType \<Rightarrow> string \<Rightarrow> JValue \<Rightarrow> JValue" where
  "set_text t s (JV _ b _ a m k) = JV t b s a m k"

definition jobject :: JValue where "jobject = set_type TObject default_value"
definition jarray :: JValue where "jarray = set_type TArray default_value"
definition jstring :: "string \<Rightarrow> JValue" where "jstring s = set_text TString s default_value"
definition jboolean :: "bool \<Rightarrow> JValue" where "jboolean b = set_bool b default_value"
definition jnumber :: "int \<Rightarrow> JValue" where "jnumber n = set_text TNumber (show_int n) default_value"

text \<open>\<^verbatim>\<open>insert_or_assign\<close> on the map.\<close>

fun assign :: "string \<Rightarrow> JValue \<Rightarrow> (string \<times> JValue) list \<Rightarrow> (string \<times> JValue) list" where
  "assign k v [] = [(k, v)]"
| "assign k v ((k', v') # m) = (if k' = k then (k, v) # m else (k', v') # assign k v m)"

definition jget :: "JValue \<Rightarrow> string \<Rightarrow> JValue option" where
  "jget v k = (if jtype v \<noteq> TObject then None else map_of (objectValue v) k)"

text \<open>
  \<^verbatim>\<open>Value::set\<close> and, in the parser, the insertion of a member: a new key joins the order, an existing
  one keeps its place.
\<close>

fun set_member :: "string \<Rightarrow> JValue \<Rightarrow> JValue \<Rightarrow> JValue" where
  "set_member k v (JV t b s a m order) =
     JV t b s a (assign k v m) (if map_of m k = None then order @ [k] else order)"

definition jset :: "JValue \<Rightarrow> string \<Rightarrow> JValue \<Rightarrow> JValue" where
  "jset self k v = set_member k v (set_type TObject self)"

fun push_item :: "JValue \<Rightarrow> JValue \<Rightarrow> JValue" where
  "push_item v (JV t b s a m order) = JV t b s (a @ [v]) m order"

definition jpush :: "JValue \<Rightarrow> JValue \<Rightarrow> JValue" where
  "jpush self v = push_item v (set_type TArray self)"

definition getString :: "JValue \<Rightarrow> string \<Rightarrow> string option" where
  "getString v k = (case jget v k of None \<Rightarrow> None
     | Some x \<Rightarrow> if jtype x \<noteq> TString then None else Some (stringValue x))"

definition getBool :: "JValue \<Rightarrow> string \<Rightarrow> bool option" where
  "getBool v k = (case jget v k of None \<Rightarrow> None
     | Some x \<Rightarrow> if jtype x \<noteq> TBool then None else Some (boolValue x))"

text \<open>
  \<^verbatim>\<open>strtoll(text, &end, 10)\<close> with the checks of \<^verbatim>\<open>getInt\<close>: blanks, a sign, digits, nothing after them,
  in range. When nothing converts, \<^verbatim>\<open>end\<close> is the text itself, so only an empty text reads as zero.
\<close>

definition strtoll10 :: "string \<Rightarrow> int option" where
  "strtoll10 s =
    (let t = dropWhile is_space s;
         neg = (t \<noteq> [] \<and> hd t = CHR ''-'');
         u = (if t \<noteq> [] \<and> (hd t = CHR ''-'' \<or> hd t = CHR ''+'') then tl t else t);
         ds = takeWhile (is_digit_of 10) u;
         rest = dropWhile (is_digit_of 10) u;
         n = (if neg then - int (run_value 10 ds) else int (run_value 10 ds))
     in if ds = [] then (if s = [] then Some 0 else None)
        else if n < - (2 ^ 63) \<or> n \<ge> 2 ^ 63 \<or> rest \<noteq> [] then None
        else Some n)"

definition getInt :: "JValue \<Rightarrow> string \<Rightarrow> int option" where
  "getInt v k = (case jget v k of None \<Rightarrow> None
     | Some x \<Rightarrow> if jtype x \<noteq> TNumber then None else strtoll10 (stringValue x))"

section \<open>Lexical level of the parser\<close>

definition json_ws :: "char \<Rightarrow> bool" where
  "json_ws c \<longleftrightarrow> c = CHR '' '' \<or> c = CHR 0x09 \<or> c = CHR 0x0D \<or> c = CHR 0x0A"

definition skipWs :: "string \<Rightarrow> string" where
  "skipWs s = dropWhile json_ws s"

definition consume :: "char \<Rightarrow> string \<Rightarrow> string option" where
  "consume expected s = (case skipWs s of [] \<Rightarrow> None | c # r \<Rightarrow> if c = expected then Some r else None)"

text \<open>The lambda \<^verbatim>\<open>unit\<close>: four hexadecimal digits.\<close>

fun unit_loop :: "nat \<Rightarrow> nat \<Rightarrow> string \<Rightarrow> (nat \<times> string) option" where
  "unit_loop 0 code s = Some (code, s)"
| "unit_loop (Suc k) code [] = None"
| "unit_loop (Suc k) code (h # t) =
     (case digit_value h of None \<Rightarrow> None | Some d \<Rightarrow> unit_loop k (code * 16 + d) t)"

lemma unit_loop_code [code]:
  "unit_loop k code s = (if k = 0 then Some (code, s) else case s of [] \<Rightarrow> None
     | h # t \<Rightarrow> (case digit_value h of None \<Rightarrow> None | Some d \<Rightarrow> unit_loop (k - 1) (code * 16 + d) t))"
  by (cases k; cases s) (simp_all split: option.split)

definition json_unit :: "string \<Rightarrow> (nat \<times> string) option" where
  "json_unit s = (if length s < 4 then None else unit_loop 4 0 s)"

text \<open>The UTF-8 bytes of a code point, as the parser appends them.\<close>

definition utf8_append :: "nat \<Rightarrow> string" where
  "utf8_append code =
    (if code \<le> 0x7f then [char_of code]
     else (if code \<le> 0x7ff then [char_of (0xc0 OR drop_bit 6 code)]
           else (if code \<le> 0xffff then [char_of (0xe0 OR drop_bit 12 code)]
                 else [char_of (0xf0 OR drop_bit 18 code), char_of (0x80 OR (drop_bit 12 code AND 63))])
                @ [char_of (0x80 OR (drop_bit 6 code AND 63))])
          @ [char_of (0x80 OR (code AND 63))])"

text \<open>The \<^verbatim>\<open>switch (esc)\<close> after a backslash: the bytes it appends and the unread input.\<close>

definition unescape :: "string \<Rightarrow> (string \<times> string) option" where
  "unescape s = (case s of [] \<Rightarrow> None | esc # r \<Rightarrow>
     if esc = CHR 0x22 then Some ([CHR 0x22], r)
     else if esc = CHR 0x5C then Some ([CHR 0x5C], r)
     else if esc = CHR ''/'' then Some ([CHR ''/''], r)
     else if esc = CHR ''b'' then Some ([CHR 0x08], r)
     else if esc = CHR ''f'' then Some ([CHR 0x0C], r)
     else if esc = CHR ''n'' then Some ([CHR 0x0A], r)
     else if esc = CHR ''r'' then Some ([CHR 0x0D], r)
     else if esc = CHR ''t'' then Some ([CHR 0x09], r)
     else if esc = CHR ''u'' then
       (case json_unit r of None \<Rightarrow> None
        | Some (code, r1) \<Rightarrow>
            if 0xd800 \<le> code \<and> code \<le> 0xdbff then
              (if length r1 < 2 \<or> r1 ! 0 \<noteq> CHR 0x5C \<or> r1 ! 1 \<noteq> CHR ''u'' then None
               else case json_unit (drop 2 r1) of None \<Rightarrow> None
                    | Some (low, r2) \<Rightarrow>
                        if low < 0xdc00 \<or> low > 0xdfff then None
                        else Some (utf8_append (0x10000 + push_bit 10 (code - 0xd800) + (low - 0xdc00)), r2))
            else if 0xdc00 \<le> code \<and> code \<le> 0xdfff then None
            else Some (utf8_append code, r1))
     else None)"

lemma unit_loop_shrinks: "unit_loop k code s = Some (c, r) \<Longrightarrow> length r \<le> length s"
  by (induction k code s rule: unit_loop.induct) (auto split: option.splits)

lemma json_unit_shrinks: "json_unit s = Some (c, r) \<Longrightarrow> length r \<le> length s"
  by (auto simp: json_unit_def dest: unit_loop_shrinks split: if_splits)

lemma unescape_shrinks [parse_shrinks]: "unescape s = Some (out, r) \<Longrightarrow> length r < length s"
  by (cases s) (auto simp: unescape_def split: if_splits option.splits dest!: json_unit_shrinks)

function parse_string_loop :: "string \<Rightarrow> string \<Rightarrow> (string \<times> string) option" where
  "parse_string_loop value s =
    (case s of [] \<Rightarrow> None
     | c # r \<Rightarrow>
         if c = CHR 0x22 then Some (value, r)
         else if c \<noteq> CHR 0x5C then
           (if char_code c < 0x20 then None else parse_string_loop (value @ [c]) r)
         else (case unescape r of None \<Rightarrow> None
               | Some (out, r') \<Rightarrow> parse_string_loop (value @ out) r'))"
  by pat_completeness auto
termination
  by (relation "measure (\<lambda>(value, s). length s)") (auto dest: parse_shrinks)

declare parse_string_loop.simps [simp del]

definition parse_string :: "string \<Rightarrow> (string \<times> string) option" where
  "parse_string s = (case s of [] \<Rightarrow> None
     | c # r \<Rightarrow> if c \<noteq> CHR 0x22 then None else parse_string_loop [] r)"

definition at_digit :: "string \<Rightarrow> bool" where
  "at_digit s \<longleftrightarrow> s \<noteq> [] \<and> is_digit_of 10 (hd s)"

text \<open>The three parts of \<^verbatim>\<open>parseNumber\<close>: integer part, fraction, exponent; each returns the unread input.\<close>

definition number_int :: "string \<Rightarrow> string option" where
  "number_int s =
    (let s = (if s \<noteq> [] \<and> hd s = CHR ''-'' then tl s else s) in
     if \<not> at_digit s then None
     else if hd s = CHR ''0'' then (if at_digit (tl s) then None else Some (tl s))
     else Some (dropWhile (is_digit_of 10) s))"

definition number_frac :: "string \<Rightarrow> string option" where
  "number_frac s =
    (if s \<noteq> [] \<and> hd s = CHR ''.'' then
       (if \<not> at_digit (tl s) then None else Some (dropWhile (is_digit_of 10) (tl s)))
     else Some s)"

definition number_exp :: "string \<Rightarrow> string option" where
  "number_exp s =
    (if s \<noteq> [] \<and> (hd s = CHR ''e'' \<or> hd s = CHR ''E'') then
       (let t = tl s; u = (if t \<noteq> [] \<and> (hd t = CHR ''+'' \<or> hd t = CHR ''-'') then tl t else t) in
        if \<not> at_digit u then None else Some (dropWhile (is_digit_of 10) u))
     else Some s)"

definition parse_number :: "string \<Rightarrow> (string \<times> string) option" where
  "parse_number s =
    (case number_int s of None \<Rightarrow> None | Some s1 \<Rightarrow>
       (case number_frac s1 of None \<Rightarrow> None | Some s2 \<Rightarrow>
          (case number_exp s2 of None \<Rightarrow> None
           | Some s3 \<Rightarrow> Some (take (length s - length s3) s, s3))))"

section \<open>Values, arrays and objects\<close>

definition kMaxDepth :: nat where "kMaxDepth = 128"

function parse_value :: "nat \<Rightarrow> JValue \<Rightarrow> string \<Rightarrow> (JValue \<times> string) option"
  and parse_elems :: "nat \<Rightarrow> JValue \<Rightarrow> string \<Rightarrow> (JValue \<times> string) option"
  and parse_members :: "nat \<Rightarrow> JValue \<Rightarrow> string \<Rightarrow> (JValue \<times> string) option" where
  "parse_value depth out s =
    (if depth + 1 > kMaxDepth then None
     else case skipWs s of [] \<Rightarrow> None
     | c # r \<Rightarrow>
         if c = CHR 0x22 then
           (case parse_string (c # r) of None \<Rightarrow> None | Some (t, r') \<Rightarrow> Some (set_text TString t out, r'))
         else if c = CHR ''{'' then
           (case skipWs r of x # u \<Rightarrow>
              if x = CHR ''}'' then Some (set_type TObject out, u)
              else parse_members (depth + 1) (set_type TObject out) (x # u)
            | [] \<Rightarrow> None)
         else if c = CHR ''['' then
           (case skipWs r of x # u \<Rightarrow>
              if x = CHR '']'' then Some (set_type TArray out, u)
              else parse_elems (depth + 1) (set_type TArray out) (x # u)
            | [] \<Rightarrow> None)
         else if c = CHR ''-'' \<or> is_digit_of 10 c then
           (case parse_number (c # r) of None \<Rightarrow> None | Some (t, r') \<Rightarrow> Some (set_text TNumber t out, r'))
         else if take 4 (c # r) = ''true'' then Some (set_bool True out, drop 4 (c # r))
         else if take 5 (c # r) = ''false'' then Some (set_bool False out, drop 5 (c # r))
         else if take 4 (c # r) = ''null'' then Some (set_type TNull out, drop 4 (c # r))
         else None)"
| "parse_elems depth out s =
    (case parse_value depth default_value s of None \<Rightarrow> None
     | Some (item, s1) \<Rightarrow>
         (case skipWs s1 of [] \<Rightarrow> None
          | x # u \<Rightarrow>
              if x = CHR '']'' then Some (push_item item out, u)
              else (case consume (CHR '','') (x # u) of None \<Rightarrow> None
                    | Some s2 \<Rightarrow> parse_elems depth (push_item item out) s2)))"
| "parse_members depth out s =
    (case parse_string (skipWs s) of None \<Rightarrow> None
     | Some (k, s1) \<Rightarrow>
         (case consume (CHR '':'') s1 of None \<Rightarrow> None
          | Some s2 \<Rightarrow>
              (case parse_value depth default_value s2 of None \<Rightarrow> None
               | Some (v, s3) \<Rightarrow>
                   (case skipWs s3 of [] \<Rightarrow> None
                    | x # u \<Rightarrow>
                        if x = CHR ''}'' then Some (set_member k v out, u)
                        else (case consume (CHR '','') (x # u) of None \<Rightarrow> None
                              | Some s4 \<Rightarrow> parse_members depth (set_member k v out) s4)))))"
  by pat_completeness auto

lemma skipWs_length [simp]: "length (skipWs s) \<le> length s"
  by (simp add: skipWs_def length_dropWhile_le)

lemma skipWs_Cons_length: "skipWs s = c # r \<Longrightarrow> length r < length s"
  using skipWs_length [of s] by simp

lemma consume_shrinks: "consume c s = Some r \<Longrightarrow> length r < length s"
  by (auto simp: consume_def split: list.splits if_splits dest: skipWs_Cons_length)

lemma parse_string_loop_Cons:
  "parse_string_loop v (c # u) =
    (if c = CHR 0x22 then Some (v, u)
     else if c \<noteq> CHR 0x5C then (if char_code c < 0x20 then None else parse_string_loop (v @ [c]) u)
     else case unescape u of None \<Rightarrow> None | Some (out, r') \<Rightarrow> parse_string_loop (v @ out) r')"
  by (subst parse_string_loop.simps) simp

lemma parse_string_loop_Nil [simp]: "parse_string_loop v [] = None"
  by (subst parse_string_loop.simps) simp

lemma parse_string_loop_shrinks: "parse_string_loop v s = Some (t, r) \<Longrightarrow> length r < length s"
proof (induction v s rule: parse_string_loop.induct)
  case (1 v s)
  show ?case
  proof (cases s)
    case Nil
    with 1 show ?thesis by simp
  next
    case (Cons c u)
    note eq = "1.prems" [unfolded Cons parse_string_loop_Cons]
    show ?thesis
    proof (cases "c = CHR 0x5C")
      case True
      with eq obtain out r' where u: "unescape u = Some (out, r')" "parse_string_loop (v @ out) r' = Some (t, r)"
        by (auto split: option.splits)
      have "length r < length r'" using "1.IH"(2) [OF Cons _ _ u(1) refl] u(2) True by simp
      with unescape_shrinks [OF u(1)] Cons show ?thesis by simp
    next
      case False
      show ?thesis
      proof (cases "c = CHR 0x22")
        case True
        with eq Cons show ?thesis by simp
      next
        case nq: False
        from eq nq False have "\<not> char_code c < 0x20" "parse_string_loop (v @ [c]) u = Some (t, r)"
          by (auto split: if_splits)
        with "1.IH"(1) [OF Cons nq] False Cons show ?thesis by fastforce
      qed
    qed
  qed
qed

lemma parse_string_shrinks: "parse_string s = Some (t, r) \<Longrightarrow> length r < length s"
  by (cases s) (auto simp: parse_string_def split: if_splits dest: parse_string_loop_shrinks)

lemma parse_key_shrinks: "parse_string (skipWs s) = Some (t, r) \<Longrightarrow> length r < length s"
  using parse_string_shrinks [of "skipWs s" t r] skipWs_length [of s] by linarith

lemma number_int_shrinks: "number_int s = Some r \<Longrightarrow> length r < length s"
proof -
  assume a: "number_int s = Some r"
  let ?t = "if s \<noteq> [] \<and> hd s = CHR ''-'' then tl s else s"
  have t: "length ?t \<le> length s" by simp
  from a have d: "at_digit ?t" by (auto simp: number_int_def Let_def split: if_splits)
  then obtain c u where cu: "?t = c # u" "is_digit_of 10 c" by (cases ?t) (auto simp: at_digit_def)
  have "length (dropWhile (is_digit_of 10) ?t) \<le> length u"
    unfolding cu using cu(2) by (simp add: length_dropWhile_le)
  moreover have "r = tl ?t \<or> r = dropWhile (is_digit_of 10) ?t"
    using a by (auto simp: number_int_def Let_def split: if_splits)
  ultimately have "length r \<le> length u" using cu(1) by auto
  with t cu(1) show ?thesis by simp
qed

lemma number_frac_shrinks: "number_frac s = Some r \<Longrightarrow> length r \<le> length s"
  using length_dropWhile_le [of "is_digit_of 10" "tl s"]
  by (auto simp: number_frac_def split: if_splits)

lemma number_exp_shrinks: "number_exp s = Some r \<Longrightarrow> length r \<le> length s"
  using length_dropWhile_le [of "is_digit_of 10" "tl s"] length_dropWhile_le [of "is_digit_of 10" "tl (tl s)"]
  by (auto simp: number_exp_def Let_def split: if_splits)

lemma parse_number_shrinks: "parse_number s = Some (t, r) \<Longrightarrow> length r < length s"
  by (auto simp: parse_number_def split: option.splits
        dest!: number_int_shrinks number_frac_shrinks number_exp_shrinks)

lemmas lex_shrinks = skipWs_Cons_length consume_shrinks parse_string_shrinks parse_number_shrinks

lemma parse_elemsE:
  assumes "(case pv of None \<Rightarrow> None
     | Some (item, s1) \<Rightarrow>
         (case skipWs s1 of [] \<Rightarrow> None
          | x # u \<Rightarrow>
              if x = CHR '']'' then Some (push_item item out, u)
              else (case consume (CHR '','') (x # u) of None \<Rightarrow> None
                    | Some s2 \<Rightarrow> f (push_item item out) s2))) = Some (v, r)"
  obtains (last) item s1 where "pv = Some (item, s1)" "skipWs s1 = CHR '']'' # r" "v = push_item item out"
    | (more) item s1 x u s2 where "pv = Some (item, s1)" "skipWs s1 = x # u" "x \<noteq> CHR '']''"
        "consume (CHR '','') (x # u) = Some s2" "f (push_item item out) s2 = Some (v, r)"
  using assms by (auto split: option.splits list.splits if_splits)

lemma parse_membersE:
  assumes "(case ps of None \<Rightarrow> None
     | Some (k, s1) \<Rightarrow>
         (case consume (CHR '':'') s1 of None \<Rightarrow> None
          | Some s2 \<Rightarrow>
              (case pv s2 of None \<Rightarrow> None
               | Some (w, s3) \<Rightarrow>
                   (case skipWs s3 of [] \<Rightarrow> None
                    | x # u \<Rightarrow>
                        if x = CHR ''}'' then Some (set_member k w out, u)
                        else (case consume (CHR '','') (x # u) of None \<Rightarrow> None
                              | Some s4 \<Rightarrow> f (set_member k w out) s4))))) = Some (v, r)"
  obtains (last) k s1 s2 w s3 where "ps = Some (k, s1)" "consume (CHR '':'') s1 = Some s2" "pv s2 = Some (w, s3)"
        "skipWs s3 = CHR ''}'' # r" "v = set_member k w out"
    | (more) k s1 s2 w s3 x u s4 where "ps = Some (k, s1)" "consume (CHR '':'') s1 = Some s2" "pv s2 = Some (w, s3)"
        "skipWs s3 = x # u" "x \<noteq> CHR ''}''" "consume (CHR '','') (x # u) = Some s4"
        "f (set_member k w out) s4 = Some (v, r)"
  using assms by (auto split: option.splits list.splits if_splits)

lemma parse_dom_shrinks:
  "parse_value_parse_elems_parse_members_dom (Inl (d, out, s)) \<Longrightarrow>
     parse_value d out s = Some (v, r) \<Longrightarrow> length r < length s"
  "parse_value_parse_elems_parse_members_dom (Inr (Inl (d, out, s))) \<Longrightarrow>
     parse_elems d out s = Some (v, r) \<Longrightarrow> length r < length s"
  "parse_value_parse_elems_parse_members_dom (Inr (Inr (d, out, s))) \<Longrightarrow>
     parse_members d out s = Some (v, r) \<Longrightarrow> length r < length s"
proof (induction arbitrary: v r and v r and v r rule: parse_value_parse_elems_parse_members.pinduct)
  case (1 depth out s)
  then show ?case
    by (force simp: parse_value.psimps split: if_splits option.splits list.splits dest: lex_shrinks)
next
  case (2 depth out s)
  from "2.prems" show ?case unfolding parse_elems.psimps [OF "2.hyps"]
  proof (cases rule: parse_elemsE)
    case (last item s1)
    from skipWs_Cons_length [OF last(2)] "2.IH"(1) [OF last(1)] show ?thesis by simp
  next
    case (more item s1 x u s2)
    from skipWs_Cons_length [OF more(2)] consume_shrinks [OF more(4)] "2.IH"(1) [OF more(1)]
      "2.IH"(2) [OF more(1) refl more(2,3,4,5)] show ?thesis by simp
  qed
next
  case (3 depth out s)
  from "3.prems" show ?case unfolding parse_members.psimps [OF "3.hyps"]
  proof (cases rule: parse_membersE)
    case (last k s1 s2 w s3)
    from skipWs_Cons_length [OF last(4)] "3.IH"(1) [OF last(1) refl last(2,3)] consume_shrinks [OF last(2)]
      parse_key_shrinks [OF last(1)] show ?thesis by simp
  next
    case (more k s1 s2 w s3 x u s4)
    from skipWs_Cons_length [OF more(4)] "3.IH"(1) [OF more(1) refl more(2,3)] consume_shrinks [OF more(2)]
      parse_key_shrinks [OF more(1)] consume_shrinks [OF more(6)]
      "3.IH"(2) [OF more(1) refl more(2,3) refl more(4,5,6,7)] show ?thesis by simp
  qed
qed

termination parse_value
  apply (relation "measure (\<lambda>x. case x of Inl (d, out, s) \<Rightarrow> 2 * length s
        | Inr (Inl (d, out, s)) \<Rightarrow> 2 * length s + 1 | Inr (Inr (d, out, s)) \<Rightarrow> 2 * length s + 1)")
  subgoal by simp
  subgoal by (auto dest!: skipWs_Cons_length)
  subgoal by (auto dest!: skipWs_Cons_length)
  subgoal by simp
  subgoal by (auto dest!: skipWs_Cons_length consume_shrinks parse_dom_shrinks(1))
  subgoal by (auto dest!: consume_shrinks parse_key_shrinks)
  subgoal by (auto dest!: skipWs_Cons_length consume_shrinks parse_dom_shrinks(1) parse_key_shrinks)
  done

declare parse_value.simps [simp del] parse_elems.simps [simp del] parse_members.simps [simp del]

text \<open>\<^verbatim>\<open>Parser(input).parse(out)\<close>: an optional byte order mark, one value, nothing but blanks after it.\<close>

definition json_parse :: "string \<Rightarrow> JValue \<Rightarrow> JValue option" where
  "json_parse input out =
    (let s = (if take 3 input = [CHR 0xEF, CHR 0xBB, CHR 0xBF] then drop 3 input else input)
     in case parse_value 0 out (skipWs s) of None \<Rightarrow> None
        | Some (v, r) \<Rightarrow> if skipWs r = [] then Some v else None)"

section \<open>Writing\<close>

text \<open>Length of the well-formed UTF-8 sequence at the start of the text, 0 if there is none.\<close>

definition utf8Sequence :: "string \<Rightarrow> nat" where
  "utf8Sequence s =
    (let byte = (\<lambda>k. char_code (s ! k));
         lead = byte 0;
         (len, low, high) =
           (if 0xC2 \<le> lead \<and> lead \<le> 0xDF then (2, 0x80, 0xBF)
            else if 0xE0 \<le> lead \<and> lead \<le> 0xEF then
              (3, if lead = 0xE0 then 0xA0 else 0x80, if lead = 0xED then 0x9F else 0xBF)
            else if 0xF0 \<le> lead \<and> lead \<le> 0xF4 then
              (4, if lead = 0xF0 then 0x90 else 0x80, if lead = 0xF4 then 0x8F else 0xBF)
            else (0, 0, 0))
     in if len = 0 then 0
        else if len > length s then 0
        else if byte 1 < low \<or> byte 1 > high then 0
        else if list_ex (\<lambda>k. (byte k AND 0xC0) \<noteq> 0x80) [2..<len] then 0
        else len)"

text \<open>The \<^verbatim>\<open>switch (c)\<close> of \<^verbatim>\<open>escape\<close>, for a character below 0x80.\<close>

definition escape_ascii :: "char \<Rightarrow> string" where
  "escape_ascii c =
    (if c = CHR 0x5C then [CHR 0x5C, CHR 0x5C]
     else if c = CHR 0x22 then [CHR 0x5C, CHR 0x22]
     else if c = CHR 0x0A then [CHR 0x5C, CHR ''n'']
     else if c = CHR 0x0D then [CHR 0x5C, CHR ''r'']
     else if c = CHR 0x09 then [CHR 0x5C, CHR ''t'']
     else if c = CHR 0x08 then [CHR 0x5C, CHR ''b'']
     else if c = CHR 0x0C then [CHR 0x5C, CHR ''f'']
     else if char_code c < 0x20 then
       [CHR 0x5C, CHR ''u'', CHR ''0'', CHR ''0'', digit_char (char_code c div 16), digit_char (char_code c mod 16)]
     else [c])"

function escape :: "string \<Rightarrow> string" where
  "escape [] = []"
| "escape (c # r) =
    (if char_code c \<ge> 0x80 then
       (let n = utf8Sequence (c # r) in
        if n \<noteq> 0 then take n (c # r) @ escape (drop n (c # r))
        else [CHR 0x5C, CHR ''u'', CHR ''f'', CHR ''f'', CHR ''f'', CHR ''d''] @ escape r)
     else escape_ascii c @ escape r)"
  by pat_completeness auto
termination
  by (relation "measure length") auto

fun join_comma :: "string list \<Rightarrow> string" where
  "join_comma [] = []"
| "join_comma [x] = x"
| "join_comma (x # y # zs) = x @ CHR '','' # join_comma (y # zs)"

definition quoted :: "string \<Rightarrow> string" where
  "quoted s = CHR 0x22 # escape s @ [CHR 0x22]"

text \<open>
  The object case of \<^verbatim>\<open>write\<close>, given the texts of the members: the keys listed in the order first,
  then, when the order does not list as many keys as the map holds, the unlisted ones.
\<close>

definition write_object :: "string list \<Rightarrow> (string \<times> string) list \<Rightarrow> string" where
  "write_object order texts =
    (let member = (\<lambda>(k, t). quoted k @ CHR '':'' # t);
         listed = List.map_filter (\<lambda>k. map_option (\<lambda>t. member (k, t)) (map_of texts k)) order;
         others = (if length order \<noteq> length texts
                   then map member (filter (\<lambda>(k, t). k \<notin> set order) texts) else [])
     in CHR ''{'' # join_comma (listed @ others) @ [CHR ''}''])"

fun write_value :: "JValue \<Rightarrow> string" where
  "write_value (JV t b s a m order) =
    (case t of
       TNull \<Rightarrow> ''null''
     | TBool \<Rightarrow> (if b then ''true'' else ''false'')
     | TNumber \<Rightarrow> (if s = [] then ''0'' else s)
     | TString \<Rightarrow> quoted s
     | TArray \<Rightarrow> CHR ''['' # join_comma (map write_value a) @ [CHR '']'']
     | TObject \<Rightarrow> write_object order (map (\<lambda>(k, v). (k, write_value v)) m))"

definition dump :: "JValue \<Rightarrow> string" where
  "dump v = write_value v"

section \<open>Strings survive escaping\<close>

text \<open>
  What a reader sees of a written string: the well-formed UTF-8 sequences and ASCII characters as
  they are, every other byte replaced by U+FFFD.
\<close>

function sanitize :: "string \<Rightarrow> string" where
  "sanitize [] = []"
| "sanitize (c # r) =
    (if char_code c \<ge> 0x80 then
       (let n = utf8Sequence (c # r) in
        if n \<noteq> 0 then take n (c # r) @ sanitize (drop n (c # r))
        else [CHR 0xEF, CHR 0xBF, CHR 0xBD] @ sanitize r)
     else c # sanitize r)"
  by pat_completeness auto
termination
  by (relation "measure length") auto

text \<open>Characters the string loop copies as they are.\<close>

definition plain_char :: "char \<Rightarrow> bool" where
  "plain_char c \<longleftrightarrow> char_code c \<ge> 0x20 \<and> c \<noteq> CHR 0x22 \<and> c \<noteq> CHR 0x5C"

lemma char_code_less: "char_code c < 256"
proof -
  have "(of_char c :: nat) mod 256 = of_char c" by (rule of_char_mod_256)
  then show ?thesis unfolding char_code_def using mod_less_divisor [of 256 "of_char c :: nat"] by simp
qed

lemma char_of_char_code: "char_of (char_code c) = c"
  by (simp add: char_code_def)

lemma high_plain: "char_code c \<ge> 0x80 \<Longrightarrow> plain_char c"
  by (auto simp: plain_char_def char_code_def)

lemma parse_string_loop_plain:
  "\<forall>c \<in> set xs. plain_char c \<Longrightarrow> parse_string_loop acc (xs @ t) = parse_string_loop (acc @ xs) t"
  by (induction xs arbitrary: acc) (auto simp: parse_string_loop_Cons plain_char_def)

lemma continuation_high:
  assumes "(n :: nat) AND 0xC0 = 0x80"
  shows "n \<ge> 0x80"
proof (rule ccontr)
  assume "\<not> n \<ge> 0x80"
  then have "\<not> bit n 7" by (simp add: bit_iff_odd)
  then have "\<not> bit (n AND 0xC0) 7" by (simp add: bit_and_iff)
  moreover have "bit (0x80 :: nat) 7" by code_simp
  ultimately show False using assms by simp
qed

lemma utf8Sequence_bytes:
  assumes "utf8Sequence s \<noteq> 0"
  shows "char_code (s ! 0) \<ge> 0x80" "char_code (s ! 1) \<ge> 0x80" "utf8Sequence s \<le> 4"
    "utf8Sequence s > 2 \<Longrightarrow> (char_code (s ! 2) AND 0xC0) = 0x80"
    "utf8Sequence s > 3 \<Longrightarrow> (char_code (s ! 3) AND 0xC0) = 0x80"
  using assms unfolding utf8Sequence_def Let_def
  by (auto simp: list_ex_iff split: if_splits)

lemma utf8Sequence_high:
  assumes "utf8Sequence s \<noteq> 0" "c \<in> set (take (utf8Sequence s) s)"
  shows "char_code c \<ge> 0x80"
proof -
  obtain k where k: "k < utf8Sequence s" "c = s ! k"
    using assms(2) by (auto simp: in_set_conv_nth)
  note b = utf8Sequence_bytes [OF assms(1)]
  from k(1) b(3) consider "k = 0" | "k = 1" | "k = 2" | "k = 3" by linarith
  then show ?thesis
    by cases (use b k continuation_high in auto)
qed

lemma json_unit_digits:
  assumes "digit_value a = Some x" "digit_value b = Some y" "digit_value c = Some z" "digit_value d = Some w"
  shows "json_unit (a # b # c # d # t) = Some (((x * 16 + y) * 16 + z) * 16 + w, t)"
proof -
  have four: "(4 :: nat) = Suc (Suc (Suc (Suc 0)))" by simp
  show ?thesis unfolding json_unit_def four using assms by simp
qed

lemma unescape_control:
  assumes "char_code c < 0x20"
  shows "unescape (CHR ''u'' # CHR ''0'' # CHR ''0'' # digit_char (char_code c div 16) #
            digit_char (char_code c mod 16) # t) = Some ([c], t)"
proof -
  have z: "digit_value (CHR ''0'') = Some 0" by (simp add: digit_value_def char_code_def)
  have d: "digit_value (digit_char (char_code c div 16)) = Some (char_code c div 16)"
    "digit_value (digit_char (char_code c mod 16)) = Some (char_code c mod 16)"
    using assms by simp_all
  from json_unit_digits [OF z z d, of t]
  have "json_unit (CHR ''0'' # CHR ''0'' # digit_char (char_code c div 16) #
            digit_char (char_code c mod 16) # t) = Some (char_code c, t)"
    by simp
  with assms show ?thesis by (simp add: unescape_def utf8_append_def char_of_char_code)
qed

lemma unescape_fffd:
  "unescape (CHR ''u'' # CHR ''f'' # CHR ''f'' # CHR ''f'' # CHR ''d'' # t) =
     Some ([CHR 0xEF, CHR 0xBF, CHR 0xBD], t)"
proof -
  have d: "digit_value (CHR ''f'') = Some 15" "digit_value (CHR ''d'') = Some 13"
    by (simp_all add: digit_value_def char_code_def)
  from json_unit_digits [OF d(1) d(1) d(1) d(2), of t]
  have "json_unit (CHR ''f'' # CHR ''f'' # CHR ''f'' # CHR ''d'' # t) = Some (0xfffd, t)"
    by simp
  moreover have "utf8_append 0xfffd = [CHR 0xEF, CHR 0xBF, CHR 0xBD]" by code_simp
  ultimately show ?thesis by (simp add: unescape_def)
qed

lemma parse_escape_ascii:
  assumes "char_code c < 0x80"
  shows "parse_string_loop acc (escape_ascii c @ t) = parse_string_loop (acc @ [c]) t"
proof -
  have simple: "unescape (CHR 0x5C # t) = Some ([CHR 0x5C], t)" "unescape (CHR 0x22 # t) = Some ([CHR 0x22], t)"
    "unescape (CHR ''n'' # t) = Some ([CHR 0x0A], t)" "unescape (CHR ''r'' # t) = Some ([CHR 0x0D], t)"
    "unescape (CHR ''t'' # t) = Some ([CHR 0x09], t)" "unescape (CHR ''b'' # t) = Some ([CHR 0x08], t)"
    "unescape (CHR ''f'' # t) = Some ([CHR 0x0C], t)"
    by (simp_all add: unescape_def)
  show ?thesis
    by (simp add: escape_ascii_def parse_string_loop_Cons simple unescape_control)
qed

lemma parse_escape:
  "parse_string_loop acc (escape s @ CHR 0x22 # t) = Some (acc @ sanitize s, t)"
proof (induction s arbitrary: acc rule: escape.induct)
  case 1
  then show ?case by (simp add: parse_string_loop_Cons)
next
  case (2 c r)
  let ?n = "utf8Sequence (c # r)"
  consider (ascii) "char_code c < 0x80" | (seq) "char_code c \<ge> 0x80" "?n \<noteq> 0"
    | (bad) "char_code c \<ge> 0x80" "?n = 0" by linarith
  then show ?case
  proof cases
    case ascii
    with 2(3) show ?thesis by (simp add: parse_escape_ascii)
  next
    case seq
    have "\<forall>x \<in> set (take ?n (c # r)). plain_char x"
      using utf8Sequence_high [OF seq(2)] high_plain by blast
    then show ?thesis using seq 2(1) [OF seq(1) refl seq(2)]
      by (simp add: Let_def parse_string_loop_plain del: take_Cons drop_Cons)
  next
    case bad
    with 2(2) show ?thesis by (simp add: Let_def parse_string_loop_Cons unescape_fffd)
  qed
qed

lemma parse_quoted: "parse_string (quoted s @ t) = Some (sanitize s, t)"
  by (simp add: parse_string_def quoted_def parse_escape)

section \<open>Numbers\<close>

definition is_number_text :: "string \<Rightarrow> bool" where
  "is_number_text t \<longleftrightarrow> parse_number t = Some (t, [])"

text \<open>What may follow a value inside a document.\<close>

definition stops :: "string \<Rightarrow> bool" where
  "stops rest \<longleftrightarrow> (rest = [] \<or> hd rest \<in> {CHR '','', CHR '']'', CHR ''}''})"

lemma stops_simps [simp]:
  "stops []" "stops (CHR '','' # r)" "stops (CHR '']'' # r)" "stops (CHR ''}'' # r)"
  by (simp_all add: stops_def)

lemma stops_not_digit: "stops rest \<Longrightarrow> \<not> at_digit rest"
  by (auto simp: stops_def at_digit_def is_digit_of_def digit_value_def char_code_def)

lemma stops_dropWhile: "stops rest \<Longrightarrow> dropWhile (is_digit_of 10) rest = rest"
  using stops_not_digit [of rest] by (cases rest) (auto simp: at_digit_def)

lemma dropWhile_stops:
  "stops rest \<Longrightarrow> dropWhile (is_digit_of 10) (s @ rest) = dropWhile (is_digit_of 10) s @ rest"
  by (induction s) (auto simp: stops_dropWhile)

lemma at_digit_append: "stops rest \<Longrightarrow> at_digit (s @ rest) = at_digit s"
  using stops_not_digit [of rest] by (cases s) (auto simp: at_digit_def)

lemma number_int_append:
  assumes "number_int s = Some r" "stops rest"
  shows "number_int (s @ rest) = Some (r @ rest)"
proof -
  let ?t = "if s \<noteq> [] \<and> hd s = CHR ''-'' then tl s else s"
  have "s \<noteq> []" using assms(1) by (auto simp: number_int_def at_digit_def)
  then have t: "(if s @ rest \<noteq> [] \<and> hd (s @ rest) = CHR ''-'' then tl (s @ rest) else s @ rest) = ?t @ rest"
    by simp
  have "at_digit ?t" using assms(1) by (auto simp: number_int_def Let_def split: if_splits)
  then obtain c u where cu: "?t = c # u" "is_digit_of 10 c" by (cases ?t) (auto simp: at_digit_def)
  have d: "at_digit (c # v)" for v using cu(2) by (simp add: at_digit_def)
  show ?thesis using assms d unfolding number_int_def t cu(1) Let_def
    by (auto simp: at_digit_append dropWhile_stops cu(2) split: if_splits)
qed

lemma number_frac_append:
  assumes "number_frac s = Some r" "stops rest"
  shows "number_frac (s @ rest) = Some (r @ rest)"
proof (cases s)
  case Nil
  with assms show ?thesis by (auto simp: number_frac_def stops_def)
next
  case (Cons c u)
  with assms show ?thesis by (auto simp: number_frac_def at_digit_append dropWhile_stops split: if_splits)
qed

lemma number_exp_append:
  assumes "number_exp s = Some r" "stops rest"
  shows "number_exp (s @ rest) = Some (r @ rest)"
proof (cases s)
  case Nil
  with assms show ?thesis by (auto simp: number_exp_def stops_def)
next
  case (Cons c u)
  show ?thesis
  proof (cases u)
    case Nil
    with Cons assms show ?thesis by (auto simp: number_exp_def at_digit_def split: if_splits)
  next
    case (Cons d w)
    with \<open>s = c # u\<close> assms show ?thesis
      by (auto simp: number_exp_def Let_def at_digit_append dropWhile_stops
            at_digit_append [of rest "d # w", simplified] dropWhile_stops [of rest "d # w", simplified]
            split: if_splits)
  qed
qed

lemma parse_number_append:
  assumes "is_number_text t" "stops rest"
  shows "parse_number (t @ rest) = Some (t, rest)"
proof -
  from assms(1) obtain s1 s2 where n: "number_int t = Some s1" "number_frac s1 = Some s2" "number_exp s2 = Some []"
    by (auto simp: is_number_text_def parse_number_def split: option.splits)
  show ?thesis
    using number_int_append [OF n(1) assms(2)] number_frac_append [OF n(2) assms(2)]
      number_exp_append [OF n(3) assms(2)]
    by (simp add: parse_number_def)
qed

lemma number_text_first:
  assumes "is_number_text t"
  obtains c u where "t = c # u" "c = CHR ''-'' \<or> is_digit_of 10 c"
proof -
  have "number_int t \<noteq> None" using assms by (auto simp: is_number_text_def parse_number_def split: option.splits)
  then have "t \<noteq> []" "hd t = CHR ''-'' \<or> is_digit_of 10 (hd t)"
    by (auto simp: number_int_def at_digit_def split: if_splits)
  then show thesis using that by (cases t) auto
qed

text \<open>The integers the builders print are JSON numbers.\<close>

lemma number_int_decimal:
  assumes "s = show_base 10 n \<or> s = CHR ''-'' # show_base 10 n"
  shows "number_int s = Some []"
proof -
  have digits: "\<forall>c \<in> set (show_base 10 n). is_digit_of 10 c" by (rule show_base_digits) simp_all
  obtain c u where cu: "show_base 10 n = c # u" by (cases "show_base 10 n") auto
  have c: "is_digit_of 10 c" using digits cu by simp
  note c = c digit_not_special(2) [OF c]
  have t: "(if s \<noteq> [] \<and> hd s = CHR ''-'' then tl s else s) = show_base 10 n"
    using assms cu c by auto
  have zero: "c = CHR ''0'' \<Longrightarrow> u = []"
    using hd_show_base [of 10 n] cu by (cases "n = 0") (auto simp: show_base_def digits_of.simps)
  have d: "at_digit (c # u)" "dropWhile (is_digit_of 10) (c # u) = []"
    using c(1) digits cu by (auto simp: at_digit_def)
  show ?thesis unfolding number_int_def t cu Let_def using d zero by (auto simp: at_digit_def)
qed

lemma show_int_number: "is_number_text (show_int n)"
proof -
  have "number_int (show_int n) = Some []" by (rule number_int_decimal [of _ "nat \<bar>n\<bar>"]) (auto simp: show_int_def)
  then show ?thesis by (simp add: is_number_text_def parse_number_def number_frac_def number_exp_def)
qed

section \<open>Canonical values\<close>

text \<open>
  The values the parser and the builders make: every field of another type is empty, number texts
  are JSON numbers, and the order lists the keys of the map, each once.
\<close>

inductive canon :: "(string \<Rightarrow> bool) \<Rightarrow> JValue \<Rightarrow> bool" for K :: "string \<Rightarrow> bool" where
  canon_null: "canon K (JV TNull False [] [] [] [])"
| canon_bool: "canon K (JV TBool b [] [] [] [])"
| canon_number: "is_number_text s \<Longrightarrow> canon K (JV TNumber False s [] [] [])"
| canon_string: "canon K (JV TString False s [] [] [])"
| canon_array: "(\<And>v. v \<in> set a \<Longrightarrow> canon K v) \<Longrightarrow> canon K (JV TArray False [] a [] [])"
| canon_object: "distinct (map fst m) \<Longrightarrow> (\<And>k v. (k, v) \<in> set m \<Longrightarrow> K k \<and> canon K v) \<Longrightarrow>
    order = map fst m \<Longrightarrow> canon K (JV TObject False [] [] m order)"

inductive_simps canon_array_iff: "canon K (JV TArray b s a m order)"
inductive_simps canon_object_iff: "canon K (JV TObject b s a m order)"

text \<open>Nesting depth, as the parser counts it, and what a reader sees of the strings of a value.\<close>

fun jdepth :: "JValue \<Rightarrow> nat" where
  "jdepth (JV t b s a m order) = Suc (fold max (map jdepth a @ map (\<lambda>(k, v). jdepth v) m) 0)"

fun san_value :: "JValue \<Rightarrow> JValue" where
  "san_value (JV t b s a m order) =
     JV t b (if t = TString then sanitize s else s) (map san_value a)
       (map (\<lambda>(k, v). (k, san_value v)) m) order"

lemma fold_max_le: "fold max xs (n :: nat) \<le> b \<longleftrightarrow> n \<le> b \<and> (\<forall>x \<in> set xs. x \<le> b)"
  by (induction xs arbitrary: n) auto

lemma jdepth_le:
  "jdepth (JV t b s a m order) \<le> n \<longleftrightarrow>
     (\<exists>n'. n = Suc n' \<and> (\<forall>v \<in> set a. jdepth v \<le> n') \<and> (\<forall>(k, v) \<in> set m. jdepth v \<le> n'))"
  by (cases n) (auto simp: fold_max_le)

declare jdepth.simps [simp del]

lemma jdepth_pos: "0 < jdepth v"
  by (cases v) (simp add: jdepth.simps)

lemma assign_fresh: "k \<notin> fst ` set m \<Longrightarrow> assign k v m = m @ [(k, v)]"
  by (induction m) auto

lemma map_of_None_fst: "map_of m k = None \<longleftrightarrow> k \<notin> fst ` set m"
  by (simp add: map_of_eq_None_iff)

lemma keys_assign: "map_of m k \<noteq> None \<Longrightarrow> map fst (assign k v m) = map fst m"
  by (induction m) auto

lemma set_assign: "set (assign k v m) \<subseteq> insert (k, v) (set m)"
  by (induction m) (auto split: if_splits)

lemma map_of_assign: "map_of (assign k v m) = (map_of m)(k \<mapsto> v)"
  by (induction m) (auto simp: fun_eq_iff)

section \<open>Writing and parsing back\<close>

lemma number_first_char:
  assumes "c = CHR ''-'' \<or> is_digit_of 10 c"
  shows "\<not> json_ws c" "c \<notin> {CHR 0x22, CHR ''{'', CHR ''['', CHR ''}'', CHR '']''}"
  using assms
  by (auto simp: json_ws_def is_digit_of_def digit_value_def char_code_def Let_def split: if_splits)

lemma write_first:
  assumes "canon K v"
  obtains c u where "write_value v = c # u" "\<not> json_ws c" "c \<noteq> CHR '']''" "c \<noteq> CHR ''}''"
  using assms
proof (cases rule: canon.cases)
  case (canon_number s)
  then obtain c u where "s = c # u" "c = CHR ''-'' \<or> is_digit_of 10 c" by (auto elim: number_text_first)
  with that canon_number number_first_char [of c] show thesis by auto
next
  case (canon_bool b)
  with that show thesis by (cases b) (auto simp: json_ws_def)
qed (use that in \<open>auto simp: json_ws_def quoted_def write_object_def\<close>)

lemma skipWs_non_ws: "\<not> json_ws c \<Longrightarrow> skipWs (c # u) = c # u"
  by (simp add: skipWs_def)

lemma skipWs_punct [simp]:
  "skipWs (CHR '','' # u) = CHR '','' # u" "skipWs (CHR '']'' # u) = CHR '']'' # u"
  "skipWs (CHR ''}'' # u) = CHR ''}'' # u" "skipWs (CHR '':'' # u) = CHR '':'' # u"
  "skipWs (CHR 0x22 # u) = CHR 0x22 # u" "skipWs [] = []"
  by (simp_all add: skipWs_def json_ws_def)

lemma consume_punct [simp]:
  "consume (CHR '','') (CHR '','' # u) = Some u" "consume (CHR '':'') (CHR '':'' # u) = Some u"
  by (simp_all add: consume_def)

lemma quoted_append [simp]: "skipWs (quoted k @ u) = quoted k @ u"
  by (simp add: quoted_def)

lemma parse_value_number:
  assumes "is_number_text s" "stops rest" "d < kMaxDepth"
  shows "parse_value d default_value (s @ rest) = Some (JV TNumber False s [] [] [], rest)"
proof -
  obtain c u where cu: "s = c # u" "c = CHR ''-'' \<or> is_digit_of 10 c"
    using assms(1) by (rule number_text_first)
  have nw: "\<not> json_ws c" "c \<noteq> CHR 0x22" "c \<noteq> CHR ''{''" "c \<noteq> CHR ''[''"
    using number_first_char [OF cu(2)] by auto
  note pn = parse_number_append [OF assms(1,2), unfolded cu(1), simplified]
  show ?thesis
    by (subst parse_value.simps) (use assms(3) cu nw pn in \<open>simp add: skipWs_non_ws default_value_def\<close>)
qed

lemma parse_value_scalar:
  assumes "d < kMaxDepth"
  shows "parse_value d default_value (''null'' @ rest) = Some (JV TNull False [] [] [] [], rest)"
    "parse_value d default_value (''true'' @ rest) = Some (JV TBool True [] [] [] [], rest)"
    "parse_value d default_value (''false'' @ rest) = Some (JV TBool False [] [] [] [], rest)"
    "parse_value d default_value (quoted s @ rest) = Some (JV TString False (sanitize s) [] [] [], rest)"
  using assms parse_quoted [of s rest]
  by (simp_all add: parse_value.simps [of d] skipWs_def json_ws_def default_value_def quoted_def
      is_digit_of_def digit_value_def char_code_def)

lemma parse_elems_write:
  assumes "\<And>v r. v \<in> set a \<Longrightarrow> stops r \<Longrightarrow> parse_value d default_value (write_value v @ r) = Some (san_value v, r)"
    and "a \<noteq> []"
  shows "parse_elems d (JV TArray False [] acc [] []) (join_comma (map write_value a) @ CHR '']'' # rest) =
    Some (JV TArray False [] (acc @ map san_value a) [] [], rest)"
  using assms
proof (induction a arbitrary: acc rule: induct_list012)
  case 1
  then show ?case by simp
next
  case (2 v)
  then show ?case by (subst parse_elems.simps) simp
next
  case (3 v w a)
  from 3(3) [of v] show ?case
    by (subst parse_elems.simps) (use 3 in simp)
qed

text \<open>The writer on an object whose order lists its keys.\<close>

definition member_text :: "string \<times> string \<Rightarrow> string" where
  "member_text kt = (case kt of (k, t) \<Rightarrow> quoted k @ CHR '':'' # t)"

lemma map_filter_keys:
  "distinct (map fst ts) \<Longrightarrow> set us \<subseteq> set ts \<Longrightarrow>
   List.map_filter (\<lambda>k. map_option (\<lambda>t. f (k, t)) (map_of ts k)) (map fst us) = map f us"
proof (induction us)
  case (Cons u us)
  have "map_of ts (fst u) = Some (snd u)" using Cons.prems by (intro map_of_is_SomeI) auto
  then have "List.map_filter (\<lambda>k. map_option (\<lambda>t. f (k, t)) (map_of ts k)) (map fst (u # us)) =
    f (fst u, snd u) # List.map_filter (\<lambda>k. map_option (\<lambda>t. f (k, t)) (map_of ts k)) (map fst us)"
    by (simp only: List.map_filter_simps list.map option.map option.case)
  with Cons show ?case by simp
qed (simp add: List.map_filter_simps)

lemma write_object_keys:
  assumes "distinct (map fst m)"
  shows "write_object (map fst m) (map (\<lambda>(k, v). (k, w v)) m) =
    CHR ''{'' # join_comma (map (\<lambda>(k, v). member_text (k, w v)) m) @ [CHR ''}'']"
proof -
  let ?ts = "map (\<lambda>(k, v). (k, w v)) m"
  have fst: "map fst ?ts = map fst m" by auto
  have "distinct (map fst ?ts)" unfolding fst by (rule assms)
  from map_filter_keys [OF this subset_refl, of "\<lambda>(k, t). quoted k @ CHR '':'' # t"]
  show ?thesis unfolding fst
    by (simp add: write_object_def Let_def comp_def member_text_def case_prod_unfold)
qed

lemma parse_members_write:
  assumes "\<And>k v r. (k, v) \<in> set m \<Longrightarrow> stops r \<Longrightarrow>
      parse_value d default_value (write_value v @ r) = Some (san_value v, r)"
    and "\<And>k v. (k, v) \<in> set m \<Longrightarrow> sanitize k = k"
    and "distinct (map fst (acc @ m))" and "m \<noteq> []"
  shows "parse_members d (JV TObject False [] [] acc (map fst acc))
      (join_comma (map (\<lambda>(k, v). member_text (k, write_value v)) m) @ CHR ''}'' # rest) =
    Some (JV TObject False [] [] (acc @ map (\<lambda>(k, v). (k, san_value v)) m) (map fst (acc @ m)), rest)"
  using assms
proof (induction m arbitrary: acc rule: induct_list012)
  case 1
  then show ?case by simp
next
  case (2 kv)
  obtain k v where kv: "kv = (k, v)" by force
  have "k \<notin> fst ` set acc" "sanitize k = k" using 2 kv by auto
  with 2 kv show ?case
    by (subst parse_members.simps)
       (simp add: member_text_def parse_quoted assign_fresh map_of_None_fst)
next
  case (3 kv lw m)
  obtain k v where kv: "kv = (k, v)" by force
  have k: "k \<notin> fst ` set acc" "sanitize k = k" using 3(4,5) kv by auto
  have "parse_members d (JV TObject False [] [] (acc @ [(k, san_value v)]) (map fst (acc @ [(k, san_value v)])))
      (join_comma (map (\<lambda>(k, v). member_text (k, write_value v)) (lw # m)) @ CHR ''}'' # rest) =
    Some (JV TObject False [] [] ((acc @ [(k, san_value v)]) @ map (\<lambda>(k, v). (k, san_value v)) (lw # m))
      (map fst ((acc @ [(k, san_value v)]) @ lw # m)), rest)"
  proof (rule 3(2))
    show "distinct (map fst ((acc @ [(k, san_value v)]) @ lw # m))" using 3(5) kv by auto
  qed (use 3(3,4) in \<open>(metis list.set_intros(2))+\<close>, simp)
  moreover have "stops r \<Longrightarrow> parse_value d default_value (write_value v @ r) = Some (san_value v, r)" for r
    using 3(3) [of k v] kv by simp
  ultimately show ?case using k kv
    by (subst parse_members.simps)
       (simp add: member_text_def parse_quoted assign_fresh map_of_None_fst)
qed

lemma parse_write_value:
  assumes "canon (\<lambda>k. sanitize k = k) v" "d + jdepth v \<le> kMaxDepth" "stops rest"
  shows "parse_value d default_value (write_value v @ rest) = Some (san_value v, rest)"
  using assms
proof (induction arbitrary: d rest rule: canon.induct)
  case (canon_array a)
  let ?r = "join_comma (map write_value a) @ CHR '']'' # rest"
  have d: "d < kMaxDepth" "\<And>v. v \<in> set a \<Longrightarrow> (d + 1) + jdepth v \<le> kMaxDepth"
    using canon_array.prems(1) jdepth_le [of TArray False "[]" a "[]" "[]" "kMaxDepth - d"] by auto
  have e: "a \<noteq> [] \<Longrightarrow> parse_elems (d + 1) (JV TArray False [] [] [] []) ?r =
      Some (JV TArray False [] (map san_value a) [] [], rest)"
    by (subst parse_elems_write) (use canon_array.IH d in auto)
  show ?case
  proof (cases a)
    case Nil
    with d(1) show ?thesis
      by (subst parse_value.simps) (simp add: skipWs_def json_ws_def default_value_def)
  next
    case (Cons v a')
    obtain c u where cu: "write_value v = c # u" "\<not> json_ws c" "c \<noteq> CHR '']''"
      using canon_array.hyps [of v] Cons by (auto elim: write_first)
    obtain u' where u': "?r = c # u'" using Cons cu by (cases a') auto
    show ?thesis using d(1) e [unfolded u'] Cons u' cu
      by (subst parse_value.simps) (simp add: skipWs_def json_ws_def default_value_def)
  qed
next
  case (canon_object m order)
  let ?r = "join_comma (map (\<lambda>(k, v). member_text (k, write_value v)) m) @ CHR ''}'' # rest"
  have d: "d < kMaxDepth" "\<And>k v. (k, v) \<in> set m \<Longrightarrow> (d + 1) + jdepth v \<le> kMaxDepth"
    using canon_object.prems(1) jdepth_le [of TObject False "[]" "[]" m order "kMaxDepth - d"] by force+
  have e: "m \<noteq> [] \<Longrightarrow> parse_members (d + 1) (JV TObject False [] [] [] []) ?r =
      Some (JV TObject False [] [] (map (\<lambda>(k, v). (k, san_value v)) m) (map fst m), rest)"
    using parse_members_write [of m "d + 1" "[]" rest] canon_object.IH d canon_object.hyps by auto
  show ?case
  proof (cases m)
    case Nil
    with d(1) canon_object.hyps show ?thesis
      by (subst parse_value.simps) (simp add: skipWs_def json_ws_def default_value_def write_object_def)
  next
    case (Cons kv m')
    have "\<exists>u'. ?r = CHR 0x22 # u'" using Cons by (cases m'; cases kv) (auto simp: member_text_def quoted_def)
    then obtain u' where u': "?r = CHR 0x22 # u'" by blast
    show ?thesis using d(1) e u' Cons canon_object.hyps write_object_keys [of m write_value]
      by (subst parse_value.simps) (simp add: skipWs_def json_ws_def default_value_def)
  qed
next
  case (canon_number s)
  then have "s \<noteq> []" by (auto elim: number_text_first)
  with canon_number show ?case by (simp add: parse_value_number jdepth.simps)
qed (auto simp: parse_value_scalar [simplified] jdepth.simps)

section \<open>What the parser returns\<close>

text \<open>A number that stops before a suffix is a number without it.\<close>

lemma dropWhile_truncate: "dropWhile P (s @ q) = r @ q \<Longrightarrow> dropWhile P s = r"
proof (induction s)
  case Nil
  then have "length (r @ q) \<le> length q" by (metis append_Nil length_dropWhile_le)
  then show ?case by simp
qed (auto split: if_splits)

lemma at_digit_nonempty: "s \<noteq> [] \<Longrightarrow> at_digit (s @ q) = at_digit s"
  by (simp add: at_digit_def)

lemma number_int_truncate:
  assumes "number_int (s @ q) = Some (r @ q)"
  shows "number_int s = Some r"
proof -
  define t where "t = (if s \<noteq> [] \<and> hd s = CHR ''-'' then tl s else s)"
  have ne: "s \<noteq> []" using number_int_shrinks [OF assms] by auto
  then have tq: "(if s @ q \<noteq> [] \<and> hd (s @ q) = CHR ''-'' then tl (s @ q) else s @ q) = t @ q"
    by (simp add: t_def)
  have eq: "(if \<not> at_digit (t @ q) then None
     else if hd (t @ q) = CHR ''0'' then (if at_digit (tl (t @ q)) then None else Some (tl (t @ q)))
     else Some (dropWhile (is_digit_of 10) (t @ q))) = Some (r @ q)"
    using assms unfolding number_int_def tq Let_def .
  have tne: "t \<noteq> []"
  proof
    assume "t = []"
    with eq have "length (r @ q) < length q"
      using length_dropWhile_le [of "is_digit_of 10" "tl q"]
      by (cases q) (auto simp: at_digit_def split: if_splits)
    then show False by simp
  qed
  then obtain c u where t: "t = c # u" by (cases t) auto
  have "r = u \<and> \<not> at_digit u" if "c = CHR ''0''"
    using eq that t by (auto split: if_splits simp: at_digit_def)
  moreover have "dropWhile (is_digit_of 10) t = r" if "c \<noteq> CHR ''0''"
    by (rule dropWhile_truncate [of _ _ q]) (use eq that t in \<open>auto split: if_splits\<close>)
  moreover have "at_digit t" using eq at_digit_nonempty [OF tne] by (auto split: if_splits)
  ultimately show ?thesis using t unfolding number_int_def t_def [symmetric] Let_def by auto
qed

lemma number_frac_truncate:
  assumes "number_frac (s @ q) = Some (r @ q)"
  shows "number_frac s = Some r"
proof (cases s)
  case Nil
  have "length (r @ q) < length q" if "q \<noteq> []" "hd q = CHR ''.''"
    using assms that Nil length_dropWhile_le [of "is_digit_of 10" "tl q"]
    by (cases q) (auto simp: number_frac_def split: if_splits)
  then show ?thesis using assms Nil by (auto simp: number_frac_def split: if_splits)
next
  case (Cons c u)
  have "u \<noteq> [] \<and> dropWhile (is_digit_of 10) u = r" if c: "c = CHR ''.''"
  proof
    have eq: "at_digit (u @ q)" "dropWhile (is_digit_of 10) (u @ q) = r @ q"
      using assms Cons c by (auto simp: number_frac_def split: if_splits)
    then show "dropWhile (is_digit_of 10) u = r" by (auto intro: dropWhile_truncate)
    show "u \<noteq> []"
    proof
      assume "u = []"
      with eq length_dropWhile_le [of "is_digit_of 10" "tl q"] have "length (r @ q) < length q"
        by (cases q) (auto simp: at_digit_def)
      then show False by simp
    qed
  qed
  with assms Cons show ?thesis by (auto simp: number_frac_def at_digit_nonempty split: if_splits)
qed

lemma digits_truncate:
  assumes "at_digit (u @ q)" "dropWhile (is_digit_of 10) (u @ q) = r @ q"
  shows "u \<noteq> []" "at_digit u" "dropWhile (is_digit_of 10) u = r"
proof -
  show "dropWhile (is_digit_of 10) u = r" using assms(2) by (rule dropWhile_truncate)
  show "u \<noteq> []"
  proof
    assume "u = []"
    with assms length_dropWhile_le [of "is_digit_of 10" "tl q"] have "length (r @ q) < length q"
      by (cases q) (auto simp: at_digit_def)
    then show False by simp
  qed
  then show "at_digit u" using assms(1) by (simp add: at_digit_nonempty)
qed

lemma number_exp_truncate:
  assumes "number_exp (s @ q) = Some (r @ q)"
  shows "number_exp s = Some r"
proof (cases s)
  case Nil
  have "length (r @ q) < length q" if "q \<noteq> []" "hd q = CHR ''e'' \<or> hd q = CHR ''E''"
    using assms that Nil length_dropWhile_le [of "is_digit_of 10" "tl q"]
      length_dropWhile_le [of "is_digit_of 10" "tl (tl q)"]
    by (cases q) (auto simp: number_exp_def Let_def split: if_splits)
  then show ?thesis using assms Nil by (auto simp: number_exp_def split: if_splits)
next
  case (Cons c t)
  show ?thesis
  proof (cases "c = CHR ''e'' \<or> c = CHR ''E''")
    case e: True
    show ?thesis
    proof (cases "t = []")
      case True
      with e Cons assms length_dropWhile_le [of "is_digit_of 10" "q"] length_dropWhile_le [of "is_digit_of 10" "tl q"]
      have "length (r @ q) < length q"
        by (cases q) (auto simp: number_exp_def Let_def at_digit_def split: if_splits)
      then show ?thesis by simp
    next
      case False
      let ?u = "if t \<noteq> [] \<and> (hd t = CHR ''+'' \<or> hd t = CHR ''-'') then tl t else t"
      have "at_digit (?u @ q)" "dropWhile (is_digit_of 10) (?u @ q) = r @ q"
        using assms Cons e False by (auto simp: number_exp_def Let_def split: if_splits)
      note d = digits_truncate [OF this]
      show ?thesis using Cons e False d by (simp add: number_exp_def Let_def split: if_splits)
    qed
  next
    case False
    with assms Cons show ?thesis by (auto simp: number_exp_def split: if_splits)
  qed
qed

text \<open>Each scanner leaves a suffix of its input.\<close>

lemma tl_suffix: "\<exists>p. s = p @ tl s"
  by (cases s) (auto intro: exI [of _ "[]"])

lemma dropWhile_suffix: "\<exists>p. s = p @ dropWhile P s"
  by (metis takeWhile_dropWhile_id)

lemma number_suffix:
  "number_int s = Some r \<Longrightarrow> \<exists>p. s = p @ r" "number_frac s = Some r \<Longrightarrow> \<exists>p. s = p @ r"
  "number_exp s = Some r \<Longrightarrow> \<exists>p. s = p @ r"
  using tl_suffix [of s] tl_suffix [of "tl s"] dropWhile_suffix [of s "is_digit_of 10"]
    dropWhile_suffix [of "tl s" "is_digit_of 10"] dropWhile_suffix [of "tl (tl s)" "is_digit_of 10"]
  by (auto simp: number_int_def number_frac_def number_exp_def Let_def split: if_splits)

lemma parse_number_text:
  assumes "parse_number s = Some (t, q)"
  shows "is_number_text t"
proof -
  from assms obtain s1 s2 where n: "number_int s = Some s1" "number_frac s1 = Some s2" "number_exp s2 = Some q"
    "t = take (length s - length q) s"
    by (auto simp: parse_number_def split: option.splits)
  obtain p3 where p3: "s2 = p3 @ q" using number_suffix(3) [OF n(3)] by blast
  obtain p2 where p2: "s1 = p2 @ s2" using number_suffix(2) [OF n(2)] by blast
  obtain p1 where p1: "s = p1 @ s1" using number_suffix(1) [OF n(1)] by blast
  have t: "t = p1 @ p2 @ p3" using n(4) p1 p2 p3 by simp
  have "number_int (p1 @ p2 @ p3) = Some (p2 @ p3)"
    by (rule number_int_truncate [of _ q]) (use n(1) p1 p2 p3 in simp)
  moreover have "number_frac (p2 @ p3) = Some p3"
    by (rule number_frac_truncate [of _ q]) (use n(2) p2 p3 in simp)
  moreover have "number_exp p3 = Some []"
    by (rule number_exp_truncate [of _ q]) (use n(3) p3 in simp)
  ultimately show ?thesis by (simp add: is_number_text_def parse_number_def t)
qed

text \<open>The shape of an array or object under construction.\<close>

lemma canon_push:
  assumes "canon K (JV TArray b s a m order)" "canon K v"
  shows "canon K (push_item v (JV TArray b s a m order))"
  using assms by (auto simp: canon_array_iff)

lemma canon_set_member:
  assumes "canon K (JV TObject b s a m order)" "canon K v" "K k"
  shows "canon K (set_member k v (JV TObject b s a m order))"
proof (cases "map_of m k")
  case None
  with assms show ?thesis by (auto simp: canon_object_iff assign_fresh map_of_None_fst)
next
  case (Some x)
  with assms set_assign [of k v m] show ?thesis by (auto simp: canon_object_iff keys_assign)
qed

lemma jdepth_push:
  assumes "jdepth (JV t b s a m order) + k \<le> n" "jdepth v + Suc k \<le> n"
  shows "jdepth (push_item v (JV t b s a m order)) + k \<le> n"
proof -
  have "jdepth (JV t b s a m order) \<le> n - k" using assms(1) by linarith
  then have "jdepth (push_item v (JV t b s a m order)) \<le> n - k"
    using assms(2) unfolding push_item.simps jdepth_le by auto
  with assms show ?thesis by linarith
qed

lemma jdepth_set_member:
  assumes "jdepth (JV t b s a m order) + k \<le> n" "jdepth v + Suc k \<le> n"
  shows "jdepth (set_member key v (JV t b s a m order)) + k \<le> n"
proof -
  have "jdepth (JV t b s a m order) \<le> n - k" using assms(1) by linarith
  then have "jdepth (set_member key v (JV t b s a m order)) \<le> n - k"
    using assms(2) set_assign [of key v m] unfolding set_member.simps jdepth_le by fastforce
  with assms show ?thesis by linarith
qed

lemma parse_sound:
  "parse_value d out s = Some (v, r) \<Longrightarrow> out = default_value \<Longrightarrow>
     canon (\<lambda>_. True) v \<and> d + jdepth v \<le> kMaxDepth"
  "parse_elems d out s = Some (v, r) \<Longrightarrow> canon (\<lambda>_. True) out \<Longrightarrow> jtype out = TArray \<Longrightarrow>
     jdepth out + (d - 1) \<le> kMaxDepth \<Longrightarrow> 0 < d \<Longrightarrow> canon (\<lambda>_. True) v \<and> jdepth v + (d - 1) \<le> kMaxDepth"
  "parse_members d out s = Some (v, r) \<Longrightarrow> canon (\<lambda>_. True) out \<Longrightarrow> jtype out = TObject \<Longrightarrow>
     jdepth out + (d - 1) \<le> kMaxDepth \<Longrightarrow> 0 < d \<Longrightarrow> canon (\<lambda>_. True) v \<and> jdepth v + (d - 1) \<le> kMaxDepth"
proof (induction d out s and d out s and d out s arbitrary: v r and v r and v r
    rule: parse_value_parse_elems_parse_members.induct)
  case (1 depth out s)
  have base: "canon (\<lambda>_. True) (set_type TArray default_value)" "canon (\<lambda>_. True) (set_type TObject default_value)"
    "jdepth (set_type t default_value) = 1" for t
    by (auto simp: default_value_def canon_array_iff canon_object_iff jdepth.simps)
  have type: "jtype (set_type t default_value) = t" for t by (simp add: default_value_def)
  have leaf: "canon (\<lambda>_. True) (set_type TNull default_value)" "canon (\<lambda>_. True) (set_bool b default_value)"
    "canon (\<lambda>_. True) (set_text TString t default_value)"
    "is_number_text t \<Longrightarrow> canon (\<lambda>_. True) (set_text TNumber t default_value)" for b t
    by (auto simp: default_value_def intro: canon.intros)
  have depth: "jdepth (set_text ty t default_value) = 1" "jdepth (set_bool b default_value) = 1" for ty t b
    by (auto simp: default_value_def jdepth.simps)
  from "1.prems" obtain c u where cu: "skipWs s = c # u" and d: "depth < kMaxDepth"
    by (auto simp: parse_value.simps split: if_splits list.splits)
  note eq = "1.prems"(1) [unfolded parse_value.simps [of depth] cu, simplified d list.case]
  show ?case
  proof (cases "c \<in> {CHR ''{'', CHR ''[''}")
    case True
    then obtain x w where x: "skipWs u = x # w" using eq by (auto split: list.splits if_splits)
    have o: "c = CHR ''{'' \<Longrightarrow> x \<noteq> CHR ''}'' \<Longrightarrow> parse_members (Suc depth) (set_type TObject out) (x # w) = Some (v, r)
        \<Longrightarrow> canon (\<lambda>_. True) v \<and> depth + jdepth v \<le> kMaxDepth"
      using "1.IH"(1) [OF _ cu _ _ x, of v r] d "1.prems"(2) by (simp add: base type)
    have a: "c = CHR ''['' \<Longrightarrow> x \<noteq> CHR '']'' \<Longrightarrow> parse_elems (Suc depth) (set_type TArray out) (x # w) = Some (v, r)
        \<Longrightarrow> canon (\<lambda>_. True) v \<and> depth + jdepth v \<le> kMaxDepth"
      using "1.IH"(2) [OF _ cu _ _ _ x, of v r] d "1.prems"(2) by (simp add: base type)
    show ?thesis using True eq d "1.prems"(2) x o a
      by (auto split: if_splits simp: base)
  next
    case False
    with eq d "1.prems"(2) show ?thesis
      by (auto split: option.splits if_splits simp: leaf depth base dest: parse_number_text)
  qed
next
  case (2 depth out s)
  obtain b t a m order where out: "out = JV TArray b t a m order" using "2.prems"(3) by (cases out) auto
  have step: "canon (\<lambda>_. True) (push_item item out) \<and> jdepth (push_item item out) + (depth - 1) \<le> kMaxDepth
      \<and> jtype (push_item item out) = TArray" if "parse_value depth default_value s = Some (item, s1)" for item s1
  proof -
    have i: "canon (\<lambda>_. True) item" "jdepth item + Suc (depth - 1) \<le> kMaxDepth"
      using "2.IH"(1) [OF that refl] "2.prems"(5) by auto
    show ?thesis unfolding out using "2.prems"(2,4) [unfolded out] i
      by (intro conjI canon_push jdepth_push) simp_all
  qed
  from "2.prems"(1) show ?case unfolding parse_elems.simps [of depth out s]
  proof (cases rule: parse_elemsE)
    case (last item s1)
    with step show ?thesis by simp
  next
    case (more item s1 x u s2)
    with "2.IH"(2) [OF more(1) refl more(2,3,4,5)] step "2.prems"(5) show ?thesis by simp
  qed
next
  case (3 depth out s)
  obtain b t a m order where out: "out = JV TObject b t a m order" using "3.prems"(3) by (cases out) auto
  have step: "canon (\<lambda>_. True) (set_member k w out) \<and> jdepth (set_member k w out) + (depth - 1) \<le> kMaxDepth
      \<and> jtype (set_member k w out) = TObject"
    if "canon (\<lambda>_. True) w \<and> depth + jdepth w \<le> kMaxDepth" for k w
  proof -
    have i: "canon (\<lambda>_. True) w" "jdepth w + Suc (depth - 1) \<le> kMaxDepth"
      using that "3.prems"(5) by auto
    show ?thesis unfolding out using "3.prems"(2,4) [unfolded out] i
      by (intro conjI canon_set_member jdepth_set_member) simp_all
  qed
  from "3.prems"(1) show ?case unfolding parse_members.simps [of depth out s]
  proof (cases rule: parse_membersE)
    case (last k s1 s2 w s3)
    with "3.IH"(1) [OF last(1) refl last(2,3) refl] step show ?thesis by simp
  next
    case (more k s1 s2 w s3 x u s4)
    with "3.IH"(2) [OF more(1) refl more(2,3) refl more(4,5,6,7)]
      "3.IH"(1) [OF more(1) refl more(2,3) refl] step "3.prems"(5) show ?thesis by simp
  qed
qed

section \<open>Properties\<close>

lemma skipWs_write:
  assumes "canon K v"
  shows "skipWs (write_value v) = write_value v"
  using assms by (rule write_first) (simp add: skipWs_non_ws)

lemma no_bom:
  assumes "canon K v"
  shows "take 3 (write_value v) \<noteq> [CHR 0xEF, CHR 0xBB, CHR 0xBF]"
proof -
  have "\<not> is_digit_of 10 (CHR 0xEF)" by (simp add: is_digit_of_def digit_value_def char_code_def)
  with assms show ?thesis
    by (cases rule: canon.cases) (auto simp: quoted_def write_object_def elim!: number_text_first split: if_splits)
qed

text \<open>
  C12: Writing a value and parsing the text back gives the same value, with every byte of a string
  that is not part of a well-formed UTF-8 sequence replaced by U+FFFD. It holds for every value the
  parser or the builders make whose keys are well-formed and that nests at most
  \<^verbatim>\<open>kMaxDepth\<close> levels.
\<close>

theorem json_parse_dump:
  assumes "canon (\<lambda>k. sanitize k = k) v" and "jdepth v \<le> kMaxDepth"
  shows "json_parse (dump v) default_value = Some (san_value v)"
proof -
  have "parse_value 0 default_value (write_value v) = Some (san_value v, [])"
    using parse_write_value [OF assms(1), of 0 "[]"] assms(2) by simp
  with no_bom [OF assms(1)] skipWs_write [OF assms(1)] show ?thesis by (simp add: json_parse_def dump_def)
qed

definition sample_value :: JValue where
  "sample_value = jset (jset jobject ''id'' (jnumber (-7))) ''ok''
     (jpush (jpush jarray (jboolean True)) (jstring [CHR ''a'', CHR 0x0A, CHR 0xFF]))"

lemma sample_canon: "canon (\<lambda>k. sanitize k = k) sample_value"
proof -
  have eq: "sample_value = JV TObject False [] []
      [(''id'', jnumber (-7)), (''ok'', JV TArray False [] [jboolean True, jstring [CHR ''a'', CHR 0x0A, CHR 0xFF]] [] [])]
      [''id'', ''ok'']"
    by (simp add: sample_value_def jset_def jpush_def jobject_def jarray_def default_value_def)
  moreover have "canon K (jnumber n)" "canon K (jboolean b)" "canon K (jstring s)" for K n b s
    by (auto simp: jnumber_def jboolean_def jstring_def default_value_def intro: canon.intros show_int_number)
  ultimately show ?thesis unfolding eq by (auto simp: canon_object_iff canon_array_iff char_code_def)
qed

theorem json_parse_dump_witness:
  "jdepth sample_value = 3 \<and> json_parse (dump sample_value) default_value = Some (san_value sample_value)"
proof -
  have "jdepth sample_value = 3" by code_simp
  with json_parse_dump [OF sample_canon] show ?thesis by (simp add: kMaxDepth_def)
qed



text \<open>
  A member set on an object is the one read back, other members are untouched, a new key goes
  to the end of the order and an existing one keeps its place; the result is well-formed.
\<close>

theorem jset_get:
  assumes "canon K self" and "jtype self = TObject" and "canon K v" and "K k"
  shows "canon K (jset self k v) \<and> jget (jset self k v) k' = (if k' = k then Some v else jget self k') \<and>
    objectOrder (jset self k v) = (if k \<in> set (objectOrder self) then objectOrder self else objectOrder self @ [k])"
proof -
  obtain b s a m order where self: "self = JV TObject b s a m order" using assms(2) by (cases self) auto
  have "order = map fst m" using assms(1) by (simp add: self canon_object_iff)
  then have "k \<in> set order \<longleftrightarrow> map_of m k \<noteq> None" by (simp add: map_of_None_fst)
  with assms canon_set_member [of K b s a m order v k] show ?thesis
    by (auto simp: self jset_def jget_def map_of_assign)
qed

theorem jset_get_witness:
  "canon (\<lambda>_. True) (jset jobject ''a'' (jboolean True)) \<and>
   jget (jset jobject ''a'' (jboolean True)) ''a'' = Some (jboolean True) \<and>
   objectOrder (jset jobject ''a'' (jboolean True)) = [''a'']"
proof -
  have "canon (\<lambda>_. True) jobject" "jtype jobject = TObject" "canon (\<lambda>_. True) (jboolean True)" "objectOrder jobject = []"
    by (simp_all add: jobject_def jboolean_def default_value_def canon_object_iff canon_bool)
  with jset_get [of "\<lambda>_. True" jobject "jboolean True" "''a''" "''a''"] show ?thesis by simp
qed

end
