(* ===== verification/Memory.thy ===== *)
theory Memory
  imports Prelude Machine
begin

text \<open>
  Target memory as the components see it. A port is a pair of operations on a world \<^verbatim>\<open>'w\<close>: a read
  returns the bytes transferred, a write the number of bytes transferred, or an error code. Both the
  kernel's \<^verbatim>\<open>pread\<close>/\<^verbatim>\<open>pwrite\<close> on \<^verbatim>\<open>/proc/<pid>/mem\<close> (called again after \<^verbatim>\<open>EINTR\<close>) and
  \<^verbatim>\<open>ProcessHandle::read\<close>/\<^verbatim>\<open>write\<close> have this shape. The locale states what a port promises about the
  bytes of the target; clients are verified against it. \<^verbatim>\<open>NativeMemoryImage::read\<close> and the default
  \<^verbatim>\<open>ProcessHandle::writeCode\<close> are ports again when the port below them is one.
\<close>

section \<open>Errors\<close>

datatype errc = operation_canceled | invalid_argument | io_error | bad_address | no_such_process
  | state_not_recoverable | not_enough_memory | value_too_large | operation_not_permitted
  | operation_not_supported | device_or_resource_busy | no_such_file_or_directory | errno_other nat

type_synonym 'a result = "errc + 'a"

type_synonym 'w reader = "'w \<Rightarrow> u64 \<Rightarrow> nat \<Rightarrow> byte list result \<times> 'w"
type_synonym 'w writer = "'w \<Rightarrow> u64 \<Rightarrow> byte list \<Rightarrow> nat result \<times> 'w"

section \<open>Spans of addresses\<close>

text \<open>A span that does not run past the top of the address space, and membership in it.\<close>

definition span_ok :: "u64 \<Rightarrow> nat \<Rightarrow> bool" where
  "span_ok a n \<longleftrightarrow> unat a + n \<le> 2 ^ 64"

definition in_span :: "u64 \<Rightarrow> nat \<Rightarrow> u64 \<Rightarrow> bool" where
  "in_span a n x \<longleftrightarrow> unat (x - a) < n"

definition span_bytes :: "(u64 \<Rightarrow> byte) \<Rightarrow> u64 \<Rightarrow> nat \<Rightarrow> byte list" where
  "span_bytes mem a n = map (\<lambda>i. mem (a + of_nat i)) [0..<n]"

definition span_upd :: "(u64 \<Rightarrow> byte) \<Rightarrow> u64 \<Rightarrow> byte list \<Rightarrow> u64 \<Rightarrow> byte" where
  "span_upd mem a xs = (\<lambda>x. if in_span a (length xs) x then xs ! unat (x - a) else mem x)"

lemma length_span_bytes [simp]: "length (span_bytes mem a n) = n"
  by (simp add: span_bytes_def)

lemma nth_span_bytes [simp]: "i < n \<Longrightarrow> span_bytes mem a n ! i = mem (a + of_nat i)"
  by (simp add: span_bytes_def)

lemma unat_of_nat_64: "i < 2 ^ 64 \<Longrightarrow> unat (of_nat i :: u64) = i"
  by (simp add: unat_of_nat take_bit_nat_eq_self)

lemma span_ok_le: "span_ok a n \<Longrightarrow> n \<le> 2 ^ 64"
  by (simp add: span_ok_def)

lemma in_span_offset: "i < 2 ^ 64 \<Longrightarrow> in_span a n (a + of_nat i) \<longleftrightarrow> i < n"
  by (simp add: in_span_def unat_of_nat_64)

lemma in_spanE:
  assumes "in_span a n x"
  obtains i where "i < n" "x = a + of_nat i" "i < 2 ^ 64"
proof (rule that)
  show "unat (x - a) < n" using assms by (simp add: in_span_def)
  show "x = a + of_nat (unat (x - a))" by simp
  show "unat (x - a) < 2 ^ 64" using unsigned_less [of "x - a"] by simp
qed

lemma in_span_mono: "in_span a n x \<Longrightarrow> n \<le> m \<Longrightarrow> in_span a m x"
  by (simp add: in_span_def)

lemma in_span_0 [simp]: "\<not> in_span a 0 x"
  by (simp add: in_span_def)

text \<open>The bytes from an offset of a span on, and the part of a span after an offset.\<close>

lemma in_span_shift:
  assumes "in_span (a + of_nat k) n x" "k + n \<le> 2 ^ 64"
  shows "in_span a (k + n) x"
proof -
  obtain i where i: "i < n" "x = a + of_nat k + of_nat i" using assms(1) by (rule in_spanE)
  then have "x = a + of_nat (k + i)" by (simp add: add.assoc)
  with i(1) assms(2) show ?thesis by (simp add: in_span_offset del: of_nat_add)
qed

lemma span_ok_shift: "span_ok a (k + n) \<Longrightarrow> 0 < n \<Longrightarrow> span_ok (a + of_nat k) n"
proof -
  assume ok: "span_ok a (k + n)" and n: "0 < n"
  then have "k < 2 ^ 64" "unat a + k < 2 ^ 64" by (auto simp: span_ok_def)
  then have "unat (a + of_nat k) = unat a + k" by (simp add: unat_word_ariths unat_of_nat_64)
  with ok show "span_ok (a + of_nat k) n" by (simp add: span_ok_def)
qed

lemma span_bytes_eq_iff:
  "span_bytes mem a n = xs \<longleftrightarrow> length xs = n \<and> (\<forall>i < n. mem (a + of_nat i) = xs ! i)"
  by (auto simp: list_eq_iff_nth_eq)

lemma span_bytes_cong: "\<forall>x. in_span a n x \<longrightarrow> f x = g x \<Longrightarrow> n \<le> 2 ^ 64 \<Longrightarrow> span_bytes f a n = span_bytes g a n"
  by (auto simp: span_bytes_def in_span_offset)

lemma span_bytes_upd: "length xs \<le> 2 ^ 64 \<Longrightarrow> span_bytes (span_upd mem a xs) a (length xs) = xs"
  by (auto simp: span_bytes_eq_iff span_upd_def in_span_offset unat_of_nat_64)

text \<open>Two memories that agree off a span and hold the same bytes in it are the same.\<close>

lemma memory_eqI:
  assumes "\<And>x. \<not> in_span a n x \<Longrightarrow> f x = g x" and "span_bytes f a n = span_bytes g a n"
  shows "f = g"
proof
  fix x
  show "f x = g x"
  proof (cases "in_span a n x")
    case True
    then obtain i where "i < n" "x = a + of_nat i" by (rule in_spanE)
    with arg_cong [OF assms(2), of "\<lambda>l. l ! i"] show ?thesis by simp
  qed (rule assms(1))
qed

section \<open>The contract of a port\<close>

locale memory_port =
  fixes mem :: "'w \<Rightarrow> u64 \<Rightarrow> byte"
    and rd :: "'w reader"
    and wr :: "'w writer"
  assumes rd_frame: "mem (snd (rd w a n)) = mem w"
    and rd_bytes: "fst (rd w a n) = Inr xs \<Longrightarrow> length xs \<le> n \<and> xs = span_bytes (mem w) a (length xs)"
    and wr_frame: "span_ok a (length xs) \<Longrightarrow> \<not> in_span a (length xs) x \<Longrightarrow> mem (snd (wr w a xs)) x = mem w x"
    and wr_bytes: "span_ok a (length xs) \<Longrightarrow> fst (wr w a xs) = Inr n \<Longrightarrow>
      n \<le> length xs \<and> mem (snd (wr w a xs)) = span_upd (mem w) a (take n xs)"
begin

lemma rd_full:
  assumes "rd w a n = (Inr xs, w')" "length xs = n"
  shows "xs = span_bytes (mem w) a n" "mem w' = mem w"
  using assms rd_bytes [of w a n xs] rd_frame [of w a n] by auto

lemma rd_same: "rd w a n = (r, w') \<Longrightarrow> mem w' = mem w"
  using rd_frame [of w a n] by simp

lemma wr_full:
  assumes "wr w a xs = (Inr (length xs), w')" "span_ok a (length xs)"
  shows "span_bytes (mem w') a (length xs) = xs"
    "\<And>x. \<not> in_span a (length xs) x \<Longrightarrow> mem w' x = mem w x"
proof -
  have m: "mem w' = span_upd (mem w) a xs" using assms wr_bytes [of a xs w "length xs"] by simp
  show "span_bytes (mem w') a (length xs) = xs"
    unfolding m by (rule span_bytes_upd) (use assms(2) span_ok_le in blast)
  show "\<And>x. \<not> in_span a (length xs) x \<Longrightarrow> mem w' x = mem w x" unfolding m by (simp add: span_upd_def)
qed

lemma wr_other:
  assumes "wr w a xs = (r, w')" "span_ok a (length xs)" "\<not> in_span a (length xs) x"
  shows "mem w' x = mem w x"
  using assms wr_frame [of a xs x w] by simp

lemma wr_short:
  assumes "wr w a xs = (Inr n, w')" "span_ok a (length xs)" "\<not> in_span a n x"
  shows "n \<le> length xs" "mem w' x = mem w x"
  using assms wr_bytes [of a xs w n] by (auto simp: span_upd_def min_def)

end

section \<open>An address space behind \<^verbatim>\<open>/proc/<pid>/mem\<close>\<close>

text \<open>
  The documented behaviour of the file: a transfer stops at the first unmapped byte, fails with an
  I/O error when the first byte is unmapped, and transfers nothing once the address space is gone.
\<close>

record address_space =
  contents :: "u64 \<Rightarrow> byte"
  mapped :: "u64 \<Rightarrow> bool"
  retired :: bool

definition reachable_bytes :: "address_space \<Rightarrow> u64 \<Rightarrow> nat \<Rightarrow> nat" where
  "reachable_bytes s a n = length (takeWhile (\<lambda>i. mapped s (a + of_nat i)) [0..<n])"

definition as_pread :: "address_space reader" where
  "as_pread s a n =
    (if retired s then (Inr [], s)
     else if n = 0 then (Inr [], s)
     else if \<not> mapped s a then (Inl io_error, s)
     else (Inr (span_bytes (contents s) a (reachable_bytes s a n)), s))"

definition as_pwrite :: "address_space writer" where
  "as_pwrite s a xs =
    (if retired s then (Inr 0, s)
     else if xs = [] then (Inr 0, s)
     else if \<not> mapped s a then (Inl io_error, s)
     else (let n = reachable_bytes s a (length xs)
           in (Inr n, s\<lparr>contents := span_upd (contents s) a (take n xs)\<rparr>)))"

lemma reachable_bytes_le [simp]: "reachable_bytes s a n \<le> n"
  unfolding reachable_bytes_def using length_takeWhile_le [of "\<lambda>i. mapped s (a + of_nat i)" "[0..<n]"] by simp

lemma span_upd_Nil [simp]: "span_upd mem a [] = mem"
  by (simp add: span_upd_def fun_eq_iff)

lemma span_upd_outside: "\<not> in_span a n x \<Longrightarrow> length xs \<le> n \<Longrightarrow> span_upd mem a xs x = mem x"
  using in_span_mono [of a "length xs" x n] by (auto simp: span_upd_def)

interpretation proc_mem: memory_port contents as_pread as_pwrite
proof
  fix a x w and xs :: "byte list"
  assume "\<not> in_span a (length xs) x"
  then show "contents (snd (as_pwrite w a xs)) x = contents w x"
    by (auto simp: as_pwrite_def Let_def span_upd_outside)
qed (auto simp: as_pread_def as_pwrite_def Let_def span_bytes_def split: if_splits)

text \<open>
  Error codes that say the address space is gone, and a port whose world knows whether it is: a live
  address space never reports a gone one, and a transfer does not end it.
\<close>

definition gone :: "errc \<Rightarrow> bool" where
  "gone e \<longleftrightarrow> e = no_such_process \<or> e = no_such_file_or_directory \<or> e = operation_canceled"

locale live_memory_port = memory_port +
  fixes alive :: "'w \<Rightarrow> bool"
  assumes rd_alive: "alive (snd (rd w a n)) = alive w"
    and wr_alive: "alive (snd (wr w a xs)) = alive w"
    and rd_live: "alive w \<Longrightarrow> 0 < n \<Longrightarrow> fst (rd w a n) \<noteq> Inr [] \<and> (\<forall>e. fst (rd w a n) = Inl e \<longrightarrow> \<not> gone e)"
    and wr_live: "alive w \<Longrightarrow> xs \<noteq> [] \<Longrightarrow> fst (wr w a xs) \<noteq> Inr 0 \<and> (\<forall>e. fst (wr w a xs) = Inl e \<longrightarrow> \<not> gone e)"

lemma reachable_bytes_pos: "0 < n \<Longrightarrow> mapped s a \<Longrightarrow> 0 < reachable_bytes s a n"
  by (cases n) (simp_all add: reachable_bytes_def upt_rec)

interpretation proc_mem: live_memory_port contents as_pread as_pwrite "\<lambda>s. \<not> retired s"
proof unfold_locales
  fix w :: address_space and a and n :: nat
  assume "\<not> retired w" "0 < n"
  then show "fst (as_pread w a n) \<noteq> Inr [] \<and> (\<forall>e. fst (as_pread w a n) = Inl e \<longrightarrow> \<not> gone e)"
    using reachable_bytes_pos [of n w a] by (auto simp: as_pread_def span_bytes_def gone_def)
next
  fix w :: address_space and a and xs :: "byte list"
  assume "\<not> retired w" "xs \<noteq> []"
  then show "fst (as_pwrite w a xs) \<noteq> Inr 0 \<and> (\<forall>e. fst (as_pwrite w a xs) = Inl e \<longrightarrow> \<not> gone e)"
    using reachable_bytes_pos [of "length xs" w a] by (auto simp: as_pwrite_def gone_def Let_def)
qed (auto simp: as_pread_def as_pwrite_def Let_def)

section \<open>Ports built by the program\<close>

text \<open>\<^verbatim>\<open>size - 1 > UINTPTR_MAX - address\<close>, the overflow guard of the memory operations, for a size above 0.\<close>

definition span_overflows :: "u64 \<Rightarrow> nat \<Rightarrow> bool" where
  "span_overflows a n \<longleftrightarrow> n - 1 > unat (- 1 - a)"

lemma span_overflows_iff: "0 < n \<Longrightarrow> span_overflows a n \<longleftrightarrow> \<not> span_ok a n"
proof -
  have "unat (- 1 - a) = unat (- 1 :: u64) - unat a" by (rule unat_sub) simp
  then have "unat (- 1 - a) = 2 ^ 64 - 1 - unat a" by (simp add: unsigned_minus_1_eq_mask mask_eq_exp_minus_1)
  moreover have "unat a < 2 ^ 64" using unsigned_less [where ?'a = nat, of a] by simp
  ultimately show "0 < n \<Longrightarrow> ?thesis" by (auto simp: span_overflows_def span_ok_def)
qed

text \<open>\<^verbatim>\<open>NativeMemoryImage::read\<close>, with a buffer.\<close>

definition image_read :: "'w reader \<Rightarrow> 'w reader" where
  "image_read pread w a n =
    (if n = 0 then (Inr [], w)
     else if span_overflows a n then (Inl invalid_argument, w)
     else case pread w a n of
            (Inl e, w') \<Rightarrow> (Inl e, w')
          | (Inr xs, w') \<Rightarrow> if xs = [] then (Inl operation_canceled, w') else (Inr xs, w'))"

text \<open>\<^verbatim>\<open>NativeMemoryImage::check\<close>: one byte at address 0.\<close>

definition image_check :: "'w reader \<Rightarrow> 'w \<Rightarrow> unit result \<times> 'w" where
  "image_check pread w =
    (case pread w 0 1 of
       (Inl e, w') \<Rightarrow> (if e \<noteq> io_error \<and> e \<noteq> bad_address then Inl e else Inr (), w')
     | (Inr xs, w') \<Rightarrow> (if xs = [] then Inl operation_canceled else Inr (), w'))"

text \<open>The default \<^verbatim>\<open>ProcessHandle::writeCode\<close>, with a buffer.\<close>

definition default_writeCode :: "(u64 \<Rightarrow> TargetMachine) \<Rightarrow> 'w writer \<Rightarrow> 'w writer" where
  "default_writeCode machineAt wr w a xs =
    (if xs = [] then (Inr 0, w)
     else if span_overflows a (length xs) then (Inl invalid_argument, w)
     else if \<not> isX86 (machineAt a) then (Inl operation_not_supported, w)
     else wr w a xs)"

text \<open>\<^verbatim>\<open>ProcessHandle::readMany\<close>: the bytes of each address and whether all of them were read.\<close>

fun readMany :: "'w reader \<Rightarrow> u64 list \<Rightarrow> nat \<Rightarrow> 'w \<Rightarrow> (byte list \<times> bool) list \<times> 'w" where
  "readMany rd [] sz w = ([], w)"
| "readMany rd (a # as) sz w =
    (case rd w a sz of
       (r, w') \<Rightarrow> (case readMany rd as sz w' of (out, w'') \<Rightarrow>
          ((case r of Inl e \<Rightarrow> ([], False) | Inr xs \<Rightarrow> (xs, length xs = sz)) # out, w'')))"

context memory_port
begin

lemma image_read_port: "memory_port mem (image_read rd) wr"
proof
  fix w a n
  show "mem (snd (image_read rd w a n)) = mem w"
    by (cases "rd w a n") (auto simp: image_read_def split: sum.splits dest: rd_same)
next
  fix w a n xs
  assume "fst (image_read rd w a n) = Inr xs"
  then show "length xs \<le> n \<and> xs = span_bytes (mem w) a (length xs)"
    using rd_bytes [of w a n xs] by (auto simp: image_read_def span_bytes_def split: sum.splits if_splits prod.splits)
qed (rule wr_frame wr_bytes; assumption)+

lemma default_writeCode_port: "memory_port mem rd (default_writeCode machineAt wr)"
proof
  show "mem (snd (rd w a n)) = mem w" for w a n by (rule rd_frame)
  show "length xs \<le> n \<and> xs = span_bytes (mem w) a (length xs)" if "fst (rd w a n) = Inr xs" for w a n xs
    using that by (rule rd_bytes)
  show "mem (snd (default_writeCode machineAt wr w a xs)) x = mem w x"
    if "span_ok a (length xs)" "\<not> in_span a (length xs) x" for w a xs x
    using that by (simp add: default_writeCode_def wr_frame)
  show "n \<le> length xs \<and> mem (snd (default_writeCode machineAt wr w a xs)) = span_upd (mem w) a (take n xs)"
    if "span_ok a (length xs)" "fst (default_writeCode machineAt wr w a xs) = Inr n" for w a xs n
    using that wr_bytes [of a xs w n] by (auto simp: default_writeCode_def split: if_splits)
qed

end

text \<open>The pinned image of a process is a port, and so is code written through the default adapter.\<close>

interpretation native_image: memory_port contents "image_read as_pread" as_pwrite
  by (rule proc_mem.image_read_port)

interpretation native_code: memory_port contents as_pread "default_writeCode machineAt as_pwrite" for machineAt
  by (rule proc_mem.default_writeCode_port)

end
