(* ===== verification/CodeWrite.thy ===== *)
theory CodeWrite
  imports Memory
begin

text \<open>
  \<^verbatim>\<open>src/platform/linux/code_write.cpp\<close>: a code write that owns the bytes it may have changed until it is
  complete or undone, and the transaction \<^verbatim>\<open>TargetSyscallService::writeCode\<close> of
  \<^verbatim>\<open>src/platform/linux/syscall_service.cpp\<close> that runs it. The descriptor is the port; exhaustion of the
  engine's own memory is not modelled.
\<close>

section \<open>State and operations\<close>

record CodeWriteRecovery =
  cw_address :: u64
  attempted :: nat
  original :: "byte list"

definition changed :: "CodeWriteRecovery \<Rightarrow> bool" where
  "changed r \<longleftrightarrow> attempted r \<noteq> 0"

definition chunkSize :: nat where "chunkSize = 65536"

lemma chunkSize_pos [simp]: "0 < chunkSize"
  by (simp add: chunkSize_def)

text \<open>The answers of the process table that \<^verbatim>\<open>prepare\<close> asks for.\<close>

record 'id prepare_env =
  env_image :: "('id \<times> unit result) option"
  env_identity :: "'id result"
  env_task :: "nat result"
  env_member :: "'id result"
  env_owned :: bool
  env_open :: "unit result"
  env_identity_again :: "'id result"
  env_member_again :: "'id result"

definition prepare_fd :: "'id prepare_env \<Rightarrow> 'id \<Rightarrow> unit result" where
  "prepare_fd env identity =
    (case env_image env of
       Some (image_identity, fd) \<Rightarrow> if image_identity \<noteq> identity then Inl invalid_argument else fd
     | None \<Rightarrow>
        (case env_identity env of Inl e \<Rightarrow> Inl e | Inr actual \<Rightarrow>
         if actual \<noteq> identity then Inl operation_canceled
         else case env_task env of Inl e \<Rightarrow> Inl e | Inr task \<Rightarrow>
         case env_member env of Inl e \<Rightarrow> Inl e | Inr member \<Rightarrow>
         if \<not> env_owned env then Inl operation_not_permitted
         else case env_open env of Inl e \<Rightarrow> Inl e | Inr _ \<Rightarrow>
         if env_identity_again env \<noteq> Inr identity \<or> env_member_again env \<noteq> Inr member
         then Inl operation_canceled else Inr ()))"

function read_loop :: "'w reader \<Rightarrow> u64 \<Rightarrow> nat \<Rightarrow> nat \<Rightarrow> byte list \<Rightarrow> 'w \<Rightarrow> byte list result \<times> 'w" where
  "read_loop rd a len offset acc w =
    (if offset < len then
       (let count = min chunkSize (len - offset) in
        case rd w (a + of_nat offset) count of
          (Inl e, w') \<Rightarrow> (Inl e, w')
        | (Inr xs, w') \<Rightarrow>
            if xs = [] then (Inl operation_canceled, w')
            else if length xs \<noteq> count then (Inl io_error, w')
            else read_loop rd a len (offset + count) (acc @ xs) w')
     else (Inr acc, w))"
  by pat_completeness auto
termination
  by (relation "measure (\<lambda>(rd, a, len, offset, acc, w). len - offset)") (auto simp: Let_def chunkSize_def)

definition cw_prepare :: "'id prepare_env \<Rightarrow> 'id \<Rightarrow> 'w reader \<Rightarrow> u64 \<Rightarrow> nat \<Rightarrow> 'w \<Rightarrow> CodeWriteRecovery result \<times> 'w" where
  "cw_prepare env identity rd a len w =
    (if len = 0 \<or> span_overflows a len then (Inl invalid_argument, w)
     else case prepare_fd env identity of Inl e \<Rightarrow> (Inl e, w)
     | Inr _ \<Rightarrow>
        (case read_loop rd a len 0 [] w of
           (Inl e, w') \<Rightarrow> (Inl e, w')
         | (Inr xs, w') \<Rightarrow> (Inr \<lparr>cw_address = a, attempted = 0, original = xs\<rparr>, w')))"

function verify_loop :: "'w reader \<Rightarrow> u64 \<Rightarrow> byte list \<Rightarrow> nat \<Rightarrow> 'w \<Rightarrow> unit result \<times> 'w" where
  "verify_loop rd a bytes offset w =
    (if offset < length bytes then
       (let count = min chunkSize (length bytes - offset) in
        case rd w (a + of_nat offset) count of
          (Inl e, w') \<Rightarrow> (Inl e, w')
        | (Inr xs, w') \<Rightarrow>
            if xs = [] then (Inl operation_canceled, w')
            else if length xs \<noteq> count \<or> xs \<noteq> take count (drop offset bytes) then (Inl io_error, w')
            else verify_loop rd a bytes (offset + count) w')
     else (Inr (), w))"
  by pat_completeness auto
termination
  by (relation "measure (\<lambda>(rd, a, bytes, offset, w). length bytes - offset)") (auto simp: Let_def chunkSize_def)

definition cw_verify :: "'w reader \<Rightarrow> u64 \<Rightarrow> byte list \<Rightarrow> 'w \<Rightarrow> unit result \<times> 'w" where
  "cw_verify rd a bytes w = verify_loop rd a bytes 0 w"

text \<open>
  The loop of \<^verbatim>\<open>write\<close>, which also returns \<^verbatim>\<open>attempted_\<close>: the whole chunk before the call, then the
  bytes reported written.
\<close>

function write_loop :: "'w writer \<Rightarrow> u64 \<Rightarrow> byte list \<Rightarrow> nat \<Rightarrow> nat \<Rightarrow> 'w \<Rightarrow> unit result \<times> nat \<times> 'w" where
  "write_loop wr a bytes offset att w =
    (if offset < length bytes then
       (let count = min chunkSize (length bytes - offset) in
        case wr w (a + of_nat offset) (take count (drop offset bytes)) of
          (Inl e, w') \<Rightarrow> (Inl e, offset + count, w')
        | (Inr n, w') \<Rightarrow>
            if n = 0 then (Inl operation_canceled, offset + count, w')
            else (let att' = (if n \<le> count then offset + n else offset + count) in
                  if n \<noteq> count then (Inl io_error, att', w')
                  else write_loop wr a bytes (offset + count) att' w'))
     else (Inr (), att, w))"
  by pat_completeness auto
termination
  by (relation "measure (\<lambda>(wr, a, bytes, offset, att, w). length bytes - offset)") (auto simp: Let_def chunkSize_def)

definition cw_write :: "'w reader \<Rightarrow> 'w writer \<Rightarrow> CodeWriteRecovery \<Rightarrow> byte list \<Rightarrow> 'w
    \<Rightarrow> unit result \<times> CodeWriteRecovery \<times> 'w" where
  "cw_write rd wr r bytes w =
    (if length bytes \<noteq> length (original r) \<or> changed r then (Inl invalid_argument, r, w)
     else case write_loop wr (cw_address r) bytes 0 (attempted r) w of
            (Inl e, att, w') \<Rightarrow> (Inl e, r\<lparr>attempted := att\<rparr>, w')
          | (Inr _, att, w') \<Rightarrow>
              (case cw_verify rd (cw_address r) bytes w' of (v, w'') \<Rightarrow> (v, r\<lparr>attempted := att\<rparr>, w'')))"

function put_loop :: "'w writer \<Rightarrow> u64 \<Rightarrow> byte list \<Rightarrow> nat \<Rightarrow> 'w \<Rightarrow> unit result \<times> 'w" where
  "put_loop wr a bytes offset w =
    (if offset < length bytes then
       (let count = min chunkSize (length bytes - offset) in
        case wr w (a + of_nat offset) (take count (drop offset bytes)) of
          (Inl e, w') \<Rightarrow> (Inl e, w')
        | (Inr n, w') \<Rightarrow>
            if n = 0 then (Inl operation_canceled, w')
            else if n \<noteq> count then (Inl io_error, w')
            else put_loop wr a bytes (offset + count) w')
     else (Inr (), w))"
  by pat_completeness auto
termination
  by (relation "measure (\<lambda>(wr, a, bytes, offset, w). length bytes - offset)") (auto simp: Let_def chunkSize_def)

definition cw_restore :: "'w reader \<Rightarrow> 'w writer \<Rightarrow> CodeWriteRecovery \<Rightarrow> 'w \<Rightarrow> unit result \<times> CodeWriteRecovery \<times> 'w" where
  "cw_restore rd wr r w =
    (if \<not> changed r then (Inr (), r, w)
     else let orig = take (attempted r) (original r) in
       case cw_verify rd (cw_address r) orig w of
         (Inr _, w') \<Rightarrow> (Inr (), r\<lparr>attempted := 0\<rparr>, w')
       | (Inl e, w') \<Rightarrow>
           if e = operation_canceled then (Inl e, r, w')
           else (case put_loop wr (cw_address r) orig 0 w' of
                   (Inl e', w'') \<Rightarrow> (Inl e', r, w'')
                 | (Inr _, w'') \<Rightarrow>
                     (case cw_verify rd (cw_address r) orig w'' of
                        (Inr _, w3) \<Rightarrow> (Inr (), r\<lparr>attempted := 0\<rparr>, w3)
                      | (Inl e', w3) \<Rightarrow> (Inl e', r, w3))))"

definition cw_overlaps :: "CodeWriteRecovery \<Rightarrow> u64 \<Rightarrow> nat \<Rightarrow> bool" where
  "cw_overlaps r a n =
    (if n = 0 \<or> attempted r = 0 then False
     else if a \<ge> cw_address r then unat (a - cw_address r) < attempted r
     else unat (cw_address r - a) < n)"

declare read_loop.simps [simp del] verify_loop.simps [simp del] write_loop.simps [simp del] put_loop.simps [simp del]

section \<open>The code-write transaction of the service\<close>

text \<open>
  The service keeps at most one recovery record per process; \<^verbatim>\<open>slot\<close> is the entry of \<^verbatim>\<open>codeRecords\<close> under
  the identity's key. The other recoveries of \<^verbatim>\<open>recover\<close> (native calls, system calls) enter as their
  result.
\<close>

definition service_recover :: "'w reader \<Rightarrow> 'w writer \<Rightarrow> unit result \<Rightarrow> CodeWriteRecovery option \<Rightarrow> 'w
    \<Rightarrow> unit result \<times> CodeWriteRecovery option \<times> 'w" where
  "service_recover rd wr others slot w =
    (case slot of None \<Rightarrow> (others, None, w)
     | Some r \<Rightarrow>
        (case cw_restore rd wr r w of
           (Inl e, r', w') \<Rightarrow> if \<not> gone e then (Inl e, Some r', w') else (others, None, w')
         | (Inr _, r', w') \<Rightarrow> (others, None, w')))"

definition service_writeCode :: "'w reader \<Rightarrow> 'w writer \<Rightarrow> 'id prepare_env \<Rightarrow> 'id \<Rightarrow> unit result \<Rightarrow> bool
    \<Rightarrow> u64 \<Rightarrow> byte list \<Rightarrow> CodeWriteRecovery option \<Rightarrow> 'w \<Rightarrow> nat result \<times> CodeWriteRecovery option \<times> 'w" where
  "service_writeCode rd wr env identity others calls_busy a bytes slot w =
    (if bytes = [] then (Inr 0, slot, w)
     else case service_recover rd wr others slot w of
       (Inl e, slot', w1) \<Rightarrow> (Inl e, slot', w1)
     | (Inr _, slot', w1) \<Rightarrow>
        if calls_busy then (Inl device_or_resource_busy, slot', w1)
        else case cw_prepare env identity rd a (length bytes) w1 of
          (Inl e, w2) \<Rightarrow> (Inl e, slot', w2)
        | (Inr r, w2) \<Rightarrow>
           if slot' \<noteq> None then (Inl device_or_resource_busy, slot', w2)
           else case cw_write rd wr r bytes w2 of
             (Inr _, r', w3) \<Rightarrow> (Inr (length bytes), None, w3)
           | (Inl e, r', w3) \<Rightarrow>
              (case cw_restore rd wr r' w3 of
                 (Inr _, r'', w4) \<Rightarrow> (Inl e, None, w4)
               | (Inl e', r'', w4) \<Rightarrow>
                   if gone e' then (Inl e, None, w4) else (Inl state_not_recoverable, Some r'', w4)))"

section \<open>The loops\<close>

lemma span_bytes_append: "span_bytes m a (k + n) = span_bytes m a k @ span_bytes m (a + of_nat k) n"
  by (auto simp: list_eq_iff_nth_eq nth_append add.assoc simp flip: of_nat_add)

text \<open>The next chunk of a transfer of \<^verbatim>\<open>len\<close> bytes.\<close>

lemma next_chunk:
  assumes "offset < len"
  obtains c where "c = min chunkSize (len - offset)" "0 < c" "offset + c \<le> len"
    "len - offset = c + (len - (offset + c))" "len - (offset + c) < len - offset"
  by (rule that [OF refl]) (use assms chunkSize_pos in \<open>linarith | simp add: min_def\<close>)+

lemma span_bytes_chunk:
  "len - offset = c + (len - (offset + c)) \<Longrightarrow>
   span_bytes m (a + of_nat offset) (len - offset) =
     span_bytes m (a + of_nat offset) c @ span_bytes m (a + of_nat (offset + c)) (len - (offset + c))"
  using span_bytes_append [of m "a + of_nat offset" c "len - (offset + c)"] by (simp add: add.assoc)

lemma drop_chunk: "drop offset xs = take c (drop offset xs) @ drop (offset + c) xs"
  by (metis add.commute append_take_drop_id drop_drop)

context memory_port
begin

lemma read_loop_ok:
  assumes "read_loop rd a len offset acc w = (r, w')" "offset \<le> len"
  shows "mem w' = mem w \<and> (\<forall>xs. r = Inr xs \<longrightarrow> xs = acc @ span_bytes (mem w) (a + of_nat offset) (len - offset))"
  using assms
proof (induction "len - offset" arbitrary: offset acc w r w' rule: less_induct)
  case less
  show ?case
  proof (cases "offset < len")
    case True
    then obtain c where c: "c = min chunkSize (len - offset)" "0 < c" "offset + c \<le> len"
      "len - offset = c + (len - (offset + c))" "len - (offset + c) < len - offset" by (rule next_chunk)
    obtain q w1 where q: "rd w (a + of_nat offset) c = (q, w1)" by force
    note step = less.prems(1) [unfolded read_loop.simps [of rd a len offset] Let_def c(1) [symmetric] q, simplified True]
    show ?thesis
    proof (cases "\<exists>xs. q = Inr xs \<and> length xs = c")
      case ok: True
      then obtain xs where xs: "q = Inr xs" "length xs = c" by blast
      with c(2) have "xs \<noteq> []" by auto
      with step xs have "read_loop rd a len (offset + c) (acc @ xs) w1 = (r, w')" by simp
      note ih = less.hyps [OF c(5) this c(3)]
      from rd_full [OF q [unfolded xs(1)] xs(2)] ih show ?thesis
        by (simp add: span_bytes_chunk [OF c(4)])
    next
      case False
      with step have "r \<in> range Inl \<and> w' = w1" by (auto split: sum.splits if_splits)
      with rd_same [OF q] show ?thesis by auto
    qed
  next
    case False
    with less.prems show ?thesis by (auto simp: read_loop.simps [of rd a len offset] span_bytes_def)
  qed
qed

lemma verify_loop_ok:
  assumes "verify_loop rd a bytes offset w = (r, w')" "offset \<le> length bytes"
  shows "mem w' = mem w \<and> (r = Inr () \<longrightarrow> span_bytes (mem w) (a + of_nat offset) (length bytes - offset) = drop offset bytes)"
  using assms
proof (induction "length bytes - offset" arbitrary: offset w r w' rule: less_induct)
  case less
  show ?case
  proof (cases "offset < length bytes")
    case True
    then obtain c where c: "c = min chunkSize (length bytes - offset)" "0 < c" "offset + c \<le> length bytes"
      "length bytes - offset = c + (length bytes - (offset + c))" "length bytes - (offset + c) < length bytes - offset"
      by (rule next_chunk)
    obtain q w1 where q: "rd w (a + of_nat offset) c = (q, w1)" by force
    note step = less.prems(1) [unfolded verify_loop.simps [of rd a bytes offset] Let_def c(1) [symmetric] q, simplified True]
    define chunk where "chunk = take c (drop offset bytes)"
    have len: "length chunk = c" "chunk \<noteq> []" using c(2,3) True by (auto simp: chunk_def)
    show ?thesis
    proof (cases "q = Inr chunk")
      case ok: True
      with step len have "verify_loop rd a bytes (offset + c) w1 = (r, w')" by (simp flip: chunk_def)
      note ih = less.hyps [OF c(5) this c(3)]
      from rd_full [OF q [unfolded ok] len(1)] ih show ?thesis
        using drop_chunk [of offset bytes c] by (simp add: span_bytes_chunk [OF c(4)] chunk_def)
    next
      case False
      with step have "r \<in> range Inl \<and> w' = w1" by (auto simp: chunk_def split: sum.splits if_splits)
      with rd_same [OF q] show ?thesis by auto
    qed
  next
    case False
    with less.prems show ?thesis by (simp add: verify_loop.simps [of rd a bytes offset] span_bytes_def)
  qed
qed

lemma cw_verify_ok:
  assumes "cw_verify rd a bytes w = (r, w')"
  shows "mem w' = mem w" "r = Inr () \<Longrightarrow> span_bytes (mem w) a (length bytes) = bytes"
  using verify_loop_ok [of a bytes 0 w r w'] assms by (simp_all add: cw_verify_def)

text \<open>
  Writing: whatever the outcome, only the first \<^verbatim>\<open>attempted\<close> bytes of the span may differ afterwards.
\<close>

lemma write_loop_owned:
  assumes "write_loop wr a bytes offset offset w = (r, att, w')" "offset \<le> length bytes" "span_ok a (length bytes)"
  shows "offset \<le> att \<and> att \<le> length bytes \<and> (\<forall>x. \<not> in_span a att x \<longrightarrow> mem w' x = mem w x) \<and>
    (r = Inr () \<longrightarrow> att = length bytes)"
  using assms
proof (induction "length bytes - offset" arbitrary: offset w r att w' rule: less_induct)
  case less
  show ?case
  proof (cases "offset < length bytes")
    case True
    then obtain c where c: "c = min chunkSize (length bytes - offset)" "0 < c" "offset + c \<le> length bytes"
      "length bytes - offset = c + (length bytes - (offset + c))" "length bytes - (offset + c) < length bytes - offset"
      by (rule next_chunk)
    define chunk where "chunk = take c (drop offset bytes)"
    have len: "length chunk = c" using c(2,3) True by (auto simp: chunk_def)
    obtain q w1 where q: "wr w (a + of_nat offset) chunk = (q, w1)" by force
    note step = less.prems(1) [unfolded write_loop.simps [of wr a bytes offset] Let_def c(1) [symmetric]
        chunk_def [symmetric] q, simplified True]
    have ok: "span_ok (a + of_nat offset) (length chunk)"
      using span_ok_shift [of a offset c] less.prems(3) c(2,3) len by (simp add: span_ok_def)
    have le: "offset + c \<le> 2 ^ 64" using less.prems(3) c(3) by (simp add: span_ok_def)
    have out: "mem w1 x = mem w x" if "\<not> in_span a (offset + c) x" for x
      using wr_other [OF q ok, of x] that in_span_shift [of a offset c x] le len by auto
    have short: "n \<le> c \<and> (\<forall>x. \<not> in_span a (offset + n) x \<longrightarrow> mem w1 x = mem w x)" if "q = Inr n" for n
    proof -
      have "n \<le> length chunk" using wr_bytes [OF ok, of w n] q that by simp
      with wr_short [OF q [unfolded that] ok] in_span_shift [of a offset n] le len show ?thesis by auto
    qed
    show ?thesis
    proof (cases "q = Inr c")
      case full: True
      with step c(2) have "write_loop wr a bytes (offset + c) (offset + c) w1 = (r, att, w')" by simp
      note ih = less.hyps [OF c(5) this c(3) less.prems(3)]
      with out in_span_mono [of a "offset + c" _ att] show ?thesis by auto
    next
      case False
      with step c(2,3) out short show ?thesis by (auto split: sum.splits if_splits)
    qed
  next
    case False
    with less.prems show ?thesis by (simp add: write_loop.simps [of wr a bytes offset])
  qed
qed

lemma put_loop_frame:
  assumes "put_loop wr a bytes offset w = (r, w')" "offset \<le> length bytes" "span_ok a (length bytes)"
    "\<not> in_span a (length bytes) x"
  shows "mem w' x = mem w x"
  using assms
proof (induction "length bytes - offset" arbitrary: offset w r w' rule: less_induct)
  case less
  show ?case
  proof (cases "offset < length bytes")
    case True
    then obtain c where c: "c = min chunkSize (length bytes - offset)" "0 < c" "offset + c \<le> length bytes"
      "length bytes - offset = c + (length bytes - (offset + c))" "length bytes - (offset + c) < length bytes - offset"
      by (rule next_chunk)
    define chunk where "chunk = take c (drop offset bytes)"
    have len: "length chunk = c" using c(2,3) True by (auto simp: chunk_def)
    obtain q w1 where q: "wr w (a + of_nat offset) chunk = (q, w1)" by force
    note step = less.prems(1) [unfolded put_loop.simps [of wr a bytes offset] Let_def c(1) [symmetric]
        chunk_def [symmetric] q, simplified True]
    have ok: "span_ok (a + of_nat offset) (length chunk)"
      using span_ok_shift [of a offset c] less.prems(3) c(2,3) len by (simp add: span_ok_def)
    have "\<not> in_span (a + of_nat offset) (length chunk) x"
      using in_span_shift [of a offset c x] in_span_mono [of a "offset + c" x "length bytes"] less.prems(3,4) c(3) len
      by (auto simp: span_ok_def)
    then have out: "mem w1 x = mem w x" using wr_other [OF q ok] by simp
    show ?thesis
    proof (cases "q = Inr c")
      case full: True
      with step c(2) have "put_loop wr a bytes (offset + c) w1 = (r, w')" by simp
      from less.hyps [OF c(5) this c(3) less.prems(3,4)] out show ?thesis by simp
    next
      case False
      with step have "w' = w1" by (auto split: sum.splits if_splits)
      with out show ?thesis by simp
    qed
  next
    case False
    with less.prems show ?thesis by (simp add: put_loop.simps [of wr a bytes offset])
  qed
qed

end

section \<open>What a record owns\<close>

text \<open>
  Relative to the memory \<^verbatim>\<open>m0\<close> before the write: the record holds the original bytes, and every byte
  outside the attempted prefix is still the original one.
\<close>

definition cw_inv :: "('w \<Rightarrow> u64 \<Rightarrow> byte) \<Rightarrow> (u64 \<Rightarrow> byte) \<Rightarrow> CodeWriteRecovery \<Rightarrow> 'w \<Rightarrow> bool" where
  "cw_inv mem m0 r w \<longleftrightarrow>
     attempted r \<le> length (original r) \<and> span_ok (cw_address r) (length (original r)) \<and>
     original r = span_bytes m0 (cw_address r) (length (original r)) \<and>
     (\<forall>x. \<not> in_span (cw_address r) (attempted r) x \<longrightarrow> mem w x = m0 x)"

lemma cw_inv_unchanged: "cw_inv mem m0 r w \<Longrightarrow> \<not> changed r \<Longrightarrow> mem w = m0"
  by (auto simp: cw_inv_def changed_def)

lemma cw_inv_cong: "cw_inv mem m0 r w \<Longrightarrow> mem w' = mem w \<Longrightarrow> cw_inv mem m0 r w'"
  by (simp add: cw_inv_def)

lemma cw_inv_zero: "cw_inv mem m0 r w \<Longrightarrow> mem w' = m0 \<Longrightarrow> cw_inv mem m0 (r\<lparr>attempted := 0\<rparr>) w'"
  by (simp add: cw_inv_def)

text \<open>The service's slot, relative to the memory before the oldest unfinished write.\<close>

definition slot_inv :: "('w \<Rightarrow> u64 \<Rightarrow> byte) \<Rightarrow> (u64 \<Rightarrow> byte) \<Rightarrow> CodeWriteRecovery option \<Rightarrow> 'w \<Rightarrow> bool" where
  "slot_inv mem m0 slot w \<longleftrightarrow> (case slot of None \<Rightarrow> mem w = m0 | Some r \<Rightarrow> cw_inv mem m0 r w)"

text \<open>The states a record and its memory can reach by writes and restores, successful or not.\<close>

inductive cw_reach :: "'w reader \<Rightarrow> 'w writer \<Rightarrow> CodeWriteRecovery \<Rightarrow> 'w \<Rightarrow> CodeWriteRecovery \<Rightarrow> 'w \<Rightarrow> bool"
  for rd wr r0 w0 where
  reach_start: "cw_reach rd wr r0 w0 r0 w0"
| reach_write: "cw_reach rd wr r0 w0 r w \<Longrightarrow> cw_write rd wr r bytes w = (res, r', w') \<Longrightarrow> cw_reach rd wr r0 w0 r' w'"
| reach_restore: "cw_reach rd wr r0 w0 r w \<Longrightarrow> cw_restore rd wr r w = (res, r', w') \<Longrightarrow> cw_reach rd wr r0 w0 r' w'"

context memory_port
begin

lemma cw_prepare_inv:
  assumes "cw_prepare env identity rd a n w = (Inr r, w')"
  shows "cw_inv mem (mem w) r w'" "\<not> changed r" "cw_address r = a" "length (original r) = n"
proof -
  from assms obtain xs where xs: "read_loop rd a n 0 [] w = (Inr xs, w')"
      "r = \<lparr>cw_address = a, attempted = 0, original = xs\<rparr>" "0 < n" "\<not> span_overflows a n"
    by (auto simp: cw_prepare_def split: if_splits sum.splits prod.splits)
  from read_loop_ok [OF xs(1)] have m: "mem w' = mem w" "xs = span_bytes (mem w) a n" by simp_all
  have "span_ok a n" using xs(3,4) span_overflows_iff by blast
  with m xs(2) show "cw_inv mem (mem w) r w'" "\<not> changed r" "cw_address r = a" "length (original r) = n"
    by (simp_all add: cw_inv_def changed_def)
qed

lemma cw_prepare_same:
  assumes "cw_prepare env identity rd a n w = (q, w')"
  shows "mem w' = mem w"
proof -
  obtain p w1 where p: "read_loop rd a n 0 [] w = (p, w1)" by force
  with assms have "w' = w \<or> w' = w1" by (auto simp: cw_prepare_def split: if_splits sum.splits)
  with read_loop_ok [OF p] show ?thesis by auto
qed

lemma cw_write_inv:
  assumes inv: "cw_inv mem m0 r w" and w: "cw_write rd wr r bytes w = (res, r', w')"
  shows "cw_inv mem m0 r' w'" "cw_address r' = cw_address r"
    "res = Inr () \<Longrightarrow> mem w' = span_upd m0 (cw_address r) bytes"
proof -
  let ?a = "cw_address r"
  have "cw_inv mem m0 r' w' \<and> cw_address r' = ?a \<and> (res = Inr () \<longrightarrow> mem w' = span_upd m0 ?a bytes)"
  proof (cases "length bytes \<noteq> length (original r) \<or> changed r")
    case True
    with w inv show ?thesis by (auto simp: cw_write_def)
  next
    case False
    then have att: "attempted r = 0" and len: "length bytes = length (original r)" by (auto simp: changed_def)
    have m0: "mem w = m0" using cw_inv_unchanged [OF inv] False by blast
    have ok: "span_ok ?a (length bytes)" using inv len by (simp add: cw_inv_def)
    obtain q att1 w1 where q: "write_loop wr ?a bytes 0 0 w = (q, att1, w1)" by (metis prod_cases3)
    note own = write_loop_owned [OF q _ ok, simplified]
    obtain v w2 where v: "cw_verify rd ?a bytes w1 = (v, w2)" by force
    note ver = cw_verify_ok [OF v]
    have r': "r' = r\<lparr>attempted := att1\<rparr>" and w': "w' = w1 \<or> w' = w2"
      and res: "res = Inr () \<longrightarrow> q = Inr () \<and> v = Inr () \<and> w' = w2"
      using w False q v att by (auto simp: cw_write_def split: sum.splits)
    have mw': "mem w' = mem w1" using w' ver(1) by auto
    have "cw_inv mem m0 r' w'"
      using inv own len m0 mw' by (simp add: cw_inv_def r')
    moreover have "mem w' = span_upd m0 ?a bytes" if "res = Inr ()"
    proof (rule memory_eqI [of ?a "length bytes"])
      show "mem w' x = span_upd m0 ?a bytes x" if "\<not> in_span ?a (length bytes) x" for x
        using that own res \<open>res = Inr ()\<close> mw' m0 by (simp add: span_upd_def)
      show "span_bytes (mem w') ?a (length bytes) = span_bytes (span_upd m0 ?a bytes) ?a (length bytes)"
        using ver res that mw' span_bytes_upd [of bytes m0 ?a] span_ok_le [OF ok] by simp
    qed
    ultimately show ?thesis by (simp add: r')
  qed
  then show "cw_inv mem m0 r' w'" "cw_address r' = cw_address r"
    "res = Inr () \<Longrightarrow> mem w' = span_upd m0 (cw_address r) bytes" by blast+
qed

lemma original_prefix:
  assumes inv: "cw_inv mem m0 r w" and out: "\<And>x. \<not> in_span (cw_address r) (attempted r) x \<Longrightarrow> m x = mem w x"
    and eq: "span_bytes m (cw_address r) (length (take (attempted r) (original r))) = take (attempted r) (original r)"
  shows "m = m0"
proof (rule memory_eqI [of "cw_address r" "attempted r"])
  show "m x = m0 x" if "\<not> in_span (cw_address r) (attempted r) x" for x
    using out [OF that] inv that by (simp add: cw_inv_def)
  have le: "attempted r \<le> length (original r)" and orig: "original r = span_bytes m0 (cw_address r) (length (original r))"
    using inv by (simp_all add: cw_inv_def)
  have "take (attempted r) (original r) = span_bytes m0 (cw_address r) (attempted r)"
    by (subst orig) (use le in \<open>simp add: span_bytes_def take_map\<close>)
  with eq le show "span_bytes m (cw_address r) (attempted r) = span_bytes m0 (cw_address r) (attempted r)" by simp
qed

lemma cw_restore_inv:
  assumes inv: "cw_inv mem m0 r w" and w: "cw_restore rd wr r w = (res, r', w')"
  shows "cw_inv mem m0 r' w' \<and> (res = Inr () \<longrightarrow> \<not> changed r' \<and> mem w' = m0)"
proof (cases "changed r")
  case False
  with w inv cw_inv_unchanged [OF inv] show ?thesis by (auto simp: cw_restore_def)
next
  case True
  let ?a = "cw_address r" and ?orig = "take (attempted r) (original r)"
  have len: "length ?orig = attempted r" and ok: "span_ok ?a (length ?orig)"
    using inv by (auto simp: cw_inv_def span_ok_def)
  obtain v w1 where v: "cw_verify rd ?a ?orig w = (v, w1)" by force
  note v1 = cw_verify_ok [OF v]
  obtain p w2 where p: "put_loop wr ?a ?orig 0 w1 = (p, w2)" by force
  note put = put_loop_frame [OF p _ ok]
  obtain u w3 where u: "cw_verify rd ?a ?orig w2 = (u, w3)" by force
  note u1 = cw_verify_ok [OF u]
  have first: "mem w1 = m0" if "v = Inr ()"
    using original_prefix [OF inv, of "mem w"] v1 that by simp
  have second: "mem w3 = m0" if "u = Inr ()"
    using original_prefix [OF inv, of "mem w2"] u1 v1 that put len by simp
  have keep: "cw_inv mem m0 r w1" "cw_inv mem m0 r w2" "cw_inv mem m0 r w3"
    using inv v1(1) put len u1(1) by (auto simp: cw_inv_def)
  from w v p u True first second keep inv show ?thesis
    by (auto simp: cw_restore_def Let_def changed_def split: sum.splits if_splits intro: cw_inv_zero)
qed

lemma cw_reach_inv:
  assumes "cw_reach rd wr r0 w0 r w" "cw_inv mem m0 r0 w0"
  shows "cw_inv mem m0 r w \<and> cw_address r = cw_address r0"
  using assms
proof (induction rule: cw_reach.induct)
  case (reach_write r w bytes res r' w')
  with cw_write_inv [of m0 r w bytes res r' w'] show ?case by simp
next
  case (reach_restore r w res r' w')
  have "cw_address r' = cw_address r"
    using reach_restore(2) by (auto simp: cw_restore_def Let_def split: if_splits sum.splits prod.splits)
  with reach_restore cw_restore_inv [of m0 r w res r' w'] show ?case by simp
qed simp

end

section \<open>Live address spaces\<close>

context live_memory_port
begin

lemma rd_keeps_alive: "rd w a n = (q, w') \<Longrightarrow> alive w' = alive w"
  using rd_alive [of w a n] by simp

lemma wr_keeps_alive: "wr w a xs = (q, w') \<Longrightarrow> alive w' = alive w"
  using wr_alive [of w a xs] by simp

lemma rd_not_gone: "rd w a n = (Inl e, w') \<Longrightarrow> alive w \<Longrightarrow> 0 < n \<Longrightarrow> \<not> gone e"
  using rd_live [of w n a] by simp

lemma wr_not_gone: "wr w a xs = (Inl e, w') \<Longrightarrow> alive w \<Longrightarrow> xs \<noteq> [] \<Longrightarrow> \<not> gone e"
  using wr_live [of w xs a] by simp

lemma verify_loop_live:
  assumes "verify_loop rd a bytes offset w = (r, w')" "alive w"
  shows "alive w' \<and> (\<forall>e. r = Inl e \<longrightarrow> \<not> gone e)"
  using assms
proof (induction "length bytes - offset" arbitrary: offset w r w' rule: less_induct)
  case less
  show ?case
  proof (cases "offset < length bytes")
    case True
    then obtain c where c: "c = min chunkSize (length bytes - offset)" "0 < c"
      "length bytes - (offset + c) < length bytes - offset" by (rule next_chunk)
    obtain q w1 where q: "rd w (a + of_nat offset) c = (q, w1)" by force
    have live: "alive w1" "q \<noteq> Inr []" using rd_keeps_alive [OF q] rd_live [of w c "a + of_nat offset"] q c(2) less.prems by auto
    show ?thesis
      using less.prems(1) rd_not_gone [of w "a + of_nat offset" c _ w1] less.prems(2) live c(2) q less.hyps [OF c(3) _ live(1)]
      unfolding verify_loop.simps [of rd a bytes offset] Let_def c(1) [symmetric] q
      by (auto simp: True gone_def split: sum.splits if_splits)
  next
    case False
    with less.prems show ?thesis by (auto simp: verify_loop.simps [of rd a bytes offset])
  qed
qed

lemma put_loop_live:
  assumes "put_loop wr a bytes offset w = (r, w')" "alive w"
  shows "alive w' \<and> (\<forall>e. r = Inl e \<longrightarrow> \<not> gone e)"
  using assms
proof (induction "length bytes - offset" arbitrary: offset w r w' rule: less_induct)
  case less
  show ?case
  proof (cases "offset < length bytes")
    case True
    then obtain c where c: "c = min chunkSize (length bytes - offset)" "0 < c"
      "length bytes - (offset + c) < length bytes - offset" by (rule next_chunk)
    define chunk where "chunk = take c (drop offset bytes)"
    have ne: "chunk \<noteq> []" using c True by (simp add: chunk_def)
    obtain q w1 where q: "wr w (a + of_nat offset) chunk = (q, w1)" by force
    have live: "alive w1" "q \<noteq> Inr 0" using wr_keeps_alive [OF q] wr_live [of w chunk "a + of_nat offset"] q ne less.prems by auto
    show ?thesis
      using less.prems(1) wr_not_gone [of w "a + of_nat offset" chunk _ w1] less.prems(2) live ne q less.hyps [OF c(3) _ live(1)]
      unfolding put_loop.simps [of wr a bytes offset] Let_def c(1) [symmetric] chunk_def [symmetric] q
      by (auto simp: True gone_def split: sum.splits if_splits)
  next
    case False
    with less.prems show ?thesis by (auto simp: put_loop.simps [of wr a bytes offset])
  qed
qed

lemma write_loop_live:
  assumes "write_loop wr a bytes offset att w = (r, att', w')" "alive w"
  shows "alive w'"
  using assms
proof (induction "length bytes - offset" arbitrary: offset att w r att' w' rule: less_induct)
  case less
  show ?case
  proof (cases "offset < length bytes")
    case True
    then obtain c where c: "c = min chunkSize (length bytes - offset)" "length bytes - (offset + c) < length bytes - offset"
      by (rule next_chunk)
    obtain q w1 where q: "wr w (a + of_nat offset) (take c (drop offset bytes)) = (q, w1)" by force
    have live: "alive w1" using wr_keeps_alive [OF q] less.prems by simp
    show ?thesis
      using less.prems(1) live less.hyps [OF c(2) _ live]
      unfolding write_loop.simps [of wr a bytes offset] Let_def c(1) [symmetric] q
      by (auto simp: True split: sum.splits if_splits)
  next
    case False
    with less.prems show ?thesis by (simp add: write_loop.simps [of wr a bytes offset])
  qed
qed

lemma read_loop_live:
  assumes "read_loop rd a len offset acc w = (r, w')" "alive w"
  shows "alive w'"
  using assms
proof (induction "len - offset" arbitrary: offset acc w r w' rule: less_induct)
  case less
  show ?case
  proof (cases "offset < len")
    case True
    then obtain c where c: "c = min chunkSize (len - offset)" "len - (offset + c) < len - offset" by (rule next_chunk)
    obtain q w1 where q: "rd w (a + of_nat offset) c = (q, w1)" by force
    have live: "alive w1" using rd_keeps_alive [OF q] less.prems by simp
    show ?thesis
      using less.prems(1) live less.hyps [OF c(2) _ live]
      unfolding read_loop.simps [of rd a len offset] Let_def c(1) [symmetric] q
      by (auto simp: True split: sum.splits if_splits)
  next
    case False
    with less.prems show ?thesis by (simp add: read_loop.simps [of rd a len offset])
  qed
qed

lemma cw_restore_live:
  assumes "cw_restore rd wr r w = (res, r', w')" "alive w"
  shows "alive w' \<and> (\<forall>e. res = Inl e \<longrightarrow> \<not> gone e)"
proof -
  let ?a = "cw_address r" and ?orig = "take (attempted r) (original r)"
  obtain v w1 where v: "verify_loop rd ?a ?orig 0 w = (v, w1)" by force
  obtain p w2 where p: "put_loop wr ?a ?orig 0 w1 = (p, w2)" by force
  obtain u w3 where u: "verify_loop rd ?a ?orig 0 w2 = (u, w3)" by force
  note l1 = verify_loop_live [OF v assms(2)]
  note l2 = put_loop_live [OF p conjunct1 [OF l1]]
  note l3 = verify_loop_live [OF u conjunct1 [OF l2]]
  from assms v p u l1 l2 l3 show ?thesis
    by (auto simp: cw_restore_def cw_verify_def Let_def split: sum.splits if_splits)
qed

lemma service_recover_inv:
  assumes "service_recover rd wr others slot w = (res, slot', w')" "slot_inv mem m0 slot w" "alive w"
  shows "slot_inv mem m0 slot' w' \<and> alive w' \<and> (res = Inr () \<longrightarrow> slot' = None)"
proof (cases slot)
  case None
  with assms show ?thesis by (auto simp: service_recover_def)
next
  case (Some r)
  obtain q r1 w1 where q: "cw_restore rd wr r w = (q, r1, w1)" by (metis prod_cases3)
  have "cw_inv mem m0 r1 w1 \<and> (q = Inr () \<longrightarrow> \<not> changed r1 \<and> mem w1 = m0)"
    by (rule cw_restore_inv [OF _ q]) (use assms(2) Some in \<open>simp add: slot_inv_def\<close>)
  with cw_restore_live [OF q assms(3)] assms(1) Some q show ?thesis
    by (auto simp: service_recover_def slot_inv_def split: sum.splits if_splits)
qed

lemma service_writeCode_atomic_aux:
  assumes run: "service_writeCode rd wr env identity others busy a bytes slot w = (res, slot', w')"
    and inv: "slot_inv mem m0 slot w" and live: "alive w" and ne: "bytes \<noteq> []"
  shows "(case res of Inr n \<Rightarrow> n = length bytes \<and> slot' = None \<and> mem w' = span_upd m0 a bytes
     | Inl e \<Rightarrow> slot_inv mem m0 slot' w') \<and> alive w'"
proof -
  obtain q1 s1 w1 where q1: "service_recover rd wr others slot w = (q1, s1, w1)" by (metis prod_cases3)
  note i1 = service_recover_inv [OF q1 inv live]
  obtain q2 w2 where q2: "cw_prepare env identity rd a (length bytes) w1 = (q2, w2)" by force
  have m2: "mem w2 = mem w1" by (rule cw_prepare_same [OF q2])
  obtain p w1' where p: "read_loop rd a (length bytes) 0 [] w1 = (p, w1')" by force
  with q2 have "w2 = w1 \<or> w2 = w1'" by (auto simp: cw_prepare_def split: if_splits sum.splits)
  with read_loop_live [OF p] i1 have live2: "alive w2" by auto
  have s2: "slot_inv mem m0 s1 w2" using i1 m2 by (auto simp: slot_inv_def cw_inv_def split: option.splits)
  show ?thesis
  proof (cases "q1 = Inr () \<and> \<not> busy \<and> (\<exists>r. q2 = Inr r)")
    case False
    with run ne q1 q2 i1 s2 live2 show ?thesis
      by (auto simp: service_writeCode_def split: sum.splits if_splits)
  next
    case True
    then obtain r where r: "q2 = Inr r" by blast
    have s1: "s1 = None" and m0: "mem w1 = m0" using i1 True by (auto simp: slot_inv_def)
    note pr = cw_prepare_inv [OF q2 [unfolded r], unfolded m0]
    obtain q3 r3 w3 where q3: "cw_write rd wr r bytes w2 = (q3, r3, w3)" by (metis prod_cases3)
    note i3 = cw_write_inv [OF pr(1) q3]
    obtain q4 r4 w4 where q4: "cw_restore rd wr r3 w3 = (q4, r4, w4)" by (metis prod_cases3)
    note i4 = cw_restore_inv [OF i3(1) q4]
    have live3: "alive w3"
    proof (cases "length bytes \<noteq> length (original r) \<or> changed r")
      case True
      with q3 live2 show ?thesis by (auto simp: cw_write_def)
    next
      case False
      obtain x att u where x: "write_loop wr (cw_address r) bytes 0 (attempted r) w2 = (x, att, u)" by (metis prod_cases3)
      obtain y u' where y: "verify_loop rd (cw_address r) bytes 0 u = (y, u')" by force
      have "alive u" by (rule write_loop_live [OF x live2])
      moreover have "alive u'" using verify_loop_live [OF y \<open>alive u\<close>] by blast
      ultimately show ?thesis using q3 x y False by (auto simp: cw_write_def cw_verify_def split: sum.splits)
    qed
    note l4 = cw_restore_live [OF q4 live3]
    show ?thesis
      using run ne q1 True q2 r s1 q3 q4 i3 i4 l4 live3 pr(3)
      by (auto simp: service_writeCode_def slot_inv_def split: sum.splits if_splits)
  qed
qed

end

section \<open>Properties\<close>

text \<open>
  C6: A code write can always be undone. After \<^verbatim>\<open>prepare\<close>, whatever sequence of writes and restores
  follows and however each of them fails, only the first \<^verbatim>\<open>attempted_\<close> bytes of the span differ from
  the memory at \<^verbatim>\<open>prepare\<close>; when nothing is marked as attempted the memory is the original one, and a
  restore that succeeds brings it back exactly.
\<close>

theorem code_write_reversible:
  assumes "memory_port mem rd wr" and "cw_prepare env identity rd a n w0 = (Inr r0, w1)"
    and "cw_reach rd wr r0 w1 r w"
  shows "(\<forall>x. \<not> in_span a (attempted r) x \<longrightarrow> mem w x = mem w0 x) \<and> attempted r \<le> n \<and>
    (\<not> changed r \<longrightarrow> mem w = mem w0) \<and>
    (\<forall>r' w'. cw_restore rd wr r w = (Inr (), r', w') \<longrightarrow> \<not> changed r' \<and> mem w' = mem w0)"
proof -
  note pr = memory_port.cw_prepare_inv [OF assms(1,2)]
  note inv = memory_port.cw_reach_inv [OF assms(1,3) pr(1)]
  have "length (original r) = n"
    using assms(3) pr(4)
  proof (induction rule: cw_reach.induct)
    case (reach_write r w bytes res r' w')
    then show ?case by (auto simp: cw_write_def split: if_splits sum.splits prod.splits)
  next
    case (reach_restore r w res r' w')
    then show ?case by (auto simp: cw_restore_def Let_def split: if_splits sum.splits prod.splits)
  qed simp
  moreover have "\<not> changed r' \<and> mem w' = mem w0" if "cw_restore rd wr r w = (Inr (), r', w')" for r' w'
    using memory_port.cw_restore_inv [OF assms(1) conjunct1 [OF inv] that] by simp
  ultimately show ?thesis using inv pr(3) cw_inv_unchanged [OF conjunct1 [OF inv]] by (auto simp: cw_inv_def)
qed

text \<open>A page of code at 0x1000 whose second half is unmapped.\<close>

definition sample_space :: address_space where
  "sample_space = \<lparr>contents = (\<lambda>x. of_nat (unat x mod 7)), mapped = (\<lambda>x. 0x1000 \<le> x \<and> x < 0x1010), retired = False\<rparr>"

definition sample_env :: "nat prepare_env" where
  "sample_env = \<lparr>env_image = None, env_identity = Inr 7, env_task = Inr 7, env_member = Inr 7, env_owned = True,
     env_open = Inr (), env_identity_again = Inr 7, env_member_again = Inr 7\<rparr>"

theorem code_write_reversible_witness:
  "\<exists>r0 w1 r2 w2. cw_prepare sample_env 7 as_pread 0x1004 3 sample_space = (Inr r0, w1) \<and>
     cw_write as_pread as_pwrite r0 [0x90, 0x90, 0x90] w1 = (Inr (), r2, w2) \<and> attempted r2 = 3 \<and>
     (\<forall>x. \<not> in_span 0x1004 3 x \<longrightarrow> contents w2 x = contents sample_space x)"
proof -
  define r0 where "r0 = \<lparr>cw_address = 0x1004, attempted = 0, original = span_bytes (contents sample_space) 0x1004 3\<rparr>"
  have reach: "reachable_bytes s 0x1004 3 = 3" if "mapped s = mapped sample_space" for s
    unfolding reachable_bytes_def that by (simp add: sample_space_def upt_rec)
  have p: "cw_prepare sample_env 7 as_pread 0x1004 3 sample_space = (Inr r0, sample_space)"
    using reach [of sample_space]
    by (simp add: cw_prepare_def sample_env_def prepare_fd_def span_overflows_def read_loop.simps as_pread_def
        chunkSize_def r0_def sample_space_def span_bytes_def)
  define w2 where "w2 = sample_space\<lparr>contents := span_upd (contents sample_space) 0x1004 [0x90, 0x90, 0x90]\<rparr>"
  have m: "mapped w2 = mapped sample_space" "\<not> retired w2" "mapped sample_space 0x1004" "\<not> retired sample_space"
    by (simp_all add: w2_def sample_space_def)
  have wr1: "as_pwrite sample_space 0x1004 [0x90, 0x90, 0x90] = (Inr 3, w2)"
    using reach [of sample_space] m by (simp add: as_pwrite_def Let_def w2_def numeral_3_eq_3)
  have rd1: "as_pread w2 0x1004 3 = (Inr [0x90, 0x90, 0x90], w2)"
    using reach [of w2] m span_bytes_upd [of "[0x90, 0x90, 0x90]" "contents sample_space" "0x1004"]
    by (simp add: as_pread_def w2_def numeral_3_eq_3)
  have q: "cw_write as_pread as_pwrite r0 [0x90, 0x90, 0x90] sample_space = (Inr (), r0\<lparr>attempted := 3\<rparr>, w2)"
    using wr1 rd1
    by (simp add: cw_write_def changed_def r0_def write_loop.simps cw_verify_def verify_loop.simps
        chunkSize_def numeral_3_eq_3)
  have "cw_reach as_pread as_pwrite r0 sample_space (r0\<lparr>attempted := 3\<rparr>) w2" by (rule reach_write [OF reach_start q])
  from code_write_reversible [OF proc_mem.memory_port_axioms p this] q p show ?thesis by auto
qed

text \<open>
  C14: The service's code write is all or nothing. On a live address space, with \<^verbatim>\<open>m0\<close> the memory before
  the write (or before an unfinished earlier one, whose record is in the slot), success leaves exactly
  the new bytes over \<^verbatim>\<open>m0\<close> and no record; any error leaves \<^verbatim>\<open>m0\<close> itself, or a record from which \<^verbatim>\<open>m0\<close> can
  still be restored.
\<close>

theorem service_writeCode_atomic:
  assumes "live_memory_port mem rd wr alive" and "slot_inv mem m0 slot w" and "alive w" and "bytes \<noteq> []"
    and "service_writeCode rd wr env identity others busy a bytes slot w = (res, slot', w')"
  shows "alive w' \<and> (case res of
       Inr n \<Rightarrow> n = length bytes \<and> slot' = None \<and> mem w' = span_upd m0 a bytes
     | Inl e \<Rightarrow> slot_inv mem m0 slot' w')"
  using live_memory_port.service_writeCode_atomic_aux [OF assms(1,5,2,3,4)] by blast

theorem service_writeCode_atomic_witness:
  "\<exists>w'. service_writeCode as_pread as_pwrite sample_env 7 (Inr ()) False 0x100C [1, 2, 3, 4, 5, 6] None sample_space =
      (Inl io_error, None, w') \<and> contents w' = contents sample_space"
proof -
  define p where "p = service_writeCode as_pread as_pwrite sample_env 7 (Inr ()) False 0x100C [1, 2, 3, 4, 5, 6] None sample_space"
  have "fst p = Inl io_error" "fst (snd p) = None" unfolding p_def by code_simp+
  then obtain w' where p: "service_writeCode as_pread as_pwrite sample_env 7 (Inr ()) False 0x100C [1, 2, 3, 4, 5, 6] None sample_space =
      (Inl io_error, None, w')" unfolding p_def by (metis prod.collapse)
  have "\<not> retired sample_space" by (simp add: sample_space_def)
  with service_writeCode_atomic [OF proc_mem.live_memory_port_axioms, OF _ _ _ p, of "contents sample_space"] p
  show ?thesis by (simp add: slot_inv_def)
qed

text \<open>
  \<^verbatim>\<open>overlaps\<close> is exactly intersection: when neither span runs past the top of the address space, it
  holds if and only if some address lies in both the asked span and the bytes the record owns.
\<close>

theorem cw_overlaps_iff:
  assumes "span_ok (cw_address r) (attempted r)" and "span_ok a n"
  shows "cw_overlaps r a n \<longleftrightarrow> (\<exists>x. in_span a n x \<and> in_span (cw_address r) (attempted r) x)"
proof
  assume o: "cw_overlaps r a n"
  show "\<exists>x. in_span a n x \<and> in_span (cw_address r) (attempted r) x"
    using o by (auto simp: cw_overlaps_def in_span_def split: if_splits
        intro: exI [of _ a] exI [of _ "cw_address r"])
next
  assume "\<exists>x. in_span a n x \<and> in_span (cw_address r) (attempted r) x"
  then obtain x where x: "in_span a n x" "in_span (cw_address r) (attempted r) x" by blast
  have pos: "n \<noteq> 0" "attempted r \<noteq> 0" using x by (auto simp: in_span_def)
  obtain i where i: "i < n" "x = a + of_nat i" using x(1) by (rule in_spanE)
  obtain j where j: "j < attempted r" "x = cw_address r + of_nat j" using x(2) by (rule in_spanE)
  have "unat x = unat a + i"
    unfolding i(2) using i(1) assms(2) by (simp add: span_ok_def unat_word_ariths unat_of_nat_64)
  moreover have "unat x = unat (cw_address r) + j"
    unfolding j(2) using j(1) assms(1) by (simp add: span_ok_def unat_word_ariths unat_of_nat_64)
  ultimately have "unat a + i = unat (cw_address r) + j" by simp
  with pos i j show "cw_overlaps r a n"
    by (auto simp: cw_overlaps_def unat_sub word_le_nat_alt not_le word_less_nat_alt)
qed

theorem cw_overlaps_iff_witness:
  "cw_overlaps \<lparr>cw_address = 0x1000, attempted = 4, original = [1, 2, 3, 4, 5]\<rparr> 0x1003 2 \<and>
   (\<exists>x. in_span 0x1003 2 x \<and> in_span 0x1000 4 x)"
proof -
  have o: "cw_overlaps \<lparr>cw_address = 0x1000, attempted = 4, original = [1, 2, 3, 4, 5]\<rparr> 0x1003 2"
    by (simp add: cw_overlaps_def)
  with cw_overlaps_iff [of "\<lparr>cw_address = 0x1000, attempted = 4, original = [1, 2, 3, 4, 5]\<rparr>" "0x1003" 2]
  show ?thesis by (simp add: span_ok_def)
qed

end
