(* ===== verification/Patch.thy ===== *)
theory Patch
  imports CodeWrite
begin

text \<open>
  \<^verbatim>\<open>src/debug/patch.cpp\<close>: replacing instructions by NOPs and undoing it. The process is a memory port
  whose writer is \<^verbatim>\<open>ProcessHandle::writeCode\<close>, together with the machine it reports per address; the
  length of the instruction at an address (Capstone) and the text of an error code (the C++ library)
  are arguments.
\<close>

definition disassemblerArchAt :: "nat \<Rightarrow> (u64 \<Rightarrow> TargetMachine) \<Rightarrow> TargetMachine \<Rightarrow> u64 \<Rightarrow> Arch expected" where
  "disassemblerArchAt cs machineAt prog a = disassemblerArchFor cs (if a \<noteq> 0 then machineAt a else prog)"

definition nopBytesFor :: "nat \<Rightarrow> (u64 \<Rightarrow> TargetMachine) \<Rightarrow> TargetMachine \<Rightarrow> u64 \<Rightarrow> nat \<Rightarrow> byte list expected" where
  "nopBytesFor cs machineAt prog a n =
    (case disassemblerArchAt cs machineAt prog a of Inl e \<Rightarrow> Inl e
     | Inr arch \<Rightarrow>
        if n = 0 \<or> span_overflows a n then Inl ''Empty or overflowing NOP range''
        else if arch = Arch_X86_32 \<or> arch = Arch_X86_64 then Inr (replicate n 0x90)
        else if arch = Arch_ARM64 \<and> unat a mod 4 = 0 \<and> n mod 4 = 0
        then Inr (concat (replicate (n div 4) [0x1f, 0x20, 0x03, 0xd5]))
        else Inl ''No verified NOP encoding for this instruction architecture/alignment'')"

definition retired_suffix :: string where
  "retired_suffix = ''; the original process image retired, no undo bytes were replayed''"

definition pending_suffix :: string where
  "pending_suffix = ''; original-byte restoration is pending, retry native recovery before continuing''"

definition incomplete_suffix :: string where
  "incomplete_suffix = ''; original-byte restoration is incomplete, retry native recovery before continuing''"

text \<open>A complete read that returns the given bytes.\<close>

definition read_is :: "byte list result \<Rightarrow> byte list \<Rightarrow> bool" where
  "read_is r xs \<longleftrightarrow> r = Inr xs"

definition patchInstructionBytes :: "(errc \<Rightarrow> string) \<Rightarrow> 'w reader \<Rightarrow> 'w writer \<Rightarrow> u64 \<Rightarrow> byte list \<Rightarrow> 'w
    \<Rightarrow> byte list expected \<times> 'w" where
  "patchInstructionBytes message rd wr a bytes w =
    (if bytes = [] \<or> span_overflows a (length bytes) then (Inl ''Empty or overflowing code patch'', w)
     else case rd w a (length bytes) of (r0, w0) \<Rightarrow>
       (case r0 of Inl e \<Rightarrow> (Inl ''Cannot read complete original code bytes'', w0)
        | Inr orig \<Rightarrow>
          if length orig \<noteq> length bytes then (Inl ''Cannot read complete original code bytes'', w0)
          else case wr w0 a bytes of (written, w1) \<Rightarrow>
          case rd w1 a (length bytes) of (r1, w2) \<Rightarrow>
          if written = Inr (length bytes) \<and> read_is r1 bytes then (Inr orig, w2)
          else
            let detail = (case written of Inr _ \<Rightarrow> ''Code-write verification failed''
                          | Inl e \<Rightarrow> ''Code write failed: '' @ message e)
            in if written = Inl operation_canceled \<or> written = Inl no_such_process
               then (Inl (detail @ retired_suffix), w2)
               else if written = Inl state_not_recoverable then (Inl (detail @ pending_suffix), w2)
               else if read_is r1 orig then (Inl detail, w2)
               else case wr w2 a orig of (restored, w3) \<Rightarrow>
                 case rd w3 a (length bytes) of (r2, w4) \<Rightarrow>
                 if restored = Inr (length orig) \<and> read_is r2 orig then (Inl detail, w4)
                 else (Inl (detail @ incomplete_suffix), w4)))"

definition restoreBytes :: "'w writer \<Rightarrow> u64 \<Rightarrow> byte list \<Rightarrow> 'w \<Rightarrow> bool \<times> 'w" where
  "restoreBytes wr a orig w =
    (if orig = [] then (False, w)
     else case wr w a orig of (r, w') \<Rightarrow> (r = Inr (length orig), w'))"

text \<open>
  \<^verbatim>\<open>insn_size\<close> is the size of the first instruction Capstone decodes from the bytes read, 0 when it
  decodes none.
\<close>

definition nopInstruction :: "(errc \<Rightarrow> string) \<Rightarrow> (Arch \<Rightarrow> u64 \<Rightarrow> byte list \<Rightarrow> nat) \<Rightarrow> nat \<Rightarrow> (u64 \<Rightarrow> TargetMachine)
    \<Rightarrow> TargetMachine \<Rightarrow> 'w reader \<Rightarrow> 'w writer \<Rightarrow> u64 \<Rightarrow> 'w \<Rightarrow> byte list \<times> 'w" where
  "nopInstruction message insn_size cs machineAt prog rd wr a w =
    (case disassemblerArchAt cs machineAt prog a of Inl e \<Rightarrow> ([], w)
     | Inr arch \<Rightarrow>
       (case rd w a 16 of (Inl e, w1) \<Rightarrow> ([], w1)
        | (Inr buf, w1) \<Rightarrow>
          if buf = [] then ([], w1)
          else let n = insn_size arch a buf in
            if n = 0 then ([], w1)
            else case nopBytesFor cs machineAt prog a n of Inl e \<Rightarrow> ([], w1)
            | Inr nops \<Rightarrow>
               (case patchInstructionBytes message rd wr a nops w1 of
                  (Inl e, w2) \<Rightarrow> ([], w2)
                | (Inr orig, w2) \<Rightarrow> (orig, w2))))"

section \<open>Lemmas\<close>

lemma nopBytesFor_length: "nopBytesFor cs machineAt prog a n = Inr xs \<Longrightarrow> length xs = n \<and> 0 < n"
  by (auto simp: nopBytesFor_def length_concat sum_list_replicate split: sum.splits if_splits)

context memory_port
begin

lemma restore_span:
  assumes out: "\<And>x. \<not> in_span a (length xs) x \<Longrightarrow> mem w' x = m x"
    and "span_bytes (mem w') a (length xs) = xs" "span_bytes m a (length xs) = xs"
  shows "mem w' = m"
  by (rule memory_eqI [of a "length xs"]) (use assms in auto)

lemma patch_frame_and_result:
  assumes run: "patchInstructionBytes message rd wr a bytes w = (res, w')"
  shows "(\<forall>x. \<not> in_span a (length bytes) x \<longrightarrow> mem w' x = mem w x) \<and>
    (case res of
       Inr orig \<Rightarrow> bytes \<noteq> [] \<and> span_ok a (length bytes) \<and> orig = span_bytes (mem w) a (length bytes) \<and>
         mem w' = span_upd (mem w) a bytes
     | Inl msg \<Rightarrow> mem w' = mem w \<or>
         (\<exists>detail. msg \<in> {detail @ retired_suffix, detail @ pending_suffix, detail @ incomplete_suffix}))"
proof (cases "bytes = [] \<or> span_overflows a (length bytes)")
  case True
  with run show ?thesis by (auto simp: patchInstructionBytes_def)
next
  case False
  then have ok: "span_ok a (length bytes)" and ne: "bytes \<noteq> []" using span_overflows_iff [of "length bytes" a] by auto
  obtain r0 w0 where r0: "rd w a (length bytes) = (r0, w0)" by force
  note m0 = rd_same [OF r0]
  show ?thesis
  proof (cases "\<exists>orig. r0 = Inr orig \<and> length orig = length bytes")
    case False
    with run ok ne \<open>\<not> (bytes = [] \<or> _)\<close> r0 m0 show ?thesis by (auto simp: patchInstructionBytes_def split: sum.splits)
  next
    case True
    then obtain orig where orig: "r0 = Inr orig" "length orig = length bytes" by blast
    have o: "orig = span_bytes (mem w) a (length bytes)" using rd_full [OF r0 [unfolded orig(1)] orig(2)] by simp
    obtain written w1 where wr1: "wr w0 a bytes = (written, w1)" by force
    obtain r1 w2 where r1: "rd w1 a (length bytes) = (r1, w2)" by force
    obtain restored w3 where wr3: "wr w2 a orig = (restored, w3)" by force
    obtain r2 w4 where r2: "rd w3 a (length bytes) = (r2, w4)" by force
    have m2: "mem w2 = mem w1" by (rule rd_same [OF r1])
    have out2: "mem w2 x = mem w x" if "\<not> in_span a (length bytes) x" for x
      using wr_other [OF wr1 ok that] m0 m2 by simp
    have m4: "mem w4 = mem w3" by (rule rd_same [OF r2])
    have out4: "mem w4 x = mem w x" if "\<not> in_span a (length bytes) x" for x
      using wr_other [OF wr3] ok orig(2) that m4 out2 [OF that] by simp
    have same: "mem v = mem w" if "\<And>x. \<not> in_span a (length bytes) x \<Longrightarrow> mem v x = mem w x"
      "span_bytes (mem v) a (length bytes) = orig" for v
      by (rule memory_eqI [of a "length bytes"]) (use that o in auto)
    have back2: "mem w2 = mem w" if "r1 = Inr orig"
      using same [OF out2] rd_full [OF r1 [unfolded that] orig(2)] m2 by simp
    have back4: "mem w4 = mem w" if "r2 = Inr orig"
      using same [OF out4] rd_full [OF r2 [unfolded that] orig(2)] m4 by simp
    have done2: "mem w2 = span_upd (mem w) a bytes" if "written = Inr (length bytes)"
      using wr_bytes [OF ok, of w0 "length bytes"] wr1 that m0 m2 by simp
    show ?thesis
      using run False r0 orig wr1 r1 wr3 r2 ok ne o out2 out4 back2 back4 done2
      unfolding patchInstructionBytes_def
      by (auto simp: Let_def read_is_def split: if_splits sum.splits)
  qed
qed

lemma nopInstruction_undo_aux:
  assumes nop: "nopInstruction message insn_size cs machineAt prog rd wr a w = (orig, w1)" and ne: "orig \<noteq> []"
    and undo: "restoreBytes wr a orig w1 = (True, w2)"
  shows "(\<exists>nops. nopBytesFor cs machineAt prog a (length orig) = Inr nops \<and> mem w1 = span_upd (mem w) a nops) \<and>
    mem w2 = mem w"
proof -
  from nop ne obtain arch buf v nops where
      v: "rd w a 16 = (Inr buf, v)" and nops: "nopBytesFor cs machineAt prog a (insn_size arch a buf) = Inr nops"
      and p: "patchInstructionBytes message rd wr a nops v = (Inr orig, w1)"
    by (auto simp: nopInstruction_def Let_def split: sum.splits if_splits prod.splits)
  note r = patch_frame_and_result [OF p, simplified]
  have mv: "mem v = mem w" by (rule rd_same [OF v])
  have len: "length orig = length nops" using r by simp
  have eq: "insn_size arch a buf = length orig" using nopBytesFor_length [OF nops] len by simp
  from undo ne have "wr w1 a orig = (Inr (length orig), w2)" by (auto simp: restoreBytes_def split: prod.splits)
  note full = wr_full [OF this]
  have "mem w2 = mem w"
  proof (rule memory_eqI [of a "length orig"])
    show "mem w2 x = mem w x" if "\<not> in_span a (length orig) x" for x
      using full(2) [OF _ that] r mv that len by (simp add: span_upd_def)
    show "span_bytes (mem w2) a (length orig) = span_bytes (mem w) a (length orig)"
      using full(1) r mv len by simp
  qed
  then show ?thesis using nops eq r mv by auto
qed

end

section \<open>Properties\<close>

text \<open>
  C13: A patch is complete or says that it is not. Over any process memory, \<^verbatim>\<open>patchInstructionBytes\<close>
  never changes a byte outside its span; on success the span holds the new bytes and the returned
  bytes are the original ones; on failure the memory is unchanged, or the message ends with one of
  the three notes that restoration did not happen.
\<close>

theorem patchInstructionBytes_safe:
  assumes "memory_port mem rd wr" and "patchInstructionBytes message rd wr a bytes w = (res, w')"
  shows "(\<forall>x. \<not> in_span a (length bytes) x \<longrightarrow> mem w' x = mem w x) \<and>
    (case res of
       Inr orig \<Rightarrow> orig = span_bytes (mem w) a (length bytes) \<and> mem w' = span_upd (mem w) a bytes
     | Inl msg \<Rightarrow> mem w' = mem w \<or>
         (\<exists>detail. msg \<in> {detail @ retired_suffix, detail @ pending_suffix, detail @ incomplete_suffix}))"
  using memory_port.patch_frame_and_result [OF assms] by (auto split: sum.splits)

theorem patchInstructionBytes_safe_witness:
  "\<exists>w'. patchInstructionBytes (\<lambda>e. ''EIO'') as_pread as_pwrite 0x100E [0x90, 0x90, 0x90] sample_space =
      (Inl ''Cannot read complete original code bytes'', w') \<and>
    (\<forall>x. \<not> in_span 0x100E 3 x \<longrightarrow> contents w' x = contents sample_space x)"
proof -
  define p where "p = patchInstructionBytes (\<lambda>e. ''EIO'') as_pread as_pwrite 0x100E [0x90, 0x90, 0x90] sample_space"
  have "fst p = Inl ''Cannot read complete original code bytes''" unfolding p_def by code_simp
  then obtain w' where p: "patchInstructionBytes (\<lambda>e. ''EIO'') as_pread as_pwrite 0x100E [0x90, 0x90, 0x90] sample_space =
      (Inl ''Cannot read complete original code bytes'', w')" unfolding p_def by (metis prod.collapse)
  from patchInstructionBytes_safe [OF proc_mem.memory_port_axioms p] p show ?thesis by (simp add: numeral_3_eq_3)
qed

text \<open>
  Undo. When \<^verbatim>\<open>nopInstruction\<close> reports the bytes it replaced, the span holds the target's NOPs, and a
  successful \<^verbatim>\<open>restoreBytes\<close> with those bytes brings back the memory before it, byte for byte.
\<close>

theorem nopInstruction_undo:
  assumes port: "memory_port mem rd wr"
    and nop: "nopInstruction message insn_size cs machineAt prog rd wr a w = (orig, w1)" and ne: "orig \<noteq> []"
    and undo: "restoreBytes wr a orig w1 = (True, w2)"
  shows "(\<exists>nops. nopBytesFor cs machineAt prog a (length orig) = Inr nops \<and> mem w1 = span_upd (mem w) a nops) \<and>
    mem w2 = mem w"
  using memory_port.nopInstruction_undo_aux [OF assms] .

definition sample_machine :: TargetMachine where
  "sample_machine = default_machine\<lparr>architecture := CA_X86_64, pointerWidth := 8\<rparr>"

theorem nopInstruction_undo_witness:
  "\<exists>orig w1 w2. nopInstruction (\<lambda>e. ''EIO'') (\<lambda>arch a buf. 2) 5 (\<lambda>a. sample_machine) sample_machine as_pread as_pwrite
      0x1004 sample_space = (orig, w1) \<and> orig = [5, 6] \<and> restoreBytes as_pwrite 0x1004 orig w1 = (True, w2) \<and>
      contents w2 = contents sample_space"
proof -
  define p where "p = nopInstruction (\<lambda>e. ''EIO'') (\<lambda>arch a buf. 2) 5 (\<lambda>a. sample_machine) sample_machine as_pread
      as_pwrite 0x1004 sample_space"
  define q where "q = restoreBytes as_pwrite 0x1004 (fst p) (snd p)"
  have p: "nopInstruction (\<lambda>e. ''EIO'') (\<lambda>arch a buf. 2) 5 (\<lambda>a. sample_machine) sample_machine as_pread as_pwrite
      0x1004 sample_space = (fst p, snd p)" by (simp add: p_def)
  have o: "fst p = [5, 6]" unfolding p_def by code_simp
  have "fst q = True" unfolding q_def p_def by code_simp
  then have q: "restoreBytes as_pwrite 0x1004 (fst p) (snd p) = (True, snd q)" by (metis q_def prod.collapse)
  from nopInstruction_undo [OF proc_mem.memory_port_axioms p _ q] o p q show ?thesis by auto
qed

end
