(* ===== verification/Expression.thy ===== *)
theory Expression
  imports CoreTypes Memory Text
begin

text \<open>
  Address expressions: \<^verbatim>\<open>src/core/expression.cpp\<close>. The process and the symbol resolver are arguments of
  the model (what they answer while one expression is parsed); positions into the text are the unread
  suffix; \<^verbatim>\<open>nullopt\<close> is \<^const>\<open>None\<close>. The recursion of \<^verbatim>\<open>parseImpl\<close> is bounded by the nesting levels it
  allows, which is how the source bounds it.
\<close>

section \<open>Environment and tokens\<close>

record expr_env =
  has_proc :: bool
  resolver :: "(string \<Rightarrow> u64 option) option"
  proc_modules :: "ModuleInfo list"
  target_width :: nat
  proc_is64bit :: bool
  width_at :: "u64 \<Rightarrow> nat"
  order_at :: "u64 \<Rightarrow> ByteOrder"
  proc_read :: "u64 \<Rightarrow> nat \<Rightarrow> byte list result"

definition expr_space :: "char \<Rightarrow> bool" where
  "expr_space c \<longleftrightarrow> c = CHR '' '' \<or> c = CHR 0x09"

definition trim :: "string \<Rightarrow> string" where
  "trim s = trim_of {CHR '' '', CHR 0x09} s"

definition tolower :: "char \<Rightarrow> char" where
  "tolower c = (let k = char_code c in if 65 \<le> k \<and> k \<le> 90 then char_of (k + 32) else c)"

definition sameNameIgnoringCase :: "string \<Rightarrow> string \<Rightarrow> bool" where
  "sameNameIgnoringCase a b \<longleftrightarrow> length a = length b \<and> map tolower a = map tolower b"

definition expr_modules :: "expr_env \<Rightarrow> ModuleInfo list" where
  "expr_modules env = (if has_proc env then proc_modules env else [])"

definition moduleBase :: "ModuleInfo list \<Rightarrow> string \<Rightarrow> u64 option" where
  "moduleBase ms nm =
    (case find (\<lambda>m. m_name m = nm) ms of Some m \<Rightarrow> Some (m_base m)
     | None \<Rightarrow> map_option m_base (find (\<lambda>m. sameNameIgnoringCase (m_name m) nm) ms))"

text \<open>The lambda \<^verbatim>\<open>number\<close>: \<^verbatim>\<open>stoull\<close> throws on overflow.\<close>

definition expr_number :: "string \<Rightarrow> nat \<Rightarrow> u64 option" where
  "expr_number txt base =
    (if txt = [] then None
     else if \<not> list_all (is_digit_of base) txt then None
     else if run_value base txt \<ge> 2 ^ 64 then None
     else Some (of_nat (run_value base txt)))"

definition lookup_name :: "expr_env \<Rightarrow> string \<Rightarrow> u64 option" where
  "lookup_name env nm =
    (case (case resolver env of None \<Rightarrow> None | Some f \<Rightarrow> f nm) of Some a \<Rightarrow> Some a
     | None \<Rightarrow> if has_proc env then moduleBase (expr_modules env) nm else None)"

definition resolveToken :: "expr_env \<Rightarrow> string \<Rightarrow> u64 option" where
  "resolveToken env token =
    (if token = [] then None
     else if length token \<ge> 2 \<and> (hd token = CHR 0x22 \<or> hd token = CHR 0x27) \<and> last token = hd token
     then lookup_name env (butlast (tl token))
     else if length token \<ge> 2 \<and> hd token = CHR ''0'' \<and> (token ! 1 = CHR ''x'' \<or> token ! 1 = CHR ''X'')
     then expr_number (drop 2 token) 16
     else if hd token = CHR ''#'' then expr_number (tl token) 10
     else let allHex = list_all (is_digit_of 16) token; allDigit = list_all (is_digit_of 10) token in
       if allHex \<and> (length token \<ge> 2 \<or> allDigit) then expr_number token 16
       else case lookup_name env token of Some a \<Rightarrow> Some a
            | None \<Rightarrow> if allHex then expr_number token 16 else None)"

section \<open>Operands\<close>

definition expr_mixed :: "expr_env \<Rightarrow> bool" where
  "expr_mixed env \<longleftrightarrow> has_proc env \<and> target_width env = 4 \<and> proc_is64bit env"

definition expr_mask :: "expr_env \<Rightarrow> u64" where
  "expr_mask env = (if has_proc env \<and> target_width env = 4 \<and> \<not> expr_mixed env then 0xFFFFFFFF else - 1)"

definition combine :: "expr_env \<Rightarrow> u64 \<Rightarrow> u64 \<Rightarrow> char \<Rightarrow> u64" where
  "combine env l r op =
    (let v = and (if op = CHR ''-'' then l - r else if op = CHR ''*'' then l * r else l + r) (expr_mask env)
     in if expr_mixed env \<and> l \<le> 0xFFFFFFFF \<and> r \<le> 0xFFFFFFFF \<and> v > 0xFFFFFFFF
        then and v 0xFFFFFFFF else v)"

definition is_op :: "char \<Rightarrow> bool" where
  "is_op c \<longleftrightarrow> c = CHR ''+'' \<or> c = CHR ''-'' \<or> c = CHR ''*''"

text \<open>The text inside the brackets and the text after the closing one.\<close>

fun close_bracket :: "nat \<Rightarrow> string \<Rightarrow> (string \<times> string) option" where
  "close_bracket d [] = None"
| "close_bracket d (c # r) =
    (let d' = (if c = CHR ''['' then d + 1 else if c = CHR '']'' then d - 1 else d) in
     if d' = 0 then Some ([], r)
     else map_option (\<lambda>(inner, rest). (c # inner, rest)) (close_bracket d' r))"

definition deref :: "expr_env \<Rightarrow> u64 \<Rightarrow> u64 option" where
  "deref env a =
    (let n = width_at env a in
     if n \<noteq> 4 \<and> n \<noteq> 8 then None
     else case proc_read env a n of Inl e \<Rightarrow> None
     | Inr bytes \<Rightarrow>
         if length bytes \<noteq> n then None
         else case decodeTargetUnsigned bytes (order_at env a) of Inl e \<Rightarrow> None | Inr p \<Rightarrow> Some p)"

definition token_ends :: "string \<Rightarrow> bool" where
  "token_ends t \<longleftrightarrow> t = [] \<or> is_op (hd t) \<or> expr_space (hd t)"

definition plain_number :: "string \<Rightarrow> bool" where
  "plain_number t =
    (let head = takeWhile (\<lambda>c. \<not> (is_op c \<or> expr_space c)) t in
     head \<noteq> [] \<and>
     (hd head = CHR ''#'' \<or>
      list_all (is_digit_of 16)
        (drop (if take 2 head = ''0x'' \<or> take 2 head = ''0X'' then 2 else 0) head)))"

text \<open>The longest module name the text starts with that ends at an operator, a blank or the end.\<close>

fun longest_module :: "string \<Rightarrow> nat \<Rightarrow> ModuleInfo list \<Rightarrow> nat" where
  "longest_module t modLen [] = modLen"
| "longest_module t modLen (m # ms) =
    (let n = length (m_name m) in
     longest_module t
       (if n = 0 \<or> n \<le> modLen \<or> n > length t \<or> \<not> sameNameIgnoringCase (take n t) (m_name m) then modLen
        else if token_ends (drop n t) then n else modLen) ms)"

text \<open>The last \<^verbatim>\<open>*\<close> before a position.\<close>

definition last_star :: "string \<Rightarrow> nat \<Rightarrow> nat option" where
  "last_star t stop = find (\<lambda>i. i < length t \<and> t ! i = CHR ''*'') (rev [0..<stop])"

lemma find_mem: "find P xs = Some x \<Longrightarrow> x \<in> set xs"
  by (induction xs) (auto split: if_splits)

lemma last_star_less: "last_star t n = Some e \<Longrightarrow> e < n"
  by (auto simp: last_star_def dest: find_mem)

function try_spans :: "expr_env \<Rightarrow> string \<Rightarrow> nat \<Rightarrow> nat \<Rightarrow> (u64 \<times> string) option" where
  "try_spans env t firstStar n =
    (if n > firstStar then
       (case resolveToken env (trim (take n t)) of Some v \<Rightarrow> Some (v, drop n t)
        | None \<Rightarrow> (case last_star t n of None \<Rightarrow> None
                  | Some e \<Rightarrow> if e < firstStar then None else try_spans env t firstStar e))
     else None)"
  by pat_completeness auto
termination
  by (relation "measure (\<lambda>(env, t, f, n). n)") (auto dest: last_star_less)

declare try_spans.simps [simp del]

definition name_factor :: "expr_env \<Rightarrow> string \<Rightarrow> (u64 \<times> string) option" where
  "name_factor env t =
    (let plain = plain_number t;
         modLen = longest_module t 0 (if plain then [] else expr_modules env);
         upto = (\<lambda>n. map_option (\<lambda>v. (v, drop n t)) (resolveToken env (trim (take n t))))
     in if modLen \<noteq> 0 then upto modLen
        else
          let spanEnd = length (takeWhile (\<lambda>c. c \<noteq> CHR ''+'' \<and> c \<noteq> CHR ''-'') t);
              firstStar = length (takeWhile (\<lambda>c. c \<noteq> CHR ''*'') t);
              plain_end = length (takeWhile (\<lambda>c. \<not> is_op c) t)
          in case (if \<not> plain \<and> firstStar < spanEnd then try_spans env t firstStar spanEnd else None) of
               Some r \<Rightarrow> Some r
             | None \<Rightarrow> upto plain_end)"

definition factor :: "expr_env \<Rightarrow> (string \<Rightarrow> u64 option) \<Rightarrow> string \<Rightarrow> (u64 \<times> string) option" where
  "factor env inner s =
    (let t = dropWhile expr_space s in
     case t of [] \<Rightarrow> None
     | c # r \<Rightarrow>
        if is_op c then None
        else if c = CHR ''['' then
          (case close_bracket 1 r of None \<Rightarrow> None
           | Some (body, rest) \<Rightarrow>
              if \<not> has_proc env then None
              else case inner body of None \<Rightarrow> None
              | Some a \<Rightarrow> map_option (\<lambda>v. (v, rest)) (deref env a))
        else if c = CHR 0x22 \<or> c = CHR 0x27 then
          (let body = takeWhile (\<lambda>x. x \<noteq> c) r; rest = dropWhile (\<lambda>x. x \<noteq> c) r in
           if rest = [] then None
           else map_option (\<lambda>v. (v, tl rest)) (resolveToken env (c # body @ [c])))
        else name_factor env t)"

section \<open>Terms and sums\<close>

lemma close_bracket_shrinks: "close_bracket d s = Some (b, r) \<Longrightarrow> length r < length s"
  by (induction d s arbitrary: b rule: close_bracket.induct)
     (auto simp: Let_def less_Suc_eq split: if_splits)

lemma try_spans_shrinks: "try_spans env t f n = Some (v, r) \<Longrightarrow> length r \<le> length t"
proof (induction env t f n rule: try_spans.induct)
  case (1 env t f n)
  from "1.prems" "1.IH" show ?case
    unfolding try_spans.simps [of env t f n] by (auto split: if_splits option.splits)
qed

lemma name_factor_shrinks: "name_factor env t = Some (v, r) \<Longrightarrow> length r \<le> length t"
  by (auto simp: name_factor_def Let_def split: if_splits option.splits dest: try_spans_shrinks)

lemma factor_shrinks: "factor env inner s = Some (v, r) \<Longrightarrow> length r \<le> length s"
proof -
  assume f: "factor env inner s = Some (v, r)"
  obtain c u where t: "dropWhile expr_space s = c # u" using f by (auto simp: factor_def Let_def split: list.splits)
  have "length (c # u) \<le> length s" using length_dropWhile_le [of expr_space s] t by simp
  moreover have "length r \<le> length (c # u)"
    using f length_dropWhile_le [of "\<lambda>x. x \<noteq> c" u]
    by (auto simp: factor_def t Let_def split: if_splits option.splits
          dest: close_bracket_shrinks name_factor_shrinks)
  ultimately show ?thesis by simp
qed

function term_loop :: "expr_env \<Rightarrow> (string \<Rightarrow> u64 option) \<Rightarrow> u64 \<Rightarrow> string \<Rightarrow> (u64 \<times> string) option" where
  "term_loop env inner v s =
    (let t = dropWhile expr_space s in
     if t = [] \<or> hd t \<noteq> CHR ''*'' then Some (v, s)
     else case factor env inner (tl t) of None \<Rightarrow> None
          | Some (right, r) \<Rightarrow> term_loop env inner (combine env v right (CHR ''*'')) r)"
  by pat_completeness auto
termination
proof (relation "measure (\<lambda>(env, inner, v, s). length s)")
  fix env inner v s x t right r
  assume "x = dropWhile expr_space s" "\<not> (x = [] \<or> hd x \<noteq> CHR ''*'')" "factor env inner (tl x) = Some t" "(right, r) = t"
  then have "length r \<le> length (tl x)" "x \<noteq> []" "length x \<le> length s"
    by (auto dest: factor_shrinks simp: length_dropWhile_le)
  then show "((env, inner, combine env v right (CHR ''*''), r), env, inner, v, s) \<in> measure (\<lambda>(env, inner, v, s). length s)"
    by (cases x) auto
qed simp

declare term_loop.simps [simp del]

definition expr_term :: "expr_env \<Rightarrow> (string \<Rightarrow> u64 option) \<Rightarrow> string \<Rightarrow> (u64 \<times> string) option" where
  "expr_term env inner s =
    (case factor env inner s of None \<Rightarrow> None | Some (v, r) \<Rightarrow> term_loop env inner v r)"

lemma term_loop_shrinks: "term_loop env inner v s = Some (w, r) \<Longrightarrow> length r \<le> length s"
proof (induction env inner v s rule: term_loop.induct)
  case (1 env inner v s)
  let ?t = "dropWhile expr_space s"
  show ?case
  proof (cases "?t = [] \<or> hd ?t \<noteq> CHR ''*''")
    case True
    with "1.prems" [unfolded term_loop.simps [of env inner v s]] show ?thesis by (simp add: Let_def)
  next
    case False
    with "1.prems" [unfolded term_loop.simps [of env inner v s]]
    obtain right u where f: "factor env inner (tl ?t) = Some (right, u)"
        "term_loop env inner (combine env v right (CHR ''*'')) u = Some (w, r)"
      by (auto simp: Let_def split: option.splits if_splits)
    from "1.IH" [OF refl False f(1) refl f(2)] factor_shrinks [OF f(1)] length_dropWhile_le [of expr_space s]
    show ?thesis by simp
  qed
qed

lemma expr_term_shrinks: "expr_term env inner s = Some (v, r) \<Longrightarrow> length r \<le> length s"
  by (auto simp: expr_term_def split: option.splits dest!: factor_shrinks term_loop_shrinks)

function sum_loop :: "expr_env \<Rightarrow> (string \<Rightarrow> u64 option) \<Rightarrow> u64 \<Rightarrow> char \<Rightarrow> string \<Rightarrow> u64 option" where
  "sum_loop env inner result op s =
    (case expr_term env inner s of None \<Rightarrow> None
     | Some (v, r) \<Rightarrow>
        (let result' = combine env result v op; t = dropWhile expr_space r in
         case t of [] \<Rightarrow> Some result'
         | c # u \<Rightarrow>
            if c \<noteq> CHR ''+'' \<and> c \<noteq> CHR ''-'' then None
            else if u = [] then None
            else sum_loop env inner result' c u))"
  by pat_completeness auto
termination
proof (relation "measure (\<lambda>(env, inner, result, op, s). length s)")
  fix env inner result op s x v r xa xb c u
  assume a: "expr_term env inner s = Some x" "(v, r) = x" "xb = dropWhile expr_space r" "xb = c # u"
  then have "length r \<le> length s" "length (dropWhile expr_space r) \<le> length r"
    by (auto dest: expr_term_shrinks simp: length_dropWhile_le)
  moreover have "dropWhile expr_space r = c # u" using a(3,4) by simp
  ultimately show "((env, inner, xa, c, u), env, inner, result, op, s)
    \<in> measure (\<lambda>(env, inner, result, op, s). length s)" by auto
qed simp

declare sum_loop.simps [simp del]

text \<open>
  \<^verbatim>\<open>parseImpl\<close> with so many levels left; \<^verbatim>\<open>parse\<close> starts at depth 0 of at most \<^verbatim>\<open>kMaxDepth\<close>, so it has
  65 levels.
\<close>

primrec parseImpl :: "nat \<Rightarrow> expr_env \<Rightarrow> string \<Rightarrow> u64 option" where
  "parseImpl 0 env e = None"
| "parseImpl (Suc n) env e =
    (let s = trim e in
     if s = [] then None
     else if hd s = CHR ''+'' \<or> hd s = CHR ''-'' then sum_loop env (parseImpl n env) 0 (hd s) (tl s)
     else sum_loop env (parseImpl n env) 0 (CHR ''+'') s)"

definition expr_kMaxDepth :: nat where "expr_kMaxDepth = 64"

definition expr_parse :: "expr_env \<Rightarrow> string \<Rightarrow> u64 option" where
  "expr_parse env e = parseImpl (expr_kMaxDepth + 1) env e"

section \<open>Reference semantics\<close>

text \<open>
  Expressions over numbers and dereferences, their text, and their value: products and sums are
  evaluated from left to right with the arithmetic of the target, a dereference reads a pointer.
\<close>

datatype fac = FNum u64 | FDeref esum
  and eterm = EFac fac | EMul fac eterm
  and esum = ETerm bool eterm | EAdd bool eterm esum

definition sign_char :: "bool \<Rightarrow> char" where
  "sign_char neg = (if neg then CHR ''-'' else CHR ''+'')"

primrec show_fac :: "fac \<Rightarrow> string" and show_eterm :: "eterm \<Rightarrow> string" and show_esum :: "esum \<Rightarrow> string" where
  "show_fac (FNum v) = ''0x'' @ show_base 16 (unat v)"
| "show_fac (FDeref e) = CHR ''['' # show_esum e @ '']''"
| "show_eterm (EFac f) = show_fac f"
| "show_eterm (EMul f t) = show_fac f @ CHR ''*'' # show_eterm t"
| "show_esum (ETerm neg t) = sign_char neg # show_eterm t"
| "show_esum (EAdd neg t e) = sign_char neg # show_eterm t @ show_esum e"

definition mul_acc :: "expr_env \<Rightarrow> u64 option \<Rightarrow> u64 \<Rightarrow> u64" where
  "mul_acc env acc v = (case acc of None \<Rightarrow> v | Some a \<Rightarrow> combine env a v (CHR ''*''))"

primrec eval_fac :: "expr_env \<Rightarrow> fac \<Rightarrow> u64 option"
  and eval_eterm :: "expr_env \<Rightarrow> eterm \<Rightarrow> u64 option \<Rightarrow> u64 option"
  and eval_esum :: "expr_env \<Rightarrow> esum \<Rightarrow> u64 \<Rightarrow> u64 option" where
  "eval_fac env (FNum v) = Some v"
| "eval_fac env (FDeref e) = (case eval_esum env e 0 of None \<Rightarrow> None | Some a \<Rightarrow> deref env a)"
| "eval_eterm env (EFac f) acc = map_option (mul_acc env acc) (eval_fac env f)"
| "eval_eterm env (EMul f t) acc =
    (case eval_fac env f of None \<Rightarrow> None | Some v \<Rightarrow> eval_eterm env t (Some (mul_acc env acc v)))"
| "eval_esum env (ETerm neg t) r =
    map_option (\<lambda>v. combine env r v (sign_char neg)) (eval_eterm env t None)"
| "eval_esum env (EAdd neg t e) r =
    (case eval_eterm env t None of None \<Rightarrow> None
     | Some v \<Rightarrow> eval_esum env e (combine env r v (sign_char neg)))"

primrec fac_depth :: "fac \<Rightarrow> nat" and eterm_depth :: "eterm \<Rightarrow> nat" and esum_depth :: "esum \<Rightarrow> nat" where
  "fac_depth (FNum v) = 0"
| "fac_depth (FDeref e) = Suc (esum_depth e)"
| "eterm_depth (EFac f) = fac_depth f"
| "eterm_depth (EMul f t) = max (fac_depth f) (eterm_depth t)"
| "esum_depth (ETerm neg t) = eterm_depth t"
| "esum_depth (EAdd neg t e) = max (eterm_depth t) (esum_depth e)"

section \<open>Printed expressions\<close>

lemma hex_char_plain:
  assumes "is_digit_of 16 c"
  shows "\<not> expr_space c" "\<not> is_op c" "c \<noteq> CHR ''[''" "c \<noteq> CHR '']''"
  using assms
  by (auto simp: is_digit_of_def digit_value_def expr_space_def is_op_def char_code_def Let_def split: if_splits)

lemma show_hex_chars:
  "c \<in> set (''0x'' @ show_base 16 n) \<Longrightarrow> \<not> expr_space c \<and> \<not> is_op c \<and> c \<noteq> CHR ''['' \<and> c \<noteq> CHR '']''"
proof -
  assume c: "c \<in> set (''0x'' @ show_base 16 n)"
  have "c = CHR ''0'' \<or> c = CHR ''x'' \<or> is_digit_of 16 c" using c show_base_digits [of 16 n] by auto
  then show ?thesis using hex_char_plain [of c] by (auto simp: expr_space_def is_op_def)
qed

lemma show_no_space:
  "c \<in> set (show_fac f) \<Longrightarrow> \<not> expr_space c"
  "c \<in> set (show_eterm t) \<Longrightarrow> \<not> expr_space c"
  "c \<in> set (show_esum e) \<Longrightarrow> \<not> expr_space c"
proof (induction f and t and e)
  case (FNum v)
  then show ?case using show_hex_chars by simp
qed (auto simp: expr_space_def sign_char_def split: if_splits)

lemma show_fac_first: "\<exists>c r. show_fac f = c # r \<and> \<not> expr_space c \<and> \<not> is_op c"
  by (cases f) (auto simp: expr_space_def is_op_def)

lemma dropWhile_space_id: "\<forall>c \<in> set xs. \<not> expr_space c \<Longrightarrow> dropWhile expr_space xs = xs"
  by (cases xs) auto

lemma trim_no_space: "\<forall>c \<in> set xs. \<not> expr_space c \<Longrightarrow> trim xs = xs"
proof -
  assume a: "\<forall>c \<in> set xs. \<not> expr_space c"
  have "dropWhile (\<lambda>c. c \<in> {CHR '' '', CHR 0x09}) ys = ys" if "set ys = set xs" for ys
    using a that by (cases ys) (auto simp: expr_space_def)
  then show ?thesis by (simp add: trim_def trim_of_def)
qed

lemma close_bracket_plain:
  "\<forall>c \<in> set xs. c \<noteq> CHR ''['' \<and> c \<noteq> CHR '']'' \<Longrightarrow>
   close_bracket (Suc d) (xs @ u) = map_option (\<lambda>(i, r). (xs @ i, r)) (close_bracket (Suc d) u)"
  by (induction xs) (auto simp: option.map_comp comp_def case_prod_unfold option.map_ident)

lemma close_bracket_show:
  "close_bracket (Suc d) (show_fac f @ u) = map_option (\<lambda>(i, r). (show_fac f @ i, r)) (close_bracket (Suc d) u)"
  "close_bracket (Suc d) (show_eterm t @ u) = map_option (\<lambda>(i, r). (show_eterm t @ i, r)) (close_bracket (Suc d) u)"
  "close_bracket (Suc d) (show_esum e @ u) = map_option (\<lambda>(i, r). (show_esum e @ i, r)) (close_bracket (Suc d) u)"
proof (induction f and t and e arbitrary: d u and d u and d u)
  case (FNum v)
  show ?case unfolding show_fac.simps by (rule close_bracket_plain) (use show_hex_chars in blast)
qed (auto simp: option.map_comp comp_def case_prod_unfold sign_char_def)

text \<open>What may follow an operand.\<close>

definition op_follows :: "string \<Rightarrow> bool" where
  "op_follows r \<longleftrightarrow> r = [] \<or> is_op (hd r)"

definition sum_follows :: "string \<Rightarrow> bool" where
  "sum_follows r \<longleftrightarrow> r = [] \<or> hd r = CHR ''+'' \<or> hd r = CHR ''-''"

lemma takeWhile_run: "\<forall>c \<in> set xs. P c \<Longrightarrow> \<not> (r \<noteq> [] \<and> P (hd r)) \<Longrightarrow> takeWhile P (xs @ r) = xs"
  by (induction xs) (cases r, auto)

lemma number_value: "expr_number (show_base 16 (unat (v :: u64))) 16 = Some v"
  using show_base_digits [of 16 "unat v"] run_value_show_base [of 16 "unat v"] unsigned_less [where ?'a = nat, of v]
  by (simp add: expr_number_def list_all_iff)

lemma factor_number:
  assumes "op_follows rest"
  shows "factor env inner (show_fac (FNum v) @ rest) = Some (v, rest)"
proof -
  let ?h = "''0x'' @ show_base 16 (unat v)"
  have chars: "\<forall>c \<in> set ?h. \<not> (is_op c \<or> expr_space c)" "\<forall>c \<in> set ?h. \<not> is_op c" "\<forall>c \<in> set ?h. \<not> expr_space c"
    using show_hex_chars by blast+
  have head: "takeWhile (\<lambda>c. \<not> (is_op c \<or> expr_space c)) (?h @ rest) = ?h"
    by (rule takeWhile_run [OF chars(1)]) (use assms in \<open>auto simp: op_follows_def\<close>)
  have tok: "takeWhile (\<lambda>c. \<not> is_op c) (?h @ rest) = ?h"
    by (rule takeWhile_run [OF chars(2)]) (use assms in \<open>auto simp: op_follows_def\<close>)
  have plain: "plain_number (?h @ rest)"
    unfolding plain_number_def head Let_def using show_base_digits [of 16 "unat v"] by (simp add: list_all_iff)
  have res: "resolveToken env (trim ?h) = Some v"
    unfolding trim_no_space [OF chars(3)] using number_value [of v] by (simp add: resolveToken_def)
  have "name_factor env (?h @ rest) = Some (v, rest)"
    unfolding name_factor_def Let_def tok using plain res by simp
  then show ?thesis by (simp add: factor_def Let_def expr_space_def is_op_def)
qed

lemma factor_deref:
  assumes "has_proc env"
  shows "factor env inner (show_fac (FDeref e) @ rest) =
    (case inner (show_esum e) of None \<Rightarrow> None | Some a \<Rightarrow> map_option (\<lambda>v. (v, rest)) (deref env a))"
proof -
  have "close_bracket 1 (show_esum e @ CHR '']'' # rest) = Some (show_esum e, rest)"
    using close_bracket_show(3) [of 0 e "CHR '']'' # rest"] by simp
  with assms show ?thesis by (simp add: factor_def expr_space_def is_op_def)
qed

lemma term_loop_stop: "sum_follows rest \<Longrightarrow> term_loop env inner v rest = Some (v, rest)"
  unfolding term_loop.simps [of env inner v rest]
  by (cases rest) (auto simp: sum_follows_def expr_space_def Let_def)

lemma term_loop_star:
  "term_loop env inner v (CHR ''*'' # s) =
    (case factor env inner s of None \<Rightarrow> None
     | Some (right, r) \<Rightarrow> term_loop env inner (combine env v right (CHR ''*'')) r)"
  by (subst term_loop.simps) (simp add: expr_space_def)

lemma sum_loop_end:
  "expr_term env inner s = Some (v, []) \<Longrightarrow> sum_loop env inner r op s = Some (combine env r v op)"
  by (subst sum_loop.simps) simp

lemma sum_loop_more:
  assumes "expr_term env inner s = Some (v, sign_char neg # u)" "u \<noteq> []"
  shows "sum_loop env inner r op s = sum_loop env inner (combine env r v op) (sign_char neg) u"
  using assms by (subst sum_loop.simps) (auto simp: sign_char_def expr_space_def)

lemma sum_follows_esum: "sum_follows (show_esum e)"
  by (cases e) (simp_all add: sum_follows_def sign_char_def)

lemma show_eterm_nonempty: "show_eterm t \<noteq> []"
proof (cases t)
  case (EFac f)
  with show_fac_first [of f] show ?thesis by auto
qed simp

lemma show_esum_split: "show_esum e = sign_char neg # u \<Longrightarrow> u \<noteq> []"
  using show_eterm_nonempty by (cases e) auto

lemma parse_show:
  "fac_depth f \<le> n \<Longrightarrow> op_follows rest \<Longrightarrow>
     factor env (parseImpl n env) (show_fac f @ rest) = map_option (\<lambda>v. (v, rest)) (eval_fac env f)"
  "eterm_depth t \<le> n \<Longrightarrow> sum_follows rest \<Longrightarrow>
     (case factor env (parseImpl n env) (show_eterm t @ rest) of None \<Rightarrow> None
      | Some (v, r) \<Rightarrow> term_loop env (parseImpl n env) (mul_acc env acc v) r) =
     map_option (\<lambda>v. (v, rest)) (eval_eterm env t acc)"
  "esum_depth e \<le> n \<Longrightarrow> show_esum e = c # u \<Longrightarrow>
     sum_loop env (parseImpl n env) r c u = eval_esum env e r"
  if proc: "has_proc env"
proof (induction f and t and e arbitrary: n rest and n rest acc and n c u r)
  case (FNum v)
  then show ?case using factor_number by simp
next
  case (FDeref e)
  then obtain m where n: "n = Suc m" "esum_depth e \<le> m" by (cases n) auto
  obtain c u where cu: "show_esum e = c # u" by (cases e) auto
  have "trim (show_esum e) = show_esum e" using trim_no_space show_no_space(3) by blast
  moreover have "c = CHR ''+'' \<or> c = CHR ''-''" using cu by (cases e) (auto simp: sign_char_def)
  ultimately have "parseImpl n env (show_esum e) = eval_esum env e 0"
    using FDeref.IH [OF n(2) cu, of 0] cu n(1) by simp
  then show ?case unfolding factor_deref [OF proc] by (auto split: option.split)
next
  case (EFac f)
  have "op_follows rest" using EFac.prems(2) by (auto simp: op_follows_def sum_follows_def is_op_def)
  with EFac.IH [of n rest] EFac.prems show ?case
    by (auto simp: term_loop_stop option.map_comp comp_def split: option.split)
next
  case (EMul f t)
  have "factor env (parseImpl n env) (show_fac f @ CHR ''*'' # show_eterm t @ rest) =
      map_option (\<lambda>v. (v, CHR ''*'' # show_eterm t @ rest)) (eval_fac env f)"
    using EMul.prems by (intro EMul.IH(1)) (auto simp: op_follows_def is_op_def)
  moreover have "term_loop env (parseImpl n env) v (CHR ''*'' # show_eterm t @ rest) =
      map_option (\<lambda>v. (v, rest)) (eval_eterm env t (Some v))" for v
    using EMul.IH(2) [of n rest "Some v"] EMul.prems unfolding term_loop_star mul_acc_def option.case by simp
  ultimately show ?case by (auto split: option.split)
next
  case (ETerm neg t)
  have "(case factor env (parseImpl n env) (show_eterm t @ []) of None \<Rightarrow> None
      | Some (v, r) \<Rightarrow> term_loop env (parseImpl n env) (mul_acc env None v) r) =
     map_option (\<lambda>v. (v, [])) (eval_eterm env t None)"
    using ETerm.prems by (intro ETerm.IH) (auto simp: sum_follows_def)
  then have "expr_term env (parseImpl n env) (show_eterm t) = map_option (\<lambda>v. (v, [])) (eval_eterm env t None)"
    unfolding expr_term_def mul_acc_def option.case by simp
  with ETerm.prems show ?case
    by (cases "eval_eterm env t None") (auto simp: sum_loop_end sum_loop.simps [of env "parseImpl n env"])
next
  case (EAdd neg t e)
  obtain d w where dw: "show_esum e = d # w" by (cases e) auto
  obtain neg' where d: "d = sign_char neg'" using dw by (cases e) auto
  have w: "w \<noteq> []" using show_esum_split dw d by blast
  have "(case factor env (parseImpl n env) (show_eterm t @ show_esum e) of None \<Rightarrow> None
      | Some (v, r) \<Rightarrow> term_loop env (parseImpl n env) (mul_acc env None v) r) =
     map_option (\<lambda>v. (v, show_esum e)) (eval_eterm env t None)"
    using EAdd.prems sum_follows_esum by (intro EAdd.IH(1)) auto
  then have t: "expr_term env (parseImpl n env) (show_eterm t @ show_esum e) =
      map_option (\<lambda>v. (v, show_esum e)) (eval_eterm env t None)"
    unfolding expr_term_def mul_acc_def option.case by simp
  show ?case
  proof (cases "eval_eterm env t None")
    case None
    with t EAdd.prems show ?thesis by (auto simp: sum_loop.simps [of env "parseImpl n env"])
  next
    case (Some v)
    with t d dw have "expr_term env (parseImpl n env) (show_eterm t @ show_esum e) = Some (v, sign_char neg' # w)" by simp
    from sum_loop_more [OF this w] EAdd.IH(2) [of n d w] EAdd.prems Some dw d show ?thesis by auto
  qed
qed

section \<open>Properties\<close>

text \<open>
  C15: The parser computes the value of an expression: for every expression built from numbers,
  products, sums and differences, and dereferences nested at most \<^verbatim>\<open>kMaxDepth\<close> deep, parsing its text
  gives the reference value, with \<^verbatim>\<open>*\<close> binding tighter than \<^verbatim>\<open>+\<close> and \<^verbatim>\<open>-\<close>, left to right, in the
  target's address arithmetic; it fails exactly when a dereference on the way cannot be read.
\<close>

theorem expr_parse_eval:
  assumes "has_proc env" and "esum_depth e \<le> expr_kMaxDepth"
  shows "expr_parse env (show_esum e) = eval_esum env e 0"
proof -
  obtain c u where cu: "show_esum e = c # u" by (cases e) auto
  have "trim (show_esum e) = show_esum e" using trim_no_space show_no_space(3) by blast
  moreover have "c = CHR ''+'' \<or> c = CHR ''-''" using cu by (cases e) (auto simp: sign_char_def)
  ultimately show ?thesis
    using parse_show(3) [OF assms(1,2) cu] cu by (simp add: expr_parse_def)
qed

definition sample_expr_env :: expr_env where
  "sample_expr_env = \<lparr>has_proc = True, resolver = None, proc_modules = [], target_width = 4, proc_is64bit = False,
     width_at = (\<lambda>a. 4), order_at = (\<lambda>a. BO_Little),
     proc_read = (\<lambda>a n. Inr (map (\<lambda>i. if i = 0 then ucast a else 0) [0..<n]))\<rparr>"

theorem expr_parse_eval_witness:
  "expr_parse sample_expr_env ''+[+0x10*0x3]-0x34'' = Some 0xFFFFFFFC"
proof -
  define e where "e = EAdd False (EFac (FDeref (ETerm False (EMul (FNum 0x10) (EFac (FNum 3)))))) (ETerm True (EFac (FNum 0x34)))"
  have shown: "show_esum e = ''+[+0x10*0x3]-0x34''" unfolding e_def by code_simp
  have "has_proc sample_expr_env" "esum_depth e \<le> expr_kMaxDepth"
    by (simp_all add: sample_expr_env_def e_def expr_kMaxDepth_def)
  from expr_parse_eval [OF this, unfolded shown] have "expr_parse sample_expr_env ''+[+0x10*0x3]-0x34'' = eval_esum sample_expr_env e 0" .
  also have "\<dots> = Some 0xFFFFFFFC" unfolding e_def by code_simp
  finally show ?thesis .
qed

lemma sum_loop_combine: "sum_loop env inner r op s = Some v \<Longrightarrow> \<exists>x y z. v = combine env x y z"
proof (induction env inner r op s rule: sum_loop.induct)
  case (1 env inner r op s)
  from "1.prems" [unfolded sum_loop.simps [of env inner r op s]] "1.IH" show ?case
    by (fastforce simp: Let_def split: option.splits list.splits if_splits)
qed

text \<open>
  C29: Results stay inside the target's address range. In a 32-bit target every parsed address is below
  4 GiB; in a 64-bit process running 32-bit code, combining two 32-bit values never carries out of 32
  bits while addresses above 4 GiB keep their arithmetic.
\<close>

theorem parsed_in_range:
  "(has_proc env \<and> target_width env = 4 \<and> \<not> proc_is64bit env \<and> expr_parse env e = Some v \<longrightarrow> v \<le> 0xFFFFFFFF) \<and>
   (expr_mixed env \<and> l \<le> 0xFFFFFFFF \<and> r \<le> 0xFFFFFFFF \<longrightarrow> combine env l r op \<le> 0xFFFFFFFF) \<and>
   (expr_mixed env \<and> (l > 0xFFFFFFFF \<or> r > 0xFFFFFFFF) \<longrightarrow>
      combine env l r op = (if op = CHR ''-'' then l - r else if op = CHR ''*'' then l * r else l + r))"
proof -
  have le: "and x 0xFFFFFFFF \<le> (0xFFFFFFFF :: u64)" for x by (simp add: word_and_le1)
  have "v \<le> 0xFFFFFFFF"
    if "has_proc env" "target_width env = 4" "\<not> proc_is64bit env" "expr_parse env e = Some v"
  proof -
    from that(4) obtain x y z where "v = combine env x y z"
      by (auto simp: expr_parse_def Let_def split: if_splits dest: sum_loop_combine)
    with that show ?thesis by (auto simp: combine_def expr_mask_def expr_mixed_def Let_def le)
  qed
  then show ?thesis by (auto simp: combine_def expr_mask_def expr_mixed_def Let_def le not_less)
qed

theorem parsed_in_range_witness:
  "\<exists>v. expr_parse sample_expr_env ''FFFFFFFF+2'' = Some v \<and> v \<le> 0xFFFFFFFF"
proof -
  have p: "expr_parse sample_expr_env ''FFFFFFFF+2'' = Some 1" by code_simp
  have "has_proc sample_expr_env" "target_width sample_expr_env = 4" "\<not> proc_is64bit sample_expr_env"
    by (simp_all add: sample_expr_env_def)
  with p parsed_in_range [of sample_expr_env "''FFFFFFFF+2''" 1] show ?thesis by blast
qed

end
