(* ===== verification/Guest.thy ===== *)
theory Guest
  imports Memory
begin

text \<open>
  Guest memory of an emulator: \<^verbatim>\<open>src/core/guest_view.hpp\<close>. A value of the template type \<^verbatim>\<open>T\<close> is its object
  representation in host byte order, a list of \<^verbatim>\<open>sizeof(T)\<close> bytes, as \<^verbatim>\<open>memcpy\<close> sees it; the comparison
  operators of \<^verbatim>\<open>T\<close> are arguments. Guest addresses and sizes are natural numbers, which agrees with the
  64-bit arithmetic of the source as long as the region ends at least one window below \<^verbatim>\<open>2^64\<close>.
\<close>

section \<open>Views\<close>

record GuestView =
  gv_proc :: bool
  gv_base :: u64
  gv_size :: nat
  gv_bigEndian :: bool

definition gv_contains :: "GuestView \<Rightarrow> nat \<Rightarrow> nat \<Rightarrow> bool" where
  "gv_contains gv g n \<longleftrightarrow>
     (let room = unat (- 1 - gv_base gv) in
      gv_proc gv \<and> n > 0 \<and> g \<le> gv_size gv \<and> n \<le> gv_size gv - g \<and> g \<le> room \<and> n - 1 \<le> room - g)"

definition toHost :: "GuestView \<Rightarrow> nat \<Rightarrow> u64" where
  "toHost gv g = gv_base gv + of_nat g"

definition byteswap :: "byte list \<Rightarrow> byte list" where
  "byteswap v = (if length v = 2 \<or> length v = 4 \<or> length v = 8 then rev v else v)"

definition gv_readBytes :: "'w reader \<Rightarrow> GuestView \<Rightarrow> nat \<Rightarrow> nat \<Rightarrow> 'w \<Rightarrow> byte list \<times> 'w" where
  "gv_readBytes rd gv g n w =
    (if \<not> gv_contains gv g n then ([], w)
     else case rd w (toHost gv g) n of
            (Inl e, w') \<Rightarrow> ([], w')
          | (Inr xs, w') \<Rightarrow> (if length xs < n then [] else xs, w'))"

definition gv_writeBytes :: "'w writer \<Rightarrow> GuestView \<Rightarrow> nat \<Rightarrow> byte list \<Rightarrow> 'w \<Rightarrow> bool \<times> 'w" where
  "gv_writeBytes wr gv g xs w =
    (if \<not> gv_contains gv g (length xs) then (False, w)
     else case wr w (toHost gv g) xs of (r, w') \<Rightarrow> (r = Inr (length xs), w'))"

definition gv_read :: "'w reader \<Rightarrow> GuestView \<Rightarrow> nat \<Rightarrow> nat \<Rightarrow> 'w \<Rightarrow> byte list option \<times> 'w" where
  "gv_read rd gv sz g w =
    (case gv_readBytes rd gv g sz w of (b, w') \<Rightarrow>
       (if length b \<noteq> sz then None else Some (if gv_bigEndian gv then byteswap b else b), w'))"

definition gv_write :: "'w writer \<Rightarrow> GuestView \<Rightarrow> nat \<Rightarrow> byte list \<Rightarrow> 'w \<Rightarrow> bool \<times> 'w" where
  "gv_write wr gv g v w = gv_writeBytes wr gv g (if gv_bigEndian gv then byteswap v else v) w"

section \<open>Exact scans\<close>

definition kGuestSnapshotMaxBytes :: nat where "kGuestSnapshotMaxBytes = 512 * 2 ^ 20"
definition kGuestMaxHits :: nat where "kGuestMaxHits = 4 * 2 ^ 20"
definition kStride :: nat where "kStride = 2 ^ 20"

lemma kStride_pos: "0 < kStride"
  by (simp add: kStride_def)

text \<open>
  The loop over one window. It returns the hits and whether the scan stops because there are too
  many; the alignment is at least 1 where it is called.
\<close>

function scan_window :: "byte list \<Rightarrow> byte list \<Rightarrow> nat \<Rightarrow> nat \<Rightarrow> nat \<Rightarrow> nat \<Rightarrow> nat \<Rightarrow> nat list \<Rightarrow> nat list \<times> bool" where
  "scan_window needle buf limit alignment maxHits off i hits =
    (if i < limit then
       (let hit = (take (length needle) (drop i buf) = needle) in
        if hit \<and> length hits \<ge> maxHits then (hits, True)
        else
          let hits' = (if hit then hits @ [off + i] else hits) in
          if alignment = 0 \<or> alignment \<ge> limit - i then (hits', False)
          else scan_window needle buf limit alignment maxHits off (i + alignment) hits')
     else (hits, False))"
  by pat_completeness auto
termination
  by (relation "measure (\<lambda>(needle, buf, limit, al, mh, off, i, hits). limit - i)") auto

declare scan_window.simps [simp del]

function scan_loop :: "'w reader \<Rightarrow> GuestView \<Rightarrow> byte list \<Rightarrow> nat \<Rightarrow> nat \<Rightarrow> nat \<Rightarrow> nat list \<Rightarrow> 'w \<Rightarrow> (nat list \<times> bool) \<times> 'w" where
  "scan_loop rd gv needle alignment maxHits off hits w =
    (if off + length needle \<le> gv_size gv then
       (let want = min (kStride + length needle - 1) (gv_size gv - off) in
        case rd w (toHost gv off) want of
          (Inl e, w') \<Rightarrow> scan_loop rd gv needle alignment maxHits (off + kStride) hits w'
        | (Inr xs, w') \<Rightarrow>
            (let buf = take want xs; got = length buf in
             if got < length needle then scan_loop rd gv needle alignment maxHits (off + kStride) hits w'
             else
               let limit = min kStride (got - length needle + 1);
                   remainder = off mod alignment;
                   start = (if remainder \<noteq> 0 then alignment - remainder else 0)
               in case scan_window needle buf limit alignment maxHits off start hits of
                    (hits', True) \<Rightarrow> ((hits', True), w')
                  | (hits', False) \<Rightarrow> scan_loop rd gv needle alignment maxHits (off + kStride) hits' w'))
     else ((hits, False), w))"
  by pat_completeness auto
termination
  by (relation "measure (\<lambda>(rd, gv, needle, al, mh, off, hits, w). gv_size gv + 1 + length needle - off)",
      simp, (simp only: in_measure split_conv, use kStride_pos in linarith)+)

definition guestScanExact :: "'w reader \<Rightarrow> GuestView \<Rightarrow> byte list \<Rightarrow> nat \<Rightarrow> nat \<Rightarrow> 'w \<Rightarrow> (nat list \<times> bool) \<times> 'w" where
  "guestScanExact rd gv value alignment maxHits w =
    (if gv_size gv < length value \<or> \<not> gv_contains gv 0 (gv_size gv) then (([], False), w)
     else scan_loop rd gv (if gv_bigEndian gv then byteswap value else value)
            (if alignment = 0 then 1 else alignment) maxHits 0 [] w)"

declare scan_loop.simps [simp del]

section \<open>Next scans\<close>

fun guestNextExact :: "'w reader \<Rightarrow> GuestView \<Rightarrow> (byte list \<Rightarrow> byte list \<Rightarrow> bool) \<Rightarrow> byte list \<Rightarrow> nat list \<Rightarrow> 'w
    \<Rightarrow> nat list \<times> 'w" where
  "guestNextExact rd gv eq value [] w = ([], w)"
| "guestNextExact rd gv eq value (g # prev) w =
    (case gv_read rd gv (length value) g w of (cur, w') \<Rightarrow>
       (case guestNextExact rd gv eq value prev w' of (out, w'') \<Rightarrow>
          (if (case cur of None \<Rightarrow> False | Some c \<Rightarrow> eq c value) then g # out else out, w'')))"

datatype GuestCompare = GC_Changed | GC_Unchanged | GC_Increased | GC_Decreased

definition guestCompareKeep :: "(byte list \<Rightarrow> byte list \<Rightarrow> bool) \<Rightarrow> (byte list \<Rightarrow> byte list \<Rightarrow> bool) \<Rightarrow> byte list \<Rightarrow> byte list
    \<Rightarrow> GuestCompare \<Rightarrow> bool" where
  "guestCompareKeep eq lt old c op =
    (case op of GC_Changed \<Rightarrow> \<not> eq c old | GC_Unchanged \<Rightarrow> eq c old
     | GC_Increased \<Rightarrow> lt old c | GC_Decreased \<Rightarrow> lt c old)"

fun guestNextCompare :: "'w reader \<Rightarrow> GuestView \<Rightarrow> (byte list \<Rightarrow> byte list \<Rightarrow> bool) \<Rightarrow> (byte list \<Rightarrow> byte list \<Rightarrow> bool) \<Rightarrow> nat
    \<Rightarrow> GuestCompare \<Rightarrow> (nat \<times> byte list) list \<Rightarrow> 'w \<Rightarrow> (nat \<times> byte list) list \<times> 'w" where
  "guestNextCompare rd gv eq lt sz op [] w = ([], w)"
| "guestNextCompare rd gv eq lt sz op ((g, old) # prev) w =
    (case gv_read rd gv sz g w of (cur, w') \<Rightarrow>
       (case guestNextCompare rd gv eq lt sz op prev w' of (out, w'') \<Rightarrow>
          (case cur of None \<Rightarrow> out
           | Some c \<Rightarrow> if guestCompareKeep eq lt old c op then (g, c) # out else out, w'')))"

section \<open>Snapshots\<close>

record GuestRegionSnapshot =
  snap_bytes :: "byte list"
  snap_readable :: "(nat \<times> nat) list"
  snap_truncated :: bool

definition readableBytes :: "GuestRegionSnapshot \<Rightarrow> nat" where
  "readableBytes s = foldl (\<lambda>n (b, e). n + (e - b)) 0 (snap_readable s)"

definition extend_readable :: "(nat \<times> nat) list \<Rightarrow> nat \<Rightarrow> nat \<Rightarrow> (nat \<times> nat) list" where
  "extend_readable rs off got =
    (if rs \<noteq> [] \<and> snd (last rs) = off then butlast rs @ [(fst (last rs), off + got)]
     else rs @ [(off, off + got)])"

definition snap_window :: nat where "snap_window = 2 ^ 20"
definition kPage :: nat where "kPage = 4096"

definition page_step :: "u64 \<Rightarrow> nat" where
  "page_step a = kPage - unat a mod kPage"

lemma page_step_pos: "0 < page_step a"
  by (simp add: page_step_def kPage_def)

function snapshot_loop :: "'w reader \<Rightarrow> GuestView \<Rightarrow> nat \<Rightarrow> nat \<Rightarrow> byte list \<Rightarrow> (nat \<times> nat) list \<Rightarrow> 'w
    \<Rightarrow> (byte list \<times> (nat \<times> nat) list) \<times> 'w" where
  "snapshot_loop rd gv n off bytes readable w =
    (if off < n then
       (let want = min snap_window (n - off) in
        case rd w (toHost gv off) want of
          (Inl e, w') \<Rightarrow> snapshot_loop rd gv n (off + page_step (toHost gv off)) bytes readable w'
        | (Inr xs, w') \<Rightarrow>
            (let got = length (take want xs) in
             if got \<noteq> 0 then
               snapshot_loop rd gv n (off + got) (take off bytes @ take want xs @ drop (off + got) bytes)
                 (extend_readable readable off got) w'
             else snapshot_loop rd gv n (off + page_step (toHost gv off)) bytes readable w'))
     else ((bytes, readable), w))"
  by pat_completeness auto
termination
  by (relation "measure (\<lambda>(rd, gv, n, off, bytes, readable, w). n - off)")
     (simp_all only: in_measure split_conv wf_measure neq0_conv, (rule diff_less_mono2, use page_step_pos in simp, assumption?)+)

definition guestSnapshotRegion :: "'w reader \<Rightarrow> GuestView \<Rightarrow> nat \<Rightarrow> 'w \<Rightarrow> GuestRegionSnapshot \<times> 'w" where
  "guestSnapshotRegion rd gv maxBytes w =
    (if \<not> gv_contains gv 0 (gv_size gv) then (\<lparr>snap_bytes = [], snap_readable = [], snap_truncated = False\<rparr>, w)
     else let n = min (gv_size gv) maxBytes in
       case snapshot_loop rd gv n 0 (replicate n 0) [] w of
         ((bytes, readable), w') \<Rightarrow>
           (\<lparr>snap_bytes = bytes, snap_readable = readable, snap_truncated = n < gv_size gv\<rparr>, w'))"

definition guestReadRegion :: "'w reader \<Rightarrow> GuestView \<Rightarrow> nat \<Rightarrow> 'w \<Rightarrow> byte list \<times> 'w" where
  "guestReadRegion rd gv maxBytes w =
    (case guestSnapshotRegion rd gv maxBytes w of (snap, w') \<Rightarrow>
       (take (if snap_readable snap \<noteq> [] \<and> fst (hd (snap_readable snap)) = 0
              then snd (hd (snap_readable snap)) else 0) (snap_bytes snap), w'))"

text \<open>
  The comparison loop of \<^verbatim>\<open>guestCompareBuffers\<close> and of \<^verbatim>\<open>guestCompareSnapshots\<close>: aligned offsets whose
  value ends at or before \<^verbatim>\<open>hi\<close>. The flag says that it stopped because there are too many results.
\<close>

definition value_at :: "bool \<Rightarrow> nat \<Rightarrow> byte list \<Rightarrow> nat \<Rightarrow> byte list" where
  "value_at bigEndian sz bytes off =
    (let v = take sz (drop off bytes) in if bigEndian then byteswap v else v)"

function compare_span :: "(byte list \<Rightarrow> byte list \<Rightarrow> bool) \<Rightarrow> nat \<Rightarrow> byte list \<Rightarrow> byte list \<Rightarrow> bool \<Rightarrow> nat \<Rightarrow> nat \<Rightarrow> nat \<Rightarrow> nat
    \<Rightarrow> (nat \<times> byte list) list \<Rightarrow> (nat \<times> byte list) list \<times> bool" where
  "compare_span keep sz oldB newB bigEndian alignment maxHits hi off out =
    (if alignment > 0 \<and> hi \<ge> sz \<and> off \<le> hi - sz then
       (if \<not> keep (value_at bigEndian sz oldB off) (value_at bigEndian sz newB off)
        then compare_span keep sz oldB newB bigEndian alignment maxHits hi (off + alignment) out
        else if length out \<ge> maxHits then (out, True)
        else compare_span keep sz oldB newB bigEndian alignment maxHits hi (off + alignment)
               (out @ [(off, value_at bigEndian sz newB off)]))
     else (out, False))"
  by pat_completeness auto
termination
  by (relation "measure (\<lambda>(keep, sz, oldB, newB, be, al, mh, hi, off, out). hi + 1 - off)") auto

definition guestCompareBuffers :: "(byte list \<Rightarrow> byte list \<Rightarrow> GuestCompare \<Rightarrow> bool) \<Rightarrow> nat \<Rightarrow> byte list \<Rightarrow> byte list \<Rightarrow> bool
    \<Rightarrow> GuestCompare \<Rightarrow> nat \<Rightarrow> nat \<Rightarrow> (nat \<times> byte list) list \<times> bool" where
  "guestCompareBuffers keep sz oldB newB bigEndian op alignment maxHits =
    compare_span (\<lambda>o' c. keep o' c op) sz oldB newB bigEndian (if alignment = 0 then 1 else alignment) maxHits
      (min (length oldB) (length newB)) 0 []"

function snap_pairs :: "(nat \<times> nat) list \<Rightarrow> (nat \<times> nat) list \<Rightarrow> (nat \<Rightarrow> nat \<Rightarrow> (nat \<times> byte list) list \<Rightarrow> (nat \<times> byte list) list \<times> bool)
    \<Rightarrow> (nat \<times> byte list) list \<Rightarrow> (nat \<times> byte list) list \<times> bool" where
  "snap_pairs [] ss span out = (out, False)"
| "snap_pairs (r # rs) [] span out = (out, False)"
| "snap_pairs (r # rs) (s # ss) span out =
    (case span (max (fst r) (fst s)) (min (snd r) (snd s)) out of
       (out', True) \<Rightarrow> (out', True)
     | (out', False) \<Rightarrow>
         if snd r \<le> snd s then snap_pairs rs (s # ss) span out' else snap_pairs (r # rs) ss span out')"
  by pat_completeness auto
termination
  by (relation "measure (\<lambda>(rs, ss, span, out). length rs + length ss)") auto

definition guestCompareSnapshots :: "(byte list \<Rightarrow> byte list \<Rightarrow> GuestCompare \<Rightarrow> bool) \<Rightarrow> nat \<Rightarrow> GuestRegionSnapshot
    \<Rightarrow> GuestRegionSnapshot \<Rightarrow> bool \<Rightarrow> GuestCompare \<Rightarrow> nat \<Rightarrow> nat \<Rightarrow> (nat \<times> byte list) list \<times> bool" where
  "guestCompareSnapshots keep sz oldS newS bigEndian op alignment maxHits =
    (let al = (if alignment = 0 then 1 else alignment);
         n = min (length (snap_bytes oldS)) (length (snap_bytes newS))
     in snap_pairs (snap_readable oldS) (snap_readable newS)
          (\<lambda>lo hi out. compare_span (\<lambda>o' c. keep o' c op) sz (snap_bytes oldS) (snap_bytes newS) bigEndian al maxHits
             (min hi n) (lo + (al - lo mod al) mod al) out) [])"

declare snapshot_loop.simps [simp del] compare_span.simps [simp del]

section \<open>Typed access\<close>

lemma length_byteswap [simp]: "length (byteswap v) = length v"
  by (simp add: byteswap_def)

lemma byteswap_Nil [simp]: "byteswap [] = []"
  by (simp add: byteswap_def)

lemma byteswap_involution [simp]: "byteswap (byteswap v) = v"
  by (simp add: byteswap_def)

lemma gv_contains_span: "gv_contains gv g n \<Longrightarrow> span_ok (toHost gv g) n"
proof -
  assume c: "gv_contains gv g n"
  have room: "unat (- 1 - gv_base gv) = 2 ^ 64 - 1 - unat (gv_base gv)"
    using unat_sub [of "gv_base gv" "- 1 :: u64"] by (simp add: unsigned_minus_1_eq_mask mask_eq_exp_minus_1)
  have b: "unat (gv_base gv) < 2 ^ 64" using unsigned_less [where ?'a = nat, of "gv_base gv"] by simp
  from c have n: "0 < n" "g \<le> 2 ^ 64 - 1 - unat (gv_base gv)" "n - 1 \<le> 2 ^ 64 - 1 - unat (gv_base gv) - g"
    by (simp_all add: gv_contains_def Let_def room)
  then have "unat (toHost gv g) = unat (gv_base gv) + g"
    using b by (simp add: toHost_def unat_word_ariths unat_of_nat_64)
  with n b show ?thesis by (simp add: span_ok_def)
qed

context memory_port
begin

lemma gv_read_value:
  assumes "gv_read rd gv sz g w = (r, w')"
  shows "mem w' = mem w" "r = Some v \<Longrightarrow>
    v = (if gv_bigEndian gv then byteswap (span_bytes (mem w) (toHost gv g) sz) else span_bytes (mem w) (toHost gv g) sz)"
proof -
  obtain q w1 where q: "rd w (toHost gv g) sz = (q, w1)" by force
  have w': "w' = w \<or> w' = w1" and
    v: "\<And>u. r = Some u \<Longrightarrow> sz = 0 \<and> u = [] \<or> (\<exists>xs. q = Inr xs \<and> length xs = sz \<and> u = (if gv_bigEndian gv then byteswap xs else xs))"
    using assms q by (auto simp: gv_read_def gv_readBytes_def split: if_splits sum.splits)
  show "mem w' = mem w" using w' rd_same [OF q] by auto
  assume "r = Some v"
  from v [OF this] show "v = (if gv_bigEndian gv then byteswap (span_bytes (mem w) (toHost gv g) sz)
      else span_bytes (mem w) (toHost gv g) sz)"
    using rd_full(1) [of w "toHost gv g" sz _ w1] q by (auto simp: span_bytes_def)
qed

lemma gv_write_value:
  assumes "gv_write wr gv g v w = (True, w')"
  shows "span_bytes (mem w') (toHost gv g) (length v) = (if gv_bigEndian gv then byteswap v else v)"
    "\<And>x. \<not> in_span (toHost gv g) (length v) x \<Longrightarrow> mem w' x = mem w x"
proof -
  let ?v = "if gv_bigEndian gv then byteswap v else v"
  have len: "length ?v = length v" by simp
  from assms have c: "gv_contains gv g (length ?v)" and w: "wr w (toHost gv g) ?v = (Inr (length ?v), w')"
    by (auto simp: gv_write_def gv_writeBytes_def split: if_splits prod.splits)
  from wr_full [OF w gv_contains_span [OF c]] len
  show "span_bytes (mem w') (toHost gv g) (length v) = ?v"
    "\<And>x. \<not> in_span (toHost gv g) (length v) x \<Longrightarrow> mem w' x = mem w x" by (simp_all del: length_byteswap)
qed

end

section \<open>Scanning\<close>

lemma upt_split: "i \<le> j \<Longrightarrow> j \<le> k \<Longrightarrow> [i..<k] = [i..<j] @ [j..<k]"
  using upt_add_eq_append [of i j "k - j"] by simp

lemma filter_multiples_none:
  assumes "a mod al = 0" "0 < al" "b \<le> a + al"
  shows "filter (\<lambda>g. g mod al = 0 \<and> Q g) [Suc a..<b] = []"
proof -
  have "\<not> g mod al = 0" if "a < g" "g < a + al" for g
  proof
    assume "g mod al = 0"
    then obtain j where j: "g = al * j" by (auto simp: mod_eq_0_iff_dvd dvd_def)
    obtain i where i: "a = al * i" using assms(1) by (auto simp: mod_eq_0_iff_dvd dvd_def)
    from i j that have "i < j" "j < i + 1" using assms(2) by (simp_all add: algebra_simps flip: mult_Suc_right)
    then show False by simp
  qed
  then show ?thesis using assms(3) by (auto simp: filter_empty_conv)
qed

lemma filter_multiples_step:
  assumes "a mod al = 0" "0 < al" "a < b"
  shows "filter (\<lambda>g. g mod al = 0 \<and> Q g) [a..<b] =
    (if Q a then [a] else []) @ filter (\<lambda>g. g mod al = 0 \<and> Q g) [a + al..<b]"
proof (cases "a + al \<le> b")
  case True
  have "[a..<b] = a # [Suc a..<a + al] @ [a + al..<b]"
    using upt_split [of a "a + al" b] True assms by (simp add: upt_conv_Cons)
  with filter_multiples_none [OF assms(1,2), of "a + al" Q] assms(1) show ?thesis by simp
next
  case False
  with filter_multiples_none [OF assms(1,2), of b Q] assms show ?thesis by (simp add: upt_conv_Cons)
qed

lemma scan_window_eq:
  assumes "0 < al" "(off + i) mod al = 0" "length hits \<le> maxHits"
  shows "scan_window needle buf limit al maxHits off i hits =
    (let l = hits @ filter (\<lambda>g. g mod al = 0 \<and> take (length needle) (drop (g - off) buf) = needle) [off + i..<off + limit]
     in (take maxHits l, length l > maxHits))"
  using assms
proof (induction needle buf limit al maxHits off i hits rule: scan_window.induct)
  case (1 needle buf limit al maxHits off i hits)
  define Q where "Q g \<longleftrightarrow> take (length needle) (drop (g - off) buf) = needle" for g
  show ?case
  proof (cases "i < limit")
    case False
    with "1.prems" show ?thesis by (simp add: scan_window.simps [of needle buf limit al maxHits off i])
  next
    case True
    have step: "filter (\<lambda>g. g mod al = 0 \<and> Q g) [off + i..<off + limit] =
        (if Q (off + i) then [off + i] else []) @ filter (\<lambda>g. g mod al = 0 \<and> Q g) [off + (i + al)..<off + limit]"
      using filter_multiples_step [OF "1.prems"(2,1), of "off + limit" Q] True by (simp add: add.assoc)
    have hit: "(take (length needle) (drop i buf) = needle) = Q (off + i)" by (simp add: Q_def)
    let ?hits' = "if Q (off + i) then hits @ [off + i] else hits"
    show ?thesis
    proof (cases "Q (off + i) \<and> length hits \<ge> maxHits")
      case full: True
      with True "1.prems"(3) show ?thesis
        unfolding scan_window.simps [of needle buf limit al maxHits off i] hit Q_def [symmetric] step
        by (simp add: Let_def)
    next
      case False
      have len: "length ?hits' \<le> maxHits" using False "1.prems"(3) by auto
      have next_mod: "(off + (i + al)) mod al = 0" using "1.prems"(2) by (metis add.assoc mod_add_self2)
      show ?thesis
      proof (cases "al \<ge> limit - i")
        case end_: True
        then have "[off + (i + al)..<off + limit] = []" by simp
        with True False end_ len show ?thesis
          unfolding scan_window.simps [of needle buf limit al maxHits off i] hit Q_def [symmetric] step
          by (auto simp: Let_def)
      next
        case more: False
        have no: "\<not> (take (length needle) (drop i buf) = needle \<and> maxHits \<le> length hits)" using False hit by simp
        have go: "\<not> (al = 0 \<or> limit - i \<le> al)" using more "1.prems"(1) by simp
        have ih: "scan_window needle buf limit al maxHits off (i + al) ?hits' =
          (let l = ?hits' @ filter (\<lambda>g. g mod al = 0 \<and> Q g) [off + (i + al)..<off + limit]
           in (take maxHits l, length l > maxHits))"
          using "1.IH" [OF True refl no refl go "1.prems"(1) next_mod, unfolded hit, OF len] by (simp add: Q_def)
        show ?thesis
          unfolding scan_window.simps [of needle buf limit al maxHits off i] hit Q_def [symmetric] step
          using True False go ih by (simp add: Let_def)
      qed
    qed
  qed
qed

text \<open>The distance to the first multiple at or after a position.\<close>

definition align_start :: "nat \<Rightarrow> nat \<Rightarrow> nat" where
  "align_start al off = (if off mod al \<noteq> 0 then al - off mod al else 0)"

lemma first_multiple:
  assumes "0 < al"
  shows "(off + align_start al off) mod al = 0" "filter (\<lambda>g. g mod al = 0 \<and> Q g) [off..<off + align_start al off] = []"
proof -
  let ?base = "off - off mod al"
  have base: "?base mod al = 0" "off mod al < al" "off mod al \<le> off"
    using assms(1) by (simp_all add: minus_mod_eq_mult_div)
  show "(off + align_start al off) mod al = 0"
  proof (cases "off mod al = 0")
    case False
    then have "off + align_start al off = ?base + al" using base by (simp add: align_start_def)
    then show ?thesis by (simp only: mod_add_self2 base)
  qed (simp add: align_start_def)
  show "filter (\<lambda>g. g mod al = 0 \<and> Q g) [off..<off + align_start al off] = []"
  proof (cases "off mod al = 0")
    case False
    then have eq: "off + align_start al off = ?base + al" using base by (simp add: align_start_def)
    have gt: "Suc ?base \<le> off" using base False by linarith
    have "filter (\<lambda>g. g mod al = 0 \<and> Q g) ([Suc ?base..<off] @ [off..<off + align_start al off]) = []"
      using filter_multiples_none [OF base(1) assms(1), of "?base + al" Q] upt_split [of "Suc ?base" off "off + align_start al off"] gt eq
      by simp
    then show ?thesis by simp
  qed (simp add: align_start_def)
qed

lemma filter_from_multiple:
  assumes "0 < al"
  shows "filter (\<lambda>g. g mod al = 0 \<and> Q g) [off + align_start al off..<b] = filter (\<lambda>g. g mod al = 0 \<and> Q g) [off..<b]"
proof (cases "off + align_start al off \<le> b")
  case True
  have "[off..<b] = [off..<off + align_start al off] @ [off + align_start al off..<b]" by (rule upt_split) (use True in simp_all)
  with first_multiple(2) [OF assms(1), of Q off] show ?thesis by (simp add: align_start_def)
next
  case False
  have "[off..<off + align_start al off] = [off..<b] @ [b..<off + align_start al off]" if "off \<le> b" by (rule upt_split) (use False that in simp_all)
  with first_multiple(2) [OF assms(1), of Q off] False show ?thesis
    by (cases "off \<le> b") (auto simp: align_start_def)
qed

lemma span_bytes_part:
  assumes "off \<le> g" "g + sz \<le> off + want"
  shows "take sz (drop (g - off) (span_bytes m (toHost gv off) want)) = span_bytes m (toHost gv g) sz"
  using assms by (auto simp: list_eq_iff_nth_eq toHost_def add.assoc simp flip: of_nat_add)

text \<open>Every read inside the region is complete.\<close>

definition region_readable :: "'w reader \<Rightarrow> GuestView \<Rightarrow> bool" where
  "region_readable rd gv \<longleftrightarrow>
     (\<forall>w g n. g + n \<le> gv_size gv \<longrightarrow> 0 < n \<longrightarrow> (\<exists>xs w'. rd w (toHost gv g) n = (Inr xs, w') \<and> length xs = n))"

definition guest_matches :: "(u64 \<Rightarrow> byte) \<Rightarrow> GuestView \<Rightarrow> byte list \<Rightarrow> nat \<Rightarrow> nat \<Rightarrow> nat list" where
  "guest_matches m gv needle al off =
    filter (\<lambda>g. g mod al = 0 \<and> span_bytes m (toHost gv g) (length needle) = needle) [off..<gv_size gv + 1 - length needle]"

context memory_port
begin

lemma scan_loop_eq:
  assumes "0 < al" "region_readable rd gv" "needle \<noteq> []" "length hits \<le> maxHits"
    "scan_loop rd gv needle al maxHits off hits w = (res, w')"
  shows "mem w' = mem w \<and> res = (take maxHits (hits @ guest_matches (mem w) gv needle al off),
    length (hits @ guest_matches (mem w) gv needle al off) > maxHits)"
  using assms(4,5)
proof (induction "gv_size gv + 1 - off" arbitrary: off hits w res w' rule: less_induct)
  case less
  let ?sz = "length needle"
  show ?case
  proof (cases "off + ?sz \<le> gv_size gv")
    case False
    then have "guest_matches (mem w) gv needle al off = []" by (simp add: guest_matches_def)
    with False less.prems show ?thesis by (simp add: scan_loop.simps [of rd gv needle al maxHits off hits w])
  next
    case True
    define want where "want = min (kStride + ?sz - 1) (gv_size gv - off)"
    have sz: "0 < ?sz" using assms(3) by simp
    have want: "?sz \<le> want" "off + want \<le> gv_size gv" "0 < want"
      unfolding want_def using True sz kStride_pos by linarith+
    from assms(2) want obtain xs w1 where xs: "rd w (toHost gv off) want = (Inr xs, w1)" "length xs = want"
      unfolding region_readable_def by blast
    have m: "xs = span_bytes (mem w) (toHost gv off) want" "mem w1 = mem w" using rd_full [OF xs] by simp_all
    define limit where "limit = min kStride (want - ?sz + 1)"
    define start where "start = align_start al off"
    define P where "P g \<longleftrightarrow> span_bytes (mem w) (toHost gv g) ?sz = needle" for g
    have lim: "off + limit = min (off + kStride) (gv_size gv + 1 - ?sz)"
      using True sz kStride_pos by (auto simp: limit_def want_def)
    have match: "take ?sz (drop (g - off) xs) = needle \<longleftrightarrow> P g" if "off \<le> g" "g < off + limit" for g
      unfolding m P_def using that want by (subst span_bytes_part) (auto simp: limit_def)
    have "filter (\<lambda>g. g mod al = 0 \<and> take ?sz (drop (g - off) xs) = needle) [off + start..<off + limit] =
        filter (\<lambda>g. g mod al = 0 \<and> P g) [off + start..<off + limit]"
      by (rule filter_cong) (use match in auto)
    also have "\<dots> = filter (\<lambda>g. g mod al = 0 \<and> P g) [off..<off + limit]"
      unfolding start_def by (rule filter_from_multiple [OF assms(1)])
    finally have fl: "filter (\<lambda>g. g mod al = 0 \<and> take ?sz (drop (g - off) xs) = needle) [off + start..<off + limit] =
        filter (\<lambda>g. g mod al = 0 \<and> P g) [off..<off + limit]" .
    define l1 where "l1 = hits @ filter (\<lambda>g. g mod al = 0 \<and> P g) [off..<off + limit]"
    have win: "scan_window needle xs limit al maxHits off start hits = (take maxHits l1, length l1 > maxHits)"
      unfolding l1_def fl [symmetric]
      using scan_window_eq [OF assms(1) first_multiple(1) [OF assms(1), of off] less.prems(1), of needle xs limit]
      by (simp add: start_def Let_def)
    have whole: "hits @ guest_matches (mem w) gv needle al off = l1 @ guest_matches (mem w) gv needle al (off + kStride)"
    proof (cases "off + kStride \<le> gv_size gv + 1 - ?sz")
      case True
      then have "[off..<gv_size gv + 1 - ?sz] = [off..<off + limit] @ [off + kStride..<gv_size gv + 1 - ?sz]"
        using upt_split [of off "off + kStride" "gv_size gv + 1 - ?sz"] lim by simp
      then show ?thesis by (simp add: guest_matches_def l1_def P_def)
    next
      case False
      with lim show ?thesis by (simp add: guest_matches_def l1_def P_def)
    qed
    have start: "(if off mod al \<noteq> 0 then al - off mod al else 0) = start" by (simp add: start_def align_start_def)
    have step: "(case scan_window needle xs limit al maxHits off start hits of
        (hits', True) \<Rightarrow> ((hits', True), w1)
      | (hits', False) \<Rightarrow> scan_loop rd gv needle al maxHits (off + kStride) hits' w1) = (res, w')"
      using less.prems(2) True want xs
      unfolding scan_loop.simps [of rd gv needle al maxHits off hits w] Let_def start want_def [symmetric] xs(1)
      by (simp add: limit_def)
    show ?thesis
    proof (cases "length l1 > maxHits")
      case full: True
      with step win have "res = (take maxHits l1, True)" "w' = w1" by auto
      with full m(2) whole show ?thesis by simp
    next
      case False
      with step win have go: "scan_loop rd gv needle al maxHits (off + kStride) l1 w1 = (res, w')" by simp
      have "gv_size gv + 1 - (off + kStride) < gv_size gv + 1 - off" using True kStride_pos by simp
      from less.hyps [OF this _ go] False m(2) whole show ?thesis by simp
    qed
  qed
qed

end

section \<open>Properties\<close>

text \<open>
  A value written through a view is the value read back, whatever the guest's byte order, and the
  write changes only its own bytes of the host process: for a typed write that reports success, any
  later complete read of the same address returns the value.
\<close>

theorem guest_write_read:
  assumes "memory_port mem rd wr" and "gv_write wr gv g v w = (True, w1)"
    and "gv_read rd gv (length v) g w1 = (Some u, w2)"
  shows "u = v \<and> (\<forall>x. \<not> in_span (toHost gv g) (length v) x \<longrightarrow> mem w1 x = mem w x)"
  using memory_port.gv_write_value [OF assms(1,2)] memory_port.gv_read_value(2) [OF assms(1,3) refl] by auto

definition sample_guest_space :: address_space where
  "sample_guest_space = \<lparr>contents = (\<lambda>x. of_nat (unat x mod 5)), mapped = (\<lambda>x. 0x7000 \<le> x \<and> x < 0x7020), retired = False\<rparr>"

definition sample_view :: GuestView where
  "sample_view = \<lparr>gv_proc = True, gv_base = 0x7000, gv_size = 0x20, gv_bigEndian = True\<rparr>"

theorem guest_write_read_witness:
  "\<exists>w1. gv_write as_pwrite sample_view 4 [0x0D, 0x0C] sample_guest_space = (True, w1) \<and>
     fst (gv_read as_pread sample_view 2 4 w1) = Some [0x0D, 0x0C]"
proof -
  define p where "p = gv_write as_pwrite sample_view 4 [0x0D, 0x0C] sample_guest_space"
  have "fst p = True" unfolding p_def by code_simp
  then have p: "gv_write as_pwrite sample_view 4 [0x0D, 0x0C] sample_guest_space = (True, snd p)"
    by (metis p_def prod.collapse)
  have "fst (gv_read as_pread sample_view 2 4 (snd p)) \<noteq> None" unfolding p_def by code_simp
  then obtain u where u: "fst (gv_read as_pread sample_view 2 4 (snd p)) = Some u" by blast
  then have "gv_read as_pread sample_view (length [0x0D, 0x0C :: byte]) 4 (snd p) = (Some u, snd (gv_read as_pread sample_view 2 4 (snd p)))"
    by (metis length_Cons list.size(3) numeral_2_eq_2 prod.collapse)
  from guest_write_read [OF proc_mem.memory_port_axioms p this] p u show ?thesis by auto
qed


text \<open>A process whose whole address space reads back as zero bytes.\<close>

definition zero_read :: "unit reader" where
  "zero_read w a n = (Inr (replicate n 0), w)"

definition null_write :: "unit writer" where
  "null_write w a xs = (Inl operation_not_permitted, w)"

lemma zero_port: "memory_port (\<lambda>w a. 0) zero_read null_write"
  by unfold_locales (auto simp: zero_read_def null_write_def span_bytes_def map_replicate_const)


section \<open>Snapshots hold what was read\<close>

definition gaps :: "(nat \<times> nat) list \<Rightarrow> bool" where
  "gaps rs \<longleftrightarrow> sorted_wrt (\<lambda>p q. snd p < fst q) rs \<and> (\<forall>p \<in> set rs. fst p < snd p)"

definition snap_ok :: "(u64 \<Rightarrow> byte) \<Rightarrow> GuestView \<Rightarrow> nat \<Rightarrow> nat \<Rightarrow> byte list \<Rightarrow> (nat \<times> nat) list \<Rightarrow> bool" where
  "snap_ok m gv n off bytes rs \<longleftrightarrow> length bytes = n \<and> gaps rs \<and>
     (\<forall>p \<in> set rs. snd p \<le> n \<and> snd p \<le> off \<and> (\<forall>i. fst p \<le> i \<and> i < snd p \<longrightarrow> bytes ! i = m (toHost gv i)))"

lemma snap_ok_later: "snap_ok m gv n off bytes rs \<Longrightarrow> off \<le> off' \<Longrightarrow> snap_ok m gv n off' bytes rs"
  by (force simp: snap_ok_def)

lemma gaps_extend:
  assumes "gaps rs" "0 < got" "\<forall>p \<in> set rs. snd p \<le> off"
  shows "gaps (extend_readable rs off got)"
proof (cases "rs \<noteq> [] \<and> snd (last rs) = off")
  case True
  then obtain qs b where rs: "rs = qs @ [(b, off)]" by (metis append_butlast_last_id prod.collapse)
  then show ?thesis using assms by (auto simp: extend_readable_def gaps_def sorted_wrt_append)
next
  case False
  have "snd p < off" if "p \<in> set rs" for p
  proof -
    from that obtain qs z where rs: "rs = qs @ [z]" by (metis append_butlast_last_id empty_iff empty_set)
    have z: "snd z < off" using False assms(3) rs by (auto simp: order_le_less)
    show ?thesis
    proof (cases "p = z")
      case False
      with that rs assms(1) have "snd p < fst z" "fst z < snd z" by (auto simp: gaps_def sorted_wrt_append)
      with z show ?thesis by simp
    qed (simp add: z)
  qed
  with False assms show ?thesis by (auto simp: extend_readable_def gaps_def sorted_wrt_append)
qed

lemma in_extend:
  assumes "p \<in> set (extend_readable rs off got)" "0 < got"
  shows "(p \<in> set rs) \<or> (snd p = off + got \<and> (fst p = off \<or> (fst p, off) \<in> set rs))"
proof (cases "rs \<noteq> [] \<and> snd (last rs) = off")
  case True
  then obtain qs b where rs: "rs = qs @ [(b, off)]" by (metis append_butlast_last_id prod.collapse)
  with assms show ?thesis by (auto simp: extend_readable_def)
next
  case False
  with assms show ?thesis by (auto simp: extend_readable_def)
qed

lemma snap_ok_read:
  assumes ok: "snap_ok m gv n off bytes rs" and xs: "xs = span_bytes m (toHost gv off) (length xs)"
    and len: "xs \<noteq> []" "off + length xs \<le> n"
  shows "snap_ok m gv n (off + length xs) (take off bytes @ xs @ drop (off + length xs) bytes)
    (extend_readable rs off (length xs))"
proof -
  let ?b = "take off bytes @ xs @ drop (off + length xs) bytes"
  have lb: "length bytes = n" and pos: "0 < length xs" using ok len by (auto simp: snap_ok_def)
  have low: "?b ! i = bytes ! i" if "i < off" for i using that lb len by (simp add: nth_append)
  have mid: "?b ! i = m (toHost gv i)" if "off \<le> i" "i < off + length xs" for i
  proof -
    have "i - off < length xs" using that by linarith
    then have "?b ! i = xs ! (i - off)" using that lb len by (simp add: nth_append)
    also have "\<dots> = m (toHost gv off + of_nat (i - off))" by (subst xs) (use that in simp)
    finally show ?thesis using that by (simp add: toHost_def add.assoc flip: of_nat_add)
  qed
  have "snd p \<le> n \<and> snd p \<le> off + length xs \<and> (\<forall>i. fst p \<le> i \<and> i < snd p \<longrightarrow> ?b ! i = m (toHost gv i))"
    if p: "p \<in> set (extend_readable rs off (length xs))" for p
    using in_extend [OF p pos]
  proof
    assume "p \<in> set rs"
    with ok low show ?thesis by (force simp: snap_ok_def)
  next
    assume p: "snd p = off + length xs \<and> (fst p = off \<or> (fst p, off) \<in> set rs)"
    have "?b ! i = m (toHost gv i)" if "fst p \<le> i" "i < off + length xs" for i
    proof (cases "i < off")
      case True
      with p that have "(fst p, off) \<in> set rs" by auto
      with ok that True low [OF True] show ?thesis by (force simp: snap_ok_def)
    next
      case False
      with mid that show ?thesis by simp
    qed
    with p len show ?thesis by auto
  qed
  moreover have "gaps (extend_readable rs off (length xs))"
    by (rule gaps_extend [OF _ pos]) (use ok in \<open>auto simp: snap_ok_def\<close>)
  moreover have "length ?b = n" using lb len by simp
  ultimately show ?thesis by (simp add: snap_ok_def)
qed

context memory_port
begin

lemma snapshot_loop_ok:
  assumes "snap_ok (mem w) gv n off bytes rs"
    "snapshot_loop rd gv n off bytes rs w = ((bytes', rs'), w')"
  shows "(\<exists>off'. snap_ok (mem w) gv n off' bytes' rs') \<and> mem w' = mem w"
  using assms
proof (induction "n - off" arbitrary: off bytes rs w bytes' rs' w' rule: less_induct)
  case less
  show ?case
  proof (cases "off < n")
    case False
    with less.prems show ?thesis by (auto simp: snapshot_loop.simps [of rd gv n off])
  next
    case True
    define want where "want = min snap_window (n - off)"
    obtain q w1 where q: "rd w (toHost gv off) want = (q, w1)" by force
    note m = rd_same [OF q]
    let ?skip = "off + page_step (toHost gv off)"
    have dec: "n - ?skip < n - off" using True page_step_pos [of "toHost gv off"] by simp
    show ?thesis
    proof (cases "\<exists>xs. q = Inr xs \<and> take want xs \<noteq> []")
      case None: False
      then have "snapshot_loop rd gv n ?skip bytes rs w1 = ((bytes', rs'), w')"
        using less.prems(2) True q
        unfolding snapshot_loop.simps [of rd gv n off bytes rs w] want_def [symmetric] Let_def q
        by (auto split: sum.splits)
      from less.hyps [OF dec _ this] snap_ok_later [OF less.prems(1), of ?skip] m show ?thesis by simp
    next
      case True': True
      then obtain xs where xs: "q = Inr xs" "take want xs \<noteq> []" by blast
      define ys where "ys = take want xs"
      have "length xs \<le> want \<and> xs = span_bytes (mem w) (toHost gv off) (length xs)"
        using rd_bytes [of w "toHost gv off" want xs] q xs(1) by simp
      then have ys: "ys = xs" "ys = span_bytes (mem w) (toHost gv off) (length ys)" "length ys \<le> want"
        by (auto simp: ys_def)
      have pos: "ys \<noteq> []" "off + length ys \<le> n" using xs(2) ys True by (auto simp: ys_def want_def)
      have go: "snapshot_loop rd gv n (off + length ys) (take off bytes @ ys @ drop (off + length ys) bytes)
          (extend_readable rs off (length ys)) w1 = ((bytes', rs'), w')"
        using less.prems(2) True q xs pos
        unfolding snapshot_loop.simps [of rd gv n off bytes rs w] want_def [symmetric] Let_def q
        by (simp add: ys_def)
      have dec': "n - (off + length ys) < n - off" using pos True by (cases ys) simp_all
      have inv: "snap_ok (mem w1) gv n (off + length ys) (take off bytes @ ys @ drop (off + length ys) bytes)
          (extend_readable rs off (length ys))"
        unfolding m by (rule snap_ok_read [OF less.prems(1) ys(2) pos])
      from less.hyps [OF dec' inv go] m show ?thesis by simp
    qed
  qed
qed

end

text \<open>
  A snapshot of guest memory holds what was read. The readable intervals are nonempty, increasing
  and separated by gaps, lie inside the buffer, and every byte of the buffer inside one of them is the
  byte of the process at that guest address, however the reads were cut short or failed; the buffer
  is as long as the region, up to the byte cap, and \<^verbatim>\<open>truncated\<close> says whether the cap was applied.
\<close>

theorem guestSnapshotRegion_sound:
  assumes "memory_port mem rd wr" and "guestSnapshotRegion rd gv maxBytes w = (snap, w')"
    and "gv_contains gv 0 (gv_size gv)"
  shows "gaps (snap_readable snap) \<and> length (snap_bytes snap) = min (gv_size gv) maxBytes \<and>
    snap_truncated snap = (maxBytes < gv_size gv) \<and> mem w' = mem w \<and>
    (\<forall>p \<in> set (snap_readable snap). snd p \<le> length (snap_bytes snap) \<and>
      (\<forall>i. fst p \<le> i \<and> i < snd p \<longrightarrow> snap_bytes snap ! i = mem w (toHost gv i)))"
proof -
  let ?n = "min (gv_size gv) maxBytes"
  obtain bytes rs w1 where l: "snapshot_loop rd gv ?n 0 (replicate ?n 0) [] w = ((bytes, rs), w1)" by (metis prod_cases3 prod.collapse)
  have "snap_ok (mem w) gv ?n 0 (replicate ?n 0) []" by (simp add: snap_ok_def gaps_def)
  from memory_port.snapshot_loop_ok [OF assms(1) this l] obtain off
    where ok: "snap_ok (mem w) gv ?n off bytes rs" and m: "mem w1 = mem w" by blast
  have "snap = \<lparr>snap_bytes = bytes, snap_readable = rs, snap_truncated = ?n < gv_size gv\<rparr>" "w' = w1"
    using l assms(2,3) by (auto simp: guestSnapshotRegion_def Let_def)
  with ok m show ?thesis unfolding snap_ok_def by auto
qed

theorem guestSnapshotRegion_sound_witness:
  "\<exists>snap w'. guestSnapshotRegion as_pread (sample_view\<lparr>gv_base := 0x7010\<rparr>) 0x100 sample_guest_space = (snap, w') \<and>
     snap_readable snap = [(0, 16)] \<and> length (snap_bytes snap) = 0x20 \<and>
     (\<forall>i. 0 \<le> i \<and> i < 16 \<longrightarrow> snap_bytes snap ! i = contents sample_guest_space (toHost (sample_view\<lparr>gv_base := 0x7010\<rparr>) i))"
proof -
  define p where "p = guestSnapshotRegion as_pread (sample_view\<lparr>gv_base := 0x7010\<rparr>) 0x100 sample_guest_space"
  have p: "guestSnapshotRegion as_pread (sample_view\<lparr>gv_base := 0x7010\<rparr>) 0x100 sample_guest_space = (fst p, snd p)"
    by (simp add: p_def)
  have r: "snap_readable (fst p) = [(0, 16)]" unfolding p_def by code_simp
  have "gv_contains (sample_view\<lparr>gv_base := 0x7010\<rparr>) 0 (gv_size (sample_view\<lparr>gv_base := 0x7010\<rparr>))" by code_simp
  note s = guestSnapshotRegion_sound [OF proc_mem.memory_port_axioms p this]
  have "gv_size (sample_view\<lparr>gv_base := 0x7010\<rparr>) = 0x20" by (simp add: sample_view_def)
  with s r show ?thesis by (intro exI [of _ "fst p"] exI [of _ "snd p"] conjI p) auto
qed

end
