(* ===== verification/Gdb.thy ===== *)
theory Gdb
  imports Memory CoreTypes
begin

text \<open>
  The GDB remote protocol client: \<^verbatim>\<open>src/debug/gdb_remote.cpp\<close>. The socket is a parameter: \<^verbatim>\<open>sendAll\<close>,
  \<^verbatim>\<open>readByte\<close>, the cancellation token and the clock are the fields of \<open>gdb_io\<close>, functions on a world
  of type \<open>'w\<close> that the client carries as its link. The whole protocol above the byte stream is
  modelled: framing with check sums, acknowledgments and retries, escapes and run-length encoding,
  feature negotiation, object transfers, register banks and memory transfers.
\<close>

unbundle bit_operations_syntax

section \<open>Numbers and bytes in hexadecimal\<close>

text \<open>\<^verbatim>\<open>hexValue\<close> answers -1 for a character that is no digit; here \<open>None\<close>.\<close>

definition hexValue :: "char \<Rightarrow> nat option" where
  "hexValue c =
    (let k = char_code c in
     if 48 \<le> k \<and> k \<le> 57 then Some (k - 48)
     else if 97 \<le> k \<and> k \<le> 102 then Some (k - 97 + 10)
     else if 65 \<le> k \<and> k \<le> 70 then Some (k - 65 + 10)
     else None)"

definition is_hex :: "char \<Rightarrow> bool" where
  "is_hex c \<longleftrightarrow> hexValue c \<noteq> None"

definition hexNumber :: "nat \<Rightarrow> string" where
  "hexNumber n = show_base 16 n"

definition hexBytes :: "byte list \<Rightarrow> string" where
  "hexBytes bs = concat (map (\<lambda>b. [digit_char (unat (drop_bit 4 b)), digit_char (unat (b AND 15))]) bs)"

fun decodePairs :: "string \<Rightarrow> byte list expected" where
  "decodePairs (x # y # r) =
    (case (hexValue x, hexValue y) of
       (Some a, Some b) \<Rightarrow> (case decodePairs r of Inl e \<Rightarrow> Inl e | Inr bs \<Rightarrow> Inr (of_nat (push_bit 4 a OR b) # bs))
     | _ \<Rightarrow> Inl ''Unavailable or non-hexadecimal response data'')"
| "decodePairs _ = Inr []"

definition decodeHex :: "string \<Rightarrow> byte list expected" where
  "decodeHex s = (if length s mod 2 \<noteq> 0 then Inl ''Odd hexadecimal response length'' else decodePairs s)"

text \<open>\<^verbatim>\<open>std::from_chars\<close> into a 32-bit number, of the whole text.\<close>

definition number :: "nat \<Rightarrow> string \<Rightarrow> nat option" where
  "number base s = (if s \<noteq> [] \<and> list_all (is_digit_of base) s \<and> run_value base s < 2 ^ 32 then Some (run_value base s) else None)"

definition token :: "bool \<Rightarrow> string \<Rightarrow> bool" where
  "token allowEmpty s \<longleftrightarrow>
     (allowEmpty \<or> s \<noteq> []) \<and> length s \<le> 256 \<and>
     list_all (\<lambda>c. char_code c \<ge> 33 \<and> char_code c < 127 \<and> c \<noteq> CHR '':'' \<and> c \<noteq> CHR '','' \<and> c \<noteq> CHR '';'') s"

definition gdbTargetMachine :: "string \<Rightarrow> string \<Rightarrow> TargetMachine" where
  "gdbTargetMachine arch osAbi =
    (let m = default_machine in
     if arch = ''i386'' \<or> arch = ''i386:x86-64'' \<or> arch = ''i386:x64-32'' then
       m\<lparr>architecture := (if arch = ''i386'' then CA_X86_32 else CA_X86_64),
         pointerWidth := (if arch = ''i386:x86-64'' then 8 else 4),
         byteOrder := BO_Little, instructionByteOrder := BO_Little,
         instructionMode := (if arch = ''i386'' then IM_X86_32 else IM_X86_64),
         abi := (if osAbi = ''GNU/Linux'' then
                   (if arch = ''i386'' then TA_LinuxI386 else if arch = ''i386:x64-32'' then TA_LinuxX32 else TA_LinuxX86_64)
                 else abi m)\<rparr>
     else if arch = ''aarch64'' \<or> arch = ''aarch64:ilp32'' then
       (let w = (if arch = ''aarch64'' then 8 else 4) in
        m\<lparr>architecture := CA_Arm64, pointerWidth := w, instructionMode := IM_Aarch64, instructionByteOrder := BO_Little,
          abi := (if osAbi = ''GNU/Linux'' \<and> w = 8 then TA_LinuxAarch64 else abi m)\<rparr>)
     else if arch = ''arm'' then
       m\<lparr>architecture := CA_Arm32, pointerWidth := 4, abi := (if osAbi = ''GNU/Linux'' then TA_LinuxArmEabi else abi m)\<rparr>
     else if arch = ''riscv:rv32'' \<or> arch = ''riscv:rv64'' then
       m\<lparr>architecture := (if arch = ''riscv:rv32'' then CA_RiscV32 else CA_RiscV64),
         pointerWidth := (if arch = ''riscv:rv32'' then 4 else 8),
         abi := (if osAbi = ''GNU/Linux'' then TA_LinuxRiscV else abi m)\<rparr>
     else if arch \<noteq> [] then m\<lparr>architecture := CA_Other\<rparr>
     else m)"

section \<open>The client\<close>

record GdbRegisterDescription =
  rd_name :: string
  rd_number :: nat
  rd_bits :: nat
  rd_type :: string

record GdbTargetDescription =
  td_architecture :: string
  td_osAbi :: string
  td_machine :: TargetMachine
  td_registers :: "GdbRegisterDescription list"

text \<open>
  The transport: \<^verbatim>\<open>sendAll\<close> and \<^verbatim>\<open>readByte\<close> take the deadline that \<^verbatim>\<open>waitReady\<close> checks; the clock counts
  milliseconds.
\<close>

record 'w gdb_io =
  io_send :: "nat \<Rightarrow> 'w \<Rightarrow> string \<Rightarrow> unit expected \<times> 'w"
  io_recv :: "nat \<Rightarrow> 'w \<Rightarrow> char expected \<times> 'w"
  io_stop :: "'w \<Rightarrow> bool"
  io_now :: "'w \<Rightarrow> nat"

record 'w GdbRemoteClient =
  connected :: bool
  noAck :: bool
  packetSize :: nat
  features :: "string list"
  registerLayout :: "GdbRegisterDescription list"
  individualReads :: bool
  individualWrites :: bool
  timeout :: nat
  deadline :: nat
  link :: 'w

definition maxWire :: nat where "maxWire = 2 ^ 20"
definition maxDecoded :: nat where "maxDecoded = 16 * 2 ^ 20"
definition maxObject :: nat where "maxObject = 4 * 2 ^ 20"

definition new_client :: "'w \<Rightarrow> 'w GdbRemoteClient" where
  "new_client w = \<lparr> connected = False, noAck = False, packetSize = 1024, features = [], registerLayout = [],
     individualReads = True, individualWrites = True, timeout = 2000, deadline = 0, link = w \<rparr>"

definition setTimeout :: "int \<Rightarrow> 'w GdbRemoteClient \<Rightarrow> 'w GdbRemoteClient" where
  "setTimeout t c = c\<lparr>timeout := nat (max 1 (min t 60000))\<rparr>"

definition closeClient :: "'w GdbRemoteClient \<Rightarrow> 'w GdbRemoteClient" where
  "closeClient c = c\<lparr>connected := False, noAck := False, packetSize := 1024, features := [],
     registerLayout := [], individualReads := True, individualWrites := True\<rparr>"

section \<open>Packets\<close>

definition flip20 :: "char \<Rightarrow> char" where
  "flip20 c = char_of (char_code c XOR 0x20)"

definition must_escape :: "char \<Rightarrow> bool" where
  "must_escape c \<longleftrightarrow> c = CHR ''$'' \<or> c = CHR ''#'' \<or> c = CHR ''}'' \<or> c = CHR ''*''"

text \<open>The loop of \<^verbatim>\<open>sendPacket\<close> that escapes the payload, with its size check after each character.\<close>

fun escape_into :: "nat \<Rightarrow> string \<Rightarrow> string \<Rightarrow> string expected" where
  "escape_into limit raw [] = Inr raw"
| "escape_into limit raw (c # cs) =
    (let raw' = (if must_escape c then raw @ [CHR ''}'', flip20 c] else raw @ [c]) in
     if length raw' > limit then Inl ''Request exceeds negotiated GDB packet size''
     else escape_into limit raw' cs)"

definition checksum :: "string \<Rightarrow> byte" where
  "checksum raw = foldl (\<lambda>s c. s + of_char c) 0 raw"

definition wire_packet :: "string \<Rightarrow> string" where
  "wire_packet raw = CHR ''$'' # raw @ CHR ''#'' # hex2 (checksum raw)"

text \<open>The first loop of \<^verbatim>\<open>readPacket\<close>: at most seventeen stray acknowledgments before the packet.\<close>

function skip_prefix :: "'w gdb_io \<Rightarrow> nat \<Rightarrow> nat \<Rightarrow> 'w \<Rightarrow> unit expected \<times> 'w" where
  "skip_prefix io dl ignored w =
    (case io_recv io dl w of
       (Inl e, w') \<Rightarrow> (Inl e, w')
     | (Inr c, w') \<Rightarrow>
         if c = CHR ''$'' then (Inr (), w')
         else if c \<noteq> CHR ''+'' \<or> ignored > 16 then (Inl ''Unexpected GDB packet prefix'', w')
         else skip_prefix io dl (Suc ignored) w')"
  by pat_completeness auto
termination by (relation "measure (\<lambda>(io, dl, ignored, w). 17 - ignored)") auto

function read_raw :: "'w gdb_io \<Rightarrow> nat \<Rightarrow> string \<Rightarrow> byte \<Rightarrow> 'w \<Rightarrow> (string \<times> byte) expected \<times> 'w" where
  "read_raw io dl raw sm w =
    (case io_recv io dl w of
       (Inl e, w') \<Rightarrow> (Inl e, w')
     | (Inr c, w') \<Rightarrow>
         if c = CHR ''#'' then (Inr (raw, sm), w')
         else if length raw \<ge> maxWire then (Inl ''GDB packet exceeds size limit'', w')
         else read_raw io dl (raw @ [c]) (sm + of_char c) w')"
  by pat_completeness auto
termination by (relation "measure (\<lambda>(io, dl, raw, sm, w). maxWire - length raw)") auto

declare skip_prefix.simps [simp del] read_raw.simps [simp del]

text \<open>Undoing escapes and run lengths, the last loop of \<^verbatim>\<open>readPacket\<close>.\<close>

fun decode_raw :: "string \<Rightarrow> string \<Rightarrow> string expected" where
  "decode_raw decoded [] = Inr decoded"
| "decode_raw decoded (c # r) =
    (if c = CHR ''}'' then
       (case r of
          [] \<Rightarrow> Inl ''Truncated GDB escape''
        | e # r' \<Rightarrow>
            if length decoded \<ge> maxDecoded then Inl ''Decoded GDB packet exceeds size limit''
            else decode_raw (decoded @ [flip20 e]) r')
     else if c = CHR ''*'' then
       (case (decoded, r) of
          (_ # _, n # r') \<Rightarrow>
            (let count = char_code n in
             if count < 32 \<or> count > 126 \<or> n = CHR ''$'' \<or> n = CHR ''#'' then Inl ''Invalid GDB run-length count''
             else let repeat = count - 29 in
               if repeat > maxDecoded - length decoded then Inl ''Decoded GDB packet exceeds size limit''
               else decode_raw (decoded @ replicate repeat (last decoded)) r')
        | _ \<Rightarrow> Inl ''Invalid GDB run-length data'')
     else if length decoded \<ge> maxDecoded then Inl ''Decoded GDB packet exceeds size limit''
     else decode_raw (decoded @ [c]) r)"

text \<open>The attempts of \<^verbatim>\<open>readPacket\<close>: a bad check sum is answered with a minus, three times at most.\<close>

fun readPacket_attempts :: "nat \<Rightarrow> 'w gdb_io \<Rightarrow> bool \<Rightarrow> nat \<Rightarrow> 'w \<Rightarrow> string expected \<times> 'w" where
  "readPacket_attempts 0 io na dl w = (Inl ''Repeated GDB checksum failures'', w)"
| "readPacket_attempts (Suc n) io na dl w =
    (case skip_prefix io dl 0 w of
       (Inl e, w) \<Rightarrow> (Inl e, w)
     | (Inr _, w) \<Rightarrow>
    (case read_raw io dl [] 0 w of
       (Inl e, w) \<Rightarrow> (Inl e, w)
     | (Inr (raw, sm), w) \<Rightarrow>
    (case io_recv io dl w of (hi, w) \<Rightarrow> case io_recv io dl w of (lo, w) \<Rightarrow>
     (case (hi, lo) of
        (Inl e, _) \<Rightarrow> (Inl e, w)
      | (_, Inl e) \<Rightarrow> (Inl e, w)
      | (Inr h, Inr l) \<Rightarrow>
          if (case (hexValue h, hexValue l) of (Some a, Some b) \<Rightarrow> unat sm = (push_bit 4 a OR b) | _ \<Rightarrow> False)
          then (case decode_raw [] raw of
                  Inl e \<Rightarrow> (Inl e, w)
                | Inr decoded \<Rightarrow>
                    if na then (Inr decoded, w)
                    else (case io_send io dl w ''+'' of
                            (Inl e, w) \<Rightarrow> (Inl e, w)
                          | (Inr _, w) \<Rightarrow> (Inr decoded, w)))
          else if na then (Inl ''Invalid GDB checksum'', w)
          else (case io_send io dl w ''-'' of
                  (Inl e, w) \<Rightarrow> (Inl ''Invalid GDB checksum'', w)
                | (Inr _, w) \<Rightarrow> readPacket_attempts n io na dl w)))))"

definition readPacket :: "'w gdb_io \<Rightarrow> bool \<Rightarrow> nat \<Rightarrow> 'w \<Rightarrow> string expected \<times> 'w" where
  "readPacket io na dl w = readPacket_attempts 3 io na dl w"

text \<open>The sending loop of \<^verbatim>\<open>sendPacket\<close>: whether the packet was accepted.\<close>

fun send_attempts :: "nat \<Rightarrow> 'w gdb_io \<Rightarrow> bool \<Rightarrow> nat \<Rightarrow> string \<Rightarrow> 'w \<Rightarrow> bool expected \<times> 'w" where
  "send_attempts 0 io na dl packet w = (Inr na, w)"
| "send_attempts (Suc n) io na dl packet w =
    (case io_send io dl w packet of
       (Inl e, w) \<Rightarrow> (Inl e, w)
     | (Inr _, w) \<Rightarrow>
         if na then (Inr na, w)
         else (case io_recv io dl w of
                 (Inl e, w) \<Rightarrow> (Inl e, w)
               | (Inr a, w) \<Rightarrow>
                   if a = CHR ''+'' then (Inr True, w)
                   else if a \<noteq> CHR ''-'' then (Inl ''Unexpected GDB acknowledgment'', w)
                   else send_attempts n io na dl packet w))"

definition is_error_reply :: "string \<Rightarrow> bool" where
  "is_error_reply r \<longleftrightarrow>
     (length r = 3 \<and> r ! 0 = CHR ''E'' \<and> is_hex (r ! 1) \<and> is_hex (r ! 2)) \<or> take 2 r = ''E.''"

definition is_console_reply :: "string \<Rightarrow> bool" where
  "is_console_reply r \<longleftrightarrow> length r > 1 \<and> hd r = CHR ''O'' \<and> (length r - 1) mod 2 = 0 \<and> list_all is_hex (tl r)"

text \<open>The reply loop of \<^verbatim>\<open>sendPacket\<close>. The boolean tells a failure that closes the connection from a reported error.\<close>

fun reply_loop :: "nat \<Rightarrow> 'w gdb_io \<Rightarrow> bool \<Rightarrow> nat \<Rightarrow> 'w \<Rightarrow> ((bool \<times> string) + string) \<times> 'w" where
  "reply_loop 0 io na dl w = (Inl (True, ''Too many GDB console packets''), w)"
| "reply_loop (Suc n) io na dl w =
    (case readPacket io na dl w of
       (Inl e, w) \<Rightarrow> (Inl (True, e), w)
     | (Inr r, w) \<Rightarrow>
         if is_error_reply r then (Inl (False, ''GDB error response: '' @ r), w)
         else if is_console_reply r then reply_loop n io na dl w
         else (Inr r, w))"

definition sendPacket :: "'w gdb_io \<Rightarrow> string \<Rightarrow> 'w GdbRemoteClient \<Rightarrow> string expected \<times> 'w GdbRemoteClient" where
  "sendPacket io payload c =
    (if \<not> connected c then (Inl ''GDB transport is not connected'', c)
     else if io_stop io (link c) then (Inl ''GDB operation canceled'', closeClient c)
     else case escape_into (packetSize c) [] payload of
       Inl e \<Rightarrow> (Inl e, c)
     | Inr raw \<Rightarrow>
         (let dl = io_now io (link c) + timeout c; c = c\<lparr>deadline := dl\<rparr> in
          case send_attempts 3 io (noAck c) dl (wire_packet raw) (link c) of
            (Inl e, w) \<Rightarrow> (Inl e, closeClient (c\<lparr>link := w\<rparr>))
          | (Inr False, w) \<Rightarrow> (Inl ''Repeated GDB request rejection'', closeClient (c\<lparr>link := w\<rparr>))
          | (Inr True, w) \<Rightarrow>
              (case reply_loop 64 io (noAck c) dl w of
                 (Inl (True, e), w) \<Rightarrow> (Inl e, closeClient (c\<lparr>link := w\<rparr>))
               | (Inl (False, e), w) \<Rightarrow> (Inl e, c\<lparr>link := w\<rparr>)
               | (Inr r, w) \<Rightarrow> (Inr r, c\<lparr>link := w\<rparr>))))"

section \<open>Negotiation and object transfers\<close>

definition supports :: "'w GdbRemoteClient \<Rightarrow> string \<Rightarrow> bool" where
  "supports c feature \<longleftrightarrow> feature @ ''+'' \<in> set (features c)"

text \<open>The entries between semicolons; the loop of the source skips the empty ones.\<close>

fun feature_entries :: "string \<Rightarrow> string list" where
  "feature_entries [] = [[]]"
| "feature_entries (c # cs) =
    (if c = CHR '';'' then [] # feature_entries cs
     else case feature_entries cs of [] \<Rightarrow> [[c]] | e # es \<Rightarrow> (c # e) # es)"

definition feature_name :: "string \<Rightarrow> string" where
  "feature_name entry =
    (if CHR ''='' \<in> set entry then takeWhile (\<lambda>x. x \<noteq> CHR ''='') entry
     else if last entry = CHR ''+'' \<or> last entry = CHR ''-'' \<or> last entry = CHR ''?'' then butlast entry
     else entry)"

text \<open>The feature loop: the names seen, the packet size and the features so far.\<close>

fun feature_loop :: "string list \<Rightarrow> string list \<Rightarrow> nat \<Rightarrow> string list \<Rightarrow> (nat \<times> string list) expected" where
  "feature_loop [] names sz fs = Inr (sz, fs)"
| "feature_loop (entry # rest) names sz fs =
    (if entry = [] then feature_loop rest names sz fs
     else let name = feature_name entry in
       if name = [] \<or> name \<in> set names then Inl ''Conflicting GDB features''
       else if take 11 entry = ''PacketSize='' then
         (case number 16 (drop 11 entry) of
            None \<Rightarrow> Inl ''Invalid GDB PacketSize''
          | Some n \<Rightarrow>
              if n < 64 then Inl ''Invalid GDB PacketSize''
              else feature_loop rest (name # names) (min n maxWire) (fs @ [entry]))
       else feature_loop rest (name # names) sz (fs @ [entry]))"

definition negotiate :: "'w gdb_io \<Rightarrow> 'w GdbRemoteClient \<Rightarrow> unit expected \<times> 'w GdbRemoteClient" where
  "negotiate io c =
    (case sendPacket io ''qSupported:qXfer:features:read+'' c of
       (Inl e, c) \<Rightarrow> (Inl e, c)
     | (Inr response, c) \<Rightarrow>
         (case feature_loop (feature_entries response) [] (packetSize c) [] of
            Inl e \<Rightarrow> (Inl e, closeClient c)
          | Inr (sz, fs) \<Rightarrow>
              (let c = c\<lparr>packetSize := sz, features := fs\<rparr> in
               if supports c ''QStartNoAckMode'' then
                 (case sendPacket io ''QStartNoAckMode'' c of
                    (Inl e, c) \<Rightarrow> (Inl e, c)
                  | (Inr mode, c) \<Rightarrow>
                      if mode = ''OK'' then (Inr (), c\<lparr>noAck := True\<rparr>)
                      else if mode \<noteq> [] then (Inl ''Invalid no-ack negotiation response'', closeClient c)
                      else (Inr (), c))
               else (Inr (), c))))"

text \<open>
  The transfer loop of \<^verbatim>\<open>readObject\<close>. Every chunk that does not end the transfer adds a byte, so the
  loop ends at the size limit.
\<close>

function object_loop :: "'w gdb_io \<Rightarrow> string \<Rightarrow> string \<Rightarrow> nat \<Rightarrow> nat \<Rightarrow> string \<Rightarrow> 'w GdbRemoteClient
    \<Rightarrow> string expected \<times> 'w GdbRemoteClient" where
  "object_loop io object annex chunk endTime data c =
    (if io_now io (link c) \<ge> endTime then (Inl ''GDB object transfer timed out'', c)
     else case sendPacket io (''qXfer:'' @ object @ '':read:'' @ annex @ '':'' @ hexNumber (length data) @ '','' @ hexNumber chunk) c of
       (Inl e, c') \<Rightarrow> (Inl e, c')
     | (Inr response, c') \<Rightarrow>
         if response = [] \<or> (hd response \<noteq> CHR ''m'' \<and> hd response \<noteq> CHR ''l'') \<or> length response - 1 > chunk \<or>
            (length response = 1 \<and> hd response = CHR ''m'')
         then (Inl ''Invalid GDB object chunk'', c')
         else if length response - 1 > maxObject - length data then (Inl ''GDB object exceeds size limit'', c')
         else if hd response = CHR ''l'' then (Inr (data @ tl response), c')
         else object_loop io object annex chunk endTime (data @ tl response) c')"
  by pat_completeness auto
termination
  by (relation "measure (\<lambda>(io, object, annex, chunk, endTime, data, c). maxObject - length data)")
     (auto simp: neq_Nil_conv)

declare object_loop.simps [simp del]

definition readObject :: "'w gdb_io \<Rightarrow> string \<Rightarrow> string \<Rightarrow> 'w GdbRemoteClient \<Rightarrow> string expected \<times> 'w GdbRemoteClient" where
  "readObject io object annex c =
    (if \<not> token False object \<or> \<not> token True annex then (Inl ''Invalid GDB object or annex'', c)
     else if \<not> supports c (''qXfer:'' @ object @ '':read'') then (Inl ''GDB stub does not advertise this object'', c)
     else object_loop io object annex (min 4096 ((packetSize c - 1) div 2)) (io_now io (link c) + timeout c * 10) [] c)"

section \<open>Registers\<close>

definition reg_width :: "GdbRegisterDescription \<Rightarrow> nat" where
  "reg_width f = 2 * ((rd_bits f + 7) div 8)"

record RegisterBank =
  bank_data :: string
  bank_offset :: nat
  bank_width :: nat

text \<open>The first loop of \<^verbatim>\<open>readRegisterBank\<close>: the bytes before the register, its width, and the size of the bank.\<close>

fun bank_layout :: "GdbRegisterDescription list \<Rightarrow> GdbRegisterDescription \<Rightarrow> nat \<Rightarrow> (nat \<times> nat) option
    \<Rightarrow> ((nat \<times> nat) option \<times> nat) expected" where
  "bank_layout [] reg tot found = Inr (found, tot)"
| "bank_layout (f # fs) reg tot found =
    (let width = reg_width f in
     if width > maxDecoded - tot then Inl ''GDB register bank exceeds size limit''
     else if rd_number f = rd_number reg then
       (if rd_name f \<noteq> rd_name reg \<or> rd_bits f \<noteq> rd_bits reg then Inl ''Register does not match target XML''
        else bank_layout fs reg (tot + width) (Some (tot, width)))
     else bank_layout fs reg (tot + width) found)"

text \<open>The second loop: the first register boundary at or past the end of the response.\<close>

fun bank_boundary :: "GdbRegisterDescription list \<Rightarrow> nat \<Rightarrow> nat \<Rightarrow> nat" where
  "bank_boundary [] sz boundary = boundary"
| "bank_boundary (f # fs) sz boundary =
    (if boundary = sz then boundary else bank_boundary fs sz (boundary + reg_width f))"

fun bank_pairs_ok :: "string \<Rightarrow> bool" where
  "bank_pairs_ok (x # y # r) \<longleftrightarrow> ((is_hex x \<and> is_hex y) \<or> (x = CHR ''x'' \<and> y = CHR ''x'')) \<and> bank_pairs_ok r"
| "bank_pairs_ok _ \<longleftrightarrow> True"

definition readRegisters :: "'w gdb_io \<Rightarrow> 'w GdbRemoteClient \<Rightarrow> string expected \<times> 'w GdbRemoteClient" where
  "readRegisters io c = sendPacket io ''g'' c"

definition readRegisterBank :: "'w gdb_io \<Rightarrow> GdbRegisterDescription \<Rightarrow> 'w GdbRemoteClient
    \<Rightarrow> RegisterBank expected \<times> 'w GdbRemoteClient" where
  "readRegisterBank io reg c =
    (if registerLayout c = [] then (Inl ''Whole-register access requires a target XML layout'', c)
     else let layout = registerLayout c in
     case bank_layout layout reg 0 None of
       Inl e \<Rightarrow> (Inl e, c)
     | Inr (None, tot) \<Rightarrow> (Inl ''Register absent from GDB target XML'', c)
     | Inr (Some (off, width), tot) \<Rightarrow>
         (case readRegisters io c of
            (Inl e, c) \<Rightarrow> (Inl e, c)
          | (Inr response, c) \<Rightarrow>
              if length response > tot \<or> length response mod 2 \<noteq> 0
              then (Inl ''GDB register bank size does not match target XML'', c)
              else if bank_boundary layout (length response) 0 \<noteq> length response
              then (Inl ''GDB register bank ends inside a register'', c)
              else if \<not> bank_pairs_ok response then (Inl ''Invalid GDB register bank data'', c)
              else if off > length response \<or> width > length response - off
              then (Inl ''Register unavailable in the GDB register bank'', c)
              else (Inr \<lparr> bank_data = response, bank_offset = off, bank_width = width \<rparr>, c)))"

text \<open>\<^verbatim>\<open>readRegister\<close> after the individual packet: through the whole bank.\<close>

definition readRegister_bank :: "'w gdb_io \<Rightarrow> GdbRegisterDescription \<Rightarrow> 'w GdbRemoteClient
    \<Rightarrow> byte list expected \<times> 'w GdbRemoteClient" where
  "readRegister_bank io reg c =
    (case readRegisterBank io reg c of
       (Inl e, c) \<Rightarrow> (Inl e, c)
     | (Inr bank, c) \<Rightarrow> (decodeHex (take (bank_width bank) (drop (bank_offset bank) (bank_data bank))), c))"

definition readRegister :: "'w gdb_io \<Rightarrow> GdbRegisterDescription \<Rightarrow> 'w GdbRemoteClient
    \<Rightarrow> byte list expected \<times> 'w GdbRemoteClient" where
  "readRegister io reg c =
    (if rd_bits reg = 0 \<or> rd_bits reg > 524288 then (Inl ''Invalid GDB register width'', c)
     else if individualReads c then
       (case sendPacket io (''p'' @ hexNumber (rd_number reg)) c of
          (Inl e, c) \<Rightarrow> (Inl e, c)
        | (Inr response, c) \<Rightarrow>
            if response \<noteq> [] then
              (case decodeHex response of
                 Inl e \<Rightarrow> (Inl e, c)
               | Inr bytes \<Rightarrow>
                   if length bytes \<noteq> (rd_bits reg + 7) div 8
                   then (Inl ''GDB register size does not match target XML'', c) else (Inr bytes, c))
            else readRegister_bank io reg (c\<lparr>individualReads := False\<rparr>))
     else readRegister_bank io reg c)"

text \<open>\<^verbatim>\<open>writeRegister\<close> after the individual packet: the bank is read, edited and written back whole.\<close>

definition writeRegister_bank :: "'w gdb_io \<Rightarrow> GdbRegisterDescription \<Rightarrow> byte list \<Rightarrow> 'w GdbRemoteClient
    \<Rightarrow> unit expected \<times> 'w GdbRemoteClient" where
  "writeRegister_bank io reg bytes c =
    (case readRegisterBank io reg c of
       (Inl e, c) \<Rightarrow> (Inl e, c)
     | (Inr bank, c) \<Rightarrow>
         if length (bank_data bank) + 1 > packetSize c
         then (Inl ''Whole-register write exceeds negotiated GDB packet size'', c)
         else let data = take (bank_offset bank) (bank_data bank) @ hexBytes bytes @
                         drop (bank_offset bank + bank_width bank) (bank_data bank) in
           if \<not> list_all is_hex data then (Inl ''Whole-register write cannot preserve unavailable registers'', c)
           else case sendPacket io (''G'' @ data) c of
             (Inl e, c) \<Rightarrow> (Inl e, c)
           | (Inr response, c) \<Rightarrow>
               if response \<noteq> ''OK'' then (Inl ''GDB whole-register write was not confirmed'', c) else (Inr (), c))"

definition writeRegister :: "'w gdb_io \<Rightarrow> GdbRegisterDescription \<Rightarrow> byte list \<Rightarrow> 'w GdbRemoteClient
    \<Rightarrow> unit expected \<times> 'w GdbRemoteClient" where
  "writeRegister io reg bytes c =
    (if rd_bits reg = 0 \<or> rd_bits reg > 524288 \<or> length bytes \<noteq> (rd_bits reg + 7) div 8
     then (Inl ''GDB register write size mismatch'', c)
     else if individualWrites c then
       (case sendPacket io (''P'' @ hexNumber (rd_number reg) @ ''='' @ hexBytes bytes) c of
          (Inl e, c) \<Rightarrow> (Inl e, c)
        | (Inr response, c) \<Rightarrow>
            if response = ''OK'' then (Inr (), c)
            else if response \<noteq> [] then (Inl ''GDB register write was not confirmed'', c)
            else writeRegister_bank io reg bytes (c\<lparr>individualWrites := False\<rparr>))
     else writeRegister_bank io reg bytes c)"

section \<open>Memory\<close>

text \<open>
  The loops of \<^verbatim>\<open>readMemory\<close> and \<^verbatim>\<open>writeMemory\<close>. A count of 0 would stop the loops from advancing; the
  packet size is never below 64 (\<open>client_ok\<close> below), so the guard on it is not taken.
\<close>

definition read_request :: "u64 \<Rightarrow> nat \<Rightarrow> string" where
  "read_request a n = ''m'' @ hexNumber (unat a) @ '','' @ hexNumber n"

definition write_request :: "u64 \<Rightarrow> byte list \<Rightarrow> string" where
  "write_request a bs = ''M'' @ hexNumber (unat a) @ '','' @ hexNumber (length bs) @ '':'' @ hexBytes bs"

function gdb_read_loop :: "'w gdb_io \<Rightarrow> u64 \<Rightarrow> nat \<Rightarrow> byte list \<Rightarrow> 'w GdbRemoteClient \<Rightarrow> byte list expected \<times> 'w GdbRemoteClient" where
  "gdb_read_loop io a sz bytes c =
    (if length bytes < sz then
       (let count = min (sz - length bytes) (packetSize c div 2) in
        case sendPacket io (read_request (a + of_nat (length bytes)) count) c of
          (Inl e, c') \<Rightarrow> (if bytes = [] then Inl e else Inr bytes, c')
        | (Inr response, c') \<Rightarrow>
            (case decodeHex response of
               Inl e \<Rightarrow> (Inl e, c')
             | Inr block \<Rightarrow>
                 if length block > count then (Inl ''GDB memory reply exceeds requested size'', c')
                 else if length block < count \<or> count = 0 then (Inr (bytes @ block), c')
                 else gdb_read_loop io a sz (bytes @ block) c'))
     else (Inr bytes, c))"
  by pat_completeness auto
termination by (relation "measure (\<lambda>(io, a, sz, bytes, c). sz - length bytes)") auto

definition readMemory :: "'w gdb_io \<Rightarrow> u64 \<Rightarrow> nat \<Rightarrow> 'w GdbRemoteClient \<Rightarrow> byte list expected \<times> 'w GdbRemoteClient" where
  "readMemory io a sz c =
    (if sz > maxDecoded \<or> (sz \<noteq> 0 \<and> span_overflows a sz) then (Inl ''GDB memory read size or address overflow'', c)
     else gdb_read_loop io a sz [] c)"

function gdb_write_loop :: "'w gdb_io \<Rightarrow> u64 \<Rightarrow> byte list \<Rightarrow> nat \<Rightarrow> 'w GdbRemoteClient \<Rightarrow> nat expected \<times> 'w GdbRemoteClient" where
  "gdb_write_loop io a bytes k c =
    (if k < length bytes then
       (let count = min (length bytes - k) ((packetSize c - 40) div 2) in
        case sendPacket io (write_request (a + of_nat k) (take count (drop k bytes))) c of
          (Inl e, c') \<Rightarrow> (if k \<noteq> 0 then Inr k else Inl e, c')
        | (Inr response, c') \<Rightarrow>
            if response \<noteq> ''OK'' then (if k \<noteq> 0 then Inr k else Inl ''GDB memory write was not confirmed'', c')
            else if count = 0 then (Inr k, c')
            else gdb_write_loop io a bytes (k + count) c')
     else (Inr k, c))"
  by pat_completeness auto
termination by (relation "measure (\<lambda>(io, a, bytes, k, c). length bytes - k)") auto

declare gdb_read_loop.simps [simp del] gdb_write_loop.simps [simp del]

definition writeMemory :: "'w gdb_io \<Rightarrow> u64 \<Rightarrow> byte list \<Rightarrow> 'w GdbRemoteClient \<Rightarrow> nat expected \<times> 'w GdbRemoteClient" where
  "writeMemory io a bytes c =
    (if length bytes > maxDecoded \<or> (bytes \<noteq> [] \<and> span_overflows a (length bytes))
     then (Inl ''GDB memory write size or address overflow'', c)
     else gdb_write_loop io a bytes 0 c)"

section \<open>Hexadecimal text\<close>

lemma hexValue_digit_value: "hexValue = digit_value"
  by (simp add: fun_eq_iff hexValue_def digit_value_def)

lemma hexValue_digit_char [simp]: "d < 16 \<Longrightarrow> hexValue (digit_char d) = Some d"
  by (simp add: hexValue_digit_value)

lemma is_hex_digit_char [simp]: "d < 16 \<Longrightarrow> is_hex (digit_char d)"
  by (simp add: is_hex_def)

lemma nibbles_or: "b < 16 \<Longrightarrow> push_bit 4 a OR b = 16 * a + (b :: nat)"
proof -
  assume "b < 16"
  then have "take_bit 4 b = b" by (simp add: take_bit_nat_eq_self)
  then have "n < 4" if "bit b n" for n using that by (metis bit_take_bit_iff)
  then have "push_bit 4 a AND b = 0" by (intro bit_eqI) (fastforce simp: bit_simps)
  then have "push_bit 4 a OR b = push_bit 4 a + b" by (simp add: disjunctive_add_eq_or)
  then show ?thesis by (simp add: push_bit_eq_mult)
qed

lemma unat_nibbles: "unat (drop_bit 4 b) = unat b div 16" "unat (b AND 15) = unat b mod 16" for b :: byte
proof -
  show "unat (drop_bit 4 b) = unat b div 16" by (simp add: unat_drop_bit_eq drop_bit_eq_div [of 4 "unat b"])
  have "unat (b AND 15) = unat b AND 15" by (simp add: unsigned_and_eq)
  also have "\<dots> = take_bit 4 (unat b)" by (simp add: take_bit_eq_mask mask_eq_exp_minus_1)
  finally show "unat (b AND 15) = unat b mod 16" by (simp add: take_bit_eq_mod)
qed

lemma nibble_bounds [simp]: "unat (drop_bit 4 (b :: byte)) < 16" "unat (b AND 15) < 16"
  using unat_byte_less [of b] by (simp_all add: unat_nibbles less_mult_imp_div_less)

lemma hexBytes_simps [simp]:
  "hexBytes [] = []"
  "hexBytes (b # bs) = digit_char (unat (drop_bit 4 b)) # digit_char (unat (b AND 15)) # hexBytes bs"
  by (simp_all add: hexBytes_def)

lemma length_hexBytes [simp]: "length (hexBytes bs) = 2 * length bs"
  by (induction bs) auto

lemma hexBytes_append: "hexBytes (xs @ ys) = hexBytes xs @ hexBytes ys"
  by (simp add: hexBytes_def)

lemma hexBytes_hex: "list_all is_hex (hexBytes bs)"
  by (induction bs) auto

lemma decodePairs_hexBytes: "decodePairs (hexBytes bs) = Inr bs"
proof (induction bs)
  case (Cons b bs)
  have "push_bit 4 (unat (drop_bit 4 b)) OR unat (b AND 15) = unat b"
    by (simp add: nibbles_or unat_nibbles)
  with Cons show ?case by simp
qed simp

lemma decodeHex_hexBytes [simp]: "decodeHex (hexBytes bs) = Inr bs"
  by (simp add: decodeHex_def decodePairs_hexBytes)

lemma decodePairs_length: "decodePairs s = Inr bs \<Longrightarrow> length bs = length s div 2"
  by (induction s arbitrary: bs rule: decodePairs.induct) (auto split: option.splits sum.splits)

lemma decodeHex_length: "decodeHex s = Inr bs \<Longrightarrow> length s = 2 * length bs"
  using decodePairs_length [of s bs] by (auto simp: decodeHex_def split: if_splits)

lemma decodePairs_hex: "decodePairs s = Inr bs \<Longrightarrow> even (length s) \<Longrightarrow> list_all is_hex s"
  by (induction s arbitrary: bs rule: decodePairs.induct) (auto simp: is_hex_def split: option.splits sum.splits)

lemma hexNumber_digits: "list_all is_hex (hexNumber n)"
  using show_base_digits [of 16 n]
  by (auto simp: hexNumber_def list_all_iff is_hex_def hexValue_digit_value is_digit_of_def split: option.splits)

lemma run_value_hexNumber [simp]: "run_value 16 (hexNumber n) = n"
  by (simp add: hexNumber_def run_value_show_base)

section \<open>Wire encodings\<close>

lemma flip20_flip20 [simp]: "flip20 (flip20 c) = c"
proof -
  have "take_bit 8 (take_bit 8 (of_char c XOR 32) XOR 32 :: nat) = take_bit 8 (of_char c)"
    by (simp add: take_bit_xor xor.assoc)
  then have "char_of (take_bit 8 (of_char c XOR 32) XOR 32 :: nat) = c"
    by (metis char_of_take_bit_eq order_refl char_of_char)
  then show ?thesis by (simp add: flip20_def char_code_def take_bit_eq_mod)
qed

lemma flip20_escaped: "must_escape c \<Longrightarrow> flip20 c \<noteq> CHR ''#''"
  unfolding must_escape_def by (elim disjE) (simp_all, code_simp+)

definition escape_text :: "string \<Rightarrow> string" where
  "escape_text p = concat (map (\<lambda>c. if must_escape c then [CHR ''}'', flip20 c] else [c]) p)"

lemma escape_simps [simp]:
  "escape_text [] = []"
  "escape_text (c # p) = (if must_escape c then [CHR ''}'', flip20 c] else [c]) @ escape_text p"
  by (simp_all add: escape_text_def)

lemma escape_into_eq:
  "length raw \<le> limit \<Longrightarrow> escape_into limit raw p =
     (if length (raw @ escape_text p) \<le> limit then Inr (raw @ escape_text p) else Inl ''Request exceeds negotiated GDB packet size'')"
  by (induction p arbitrary: raw) (auto simp: Let_def)

lemma escape_clean: "CHR ''#'' \<notin> set (escape_text p)"
proof (induction p)
  case (Cons c p)
  then show ?case using flip20_escaped [of c] by (cases "must_escape c") (auto simp: must_escape_def)
qed simp

text \<open>
  What a conforming peer may send for a text: each character as itself, escaped, or as a repetition of
  the character before it. The escape applies to any character; a repetition stands for three to
  ninety-seven further copies, and its count never looks like the frame.
\<close>

datatype wire_item = Plain char | Escaped char | Run nat

fun item_text :: "wire_item \<Rightarrow> string" where
  "item_text (Plain c) = [c]"
| "item_text (Escaped c) = [CHR ''}'', flip20 c]"
| "item_text (Run n) = [CHR ''*'', char_of (n + 29)]"

fun item_ok :: "string \<Rightarrow> wire_item \<Rightarrow> bool" where
  "item_ok d (Plain c) \<longleftrightarrow> c \<noteq> CHR ''}'' \<and> c \<noteq> CHR ''*''"
| "item_ok d (Escaped c) \<longleftrightarrow> True"
| "item_ok d (Run n) \<longleftrightarrow> d \<noteq> [] \<and> 3 \<le> n \<and> n \<le> 97 \<and> n \<noteq> 6 \<and> n \<noteq> 7"

fun item_expand :: "string \<Rightarrow> wire_item \<Rightarrow> string" where
  "item_expand d (Plain c) = d @ [c]"
| "item_expand d (Escaped c) = d @ [c]"
| "item_expand d (Run n) = d @ replicate n (last d)"

fun items_ok :: "string \<Rightarrow> wire_item list \<Rightarrow> bool" where
  "items_ok d [] \<longleftrightarrow> length d \<le> maxDecoded"
| "items_ok d (i # is) \<longleftrightarrow> item_ok d i \<and> items_ok (item_expand d i) is"

lemma items_ok_length: "items_ok d is \<Longrightarrow> length d \<le> length (foldl item_expand d is) \<and> length (foldl item_expand d is) \<le> maxDecoded"
proof (induction "is" arbitrary: d)
  case (Cons i "is")
  have "length d \<le> length (item_expand d i)" by (cases i) auto
  with Cons show ?case by fastforce
qed simp

lemma run_char:
  assumes "3 \<le> n" "n \<le> 97" "n \<noteq> 6" "n \<noteq> 7"
  shows "char_code (char_of (n + 29)) = n + 29" "char_of (n + 29) \<noteq> CHR ''$''" "char_of (n + 29) \<noteq> CHR ''#''"
proof -
  show c: "char_code (char_of (n + 29)) = n + 29" using assms by (simp add: char_code_def)
  have "n + 29 \<noteq> char_code (CHR ''$'')" "n + 29 \<noteq> char_code (CHR ''#'')"
    using assms by (simp_all add: char_code_def)
  with c show "char_of (n + 29) \<noteq> CHR ''$''" "char_of (n + 29) \<noteq> CHR ''#''" by metis+
qed

lemma decode_raw_item:
  assumes "item_ok d i" "length (item_expand d i) \<le> maxDecoded"
  shows "decode_raw d (item_text i @ r) = decode_raw (item_expand d i) r"
proof (cases i)
  case (Run n)
  with assms obtain x xs where d: "d = x # xs" by (cases d) auto
  from Run assms have n: "3 \<le> n" "n \<le> 97" "n \<noteq> 6" "n \<noteq> 7" by auto
  have "\<not> n > maxDecoded - length d" using Run assms by simp
  then show ?thesis using Run assms d run_char [OF n] n by (simp add: Let_def)
qed (use assms in auto)

lemma decode_raw_items:
  "items_ok d is \<Longrightarrow> decode_raw d (concat (map item_text is)) = Inr (foldl item_expand d is)"
proof (induction "is" arbitrary: d)
  case (Cons i "is")
  then have "length (item_expand d i) \<le> maxDecoded" using items_ok_length [of "item_expand d i" "is"] by auto
  with Cons show ?case by (simp add: decode_raw_item)
qed simp

text \<open>The client's own escaping is one of these encodings.\<close>

definition own_items :: "string \<Rightarrow> wire_item list" where
  "own_items p = map (\<lambda>c. if must_escape c then Escaped c else Plain c) p"

lemma escape_own_items: "escape_text p = concat (map item_text (own_items p))"
  by (induction p) (auto simp: own_items_def)

lemma own_items_ok: "length (d @ p) \<le> maxDecoded \<Longrightarrow> items_ok d (own_items p) \<and> foldl item_expand d (own_items p) = d @ p"
proof (induction p arbitrary: d)
  case (Cons c p)
  from Cons.prems Cons.IH [of "d @ [c]"] show ?case by (auto simp: own_items_def must_escape_def)
qed (simp add: own_items_def)

lemma decode_escape: "length p \<le> maxDecoded \<Longrightarrow> decode_raw [] (escape_text p) = Inr p"
  using own_items_ok [of "[]" p] decode_raw_items [of "[]" "own_items p"] by (simp add: escape_own_items)

text \<open>Two characters that are no check sum of a body.\<close>

definition bad_check :: "string \<Rightarrow> char \<Rightarrow> char \<Rightarrow> bool" where
  "bad_check raw h l \<longleftrightarrow> \<not> (\<exists>a b. hexValue h = Some a \<and> hexValue l = Some b \<and> unat (checksum raw) = 16 * a + b)"

section \<open>A connected stream\<close>

text \<open>
  A transport that is connected and in time: \<open>inbox\<close> is what the peer has yet to deliver, \<open>outbox\<close> what
  the client has sent so far. Acknowledgments do not make the peer send anything. In a stream whose
  peer follows a fixed transcript, neither does a request.
\<close>

locale gdb_source =
  fixes io :: "'w gdb_io"
    and inbox outbox :: "'w \<Rightarrow> string"
  assumes recv: "inbox w = x # xs \<Longrightarrow> \<exists>w'. io_recv io dl w = (Inr x, w') \<and> inbox w' = xs \<and> outbox w' = outbox w"
    and ack: "s = ''+'' \<or> s = ''-'' \<Longrightarrow> \<exists>w'. io_send io dl w s = (Inr (), w') \<and> inbox w' = inbox w \<and> outbox w' = outbox w @ s"
begin

lemma skip_prefix_ok:
  "inbox w = replicate k (CHR ''+'') @ CHR ''$'' # r \<Longrightarrow> ignored + k \<le> 17 \<Longrightarrow>
   \<exists>w'. skip_prefix io dl ignored w = (Inr (), w') \<and> inbox w' = r \<and> outbox w' = outbox w"
proof (induction k arbitrary: w ignored)
  case 0
  with recv [of w "CHR ''$''" r dl] show ?case by (auto simp: skip_prefix.simps [of io dl ignored w])
next
  case (Suc k)
  from Suc.prems recv [of w "CHR ''+''" "replicate k (CHR ''+'') @ CHR ''$'' # r" dl]
  obtain w' where w': "io_recv io dl w = (Inr (CHR ''+''), w')" "inbox w' = replicate k (CHR ''+'') @ CHR ''$'' # r"
    "outbox w' = outbox w" by auto
  from Suc.IH [OF w'(2), of "Suc ignored"] Suc.prems w' show ?case
    by (auto simp: skip_prefix.simps [of io dl ignored w])
qed

lemma read_raw_ok:
  "inbox w = s @ CHR ''#'' # r \<Longrightarrow> CHR ''#'' \<notin> set s \<Longrightarrow> length raw + length s \<le> maxWire \<Longrightarrow>
   \<exists>w'. read_raw io dl raw sm w = (Inr (raw @ s, foldl (\<lambda>s c. s + of_char c) sm s), w') \<and>
        inbox w' = r \<and> outbox w' = outbox w"
proof (induction s arbitrary: w raw sm)
  case Nil
  with recv [of w "CHR ''#''" r dl] show ?case by (auto simp: read_raw.simps [of io dl raw sm w])
next
  case (Cons c s)
  from Cons.prems recv [of w c "s @ CHR ''#'' # r" dl]
  obtain w' where w': "io_recv io dl w = (Inr c, w')" "inbox w' = s @ CHR ''#'' # r" "outbox w' = outbox w" by auto
  from Cons.IH [OF w'(2), of "raw @ [c]" "sm + of_char c"] Cons.prems w' show ?case
    by (auto simp: read_raw.simps [of io dl raw sm w])
qed

text \<open>A frame up to its check sum: stray acknowledgments, the body and two further characters.\<close>

lemma frame_read:
  assumes "inbox w = replicate k (CHR ''+'') @ CHR ''$'' # raw @ CHR ''#'' # h # l # r"
    "k \<le> 17" "CHR ''#'' \<notin> set raw" "length raw \<le> maxWire"
  obtains w1 w2 w3 w4 where "skip_prefix io dl 0 w = (Inr (), w1)" "read_raw io dl [] 0 w1 = (Inr (raw, checksum raw), w2)"
    "io_recv io dl w2 = (Inr h, w3)" "io_recv io dl w3 = (Inr l, w4)" "inbox w4 = r" "outbox w4 = outbox w"
proof -
  obtain w1 where w1: "skip_prefix io dl 0 w = (Inr (), w1)" "inbox w1 = raw @ CHR ''#'' # h # l # r" "outbox w1 = outbox w"
    using skip_prefix_ok [OF assms(1), of 0 dl] assms(2) by auto
  obtain w2 where w2: "read_raw io dl [] 0 w1 = (Inr (raw, checksum raw), w2)" "inbox w2 = h # l # r" "outbox w2 = outbox w"
    using read_raw_ok [OF w1(2) assms(3), of "[]" dl 0] assms(4) w1(3) by (auto simp: checksum_def)
  obtain w3 where w3: "io_recv io dl w2 = (Inr h, w3)" "inbox w3 = l # r" "outbox w3 = outbox w"
    using recv [OF w2(2), of dl] w2(3) by auto
  obtain w4 where w4: "io_recv io dl w3 = (Inr l, w4)" "inbox w4 = r" "outbox w4 = outbox w"
    using recv [OF w3(2), of dl] w3(3) by auto
  show ?thesis using that w1(1) w2(1) w3(1) w4 by blast
qed

lemma readPacket_attempts_good:
  assumes "inbox w = replicate k (CHR ''+'') @ wire_packet raw @ r"
    "k \<le> 17" "CHR ''#'' \<notin> set raw" "length raw \<le> maxWire" "decode_raw [] raw = Inr p"
  shows "\<exists>w'. readPacket_attempts (Suc n) io na dl w = (Inr p, w') \<and> inbox w' = r \<and>
              outbox w' = outbox w @ (if na then [] else ''+'')"
proof -
  let ?h = "digit_char (unat (checksum raw) div 16)" and ?l = "digit_char (unat (checksum raw) mod 16)"
  have "inbox w = replicate k (CHR ''+'') @ CHR ''$'' # raw @ CHR ''#'' # ?h # ?l # r"
    using assms(1) by (simp add: wire_packet_def hex2_def)
  then obtain w1 w2 w3 w4 where f: "skip_prefix io dl 0 w = (Inr (), w1)" "read_raw io dl [] 0 w1 = (Inr (raw, checksum raw), w2)"
    "io_recv io dl w2 = (Inr ?h, w3)" "io_recv io dl w3 = (Inr ?l, w4)" "inbox w4 = r" "outbox w4 = outbox w"
    using assms(2-4) by (rule frame_read)
  have d: "unat (checksum raw) div 16 < 16" using unat_byte_less [of "checksum raw"] by (simp add: less_mult_imp_div_less)
  obtain w5 where w5: "io_send io dl w4 ''+'' = (Inr (), w5)" "inbox w5 = r" "outbox w5 = outbox w @ ''+''"
    using ack [of "''+''" dl w4] f(5,6) by auto
  show ?thesis using f d w5 assms(5) by (cases na) (simp_all add: nibbles_or)
qed

lemma readPacket_attempts_bad:
  assumes "inbox w = CHR ''$'' # raw @ CHR ''#'' # h # l # r"
    "CHR ''#'' \<notin> set raw" "length raw \<le> maxWire" "bad_check raw h l"
  shows "\<exists>w'. readPacket_attempts (Suc n) io False dl w = readPacket_attempts n io False dl w' \<and> inbox w' = r \<and>
              outbox w' = outbox w @ ''-''"
proof -
  have "inbox w = replicate 0 (CHR ''+'') @ CHR ''$'' # raw @ CHR ''#'' # h # l # r" using assms(1) by simp
  then obtain w1 w2 w3 w4 where f: "skip_prefix io dl 0 w = (Inr (), w1)" "read_raw io dl [] 0 w1 = (Inr (raw, checksum raw), w2)"
    "io_recv io dl w2 = (Inr h, w3)" "io_recv io dl w3 = (Inr l, w4)" "inbox w4 = r" "outbox w4 = outbox w"
    by (rule frame_read) (use assms in auto)
  obtain w5 where w5: "io_send io dl w4 ''-'' = (Inr (), w5)" "inbox w5 = r" "outbox w5 = outbox w @ ''-''"
    using ack [of "''-''" dl w4] f(5,6) by auto
  have "\<not> (case (hexValue h, hexValue l) of (Some a, Some b) \<Rightarrow> unat (checksum raw) = (push_bit 4 a OR b) | _ \<Rightarrow> False)"
    using assms(4) digit_value_less [of l]
    by (auto simp: bad_check_def hexValue_digit_value nibbles_or split: option.splits)
  with f w5 show ?thesis by (intro exI [of _ w5]) simp
qed

lemma readPacket_attempts_retry:
  assumes "inbox w = concat (map (\<lambda>(raw, h, l). CHR ''$'' # raw @ [CHR ''#'', h, l]) bads) @ replicate k (CHR ''+'') @ wire_packet raw @ r"
    "list_all (\<lambda>(raw, h, l). CHR ''#'' \<notin> set raw \<and> length raw \<le> maxWire \<and> bad_check raw h l) bads"
    "k \<le> 17" "CHR ''#'' \<notin> set raw" "length raw \<le> maxWire" "decode_raw [] raw = Inr p"
  shows "\<exists>w'. readPacket_attempts (length bads + Suc n) io False dl w = (Inr p, w') \<and> inbox w' = r \<and>
              outbox w' = outbox w @ replicate (length bads) (CHR ''-'') @ ''+''"
  using assms(1,2)
proof (induction bads arbitrary: w)
  case Nil
  with readPacket_attempts_good [of w k raw r p n False dl] assms(3-6) show ?case by simp
next
  case (Cons b bads)
  obtain raw' h l where b: "b = (raw', h, l)" by (cases b) auto
  let ?rest = "concat (map (\<lambda>(raw, h, l). CHR ''$'' # raw @ [CHR ''#'', h, l]) bads) @ replicate k (CHR ''+'') @ wire_packet raw @ r"
  obtain w' where w': "readPacket_attempts (Suc (length bads + Suc n)) io False dl w
      = readPacket_attempts (length bads + Suc n) io False dl w'" "inbox w' = ?rest" "outbox w' = outbox w @ ''-''"
    using readPacket_attempts_bad [of w raw' h l ?rest "length bads + Suc n" dl] Cons.prems b by auto
  with Cons.IH [of w'] Cons.prems(2) show ?case by (auto simp del: readPacket_attempts.simps)
qed

lemma readPacket_own:
  assumes "inbox w = wire_packet (escape_text p) @ r" "length (escape_text p) \<le> maxWire" "length p \<le> maxDecoded"
  shows "\<exists>w'. readPacket io na dl w = (Inr p, w') \<and> inbox w' = r \<and> outbox w' = outbox w @ (if na then [] else ''+'')"
  using readPacket_attempts_good [of w 0 "escape_text p" r p 2 na dl] assms escape_clean [of p] decode_escape [of p]
  by (simp add: readPacket_def numeral_eq_Suc del: readPacket_attempts.simps)

lemma reply_loop_ok:
  assumes "inbox w = concat (map (\<lambda>t. wire_packet (escape_text t)) outs) @ wire_packet (escape_text p) @ r"
    "list_all (\<lambda>t. is_console_reply t \<and> \<not> is_error_reply t \<and> length (escape_text t) \<le> maxWire \<and> length t \<le> maxDecoded) outs"
    "\<not> is_console_reply p" "\<not> is_error_reply p" "length (escape_text p) \<le> maxWire" "length p \<le> maxDecoded"
  shows "\<exists>w'. reply_loop (length outs + Suc n) io na dl w = (Inr p, w') \<and> inbox w' = r \<and>
     outbox w' = outbox w @ (if na then [] else replicate (Suc (length outs)) (CHR ''+''))"
  using assms(1,2)
proof (induction outs arbitrary: w)
  case Nil
  with readPacket_own [of w p r na dl] assms(3-6) show ?case by auto
next
  case (Cons t outs)
  let ?rest = "concat (map (\<lambda>t. wire_packet (escape_text t)) outs) @ wire_packet (escape_text p) @ r"
  obtain w1 where w1: "readPacket io na dl w = (Inr t, w1)" "inbox w1 = ?rest"
    "outbox w1 = outbox w @ (if na then [] else ''+'')"
    using readPacket_own [of w t ?rest na dl] Cons.prems by auto
  from Cons.IH [OF w1(2)] Cons.prems(2) w1(1,3) show ?case by auto
qed

end

locale gdb_stream = gdb_source +
  assumes send: "\<exists>w'. io_send io dl w s = (Inr (), w') \<and> inbox w' = inbox w \<and> outbox w' = outbox w @ s"
begin

lemma send_attempts_noAck:
  "\<exists>w'. send_attempts (Suc n) io True dl packet w = (Inr True, w') \<and> inbox w' = inbox w \<and> outbox w' = outbox w @ packet"
  using send [of dl w packet] by auto

lemma send_attempts_ack:
  "inbox w = replicate j (CHR ''-'') @ CHR ''+'' # r \<Longrightarrow>
   \<exists>w'. send_attempts (j + Suc n) io False dl packet w = (Inr True, w') \<and> inbox w' = r \<and>
        outbox w' = outbox w @ concat (replicate (Suc j) packet)"
proof (induction j arbitrary: w)
  case 0
  obtain w1 where w1: "io_send io dl w packet = (Inr (), w1)" "inbox w1 = inbox w" "outbox w1 = outbox w @ packet"
    using send [of dl w packet] by auto
  with 0 recv [of w1 "CHR ''+''" r dl] show ?case by auto
next
  case (Suc j)
  obtain w1 where w1: "io_send io dl w packet = (Inr (), w1)" "inbox w1 = inbox w" "outbox w1 = outbox w @ packet"
    using send [of dl w packet] by auto
  with Suc.prems recv [of w1 "CHR ''-''" "replicate j (CHR ''-'') @ CHR ''+'' # r" dl]
  obtain w2 where w2: "io_recv io dl w1 = (Inr (CHR ''-''), w2)" "inbox w2 = replicate j (CHR ''-'') @ CHR ''+'' # r"
    "outbox w2 = outbox w @ packet" by auto
  from Suc.IH [OF w2(2)] w1(1) w2(1,3) show ?case by auto
qed

text \<open>One exchange: up to two rejected transmissions, up to 63 console packets, then the reply.\<close>

lemma sendPacket_exchange:
  assumes c: "connected c" "\<not> io_stop io (link c)" "length (escape_text payload) \<le> packetSize c"
    and inb: "inbox (link c) = (if noAck c then [] else replicate j (CHR ''-'') @ ''+'') @
       concat (map (\<lambda>t. wire_packet (escape_text t)) outs) @ wire_packet (escape_text p) @ r"
    and j: "j \<le> 2" "noAck c \<longrightarrow> j = 0" and outs: "length outs \<le> 63"
      "list_all (\<lambda>t. is_console_reply t \<and> \<not> is_error_reply t \<and> length (escape_text t) \<le> maxWire \<and> length t \<le> maxDecoded) outs"
    and p: "\<not> is_console_reply p" "\<not> is_error_reply p" "length (escape_text p) \<le> maxWire" "length p \<le> maxDecoded"
  shows "\<exists>w'. sendPacket io payload c = (Inr p, c\<lparr>deadline := io_now io (link c) + timeout c, link := w'\<rparr>) \<and> inbox w' = r \<and>
     outbox w' = outbox (link c) @ concat (replicate (Suc j) (wire_packet (escape_text payload))) @
       (if noAck c then [] else replicate (Suc (length outs)) (CHR ''+''))"
proof -
  let ?dl = "io_now io (link c) + timeout c" and ?pk = "wire_packet (escape_text payload)"
  let ?rest = "concat (map (\<lambda>t. wire_packet (escape_text t)) outs) @ wire_packet (escape_text p) @ r"
  obtain w1 where w1: "send_attempts 3 io (noAck c) ?dl ?pk (link c) = (Inr True, w1)" "inbox w1 = ?rest"
    "outbox w1 = outbox (link c) @ concat (replicate (Suc j) ?pk)"
  proof (cases "noAck c")
    case True
    then show ?thesis using that send_attempts_noAck [of 2 ?dl ?pk "link c"] inb j
      by (auto simp: numeral_eq_Suc simp del: send_attempts.simps)
  next
    case False
    obtain n where "3 = j + Suc n" using j(1) by (metis add_Suc_right le_add_diff_inverse numeral_2_eq_2 numeral_3_eq_3)
    with False show ?thesis using that send_attempts_ack [of "link c" j ?rest n ?dl ?pk] inb by auto
  qed
  obtain m where m: "64 = length outs + Suc m" using outs(1) by (intro that [of "63 - length outs"]) simp
  obtain w2 where w2: "reply_loop 64 io (noAck c) ?dl w1 = (Inr p, w2)" "inbox w2 = r"
     "outbox w2 = outbox w1 @ (if noAck c then [] else replicate (Suc (length outs)) (CHR ''+''))"
    using reply_loop_ok [OF w1(2) outs(2) p, of m "noAck c" ?dl] m by metis
  show ?thesis using c w1 w2 by (auto simp: sendPacket_def escape_into_eq Let_def)
qed

end

text \<open>A pair of byte queues is such a stream.\<close>

record byte_pipe =
  p_in :: string
  p_out :: string

definition pipe_io :: "byte_pipe gdb_io" where
  "pipe_io =
    \<lparr> io_send = (\<lambda>dl w s. (Inr (), w\<lparr>p_out := p_out w @ s\<rparr>)),
      io_recv = (\<lambda>dl w. case p_in w of [] \<Rightarrow> (Inl ''GDB peer disconnected'', w) | x # xs \<Rightarrow> (Inr x, w\<lparr>p_in := xs\<rparr>)),
      io_stop = (\<lambda>w. False), io_now = (\<lambda>w. 0) \<rparr>"

interpretation pipe: gdb_stream pipe_io p_in p_out
  by unfold_locales (auto simp: pipe_io_def)

section \<open>Properties of packets\<close>

text \<open>
  C17: \<^verbatim>\<open>readPacket\<close> decodes every legal encoding of a text (plain characters, escapes and run lengths in
  any mixture), after stray acknowledgments and after up to two frames with a wrong check sum. Each
  damaged frame is answered with one minus and the good one with one plus, and exactly the frames are
  consumed.
\<close>

theorem readPacket_decodes:
  assumes "gdb_source io inbox outbox"
    and "items_ok [] items" "raw = concat (map item_text items)" "CHR ''#'' \<notin> set raw" "length raw \<le> maxWire"
    and "length bads \<le> 2" "k \<le> 17"
    and "list_all (\<lambda>(raw, h, l). CHR ''#'' \<notin> set raw \<and> length raw \<le> maxWire \<and> bad_check raw h l) bads"
    and "inbox w = concat (map (\<lambda>(raw, h, l). CHR ''$'' # raw @ [CHR ''#'', h, l]) bads) @ replicate k (CHR ''+'') @ wire_packet raw @ rest"
  shows "\<exists>w'. readPacket io False dl w = (Inr (foldl item_expand [] items), w') \<and> inbox w' = rest \<and>
     outbox w' = outbox w @ replicate (length bads) (CHR ''-'') @ ''+''"
proof -
  have "3 = length bads + Suc (2 - length bads)" using assms(6) by simp
  moreover have "decode_raw [] raw = Inr (foldl item_expand [] items)" using assms(2,3) decode_raw_items by simp
  ultimately show ?thesis
    using gdb_source.readPacket_attempts_retry [OF assms(1,9,8,7,4,5), of "foldl item_expand [] items" "2 - length bads" dl]
    by (simp only: readPacket_def)
qed

definition sample_items :: "wire_item list" where
  "sample_items = [Plain (CHR ''0''), Run 3, Escaped (CHR ''#''), Plain (CHR ''a'')]"

theorem readPacket_decodes_witness:
  "\<exists>w'. readPacket pipe_io False 5 \<lparr> p_in = ''$x#00'' @ ''+'' @ wire_packet (concat (map item_text sample_items)) @ ''z'', p_out = [] \<rparr>
     = (Inr ''0000#a'', w') \<and> p_in w' = ''z'' \<and> p_out w' = ''-+''"
proof -
  have a: "items_ok [] sample_items" "foldl item_expand [] sample_items = ''0000#a''"
    by code_simp+
  have b: "CHR ''#'' \<notin> set (concat (map item_text sample_items))" "length (concat (map item_text sample_items)) \<le> maxWire"
    by code_simp+
  have c: "list_all (\<lambda>(raw, h, l). CHR ''#'' \<notin> set raw \<and> length raw \<le> maxWire \<and> bad_check raw h l) [(''x'', CHR ''0'', CHR ''0'')]"
    by (simp add: bad_check_def checksum_def hexValue_def char_code_def maxWire_def)
  show ?thesis
    using readPacket_decodes [OF pipe.gdb_source_axioms a(1) refl b, of "[(''x'', CHR ''0'', CHR ''0'')]" 1
        "\<lparr> p_in = ''$x#00'' @ ''+'' @ wire_packet (concat (map item_text sample_items)) @ ''z'', p_out = [] \<rparr>" "''z''" 5] c
    by (simp add: a(2))
qed

text \<open>
  C16: one request of \<^verbatim>\<open>sendPacket\<close> over a connected stream: when the peer rejects the packet at most twice,
  sends at most 63 console packets and then a reply that is neither console output nor an error, the
  reply is returned exactly as the peer meant it, the client sends the escaped and summed request once
  per attempt and one acknowledgment per packet received (none in no-ack mode), and nothing beyond the
  reply is consumed.
\<close>

theorem sendPacket_round_trip:
  assumes "gdb_stream io inbox outbox"
    and "connected c" "\<not> io_stop io (link c)" "length (escape_text payload) \<le> packetSize c"
    and "inbox (link c) = (if noAck c then [] else replicate j (CHR ''-'') @ ''+'') @
       concat (map (\<lambda>t. wire_packet (escape_text t)) outs) @ wire_packet (escape_text p) @ rest"
    and "j \<le> 2" "noAck c \<longrightarrow> j = 0" "length outs \<le> 63"
      "list_all (\<lambda>t. is_console_reply t \<and> \<not> is_error_reply t \<and> length (escape_text t) \<le> maxWire \<and> length t \<le> maxDecoded) outs"
    and "\<not> is_console_reply p" "\<not> is_error_reply p" "length (escape_text p) \<le> maxWire" "length p \<le> maxDecoded"
  shows "\<exists>w'. sendPacket io payload c = (Inr p, c\<lparr>deadline := io_now io (link c) + timeout c, link := w'\<rparr>) \<and>
     inbox w' = rest \<and>
     outbox w' = outbox (link c) @ concat (replicate (Suc j) (wire_packet (escape_text payload))) @
       (if noAck c then [] else replicate (Suc (length outs)) (CHR ''+''))"
  by (rule gdb_stream.sendPacket_exchange [OF assms])

definition sample_client :: "byte_pipe GdbRemoteClient" where
  "sample_client = (new_client \<lparr> p_in = ''-+'' @ wire_packet (escape_text ''O41'') @ wire_packet (escape_text ''a}b'') @ ''q'', p_out = [] \<rparr>)
     \<lparr>connected := True\<rparr>"

theorem sendPacket_round_trip_witness:
  "\<exists>w'. sendPacket pipe_io ''m10,2'' sample_client = (Inr ''a}b'', sample_client\<lparr>deadline := 2000, link := w'\<rparr>) \<and>
     p_in w' = ''q'' \<and> p_out w' = ''$m10,2#2c$m10,2#2c++''"
proof -
  have e: "escape_text ''m10,2'' = ''m10,2''" "wire_packet ''m10,2'' = ''$m10,2#2c''" by code_simp+
  have f: "is_console_reply ''O41''" "\<not> is_error_reply ''O41''" "\<not> is_console_reply ''a}b''" "\<not> is_error_reply ''a}b''"
    "length (escape_text ''O41'') = 3" "length (escape_text ''a}b'') = 4" by code_simp+
  have g: "connected sample_client" "\<not> io_stop pipe_io (link sample_client)" "packetSize sample_client = 1024"
    "\<not> noAck sample_client" "timeout sample_client = 2000" "io_now pipe_io (link sample_client) = 0"
    "p_out (link sample_client) = []"
    "p_in (link sample_client) = replicate 1 (CHR ''-'') @ ''+'' @ concat (map (\<lambda>t. wire_packet (escape_text t)) [''O41'']) @ wire_packet (escape_text ''a}b'') @ ''q''"
    by (simp_all add: sample_client_def new_client_def pipe_io_def)
  from sendPacket_round_trip [OF pipe.gdb_stream_axioms g(1,2), of "''m10,2''" 1 "[''O41'']" "''a}b''" "''q''"]
  show ?thesis using e f g(3-8) by (simp add: maxWire_def maxDecoded_def del: escape_simps)
qed

section \<open>The state of the client\<close>

text \<open>
  What every operation keeps: the packet size stays between 64 and the wire limit, so the transfer loops
  always advance, and a closed client is back in its initial configuration.
\<close>

definition client_ok :: "'w GdbRemoteClient \<Rightarrow> bool" where
  "client_ok c \<longleftrightarrow> 64 \<le> packetSize c \<and> packetSize c \<le> maxWire \<and>
     (connected c \<or> (\<not> noAck c \<and> packetSize c = 1024 \<and> features c = [] \<and> registerLayout c = [] \<and>
       individualReads c \<and> individualWrites c))"

text \<open>The ways a request can leave the client.\<close>

definition kept :: "'w GdbRemoteClient \<Rightarrow> 'w GdbRemoteClient \<Rightarrow> bool" where
  "kept c c' \<longleftrightarrow> c' = c\<lparr>deadline := deadline c', link := link c'\<rparr>"

definition dropped :: "'w GdbRemoteClient \<Rightarrow> 'w GdbRemoteClient \<Rightarrow> bool" where
  "dropped c c' \<longleftrightarrow> c' = closeClient (c\<lparr>deadline := deadline c', link := link c'\<rparr>)"

lemma kept_refl [simp]: "kept c c"
  by (simp add: kept_def)

lemma kept_fields:
  assumes "kept c c'"
  shows "connected c' = connected c" "noAck c' = noAck c" "packetSize c' = packetSize c" "features c' = features c"
    "registerLayout c' = registerLayout c" "individualReads c' = individualReads c" "individualWrites c' = individualWrites c"
  using assms unfolding kept_def by (metis (no_types, lifting) GdbRemoteClient.select_convs GdbRemoteClient.surjective GdbRemoteClient.update_convs)+

lemma client_ok_close [simp]: "client_ok (closeClient c)" "\<not> connected (closeClient c)"
  by (simp_all add: client_ok_def closeClient_def maxWire_def)

lemma client_ok_kept: "client_ok c \<Longrightarrow> kept c c' \<Longrightarrow> client_ok c'"
  by (simp add: client_ok_def kept_fields)

lemma client_ok_dropped: "dropped c c' \<Longrightarrow> client_ok c' \<and> \<not> connected c'"
  unfolding dropped_def by (metis client_ok_close)

lemma sendPacket_ok_kept:
  assumes "sendPacket io p c = (Inr r, c')"
  shows "connected c" "connected c'" "kept c c'"
  using assms by (auto simp: sendPacket_def Let_def kept_def split: if_splits sum.splits prod.splits bool.splits)

lemma sendPacket_fail:
  assumes "sendPacket io p c = (Inl e, c')"
  shows "kept c c' \<or> dropped c c'"
  using assms
  by (auto simp: sendPacket_def Let_def kept_def dropped_def closeClient_def split: if_splits sum.splits prod.splits bool.splits)

lemma sendPacket_client_ok: "client_ok c \<Longrightarrow> client_ok (snd (sendPacket io p c))"
proof -
  assume c: "client_ok c"
  obtain r c' where s: "sendPacket io p c = (r, c')" by (cases "sendPacket io p c") auto
  show ?thesis
    by (cases r) (use s c sendPacket_ok_kept(3) sendPacket_fail client_ok_kept client_ok_dropped in fastforce)+
qed

lemma reply_loop_error:
  "reply_loop n io na dl w = (Inl (False, e), w') \<Longrightarrow> \<exists>r. e = ''GDB error response: '' @ r \<and> is_error_reply r"
  by (induction n arbitrary: w) (auto split: sum.splits prod.splits if_splits)



section \<open>Every operation keeps the state\<close>

lemma feature_loop_size:
  "feature_loop es names n fs = Inr (m, fs') \<Longrightarrow> 64 \<le> n \<Longrightarrow> n \<le> maxWire \<Longrightarrow> 64 \<le> m \<and> m \<le> maxWire"
proof (induction es arbitrary: names n fs)
  case (Cons e es)
  have "64 \<le> maxWire" by (simp add: maxWire_def)
  with Cons show ?case by (auto simp: Let_def split: if_splits option.splits)
qed simp

text \<open>A step of a larger operation: the state stays well formed, and a successful step leaves the client connected.\<close>

lemma sendPacket_step:
  assumes "client_ok c" "sendPacket io p c = (r, c')"
  shows "client_ok c'" "is_ok r \<Longrightarrow> connected c'"
  using sendPacket_client_ok [OF assms(1), of io p] sendPacket_ok_kept(2) [of io p c _ c'] assms(2)
  by (auto simp: is_ok_iff)

lemma negotiate_client_ok: "client_ok c \<Longrightarrow> client_ok (snd (negotiate io c))"
proof -
  assume c: "client_ok c"
  obtain r c1 where s: "sendPacket io ''qSupported:qXfer:features:read+'' c = (r, c1)"
    by (cases "sendPacket io ''qSupported:qXfer:features:read+'' c") auto
  note c1 = sendPacket_step [OF c s]
  show ?thesis
  proof (cases r)
    case (Inl e)
    with s c1 show ?thesis by (simp add: negotiate_def)
  next
    case (Inr response)
    show ?thesis
    proof (cases "feature_loop (feature_entries response) [] (packetSize c1) []")
      case (Inl e)
      with s Inr show ?thesis by (simp add: negotiate_def)
    next
      case f: (Inr q)
      obtain m fs where q: "q = (m, fs)" by (cases q)
      let ?c2 = "c1\<lparr>packetSize := m, features := fs\<rparr>"
      have c2: "client_ok ?c2" "connected ?c2"
        using feature_loop_size [of _ _ "packetSize c1" "[]" m fs] f q c1 Inr by (auto simp: client_ok_def)
      obtain r3 c3 where s3: "sendPacket io ''QStartNoAckMode'' ?c2 = (r3, c3)"
        by (cases "sendPacket io ''QStartNoAckMode'' ?c2") auto
      note c3 = sendPacket_step [OF c2(1) s3]
      from c3 have "is_ok r3 \<Longrightarrow> client_ok (c3\<lparr>noAck := True\<rparr>)" by (simp add: client_ok_def)
      then show ?thesis using s Inr f q c2 s3 c3
        by (auto simp: negotiate_def Let_def split: sum.splits)
    qed
  qed
qed

lemma object_loop_client_ok: "client_ok c \<Longrightarrow> client_ok (snd (object_loop io obj annex chunk et data c))"
proof (induction io obj annex chunk et data c rule: object_loop.induct)
  case (1 io obj annex chunk et data c)
  let ?p = "''qXfer:'' @ obj @ '':read:'' @ annex @ '':'' @ hexNumber (length data) @ '','' @ hexNumber chunk"
  obtain r c' where s: "sendPacket io ?p c = (r, c')" by (cases "sendPacket io ?p c") auto
  note c' = sendPacket_step(1) [OF 1(2) s]
  show ?case
    by (cases r) (use 1(1) [OF _ s [symmetric]] s c' 1(2) in \<open>auto simp: object_loop.simps [of io obj annex chunk et data c]\<close>)
qed

lemma readObject_client_ok: "client_ok c \<Longrightarrow> client_ok (snd (readObject io obj annex c))"
  by (simp add: readObject_def object_loop_client_ok)

lemma readRegisterBank_step:
  assumes "client_ok c" "readRegisterBank io reg c = (r, c')"
  shows "client_ok c'" "kept c c' \<or> \<not> is_ok r"
proof -
  obtain q c1 where s: "sendPacket io ''g'' c = (q, c1)" by (cases "sendPacket io ''g'' c") auto
  have "c' = c \<or> c' = c1" "is_ok r \<Longrightarrow> is_ok q \<and> c' = c1"
    using assms(2) s
    by (auto simp: readRegisterBank_def readRegisters_def Let_def split: if_splits sum.splits option.splits)
  with sendPacket_step(1) [OF assms(1) s] sendPacket_ok_kept(3) [of io _ c _ c1] assms(1) s
  show "client_ok c'" "kept c c' \<or> \<not> is_ok r" by (auto simp: is_ok_iff)
qed

lemma readRegister_client_ok: "client_ok c \<Longrightarrow> client_ok (snd (readRegister io reg c))"
proof -
  have b: "client_ok c \<Longrightarrow> client_ok (snd (readRegister_bank io reg c))" for c
    using readRegisterBank_step(1) by (fastforce simp: readRegister_bank_def split: prod.splits sum.splits)
  assume c: "client_ok c"
  let ?p = "''p'' @ hexNumber (rd_number reg)"
  obtain r c' where s: "sendPacket io ?p c = (r, c')" by (cases "sendPacket io ?p c") auto
  note c' = sendPacket_step [OF c s]
  from c' have "is_ok r \<Longrightarrow> client_ok (c'\<lparr>individualReads := False\<rparr>)" by (simp add: client_ok_def)
  with s c c' b [OF c] b [of "c'\<lparr>individualReads := False\<rparr>"] show ?thesis
    by (auto simp: readRegister_def split: sum.splits)
qed

lemma writeRegister_client_ok: "client_ok c \<Longrightarrow> client_ok (snd (writeRegister io reg bytes c))"
proof -
  have b: "client_ok c \<Longrightarrow> client_ok (snd (writeRegister_bank io reg bytes c))" for c
    using readRegisterBank_step(1) [of c io reg] sendPacket_step(1)
    by (fastforce simp: writeRegister_bank_def Let_def split: prod.splits sum.splits)
  assume c: "client_ok c"
  let ?p = "''P'' @ hexNumber (rd_number reg) @ ''='' @ hexBytes bytes"
  obtain r c' where s: "sendPacket io ?p c = (r, c')" by (cases "sendPacket io ?p c") auto
  note c' = sendPacket_step [OF c s]
  from c' have "is_ok r \<Longrightarrow> client_ok (c'\<lparr>individualWrites := False\<rparr>)" by (simp add: client_ok_def)
  with s c c' b [OF c] b [of "c'\<lparr>individualWrites := False\<rparr>"] show ?thesis
    by (auto simp: writeRegister_def split: sum.splits)
qed

lemma gdb_read_loop_client_ok: "client_ok c \<Longrightarrow> client_ok (snd (gdb_read_loop io a n bytes c))"
proof (induction io a n bytes c rule: gdb_read_loop.induct)
  case (1 io a n bytes c)
  let ?p = "read_request (a + of_nat (length bytes)) (min (n - length bytes) (packetSize c div 2))"
  obtain r c' where s: "sendPacket io ?p c = (r, c')" by (cases "sendPacket io ?p c") auto
  note c' = sendPacket_step(1) [OF 1(2) s]
  show ?case
    by (cases r) (use 1(1) [OF _ refl s [symmetric]] s c' 1(2) in
      \<open>auto simp: gdb_read_loop.simps [of io a n bytes c] Let_def split: sum.splits\<close>)
qed

lemma gdb_write_loop_client_ok: "client_ok c \<Longrightarrow> client_ok (snd (gdb_write_loop io a bytes k c))"
proof (induction io a bytes k c rule: gdb_write_loop.induct)
  case (1 io a bytes k c)
  let ?p = "write_request (a + of_nat k) (take (min (length bytes - k) ((packetSize c - 40) div 2)) (drop k bytes))"
  obtain r c' where s: "sendPacket io ?p c = (r, c')" by (cases "sendPacket io ?p c") auto
  note c' = sendPacket_step(1) [OF 1(2) s]
  show ?case
    by (cases r) (use 1(1) [OF _ refl s [symmetric]] s c' 1(2) in
      \<open>auto simp: gdb_write_loop.simps [of io a bytes k c] Let_def split: sum.splits\<close>)
qed



section \<open>Register banks\<close>

lemma bank_layout_found:
  "bank_layout fs reg tot found = Inr (Some (off, w), t) \<Longrightarrow>
   (found = Some (off, w) \<or> (\<exists>pre f post. fs = pre @ f # post \<and> rd_number f = rd_number reg \<and> rd_name f = rd_name reg \<and>
      rd_bits f = rd_bits reg \<and> off = tot + sum_list (map reg_width pre) \<and> w = reg_width reg)) \<and>
   t = tot + sum_list (map reg_width fs)"
proof (induction fs arbitrary: tot found)
  case (Cons f fs)
  show ?case
  proof (cases "rd_number f = rd_number reg")
    case True
    with Cons.prems have m: "rd_name f = rd_name reg" "rd_bits f = rd_bits reg"
      "bank_layout fs reg (tot + reg_width f) (Some (tot, reg_width f)) = Inr (Some (off, w), t)"
      by (auto simp: Let_def split: if_splits)
    from Cons.IH [OF m(3)] consider "off = tot" "w = reg_width f"
      | pre g post where "fs = pre @ g # post" "rd_number g = rd_number reg" "rd_name g = rd_name reg"
          "rd_bits g = rd_bits reg" "off = tot + reg_width f + sum_list (map reg_width pre)" "w = reg_width reg"
      by blast
    then have "\<exists>pre g post. f # fs = pre @ g # post \<and> rd_number g = rd_number reg \<and> rd_name g = rd_name reg \<and>
      rd_bits g = rd_bits reg \<and> off = tot + sum_list (map reg_width pre) \<and> w = reg_width reg"
    proof cases
      case 1
      then show ?thesis using True m by (intro exI [of _ "[]"] exI [of _ f] exI [of _ fs]) (simp add: reg_width_def)
    next
      case 2
      then show ?thesis by (intro exI [of _ "f # pre"] exI [of _ g] exI [of _ post]) simp
    qed
    with Cons.IH [OF m(3)] show ?thesis by auto
  next
    case False
    with Cons.prems have m: "bank_layout fs reg (tot + reg_width f) found = Inr (Some (off, w), t)"
      by (auto simp: Let_def split: if_splits)
    from Cons.IH [OF m] show ?thesis
      by (auto intro: exI [of _ "f # pre" for pre])
        (metis (no_types, lifting) append_Cons group_cancel.add1 list.simps(9) sum_list.Cons add.assoc)
  qed
qed simp

lemma readRegisterBank_sound:
  assumes "readRegisterBank io reg c = (Inr bank, c')"
  shows "\<exists>pre f post. registerLayout c = pre @ f # post \<and> rd_number f = rd_number reg \<and> rd_name f = rd_name reg \<and>
      rd_bits f = rd_bits reg \<and> bank_offset bank = sum_list (map reg_width pre)"
    "bank_width bank = reg_width reg" "bank_offset bank + bank_width bank \<le> length (bank_data bank)"
    "sendPacket io ''g'' c = (Inr (bank_data bank), c')" "bank_pairs_ok (bank_data bank)"
proof -
  obtain off w tot where l: "bank_layout (registerLayout c) reg 0 None = Inr (Some (off, w), tot)"
    and r: "sendPacket io ''g'' c = (Inr (bank_data bank), c')" "bank_offset bank = off" "bank_width bank = w"
      "off + w \<le> length (bank_data bank)" "bank_pairs_ok (bank_data bank)"
    using assms
    by (auto simp: readRegisterBank_def readRegisters_def Let_def split: if_splits sum.splits option.splits prod.splits)
  from bank_layout_found [OF l] r
  show "\<exists>pre f post. registerLayout c = pre @ f # post \<and> rd_number f = rd_number reg \<and> rd_name f = rd_name reg \<and>
      rd_bits f = rd_bits reg \<and> bank_offset bank = sum_list (map reg_width pre)"
    "bank_width bank = reg_width reg" "bank_offset bank + bank_width bank \<le> length (bank_data bank)"
    "sendPacket io ''g'' c = (Inr (bank_data bank), c')" "bank_pairs_ok (bank_data bank)" by auto
qed

lemma readRegister_bank_width:
  assumes "readRegister_bank io reg c = (Inr bytes, c')"
  shows "length bytes = (rd_bits reg + 7) div 8"
proof -
  obtain bank c1 where b: "readRegisterBank io reg c = (Inr bank, c1)"
    "decodeHex (take (bank_width bank) (drop (bank_offset bank) (bank_data bank))) = Inr bytes"
    using assms by (auto simp: readRegister_bank_def split: sum.splits prod.splits)
  from decodeHex_length [OF b(2)] readRegisterBank_sound(2,3) [OF b(1)] show ?thesis
    by (simp add: reg_width_def min_def split: if_splits)
qed

text \<open>
  \<^verbatim>\<open>readRegister\<close> returns as many bytes as the register's bits need, whether the stub answers the
  individual packet or only the whole bank, and never an empty value.
\<close>

theorem readRegister_width:
  assumes "readRegister io reg c = (Inr bytes, c')"
  shows "length bytes = (rd_bits reg + 7) div 8 \<and> bytes \<noteq> []"
proof -
  have "rd_bits reg \<noteq> 0" using assms by (auto simp: readRegister_def split: if_splits)
  moreover have "length bytes = (rd_bits reg + 7) div 8"
    using assms readRegister_bank_width by (auto simp: readRegister_def split: if_splits sum.splits prod.splits)
  ultimately show ?thesis by (auto simp: div_eq_0_iff)
qed

definition sample_reg :: GdbRegisterDescription where
  "sample_reg = \<lparr> rd_name = ''r1'', rd_number = 1, rd_bits = 16, rd_type = [] \<rparr>"

definition sample_layout :: "GdbRegisterDescription list" where
  "sample_layout = [\<lparr> rd_name = ''r0'', rd_number = 0, rd_bits = 8, rd_type = [] \<rparr>, sample_reg]"

definition sample_bank_client :: "string \<Rightarrow> byte_pipe GdbRemoteClient" where
  "sample_bank_client replies = (new_client \<lparr> p_in = replies, p_out = [] \<rparr>)
     \<lparr>connected := True, noAck := True, registerLayout := sample_layout\<rparr>"

theorem readRegister_width_witness:
  "\<exists>c'. readRegister pipe_io sample_reg (sample_bank_client (wire_packet [] @ wire_packet ''11aabb'')) = (Inr [0xaa, 0xbb], c') \<and>
     length [0xaa, 0xbb :: byte] = (rd_bits sample_reg + 7) div 8"
proof -
  let ?r = "readRegister pipe_io sample_reg (sample_bank_client (wire_packet [] @ wire_packet ''11aabb''))"
  have "fst ?r = Inr [0xaa, 0xbb]" by code_simp
  then obtain c' where s: "?r = (Inr [0xaa, 0xbb], c')" by (cases ?r) auto
  with readRegister_width [OF s] show ?thesis by blast
qed

text \<open>
  C21: a register written through the whole bank is a read-modify-write: the client fetches a fresh bank,
  replaces exactly the digits of that register, which lie after those of the registers before it in the
  layout, sends every other digit back as it was read, and reports success only on the stub's OK.
\<close>

theorem writeRegister_bank_edit:
  assumes "writeRegister_bank io reg bytes c = (Inr (), c')" "length bytes = (rd_bits reg + 7) div 8"
  shows "\<exists>before f after c1 front old rear. registerLayout c = before @ f # after \<and> rd_number f = rd_number reg \<and>
     sendPacket io ''g'' c = (Inr (front @ old @ rear), c1) \<and>
     length front = sum_list (map reg_width before) \<and> length old = 2 * length bytes \<and>
     list_all is_hex front \<and> list_all is_hex rear \<and>
     sendPacket io (''G'' @ front @ hexBytes bytes @ rear) c1 = (Inr ''OK'', c')"
proof -
  obtain bank c1 where b: "readRegisterBank io reg c = (Inr bank, c1)"
    and h: "list_all is_hex (take (bank_offset bank) (bank_data bank) @ hexBytes bytes @ drop (bank_offset bank + bank_width bank) (bank_data bank))"
    and g: "sendPacket io (''G'' @ take (bank_offset bank) (bank_data bank) @ hexBytes bytes @ drop (bank_offset bank + bank_width bank) (bank_data bank)) c1 = (Inr ''OK'', c')"
    using assms(1) by (auto simp: writeRegister_bank_def Let_def split: sum.splits prod.splits if_splits)
  note s = readRegisterBank_sound [OF b]
  obtain pre f post where l: "registerLayout c = pre @ f # post" "rd_number f = rd_number reg"
    "bank_offset bank = sum_list (map reg_width pre)" using s(1) by blast
  let ?front = "take (bank_offset bank) (bank_data bank)" and ?rear = "drop (bank_offset bank + bank_width bank) (bank_data bank)"
    and ?old = "take (bank_width bank) (drop (bank_offset bank) (bank_data bank))"
  have "bank_data bank = ?front @ ?old @ ?rear"
    by (simp add: add.commute [of "bank_offset bank"] flip: drop_drop)
  moreover have "length ?front = sum_list (map reg_width pre)" "length ?old = 2 * length bytes"
    using l(3) s(2,3) assms(2) by (auto simp: reg_width_def)
  ultimately show ?thesis using l(1,2) s(4) h g by (metis list_all_append)
qed

theorem writeRegister_bank_edit_witness:
  "\<exists>c1 c'. sendPacket pipe_io ''g'' (sample_bank_client (wire_packet ''11aabb'' @ wire_packet ''OK'')) = (Inr ''11aabb'', c1) \<and>
     sendPacket pipe_io ''G110102'' c1 = (Inr ''OK'', c')"
proof -
  let ?c = "sample_bank_client (wire_packet ''11aabb'' @ wire_packet ''OK'')"
  have "fst (writeRegister_bank pipe_io sample_reg [1, 2] ?c) = Inr ()" by code_simp
  then obtain c' where s: "writeRegister_bank pipe_io sample_reg [1, 2] ?c = (Inr (), c')"
    by (cases "writeRegister_bank pipe_io sample_reg [1, 2] ?c") auto
  have g: "fst (sendPacket pipe_io ''g'' ?c) = Inr ''11aabb''" by code_simp
  have l: "registerLayout ?c = sample_layout" by (simp add: sample_bank_client_def)
  have one: "before = [hd sample_layout]" if "sample_layout = before @ f # after" "rd_number f = rd_number sample_reg" for before f after
    using that by (cases before) (auto simp: sample_layout_def sample_reg_def Cons_eq_append_conv)
  have w: "sum_list (map reg_width [hd sample_layout]) = 2" "hexBytes [1, 2] = ''0102''" by code_simp+
  from writeRegister_bank_edit [OF s] obtain before f after c1 front old rear where
    e: "sample_layout = before @ f # after" "rd_number f = rd_number sample_reg"
       "sendPacket pipe_io ''g'' ?c = (Inr (front @ old @ rear), c1)" "length front = sum_list (map reg_width before)"
       "length old = 4" "sendPacket pipe_io (''G'' @ front @ hexBytes [1, 2] @ rear) c1 = (Inr ''OK'', c')"
    unfolding l by (auto simp: sample_reg_def)
  have k: "front @ old @ rear = ''11aabb''" using e(3) g by simp
  have "length front = 2" using e(4) one [OF e(1,2)] w by simp
  with k e(5) have "front = ''11'' \<and> rear = []"
    by (auto simp: append_eq_Cons_conv numeral_eq_Suc length_Suc_conv)
  with e(3,6) k w(2) show ?thesis by auto
qed

end
