(* ===== verification/GdbProcess.thy ===== *)
theory GdbProcess
  imports Gdb
begin

text \<open>
  The GDB target adapter: \<^verbatim>\<open>src/platform/gdb_process.cpp\<close> and \<^verbatim>\<open>GdbRemoteClient::describeTarget\<close>. The XML
  parser is a parameter that maps a document to an element tree or fails; the TCP connection is a
  parameter as in \<open>Gdb\<close>. The contract of a stub is a locale on the replies the client accepts; the
  adapter's reads and writes are shown to be a memory port for every stub that keeps it.
\<close>

unbundle bit_operations_syntax

section \<open>Target descriptions\<close>

datatype xml = Element (xml_name: string) (xml_attrs: "(string \<times> string) list") (xml_text: "string option") (xml_children: "xml list")

definition xml_attr :: "xml \<Rightarrow> string \<Rightarrow> string option" where
  "xml_attr x k = map_of (xml_attrs x) k"

text \<open>\<^verbatim>\<open>xmlInclude\<close>: the element and its ancestors, innermost first, are searched for the namespace declaration.\<close>

fun declared_uri :: "string \<Rightarrow> xml list \<Rightarrow> string option" where
  "declared_uri declaration [] = None"
| "declared_uri declaration (x # xs) =
    (case xml_attr x declaration of Some uri \<Rightarrow> Some uri | None \<Rightarrow> declared_uri declaration xs)"

definition xmlInclude :: "xml \<Rightarrow> xml list \<Rightarrow> bool" where
  "xmlInclude x parents =
    (let name = xml_name x;
         colon = (CHR '':'' \<in> set name);
         prefix = takeWhile (\<lambda>c. c \<noteq> CHR '':'') name;
         local_name = (if colon then drop (length prefix + 1) name else name);
         declaration = (if colon then ''xmlns:'' @ prefix else ''xmlns'')
     in if local_name \<noteq> ''include'' then False
        else case declared_uri declaration (x # parents) of
          Some uri \<Rightarrow> uri = ''http://www.w3.org/2001/XInclude''
        | None \<Rightarrow> name = ''xi:include'')"

text \<open>The variables \<^verbatim>\<open>describeTarget\<close> shares with its two closures.\<close>

record 'w describe_state =
  ds_client :: "'w GdbRemoteClient"
  ds_target :: GdbTargetDescription
  ds_active :: "string list"
  ds_names :: "string list"
  ds_numbers :: "nat list"
  ds_next :: nat
  ds_documents :: nat
  ds_total :: nat

definition xml_trim :: "string \<Rightarrow> string" where
  "xml_trim s = trim_of {CHR '' '', CHR 0x0D, CHR 0x0A, CHR 0x09} s"

text \<open>The branch for \<^verbatim>\<open>architecture\<close> and \<^verbatim>\<open>osabi\<close> elements.\<close>

definition visit_identity :: "xml \<Rightarrow> 'w describe_state \<Rightarrow> unit expected \<times> 'w describe_state" where
  "visit_identity x st =
    (case xml_text x of
       None \<Rightarrow> (Inl ''Invalid GDB architecture or OS ABI'', st)
     | Some t \<Rightarrow>
         if length t > 256 then (Inl ''Invalid GDB architecture or OS ABI'', st)
         else let v = xml_trim t in
           if v = [] then (Inl ''Empty GDB architecture or OS ABI'', st)
           else let arch = (xml_name x = ''architecture'');
                    current = (if arch then td_architecture (ds_target st) else td_osAbi (ds_target st)) in
             if current \<noteq> [] \<and> current \<noteq> v then (Inl ''Conflicting GDB target descriptions'', st)
             else (Inr (), st\<lparr>ds_target := (if arch then (ds_target st)\<lparr>td_architecture := v\<rparr>
                                           else (ds_target st)\<lparr>td_osAbi := v\<rparr>)\<rparr>))"

text \<open>The branch for \<^verbatim>\<open>reg\<close> elements.\<close>

definition visit_register :: "xml \<Rightarrow> 'w describe_state \<Rightarrow> unit expected \<times> 'w describe_state" where
  "visit_register x st =
    (case (xml_attr x ''name'', xml_attr x ''bitsize'') of
       (Some nm, Some bits) \<Rightarrow>
         (case number 10 bits of
            None \<Rightarrow> (Inl ''Invalid GDB register description'', st)
          | Some b \<Rightarrow>
              if nm = [] \<or> length nm > 256 \<or> b = 0 \<or> b > 524288 then (Inl ''Invalid GDB register description'', st)
              else
                (case (case xml_attr x ''regnum'' of None \<Rightarrow> Some (ds_next st) | Some t \<Rightarrow> number 10 t) of
                   None \<Rightarrow> (Inl ''Invalid GDB register number'', st)
                 | Some n \<Rightarrow>
                     if n > 65535 \<or> length (td_registers (ds_target st)) \<ge> 2048 \<or> n \<in> set (ds_numbers st)
                     then (Inl ''Duplicate or excessive GDB register description'', st)
                     else if nm \<in> set (ds_names st)
                     then (Inl ''Duplicate or excessive GDB register description'', st\<lparr>ds_numbers := n # ds_numbers st\<rparr>)
                     else
                       (let reg = \<lparr> rd_name = nm, rd_number = n, rd_bits = b,
                                    rd_type = (case xml_attr x ''type'' of None \<Rightarrow> [] | Some t \<Rightarrow> t) \<rparr> in
                        (Inr (), st\<lparr>ds_numbers := n # ds_numbers st, ds_names := nm # ds_names st, ds_next := n + 1,
                           ds_target := (ds_target st)\<lparr>td_registers := td_registers (ds_target st) @ [reg]\<rparr>\<rparr>))))
     | _ \<Rightarrow> (Inl ''Invalid GDB register description'', st))"

text \<open>
  The closure \<^verbatim>\<open>visit\<close>, with \<^verbatim>\<open>load\<close> as an argument for the included documents. \<open>parents\<close> are the
  ancestors of the element in its document.
\<close>

fun visit :: "(string \<Rightarrow> 'w describe_state \<Rightarrow> unit expected \<times> 'w describe_state) \<Rightarrow> nat \<Rightarrow> xml list \<Rightarrow> xml
      \<Rightarrow> 'w describe_state \<Rightarrow> unit expected \<times> 'w describe_state"
  and visit_all :: "(string \<Rightarrow> 'w describe_state \<Rightarrow> unit expected \<times> 'w describe_state) \<Rightarrow> nat \<Rightarrow> xml list \<Rightarrow> xml list
      \<Rightarrow> 'w describe_state \<Rightarrow> unit expected \<times> 'w describe_state" where
  "visit load_doc nesting parents (Element nm attrs txt_content children) st =
    (let x = Element nm attrs txt_content children in
     if nesting > 64 then (Inl ''GDB XML nesting limit'', st)
     else if xmlInclude x parents then
       (case xml_attr x ''href'' of None \<Rightarrow> (Inl ''Missing GDB XML include name'', st) | Some h \<Rightarrow> load_doc h st)
     else
       (case (if nm = ''architecture'' \<or> nm = ''osabi'' then visit_identity x st
              else if nm = ''reg'' then visit_register x st else (Inr (), st)) of
          (Inl e, st) \<Rightarrow> (Inl e, st)
        | (Inr _, st) \<Rightarrow> visit_all load_doc (nesting + 1) (x # parents) children st))"
| "visit_all load_doc nesting parents [] st = (Inr (), st)"
| "visit_all load_doc nesting parents (x # xs) st =
    (case visit load_doc nesting parents x st of
       (Inl e, st) \<Rightarrow> (Inl e, st)
     | (Inr _, st) \<Rightarrow> visit_all load_doc nesting parents xs st)"

text \<open>
  The closure \<^verbatim>\<open>load\<close>: the remaining depth is an argument, nine documents at depth 0 to 8; below that the
  depth check fails.
\<close>

fun load :: "nat \<Rightarrow> (string \<Rightarrow> xml option) \<Rightarrow> 'w gdb_io \<Rightarrow> nat \<Rightarrow> string \<Rightarrow> 'w describe_state \<Rightarrow> unit expected \<times> 'w describe_state" where
  "load levels parse io endTime annex st =
    (if io_now io (link (ds_client st)) \<ge> endTime then (Inl ''GDB description transfer timed out'', st)
     else case levels of
       0 \<Rightarrow> (Inl ''GDB XML inclusion cycle or depth limit'', st)
     | Suc deeper \<Rightarrow>
         (let st = st\<lparr>ds_documents := ds_documents st + 1\<rparr> in
          if ds_documents st > 128 \<or> annex \<in> set (ds_active st)
          then (Inl ''GDB XML inclusion cycle or depth limit'', st)
          else let st = st\<lparr>ds_active := annex # ds_active st\<rparr> in
            case readObject io ''features'' annex (ds_client st) of
              (Inl e, c) \<Rightarrow> (Inl e, st\<lparr>ds_client := c\<rparr>)
            | (Inr text, c) \<Rightarrow>
                (let st = st\<lparr>ds_client := c, ds_total := ds_total st + length text\<rparr> in
                 if ds_total st > maxObject then (Inl ''GDB XML exceeds total size limit'', st)
                 else case parse text of
                   None \<Rightarrow> (Inl ''Invalid GDB target XML'', st)
                 | Some root \<Rightarrow>
                     (case visit (load deeper parse io endTime) 0 [] root st of
                        (r, st) \<Rightarrow> (r, st\<lparr>ds_active := removeAll annex (ds_active st)\<rparr>)))))"

declare load.simps [simp del]

definition describeTarget :: "(string \<Rightarrow> xml option) \<Rightarrow> 'w gdb_io \<Rightarrow> 'w GdbRemoteClient
    \<Rightarrow> GdbTargetDescription expected \<times> 'w GdbRemoteClient" where
  "describeTarget parse io c =
    (let c = c\<lparr>registerLayout := []\<rparr>;
         empty_target = \<lparr> td_architecture = [], td_osAbi = [], td_machine = default_machine, td_registers = [] \<rparr> in
     case load 9 parse io (io_now io (link c) + timeout c * 10) ''target.xml''
            \<lparr> ds_client = c, ds_target = empty_target, ds_active = [], ds_names = [], ds_numbers = [], ds_next = 0,
              ds_documents = 0, ds_total = 0 \<rparr> of
       (Inl e, st) \<Rightarrow> (Inl e, ds_client st)
     | (Inr _, st) \<Rightarrow>
         (let t = ds_target st; c = ds_client st in
          if td_architecture t = [] \<or> td_registers t = [] then (Inl ''Incomplete GDB target description'', c)
          else (Inr (t\<lparr>td_machine := gdbTargetMachine (td_architecture t) (td_osAbi t)\<rparr>),
                c\<lparr>registerLayout := sort_key rd_number (td_registers t)\<rparr>)))"

section \<open>The process handle\<close>

record GdbProcessOptions =
  go_byteOrder :: ByteOrder
  go_pointerWidth :: nat
  go_runtime :: TargetRuntime
  go_timeout :: int
  go_regions :: "MemoryRegion list"

record 'w GdbProcessHandle =
  gp_client :: "'w GdbRemoteClient"
  gp_target :: GdbTargetDescription
  gp_runtime :: TargetRuntime
  gp_regions :: "MemoryRegion list"
  gp_error :: string
  gp_ownsSession :: bool

definition validRegion :: "MemoryRegion \<Rightarrow> bool" where
  "validRegion r \<longleftrightarrow> r_size r \<noteq> 0 \<and> r_size r \<le> unat (- 1 - r_base r)"

definition stoppedReply :: "string \<Rightarrow> bool" where
  "stoppedReply r \<longleftrightarrow> length r \<ge> 3 \<and> is_hex (r ! 1) \<and> is_hex (r ! 2) \<and>
     ((r ! 0 = CHR ''S'' \<and> length r = 3) \<or> r ! 0 = CHR ''T'')"

text \<open>An optional attribute as a 64-bit number, decimal or with a hexadecimal prefix, read by \<^verbatim>\<open>std::from_chars\<close>.\<close>

definition addressNumber :: "string option \<Rightarrow> u64 option" where
  "addressNumber attr =
    (case attr of
       None \<Rightarrow> None
     | Some t \<Rightarrow>
         if t = [] then None
         else let hexa = (take 2 t = ''0x'' \<or> take 2 t = ''0X'');
                  s = (if hexa then drop 2 t else t);
                  base = (if hexa then 16 else 10) in
           if s \<noteq> [] \<and> list_all (is_digit_of base) s \<and> run_value base s < 2 ^ 64
           then Some (of_nat (run_value base s)) else None)"

text \<open>The loop over the memory elements of a memory map.\<close>

fun map_regions :: "xml list \<Rightarrow> MemoryRegion list \<Rightarrow> MemoryRegion list expected" where
  "map_regions [] rs = Inr rs"
| "map_regions (m # ms) rs =
    (if xml_name m \<noteq> ''memory'' then map_regions ms rs
     else case (addressNumber (xml_attr m ''start''), addressNumber (xml_attr m ''length'')) of
       (Some start, Some len) \<Rightarrow>
         (case xml_attr m ''type'' of
            None \<Rightarrow> Inl ''Unknown GDB memory map type''
          | Some ty \<Rightarrow>
              if ty \<noteq> ''ram'' \<and> ty \<noteq> ''rom'' \<and> ty \<noteq> ''flash'' then Inl ''Unknown GDB memory map type''
              else let r = \<lparr> r_base = start, r_size = unat len,
                             r_protection = (if ty = ''ram'' then prot_or Prot_Read Prot_Write else Prot_Read),
                             r_type = MT_Private, r_state = MS_Committed, r_path = [], r_fileOffset = None \<rparr> in
                if \<not> validRegion r \<or> length rs \<ge> 4096 then Inl ''Invalid or excessive GDB memory map''
                else map_regions ms (rs @ [r]))
     | _ \<Rightarrow> Inl ''Invalid GDB memory map range'')"

fun regions_overlap :: "MemoryRegion list \<Rightarrow> bool" where
  "regions_overlap (r # s # rs) \<longleftrightarrow> r_base r + of_nat (r_size r) > r_base s \<or> regions_overlap (s # rs)"
| "regions_overlap _ \<longleftrightarrow> False"

text \<open>\<^verbatim>\<open>connectTcp\<close>: its checks; name resolution and the sockets are the parameter \<open>tcp\<close>.\<close>

definition connectTcp :: "'w gdb_io \<Rightarrow> (string \<Rightarrow> nat \<Rightarrow> 'w \<Rightarrow> unit expected \<times> 'w) \<Rightarrow> string \<Rightarrow> nat
    \<Rightarrow> 'w GdbRemoteClient \<Rightarrow> unit expected \<times> 'w GdbRemoteClient" where
  "connectTcp io tcp host_name port c =
    (let c = closeClient c in
     if host_name = [] \<or> CHR 0x00 \<in> set host_name \<or> port = 0 then (Inl ''Invalid GDB endpoint'', c)
     else if io_stop io (link c) then (Inl ''GDB connection canceled'', c)
     else case tcp host_name port (link c) of
       (Inl e, w) \<Rightarrow> (Inl e, c\<lparr>link := w\<rparr>)
     | (Inr _, w) \<Rightarrow> (Inr (), c\<lparr>connected := True, link := w\<rparr>))"

text \<open>The byte order and pointer width of \<^verbatim>\<open>connect\<close>'s options, applied to the described machine.\<close>

definition apply_options :: "GdbProcessOptions \<Rightarrow> TargetMachine \<Rightarrow> TargetMachine expected" where
  "apply_options opts m =
    (if go_byteOrder opts \<noteq> BO_Unknown \<and> byteOrder m \<noteq> BO_Unknown \<and> byteOrder m \<noteq> go_byteOrder opts
     then Inl ''Explicit byte order conflicts with the described target architecture''
     else let m = (if go_byteOrder opts \<noteq> BO_Unknown then m\<lparr>byteOrder := go_byteOrder opts\<rparr> else m) in
       Inr (if go_pointerWidth opts \<noteq> 0
            then m\<lparr>abi := (if go_pointerWidth opts \<noteq> pointerWidth m then TA_Unknown else abi m),
                   pointerWidth := go_pointerWidth opts\<rparr>
            else m))"

text \<open>The regions of \<^verbatim>\<open>connect\<close>: the explicit ones, or those of the stub's memory map.\<close>

definition connect_regions :: "(string \<Rightarrow> xml option) \<Rightarrow> 'w gdb_io \<Rightarrow> GdbProcessOptions \<Rightarrow> 'w GdbRemoteClient
    \<Rightarrow> MemoryRegion list expected \<times> 'w GdbRemoteClient" where
  "connect_regions parse io opts c =
    (if go_regions opts = [] \<and> supports c ''qXfer:memory-map:read'' then
       (case readObject io ''memory-map'' [] c of
          (Inl e, c) \<Rightarrow> (Inl e, c)
        | (Inr text, c) \<Rightarrow>
            (case parse text of
               None \<Rightarrow> (Inl ''Invalid GDB memory map XML'', c)
             | Some root \<Rightarrow>
                 if xml_name root \<noteq> ''memory-map'' then (Inl ''Invalid GDB memory map XML'', c)
                 else (map_regions (xml_children root) [], c)))
     else (Inr (go_regions opts), c))"

definition gdb_connect :: "(string \<Rightarrow> xml option) \<Rightarrow> 'w gdb_io \<Rightarrow> (string \<Rightarrow> nat \<Rightarrow> 'w \<Rightarrow> unit expected \<times> 'w) \<Rightarrow> string \<Rightarrow> nat
    \<Rightarrow> GdbProcessOptions \<Rightarrow> 'w \<Rightarrow> 'w GdbProcessHandle expected" where
  "gdb_connect parse io tcp host_name port opts w =
    (if go_pointerWidth opts \<noteq> 0 \<and> go_pointerWidth opts \<noteq> 4 \<and> go_pointerWidth opts \<noteq> 8
     then Inl ''GDB pointer width must be 4 or 8''
     else if \<not> list_all validRegion (go_regions opts) then Inl ''Invalid GDB guest memory range''
     else if length (go_regions opts) > 4096 then Inl ''Too many explicit GDB guest ranges''
     else case connectTcp io tcp host_name port (setTimeout (go_timeout opts) (new_client w)) of
       (Inl e, c) \<Rightarrow> Inl e
     | (Inr _, c) \<Rightarrow>
     (case negotiate io c of
       (Inl e, c) \<Rightarrow> Inl e
     | (Inr _, c) \<Rightarrow>
     (case sendPacket io ''?'' c of
       (Inl e, c) \<Rightarrow> Inl e
     | (Inr stopped, c) \<Rightarrow>
     if \<not> stoppedReply stopped then Inl ''GDB memory adapter requires a stopped target''
     else
     (case describeTarget parse io c of
       (Inl e, c) \<Rightarrow> Inl e
     | (Inr target, c) \<Rightarrow>
     (case apply_options opts (td_machine target) of
       Inl e \<Rightarrow> Inl e
     | Inr m \<Rightarrow>
     (case connect_regions parse io opts c of
       (Inl e, c) \<Rightarrow> Inl e
     | (Inr regions, c) \<Rightarrow>
     (let regions = sort_key r_base regions in
      if regions_overlap regions then Inl ''Overlapping GDB memory map ranges''
      else if io_stop io (link c) then Inl ''GDB connection canceled''
      else Inr \<lparr> gp_client = c, gp_target = target\<lparr>td_machine := m\<rparr>, gp_runtime = go_runtime opts,
                 gp_regions = regions, gp_error = [], gp_ownsSession = True \<rparr>)))))))"

section \<open>Operations of the handle\<close>

definition gdb_targetDescription :: "'w gdb_io \<Rightarrow> 'w GdbProcessHandle \<Rightarrow> TargetDescription \<times> 'w GdbProcessHandle" where
  "gdb_targetDescription io h =
    (let d = \<lparr> host = default_machine, program = td_machine (gp_target h), transport = TT_Gdb, runtime = gp_runtime h,
               mixedCode = False, live = False, otherOwner = False, tracerPid = 0, pendingRecovery = False \<rparr> in
     if \<not> connected (gp_client h) then (d, h)
     else case sendPacket io ''?'' (gp_client h) of
       (Inl e, c) \<Rightarrow> (d, h\<lparr>gp_client := closeClient c, gp_error := e\<rparr>)
     | (Inr stop, c) \<Rightarrow>
         if stoppedReply stop then (d\<lparr>live := True\<rparr>, h\<lparr>gp_client := c\<rparr>)
         else (d, h\<lparr>gp_client := closeClient c, gp_error := ''GDB target is no longer stopped or has exited''\<rparr>))"

definition kGdbTransferChunk :: nat where "kGdbTransferChunk = 2 ^ 20"

lemma kGdbTransferChunk_pos: "0 < kGdbTransferChunk"
  by (simp add: kGdbTransferChunk_def)

function gp_read_loop :: "'w gdb_io \<Rightarrow> u64 \<Rightarrow> nat \<Rightarrow> byte list \<Rightarrow> 'w GdbProcessHandle \<Rightarrow> byte list result \<times> 'w GdbProcessHandle" where
  "gp_read_loop io a sz buf h =
    (if length buf < sz then
       (let count = min (sz - length buf) kGdbTransferChunk in
        case readMemory io (a + of_nat (length buf)) count (gp_client h) of
          (Inl e, c) \<Rightarrow> (if buf \<noteq> [] then Inr buf else Inl io_error, h\<lparr>gp_client := c, gp_error := e\<rparr>)
        | (Inr bytes, c) \<Rightarrow>
            if length bytes < count then (Inr (buf @ bytes), h\<lparr>gp_client := c\<rparr>)
            else gp_read_loop io a sz (buf @ bytes) (h\<lparr>gp_client := c\<rparr>))
     else (Inr buf, h))"
  by pat_completeness auto
termination
  by (relation "measure (\<lambda>(io, a, sz, buf, h). sz - length buf)") (use kGdbTransferChunk_pos in \<open>auto simp: min_def split: if_splits\<close>)

definition gp_read :: "'w gdb_io \<Rightarrow> 'w GdbProcessHandle reader" where
  "gp_read io h a sz = (if sz \<noteq> 0 \<and> span_overflows a sz then (Inl invalid_argument, h) else gp_read_loop io a sz [] h)"

text \<open>
  \<^verbatim>\<open>GdbProcessHandle::write\<close> advances by what the client reports; a report of less than the chunk ends the
  loop, so one that does not end it is at least the chunk.
\<close>

function gp_write_loop :: "'w gdb_io \<Rightarrow> u64 \<Rightarrow> byte list \<Rightarrow> nat \<Rightarrow> 'w GdbProcessHandle \<Rightarrow> nat result \<times> 'w GdbProcessHandle" where
  "gp_write_loop io a xs k h =
    (if k < length xs then
       (let count = min (length xs - k) kGdbTransferChunk in
        case writeMemory io (a + of_nat k) (take count (drop k xs)) (gp_client h) of
          (Inl e, c) \<Rightarrow> (if k \<noteq> 0 then Inr k else Inl io_error, h\<lparr>gp_client := c, gp_error := e\<rparr>)
        | (Inr n, c) \<Rightarrow>
            if n < count then (Inr (k + n), h\<lparr>gp_client := c\<rparr>)
            else gp_write_loop io a xs (k + n) (h\<lparr>gp_client := c\<rparr>))
     else (Inr k, h))"
  by pat_completeness auto
termination
  by (relation "measure (\<lambda>(io, a, xs, k, h). length xs - k)") (use kGdbTransferChunk_pos in \<open>auto simp: min_def split: if_splits\<close>)

declare gp_read_loop.simps [simp del] gp_write_loop.simps [simp del]

definition gp_write :: "'w gdb_io \<Rightarrow> 'w GdbProcessHandle writer" where
  "gp_write io h a xs = (if xs \<noteq> [] \<and> span_overflows a (length xs) then (Inl invalid_argument, h) else gp_write_loop io a xs 0 h)"

definition gp_queryRegions :: "'w GdbProcessHandle \<Rightarrow> MemoryRegion list" where
  "gp_queryRegions h = (if connected (gp_client h) then gp_regions h else [])"

definition gp_queryRegion :: "'w GdbProcessHandle \<Rightarrow> u64 \<Rightarrow> MemoryRegion option" where
  "gp_queryRegion h a = find (\<lambda>r. r_base r \<le> a \<and> unat (a - r_base r) < r_size r) (gp_queryRegions h)"

definition gp_allocate :: "nat \<Rightarrow> MemProt \<Rightarrow> u64 \<Rightarrow> u64 result" where
  "gp_allocate n prot hint = Inl operation_not_supported"
definition gp_free :: "u64 \<Rightarrow> nat \<Rightarrow> unit result" where
  "gp_free a n = Inl operation_not_supported"
definition gp_protect :: "u64 \<Rightarrow> nat \<Rightarrow> MemProt \<Rightarrow> unit result" where
  "gp_protect a n prot = Inl operation_not_supported"

definition gp_readRegister :: "'w gdb_io \<Rightarrow> string \<Rightarrow> 'w GdbProcessHandle \<Rightarrow> byte list expected \<times> 'w GdbProcessHandle" where
  "gp_readRegister io nm h =
    (case find (\<lambda>r. rd_name r = nm) (td_registers (gp_target h)) of
       None \<Rightarrow> (Inl ''Register absent from GDB target XML'', h)
     | Some r \<Rightarrow> (case readRegister io r (gp_client h) of (v, c) \<Rightarrow> (v, h\<lparr>gp_client := c\<rparr>)))"

definition gp_writeRegister :: "'w gdb_io \<Rightarrow> string \<Rightarrow> byte list \<Rightarrow> 'w GdbProcessHandle \<Rightarrow> unit expected \<times> 'w GdbProcessHandle" where
  "gp_writeRegister io nm bytes h =
    (case find (\<lambda>r. rd_name r = nm) (td_registers (gp_target h)) of
       None \<Rightarrow> (Inl ''Register absent from GDB target XML'', h)
     | Some r \<Rightarrow> (case writeRegister io r bytes (gp_client h) of (v, c) \<Rightarrow> (v, h\<lparr>gp_client := c\<rparr>)))"

definition remoteCommand :: "'w gdb_io \<Rightarrow> string \<Rightarrow> 'w GdbProcessHandle \<Rightarrow> string expected \<times> 'w GdbProcessHandle" where
  "remoteCommand io command h =
    (case sendPacket io command (gp_client h) of
       (Inl e, c) \<Rightarrow> (Inl e, h\<lparr>gp_client := c, gp_error := e\<rparr>)
     | (Inr r, c) \<Rightarrow>
         if length r \<ge> 3 \<and> (hd r = CHR ''W'' \<or> hd r = CHR ''X'') then (Inr r, h\<lparr>gp_client := closeClient c\<rparr>)
         else (Inr r, h\<lparr>gp_client := c\<rparr>))"

definition disconnect :: "'w GdbProcessHandle \<Rightarrow> 'w GdbProcessHandle" where
  "disconnect h = h\<lparr>gp_client := closeClient (gp_client h)\<rparr>"

definition detach :: "'w gdb_io \<Rightarrow> 'w GdbProcessHandle \<Rightarrow> unit expected \<times> 'w GdbProcessHandle" where
  "detach io h =
    (if \<not> connected (gp_client h) then (Inr (), h)
     else case sendPacket io ''D'' (gp_client h) of
       (Inl e, c) \<Rightarrow> (Inl e, h\<lparr>gp_client := closeClient c, gp_error := e\<rparr>)
     | (Inr r, c) \<Rightarrow>
         if r \<noteq> ''OK'' then (Inl ''GDB detach was not confirmed'', h\<lparr>gp_client := closeClient c, gp_error := ''GDB detach was not confirmed''\<rparr>)
         else (Inr (), h\<lparr>gp_client := closeClient c\<rparr>))"

text \<open>The destructor: a handle that owns its session detaches, another one only closes the connection.\<close>

definition destroy_handle :: "'w gdb_io \<Rightarrow> 'w GdbProcessHandle \<Rightarrow> 'w GdbProcessHandle" where
  "destroy_handle io h = (if gp_ownsSession h then snd (detach io h) else disconnect h)"

section \<open>Stubs\<close>

text \<open>
  What the protocol promises of the memory packets, for the replies the client accepts: a read changes
  nothing and its bytes are those of the memory, an OK to a write means that the bytes are in place, and
  no write touches memory outside its range. A stub is atomic when a write it does not confirm did not
  happen.
\<close>

locale gdb_stub =
  fixes io :: "'w gdb_io" and smem :: "'w \<Rightarrow> u64 \<Rightarrow> byte"
  assumes read_frame: "sendPacket io (read_request a n) c = (r, c') \<Longrightarrow> smem (link c') = smem (link c)"
    and read_data: "sendPacket io (read_request a n) c = (Inr s, c') \<Longrightarrow> decodeHex s = Inr bs \<Longrightarrow> length bs \<le> n \<Longrightarrow>
      bs = span_bytes (smem (link c)) a (length bs)"
    and write_ok: "sendPacket io (write_request a bs) c = (Inr ''OK'', c') \<Longrightarrow> smem (link c') = span_upd (smem (link c)) a bs"
    and write_frame: "sendPacket io (write_request a bs) c = (r, c') \<Longrightarrow> \<not> in_span a (length bs) x \<Longrightarrow>
      smem (link c') x = smem (link c) x"

locale gdb_atomic_stub = gdb_stub +
  assumes unconfirmed: "sendPacket io (write_request a bs) c = (r, c') \<Longrightarrow> r \<noteq> Inr ''OK'' \<Longrightarrow> smem (link c') = smem (link c)"

lemma span_bytes_add: "span_bytes m a (k + n) = span_bytes m a k @ span_bytes m (a + of_nat k) n"
proof (rule nth_equalityI)
  fix i assume i: "i < length (span_bytes m a (k + n))"
  show "span_bytes m a (k + n) ! i = (span_bytes m a k @ span_bytes m (a + of_nat k) n) ! i"
  proof (cases "i < k")
    case False
    then have "of_nat i = (of_nat k + of_nat (i - k) :: u64)" by (simp flip: of_nat_add)
    with False i show ?thesis by (simp add: nth_append add.assoc)
  qed (use i in \<open>simp add: nth_append\<close>)
qed simp

lemma span_upd_append:
  assumes "length xs + length ys \<le> 2 ^ 64"
  shows "span_upd (span_upd m a xs) (a + of_nat (length xs)) ys = span_upd m a (xs @ ys)"
proof
  fix x
  define i where "i = unat (x - a)"
  have x: "x = a + of_nat i" "i < 2 ^ 64" unfolding i_def using unsigned_less [of "x - a", where ?'a = nat] by simp_all
  show "span_upd (span_upd m a xs) (a + of_nat (length xs)) ys x = span_upd m a (xs @ ys) x"
  proof (cases "i < length xs")
    case True
    have n: "\<not> in_span (a + of_nat (length xs)) (length ys) x"
    proof
      assume "in_span (a + of_nat (length xs)) (length ys) x"
      then obtain j where j: "j < length ys" "x = a + of_nat (length xs) + of_nat j" by (rule in_spanE)
      then have "of_nat i = (of_nat (length xs + j) :: u64)" using x(1) by (simp add: add.assoc)
      then have "i = length xs + j" using x(2) j(1) assms by (metis (no_types) add_less_cancel_left less_le_trans unat_of_nat_64)
      with True show False by simp
    qed
    with True x show ?thesis by (simp add: span_upd_def in_span_offset nth_append unat_of_nat_64)
  next
    case False
    then have d: "x - (a + of_nat (length xs)) = of_nat (i - length xs)" using x(1) by (simp add: of_nat_diff)
    have "unat (of_nat (i - length xs) :: u64) = i - length xs" using x(2) by (intro unat_of_nat_64) simp
    with False x d show ?thesis by (auto simp: span_upd_def in_span_def nth_append unat_of_nat_64)
  qed
qed

lemma gdb_write_loop_no_error: "0 < k \<Longrightarrow> fst (gdb_write_loop io a xs k c) \<noteq> Inl e"
proof (induction io a xs k c rule: gdb_write_loop.induct)
  case (1 io a xs k c)
  then show ?case by (subst gdb_write_loop.simps) (auto simp: Let_def split: sum.splits prod.splits)
qed

lemma not_in_later_span:
  assumes "\<not> in_span (a + of_nat k) (n - k) x" "k + count \<le> n" "n \<le> 2 ^ 64"
  shows "\<not> in_span (a + of_nat (k + count)) (n - (k + count)) x"
proof
  assume "in_span (a + of_nat (k + count)) (n - (k + count)) x"
  then have "in_span (a + of_nat k + of_nat count) (n - (k + count)) x" by (simp add: add.assoc)
  from in_span_shift [OF this] have "in_span (a + of_nat k) (n - k) x" using assms(2,3) by simp
  with assms(1) show False by simp
qed

context gdb_stub
begin

lemma gdb_read_loop_sound:
  "gdb_read_loop io a n bytes c = (r, c') \<Longrightarrow> bytes = span_bytes (smem (link c)) a (length bytes) \<Longrightarrow> length bytes \<le> n \<Longrightarrow>
   smem (link c') = smem (link c) \<and>
   (\<forall>bs. r = Inr bs \<longrightarrow> length bs \<le> n \<and> bs = span_bytes (smem (link c)) a (length bs))"
proof (induction "n - length bytes" arbitrary: bytes c rule: less_induct)
  case less
  let ?k = "length bytes" and ?count = "min (n - length bytes) (packetSize c div 2)"
  obtain q c1 where s: "sendPacket io (read_request (a + of_nat ?k) ?count) c = (q, c1)"
    by (cases "sendPacket io (read_request (a + of_nat ?k) ?count) c") auto
  have m1: "smem (link c1) = smem (link c)" by (rule read_frame [OF s])
  show ?case
  proof (cases "?k < n \<and> (\<exists>t bs. q = Inr t \<and> decodeHex t = Inr bs \<and> length bs \<le> ?count)")
    case False
    then show ?thesis using less.prems s m1 by (auto simp: gdb_read_loop.simps [of io a n bytes c] Let_def split: if_splits sum.splits)
  next
    case True
    then obtain t bs where t: "q = Inr t" "decodeHex t = Inr bs" "length bs \<le> ?count" by auto
    have b: "bytes @ bs = span_bytes (smem (link c)) a (length (bytes @ bs))"
      using read_data [OF s [unfolded t(1)] t(2,3)] less.prems(2) by (simp add: span_bytes_add)
    show ?thesis
    proof (cases "length bs < ?count \<or> ?count = 0")
      case True
      then have "r = Inr (bytes @ bs)" "c' = c1"
        using less.prems(1) s t \<open>?k < n \<and> _\<close> by (auto simp: gdb_read_loop.simps [of io a n bytes c] Let_def split: if_splits)
      with b t m1 less.prems(3) show ?thesis by auto
    next
      case full: False
      then have l: "gdb_read_loop io a n (bytes @ bs) c1 = (r, c')"
        using less.prems(1) s t \<open>?k < n \<and> _\<close> by (auto simp: gdb_read_loop.simps [of io a n bytes c] Let_def split: if_splits)
      show ?thesis using less.hyps [OF _ l] b full t m1 by auto
    qed
  qed
qed

lemma readMemory_sound:
  assumes "readMemory io a n c = (r, c')"
  shows "smem (link c') = smem (link c)" "r = Inr bs \<Longrightarrow> length bs \<le> n \<and> bs = span_bytes (smem (link c)) a (length bs)"
  using assms gdb_read_loop_sound [of a n "[]" c r c'] by (auto simp: readMemory_def span_bytes_def split: if_splits)

text \<open>One round of \<^verbatim>\<open>writeMemory\<close>: it ends the loop or goes on after a confirmed chunk.\<close>

lemma gdb_write_loop_step:
  assumes "gdb_write_loop io a xs k c = (r, c')" "k < length xs"
  obtains count q c1 where "k + count \<le> length xs"
    "sendPacket io (write_request (a + of_nat k) (take count (drop k xs))) c = (q, c1)"
    "q = Inr ''OK'' \<and> 0 < count \<and> gdb_write_loop io a xs (k + count) c1 = (r, c') \<or>
      (q = Inr ''OK'' \<longrightarrow> count = 0) \<and> c' = c1 \<and> (\<forall>n. r = Inr n \<longrightarrow> n = k)"
proof -
  let ?count = "min (length xs - k) ((packetSize c - 40) div 2)"
  let ?req = "write_request (a + of_nat k) (take ?count (drop k xs))"
  obtain q c1 where s: "sendPacket io ?req c = (q, c1)" by (cases "sendPacket io ?req c") auto
  show ?thesis
  proof (rule that [OF _ s])
    show "k + ?count \<le> length xs" using assms(2) by simp
    show "q = Inr ''OK'' \<and> 0 < ?count \<and> gdb_write_loop io a xs (k + ?count) c1 = (r, c') \<or>
        (q = Inr ''OK'' \<longrightarrow> ?count = 0) \<and> c' = c1 \<and> (\<forall>n. r = Inr n \<longrightarrow> n = k)"
      using assms s
      by (cases q) (auto simp: gdb_write_loop.simps [of io a xs k c] Let_def simp del: min_less_iff_conj split: if_splits)
  qed
qed

lemma gdb_write_loop_frame:
  "gdb_write_loop io a xs k c = (r, c') \<Longrightarrow> k \<le> length xs \<Longrightarrow> length xs \<le> 2 ^ 64 \<Longrightarrow>
   \<not> in_span (a + of_nat k) (length xs - k) x \<Longrightarrow> smem (link c') x = smem (link c) x"
proof (induction "length xs - k" arbitrary: k c rule: less_induct)
  case less
  show ?case
  proof (cases "k < length xs")
    case False
    then show ?thesis using less.prems(1) by (simp add: gdb_write_loop.simps [of io a xs k c])
  next
    case True
    obtain count q c1 where w: "k + count \<le> length xs"
      "sendPacket io (write_request (a + of_nat k) (take count (drop k xs))) c = (q, c1)"
      "q = Inr ''OK'' \<and> 0 < count \<and> gdb_write_loop io a xs (k + count) c1 = (r, c') \<or>
        (q = Inr ''OK'' \<longrightarrow> count = 0) \<and> c' = c1 \<and> (\<forall>n. r = Inr n \<longrightarrow> n = k)"
      using gdb_write_loop_step [OF less.prems(1) True] by blast
    have "\<not> in_span (a + of_nat k) count x" using less.prems(4) in_span_mono w(1) by fastforce
    then have here: "smem (link c1) x = smem (link c) x" using write_frame [OF w(2), of x] w(1) by (simp add: min_absorb2)
    have "\<not> in_span (a + of_nat (k + count)) (length xs - (k + count)) x"
      using not_in_later_span less.prems(3,4) w(1) by blast
    with less.hyps [of "k + count" c1] w less.prems(3) True here show ?thesis by auto
  qed
qed

text \<open>Whatever happens to the connection, the bytes reported as written are in memory.\<close>

lemma gdb_write_loop_prefix:
  "gdb_write_loop io a xs k c = (r, c') \<Longrightarrow> k \<le> length xs \<Longrightarrow> length xs \<le> 2 ^ 64 \<Longrightarrow> r = Inr n \<Longrightarrow>
   span_bytes (smem (link c)) a k = take k xs \<Longrightarrow> n \<le> length xs \<and> span_bytes (smem (link c')) a n = take n xs"
proof (induction "length xs - k" arbitrary: k c rule: less_induct)
  case less
  show ?case
  proof (cases "k < length xs")
    case False
    then have "gdb_write_loop io a xs k c = (Inr k, c)" by (subst gdb_write_loop.simps) simp
    with False have "r = Inr k" "c' = c" "k = length xs" using less.prems(1,2) by simp_all
    then show ?thesis using less.prems(4,5) by simp
  next
    case True
    obtain count q c1 where w: "k + count \<le> length xs"
      "sendPacket io (write_request (a + of_nat k) (take count (drop k xs))) c = (q, c1)"
      "q = Inr ''OK'' \<and> 0 < count \<and> gdb_write_loop io a xs (k + count) c1 = (r, c') \<or>
        (q = Inr ''OK'' \<longrightarrow> count = 0) \<and> c' = c1 \<and> (\<forall>n. r = Inr n \<longrightarrow> n = k)"
      using gdb_write_loop_step [OF less.prems(1) True] by blast
    let ?ys = "take count (drop k xs)"
    have ly: "length ?ys = count" using w(1) by simp
    have keep: "span_bytes (smem (link c1)) a k = span_bytes (smem (link c)) a k"
    proof (rule span_bytes_cong)
      show "\<forall>x. in_span a k x \<longrightarrow> smem (link c1) x = smem (link c) x"
      proof (intro allI impI)
        fix x assume "in_span a k x"
        then obtain i where i: "i < k" "x = a + of_nat i" by (rule in_spanE)
        have "\<not> in_span (a + of_nat k) count x"
        proof
          assume "in_span (a + of_nat k) count x"
          then obtain j where j: "j < count" "x = a + of_nat k + of_nat j" by (rule in_spanE)
          then have "of_nat i = (of_nat (k + j) :: u64)" using i(2) by (simp add: add.assoc)
          then have "i = k + j" using i(1) j(1) w(1) less.prems(3) by (metis (no_types) add_less_cancel_left less_le_trans order_less_trans unat_of_nat_64 le_trans less_imp_le_nat add_leD1)
          with i(1) show False by simp
        qed
        then show "smem (link c1) x = smem (link c) x" using write_frame [OF w(2)] ly by simp
      qed
    qed (use less.prems in simp)
    from w(3) show ?thesis
    proof (elim disjE conjE)
      assume ok: "q = Inr ''OK''" "0 < count" "gdb_write_loop io a xs (k + count) c1 = (r, c')"
      have "span_bytes (smem (link c1)) (a + of_nat k) count = ?ys"
        using write_ok [OF w(2) [unfolded ok(1)]] span_bytes_upd [of ?ys] ly less.prems(3) w(1) by simp
      then have "span_bytes (smem (link c1)) a (k + count) = take (k + count) xs"
        using keep less.prems(5) by (simp add: span_bytes_add take_add)
      with less.hyps [of "k + count" c1] ok w less.prems(3,4) True show ?thesis by auto
    next
      assume "c' = c1" "\<forall>n. r = Inr n \<longrightarrow> n = k"
      with keep less.prems(4,5) True show ?thesis by simp
    qed
  qed
qed

lemma writeMemory_frame:
  assumes "writeMemory io a xs c = (r, c')" "\<not> in_span a (length xs) x"
  shows "smem (link c') x = smem (link c) x"
proof -
  have "length xs \<le> 2 ^ 64" if "length xs \<le> maxDecoded" using that by (simp add: maxDecoded_def)
  then show ?thesis using assms gdb_write_loop_frame [of a xs 0 c r c' x] by (auto simp: writeMemory_def split: if_splits)
qed

lemma writeMemory_prefix:
  assumes "writeMemory io a xs c = (Inr n, c')"
  shows "n \<le> length xs \<and> span_bytes (smem (link c')) a n = take n xs"
proof -
  have "length xs \<le> 2 ^ 64" if "length xs \<le> maxDecoded" using that by (simp add: maxDecoded_def)
  then show ?thesis using assms gdb_write_loop_prefix [of a xs 0 c "Inr n" c' n] by (auto simp: writeMemory_def span_bytes_def split: if_splits)
qed

lemma gp_read_loop_sound:
  "gp_read_loop io a n buf h = (r, h') \<Longrightarrow> buf = span_bytes (smem (link (gp_client h))) a (length buf) \<Longrightarrow> length buf \<le> n \<Longrightarrow>
   smem (link (gp_client h')) = smem (link (gp_client h)) \<and>
   (\<forall>bs. r = Inr bs \<longrightarrow> length bs \<le> n \<and> bs = span_bytes (smem (link (gp_client h))) a (length bs))"
proof (induction "n - length buf" arbitrary: buf h rule: less_induct)
  case less
  let ?k = "length buf" and ?count = "min (n - length buf) kGdbTransferChunk"
  obtain q c where s: "readMemory io (a + of_nat ?k) ?count (gp_client h) = (q, c)"
    by (cases "readMemory io (a + of_nat ?k) ?count (gp_client h)") auto
  note rs = readMemory_sound [OF s]
  show ?case
  proof (cases "?k < n \<and> (\<exists>bs. q = Inr bs)")
    case False
    then show ?thesis using less.prems s rs(1) by (cases q) (auto simp: gp_read_loop.simps [of io a n buf h] Let_def split: if_splits)
  next
    case True
    then obtain bs where q: "q = Inr bs" by auto
    have b: "buf @ bs = span_bytes (smem (link (gp_client h))) a (length (buf @ bs))" "length (buf @ bs) \<le> n"
      using rs(2) [OF q] less.prems(2) True by (auto simp: span_bytes_add)
    show ?thesis
    proof (cases "length bs < ?count")
      case short: True
      then have "r = Inr (buf @ bs)" "h' = h\<lparr>gp_client := c\<rparr>"
        using less.prems(1) s q True by (auto simp: gp_read_loop.simps [of io a n buf h] Let_def split: if_splits)
      with b rs(1) show ?thesis by auto
    next
      case full: False
      then have l: "gp_read_loop io a n (buf @ bs) (h\<lparr>gp_client := c\<rparr>) = (r, h')"
        using less.prems(1) s q True by (auto simp: gp_read_loop.simps [of io a n buf h] Let_def split: if_splits)
      have "0 < length bs" using full True kGdbTransferChunk_pos by (cases bs) auto
      then have d: "n - length (buf @ bs) < n - ?k" using True by (auto simp: length_greater_0_conv [symmetric] simp del: length_greater_0_conv)
      show ?thesis using less.hyps [OF d l] b rs(1) by simp
    qed
  qed
qed

text \<open>One round of \<^verbatim>\<open>GdbProcessHandle::write\<close>.\<close>

lemma gp_write_loop_step:
  assumes "gp_write_loop io a xs k h = (r, h')" "k < length xs"
  obtains count q c where "0 < count" "k + count \<le> length xs"
    "writeMemory io (a + of_nat k) (take count (drop k xs)) (gp_client h) = (q, c)"
    "q = Inr count \<and> gp_write_loop io a xs (k + count) (h\<lparr>gp_client := c\<rparr>) = (r, h') \<or>
     gp_client h' = c \<and> (\<forall>n. r = Inr n \<longrightarrow> n = k \<and> (\<exists>e. q = Inl e) \<or> (\<exists>m. q = Inr m \<and> n = k + m))"
proof -
  let ?count = "min (length xs - k) kGdbTransferChunk"
  obtain q c where s: "writeMemory io (a + of_nat k) (take ?count (drop k xs)) (gp_client h) = (q, c)"
    by (cases "writeMemory io (a + of_nat k) (take ?count (drop k xs)) (gp_client h)") auto
  show ?thesis
  proof (rule that [OF _ _ s])
    show "0 < ?count" "k + ?count \<le> length xs" using assms(2) kGdbTransferChunk_pos by auto
    show "q = Inr ?count \<and> gp_write_loop io a xs (k + ?count) (h\<lparr>gp_client := c\<rparr>) = (r, h') \<or>
     gp_client h' = c \<and> (\<forall>n. r = Inr n \<longrightarrow> n = k \<and> (\<exists>e. q = Inl e) \<or> (\<exists>m. q = Inr m \<and> n = k + m))"
    proof (cases q)
      case (Inl e)
      then show ?thesis using assms s
        by (auto simp: gp_write_loop.simps [of io a xs k h] Let_def simp del: min_less_iff_conj split: if_splits)
    next
      case (Inr m)
      have "m \<le> ?count" using writeMemory_prefix [OF s [unfolded Inr]] by simp
      then have "m < ?count \<or> m = ?count" by linarith
      then show ?thesis using assms s Inr
        by (auto simp: gp_write_loop.simps [of io a xs k h] Let_def simp del: min_less_iff_conj split: if_splits)
    qed
  qed
qed

lemma gp_write_loop_frame:
  "gp_write_loop io a xs k h = (r, h') \<Longrightarrow> k \<le> length xs \<Longrightarrow> length xs \<le> 2 ^ 64 \<Longrightarrow>
   \<not> in_span (a + of_nat k) (length xs - k) x \<Longrightarrow> smem (link (gp_client h')) x = smem (link (gp_client h)) x"
proof (induction "length xs - k" arbitrary: k h rule: less_induct)
  case less
  show ?case
  proof (cases "k < length xs")
    case False
    then have "gp_write_loop io a xs k h = (Inr k, h)" by (subst gp_write_loop.simps) simp
    with less.prems(1) show ?thesis by simp
  next
    case True
    obtain count q c where w: "0 < count" "k + count \<le> length xs"
      "writeMemory io (a + of_nat k) (take count (drop k xs)) (gp_client h) = (q, c)"
      "q = Inr count \<and> gp_write_loop io a xs (k + count) (h\<lparr>gp_client := c\<rparr>) = (r, h') \<or>
       gp_client h' = c \<and> (\<forall>n. r = Inr n \<longrightarrow> n = k \<and> (\<exists>e. q = Inl e) \<or> (\<exists>m. q = Inr m \<and> n = k + m))"
      by (rule gp_write_loop_step [OF less.prems(1) True])
    have "\<not> in_span (a + of_nat k) count x" using less.prems(4) in_span_mono w(2) by fastforce
    then have here: "smem (link c) x = smem (link (gp_client h)) x" using writeMemory_frame [OF w(3), of x] w(2) by (simp add: min_absorb2)
    have out: "\<not> in_span (a + of_nat (k + count)) (length xs - (k + count)) x"
      using not_in_later_span less.prems(3,4) w(2) by blast
    from w(4) show ?thesis
    proof (elim disjE conjE)
      assume l: "gp_write_loop io a xs (k + count) (h\<lparr>gp_client := c\<rparr>) = (r, h')"
      have "length xs - (k + count) < length xs - k" using w(1) True by simp
      from less.hyps [OF this l w(2) less.prems(3) out] here show ?thesis by simp
    qed (use here in simp)
  qed
qed

end

context gdb_atomic_stub
begin

lemma gdb_write_loop_exact:
  "gdb_write_loop io a xs k c = (r, c') \<Longrightarrow> k \<le> length xs \<Longrightarrow> length xs \<le> 2 ^ 64 \<Longrightarrow>
   (\<forall>n. r = Inr n \<longrightarrow> k \<le> n \<and> n \<le> length xs \<and> smem (link c') = span_upd (smem (link c)) (a + of_nat k) (take (n - k) (drop k xs)))"
proof (induction "length xs - k" arbitrary: k c rule: less_induct)
  case less
  show ?case
  proof (cases "k < length xs")
    case False
    then have "gdb_write_loop io a xs k c = (Inr k, c)" by (subst gdb_write_loop.simps) simp
    with False have "r = Inr k" "c' = c" "k = length xs" using less.prems(1,2) by simp_all
    then show ?thesis by simp
  next
    case True
    obtain count q c1 where w: "k + count \<le> length xs"
      "sendPacket io (write_request (a + of_nat k) (take count (drop k xs))) c = (q, c1)"
      "q = Inr ''OK'' \<and> 0 < count \<and> gdb_write_loop io a xs (k + count) c1 = (r, c') \<or>
        (q = Inr ''OK'' \<longrightarrow> count = 0) \<and> c' = c1 \<and> (\<forall>n. r = Inr n \<longrightarrow> n = k)"
      using gdb_write_loop_step [OF less.prems(1) True] by blast
    let ?ys = "take count (drop k xs)"
    have ly: "length ?ys = count" using w(1) by simp
    from w(3) show ?thesis
    proof (elim disjE conjE)
      assume e: "q = Inr ''OK'' \<longrightarrow> count = 0" "c' = c1" "\<forall>n. r = Inr n \<longrightarrow> n = k"
      have "smem (link c1) = smem (link c)"
        using unconfirmed [OF w(2)] write_ok [of "a + of_nat k" ?ys c c1] w(2) e(1) by (cases "q = Inr ''OK''") auto
      with e less.prems(2) show ?thesis by auto
    next
      assume ok: "q = Inr ''OK''" "0 < count" "gdb_write_loop io a xs (k + count) c1 = (r, c')"
      note m1 = write_ok [OF w(2) [unfolded ok(1)]]
      note ih = less.hyps [OF _ ok(3) w(1) less.prems(3)]
      show ?thesis
      proof (intro allI impI)
        fix n assume n: "r = Inr n"
        let ?zs = "take (n - (k + count)) (drop (k + count) xs)"
        have i: "k + count \<le> n" "n \<le> length xs" "smem (link c') = span_upd (smem (link c1)) (a + of_nat (k + count)) ?zs"
          using ih n ok(2) True by auto
        have "?ys @ ?zs = take (n - k) (drop k xs)"
          using take_add [of count "n - (k + count)" "drop k xs"] i(1) by (simp add: add.commute)
        moreover have "smem (link c') = span_upd (smem (link c)) (a + of_nat k) (?ys @ ?zs)"
          using span_upd_append [of ?ys ?zs "smem (link c)" "a + of_nat k"] i m1 ly w(1) less.prems(3) by (simp add: add.assoc)
        ultimately show "k \<le> n \<and> n \<le> length xs \<and> smem (link c') = span_upd (smem (link c)) (a + of_nat k) (take (n - k) (drop k xs))"
          using i by simp
      qed
    qed
  qed
qed

lemma writeMemory_exact:
  assumes "writeMemory io a xs c = (Inr n, c')"
  shows "n \<le> length xs" "smem (link c') = span_upd (smem (link c)) a (take n xs)"
proof -
  have "length xs \<le> 2 ^ 64" if "length xs \<le> maxDecoded" using that by (simp add: maxDecoded_def)
  then show "n \<le> length xs" "smem (link c') = span_upd (smem (link c)) a (take n xs)"
    using assms gdb_write_loop_exact [of a xs 0 c "Inr n" c'] by (auto simp: writeMemory_def split: if_splits)
qed

lemma writeMemory_failed:
  assumes "writeMemory io a xs c = (Inl e, c')"
  shows "smem (link c') = smem (link c)"
proof (cases "length xs > maxDecoded \<or> (xs \<noteq> [] \<and> span_overflows a (length xs))")
  case True
  with assms show ?thesis unfolding writeMemory_def by (simp only: if_True prod.inject)
next
  case False
  then have l: "gdb_write_loop io a xs 0 c = (Inl e, c')" using assms unfolding writeMemory_def by (simp only: if_False)
  have "xs \<noteq> []"
  proof
    assume "xs = []"
    then have "gdb_write_loop io a xs 0 c = (Inr 0, c)" by (subst gdb_write_loop.simps) simp
    with l show False by simp
  qed
  then have w: "gdb_write_loop io a xs 0 c = (Inl e, c')" "0 < length xs" using l by auto
  obtain count q c1 where s: "0 + count \<le> length xs"
    "sendPacket io (write_request (a + of_nat 0) (take count (drop 0 xs))) c = (q, c1)"
    "q = Inr ''OK'' \<and> 0 < count \<and> gdb_write_loop io a xs (0 + count) c1 = (Inl e, c') \<or>
      (q = Inr ''OK'' \<longrightarrow> count = 0) \<and> c' = c1 \<and> (\<forall>n. (Inl e :: nat expected) = Inr n \<longrightarrow> n = 0)"
    by (rule gdb_write_loop_step [OF w])
  from s(3) show ?thesis
  proof (elim disjE conjE)
    assume "0 < count" "gdb_write_loop io a xs (0 + count) c1 = (Inl e, c')"
    then show ?thesis using gdb_write_loop_no_error [of count io a xs c1 e] by simp
  next
    assume f: "q = Inr ''OK'' \<longrightarrow> count = 0" "c' = c1"
    then show ?thesis
      using unconfirmed [OF s(2)] write_ok [of a "take count xs" c c1] s(2) by (cases "q = Inr ''OK''") auto
  qed
qed

lemma gp_write_loop_exact:
  "gp_write_loop io a xs k h = (Inr n, h') \<Longrightarrow> k \<le> length xs \<Longrightarrow> length xs \<le> 2 ^ 64 \<Longrightarrow>
   k \<le> n \<and> n \<le> length xs \<and> smem (link (gp_client h')) = span_upd (smem (link (gp_client h))) (a + of_nat k) (take (n - k) (drop k xs))"
proof (induction "length xs - k" arbitrary: k h rule: less_induct)
  case less
  show ?case
  proof (cases "k < length xs")
    case False
    then have "gp_write_loop io a xs k h = (Inr k, h)" by (subst gp_write_loop.simps) simp
    with less.prems show ?thesis by simp
  next
    case True
    obtain count q c where w: "0 < count" "k + count \<le> length xs"
      "writeMemory io (a + of_nat k) (take count (drop k xs)) (gp_client h) = (q, c)"
      "q = Inr count \<and> gp_write_loop io a xs (k + count) (h\<lparr>gp_client := c\<rparr>) = (Inr n, h') \<or>
       gp_client h' = c \<and> (\<forall>n'. (Inr n :: nat result) = Inr n' \<longrightarrow> n' = k \<and> (\<exists>e. q = Inl e) \<or> (\<exists>m. q = Inr m \<and> n' = k + m))"
      by (rule gp_write_loop_step [OF less.prems(1) True])
    let ?ys = "take count (drop k xs)" and ?m = "smem (link (gp_client h))"
    have ly: "length ?ys = count" using w(2) by simp
    from w(4) show ?thesis
    proof (elim disjE conjE)
      assume ok: "q = Inr count" "gp_write_loop io a xs (k + count) (h\<lparr>gp_client := c\<rparr>) = (Inr n, h')"
      have d: "length xs - (k + count) < length xs - k" using w(1) True by simp
      let ?zs = "take (n - (k + count)) (drop (k + count) xs)"
      have i: "k + count \<le> n" "n \<le> length xs" "smem (link (gp_client h')) = span_upd (smem (link c)) (a + of_nat (k + count)) ?zs"
        using less.hyps [OF d ok(2) w(2) less.prems(3)] by auto
      have m1: "smem (link c) = span_upd ?m (a + of_nat k) ?ys" using writeMemory_exact(2) [OF w(3) [unfolded ok(1)]] ly by simp
      have "?ys @ ?zs = take (n - k) (drop k xs)"
        using take_add [of count "n - (k + count)" "drop k xs"] i(1) by (simp add: add.commute)
      moreover have "smem (link (gp_client h')) = span_upd ?m (a + of_nat k) (?ys @ ?zs)"
        using span_upd_append [of ?ys ?zs ?m "a + of_nat k"] i m1 ly w(2) less.prems(3) by (simp add: add.assoc)
      ultimately show ?thesis using i by simp
    next
      assume f: "gp_client h' = c" "\<forall>n'. (Inr n :: nat result) = Inr n' \<longrightarrow> n' = k \<and> (\<exists>e. q = Inl e) \<or> (\<exists>m. q = Inr m \<and> n' = k + m)"
      then consider e where "n = k" "q = Inl e" | m where "q = Inr m" "n = k + m" by blast
      then show ?thesis
      proof cases
        case 1
        then show ?thesis using writeMemory_failed [OF w(3) [unfolded 1(2)]] f(1) True by simp
      next
        case 2
        then show ?thesis using writeMemory_exact [OF w(3) [unfolded 2(1)]] f(1) w(2) ly by (simp add: min_def)
      qed
    qed
  qed
qed

lemma gp_port: "memory_port (\<lambda>h. smem (link (gp_client h))) (gp_read io) (gp_write io)"
proof
  fix h a n
  obtain r h' where s: "gp_read_loop io a n [] h = (r, h')" by (cases "gp_read_loop io a n [] h") auto
  have l: "smem (link (gp_client h')) = smem (link (gp_client h)) \<and>
      (\<forall>bs. r = Inr bs \<longrightarrow> length bs \<le> n \<and> bs = span_bytes (smem (link (gp_client h))) a (length bs))"
    by (rule gp_read_loop_sound [OF s]) (simp_all add: span_bytes_def)
  then show "smem (link (gp_client (snd (gp_read io h a n)))) = smem (link (gp_client h))"
    using s by (simp add: gp_read_def)
  show "length xs \<le> n \<and> xs = span_bytes (smem (link (gp_client h))) a (length xs)" if "fst (gp_read io h a n) = Inr xs" for xs
    using that l s by (auto simp: gp_read_def split: if_splits)
next
  fix h a x and xs :: "byte list"
  assume a: "span_ok a (length xs)" "\<not> in_span a (length xs) x"
  obtain r h' where s: "gp_write_loop io a xs 0 h = (r, h')" by (cases "gp_write_loop io a xs 0 h") auto
  show "smem (link (gp_client (snd (gp_write io h a xs)))) x = smem (link (gp_client h)) x"
    using gp_write_loop_frame [OF s, of x] a span_ok_le [OF a(1)] s by (simp add: gp_write_def)
next
  fix h a n and xs :: "byte list"
  assume a: "span_ok a (length xs)" "fst (gp_write io h a xs) = Inr n"
  obtain r h' where s: "gp_write_loop io a xs 0 h = (r, h')" by (cases "gp_write_loop io a xs 0 h") auto
  have g: "gp_write io h a xs = (r, h')"
    using s a(1) span_overflows_iff [of "length xs" a] by (auto simp: gp_write_def)
  with a s have "gp_write_loop io a xs 0 h = (Inr n, h')" by simp
  from gp_write_loop_exact [OF this] span_ok_le [OF a(1)]
  show "n \<le> length xs \<and> smem (link (gp_client (snd (gp_write io h a xs)))) = span_upd (smem (link (gp_client h))) a (take n xs)"
    using g by simp
qed

end

section \<open>A stub in front of an address space\<close>

text \<open>
  A concrete peer: it acknowledges every packet, answers memory reads of at most 2048 bytes from an
  address space and performs a write only when all its bytes are mapped.
\<close>

record stub_world =
  sw_space :: address_space
  sw_in :: string
  sw_out :: string

definition before :: "char \<Rightarrow> string \<Rightarrow> string" where
  "before c s = takeWhile (\<lambda>x. x \<noteq> c) s"

definition stub_reply :: "string \<Rightarrow> address_space \<Rightarrow> string \<times> address_space" where
  "stub_reply req s =
    (case req of
       [] \<Rightarrow> ([], s)
     | k # rest \<Rightarrow>
         (let a = before (CHR '','') rest; rest' = drop (length a + 1) rest in
          if k = CHR ''m'' then
            (case as_pread s (of_nat (run_value 16 a)) (min 2048 (run_value 16 rest')) of
               (Inl e, s) \<Rightarrow> (''E01'', s)
             | (Inr xs, s) \<Rightarrow> (hexBytes xs, s))
          else if k = CHR ''M'' then
            (let n = before (CHR '':'') rest' in
             case decodeHex (drop (length n + 1) rest') of
               Inl e \<Rightarrow> (''E02'', s)
             | Inr xs \<Rightarrow>
                 if \<not> retired s \<and> reachable_bytes s (of_nat (run_value 16 a)) (length xs) = length xs
                 then (''OK'', s\<lparr>contents := span_upd (contents s) (of_nat (run_value 16 a)) xs\<rparr>)
                 else (''E02'', s))
          else ([], s)))"

definition stub_io :: "stub_world gdb_io" where
  "stub_io =
    \<lparr> io_send = (\<lambda>dl w s.
        case s of
          [] \<Rightarrow> (Inr (), w)
        | x # rest \<Rightarrow>
            if x = CHR ''$'' then
              (case stub_reply (before (CHR ''#'') rest) (sw_space w) of
                 (r, sp) \<Rightarrow> (Inr (), w\<lparr>sw_space := sp, sw_in := CHR ''+'' # wire_packet (escape_text r), sw_out := sw_out w @ s\<rparr>))
            else (Inr (), w\<lparr>sw_out := sw_out w @ s\<rparr>)),
      io_recv = (\<lambda>dl w. case sw_in w of [] \<Rightarrow> (Inl ''GDB peer disconnected'', w) | x # xs \<Rightarrow> (Inr x, w\<lparr>sw_in := xs\<rparr>)),
      io_stop = (\<lambda>w. False), io_now = (\<lambda>w. 0) \<rparr>"

interpretation stub: gdb_source stub_io sw_in sw_out
  by unfold_locales (auto simp: stub_io_def)

lemma before_hit: "c \<notin> set s \<Longrightarrow> before c (s @ c # r) = s" "c \<notin> set s \<Longrightarrow> before c s = s"
  by (induction s) (auto simp: before_def)

text \<open>Receiving and acknowledging leave a part of the world alone when the transport does.\<close>

definition quiet :: "'w gdb_io \<Rightarrow> ('w \<Rightarrow> 's) \<Rightarrow> bool" where
  "quiet io f \<longleftrightarrow> (\<forall>dl w. f (snd (io_recv io dl w)) = f w) \<and>
     (\<forall>dl w. f (snd (io_send io dl w ''+'')) = f w \<and> f (snd (io_send io dl w ''-'')) = f w)"

lemma quietD:
  assumes "quiet io f"
  shows "io_recv io dl w = (r, w') \<Longrightarrow> f w' = f w" "io_send io dl w ''+'' = (q, w') \<Longrightarrow> f w' = f w"
    "io_send io dl w ''-'' = (q, w') \<Longrightarrow> f w' = f w"
  using assms unfolding quiet_def by (metis snd_conv)+

lemma skip_prefix_quiet: "quiet io f \<Longrightarrow> skip_prefix io dl k w = (r, w') \<Longrightarrow> f w' = f w"
proof (induction io dl k w rule: skip_prefix.induct)
  case (1 io dl k w)
  then show ?case using quietD(1) [OF 1(2), of dl w]
    by (subst (asm) skip_prefix.simps) (auto split: sum.splits prod.splits if_splits)
qed

lemma read_raw_quiet: "quiet io f \<Longrightarrow> read_raw io dl raw sm w = (r, w') \<Longrightarrow> f w' = f w"
proof (induction io dl raw sm w rule: read_raw.induct)
  case (1 io dl raw sm w)
  then show ?case using quietD(1) [OF 1(2), of dl w]
    by (subst (asm) read_raw.simps) (auto split: sum.splits prod.splits if_splits)
qed

lemma readPacket_attempts_quiet: "quiet io f \<Longrightarrow> readPacket_attempts n io na dl w = (r, w') \<Longrightarrow> f w' = f w"
proof (induction n arbitrary: w na)
  case (Suc n)
  note q = quietD [OF Suc.prems(1)] skip_prefix_quiet [OF Suc.prems(1)] read_raw_quiet [OF Suc.prems(1)] Suc.IH [OF Suc.prems(1)]
  show ?case using Suc.prems(2)
    by (auto split: sum.splits prod.splits if_splits option.splits dest!: q)
qed simp

lemma reply_loop_quiet: "quiet io f \<Longrightarrow> reply_loop n io na dl w = (r, w') \<Longrightarrow> f w' = f w"
proof (induction n arbitrary: w)
  case (Suc n)
  show ?case using Suc.prems(2)
    by (auto simp: readPacket_def split: sum.splits prod.splits if_splits simp del: readPacket_attempts.simps
        dest!: readPacket_attempts_quiet [OF Suc.prems(1)] Suc.IH [OF Suc.prems(1)])
qed simp

lemma stub_quiet: "quiet stub_io sw_space"
  by (auto simp: quiet_def stub_io_def split: list.splits)

lemma escape_id: "list_all (\<lambda>c. \<not> must_escape c) s \<Longrightarrow> escape_text s = s"
  by (induction s) auto

lemma hex_plain: "is_hex c \<Longrightarrow> \<not> must_escape c \<and> c \<noteq> CHR '','' \<and> c \<noteq> CHR '':'' \<and> c \<noteq> CHR ''#''"
  by (auto simp: is_hex_def hexValue_def must_escape_def char_code_def Let_def split: if_splits)

lemma hexNumber_plain: "list_all (\<lambda>c. \<not> must_escape c \<and> c \<noteq> CHR '','' \<and> c \<noteq> CHR '':'' \<and> c \<noteq> CHR ''#'') (hexNumber n)"
  using hexNumber_digits [of n] hex_plain by (auto simp: list_all_iff)

lemma hexBytes_plain: "list_all (\<lambda>c. \<not> must_escape c \<and> c \<noteq> CHR '','' \<and> c \<noteq> CHR '':'' \<and> c \<noteq> CHR ''#'') (hexBytes bs)"
  using hexBytes_hex [of bs] hex_plain by (auto simp: list_all_iff)

lemma request_plain: "escape_text (read_request a n) = read_request a n" "escape_text (write_request a bs) = write_request a bs"
  "CHR ''#'' \<notin> set (read_request a n)" "CHR ''#'' \<notin> set (write_request a bs)"
proof -
  have c: "\<not> must_escape (CHR ''m'')" "\<not> must_escape (CHR ''M'')" "\<not> must_escape (CHR '','')" "\<not> must_escape (CHR '':'')"
    by (simp_all add: must_escape_def)
  have p: "list_all (\<lambda>c. \<not> must_escape c) (hexNumber k)" "list_all (\<lambda>c. \<not> must_escape c) (hexBytes bs)" for k
    using hexNumber_plain [of k] hexBytes_plain [of bs] by (auto simp: list_all_iff)
  have r: "list_all (\<lambda>c. \<not> must_escape c) (read_request a n)" "list_all (\<lambda>c. \<not> must_escape c) (write_request a bs)"
    using c p by (simp_all add: read_request_def write_request_def)
  show "escape_text (read_request a n) = read_request a n" "escape_text (write_request a bs) = write_request a bs"
    using r by (simp_all add: escape_id)
  then show "CHR ''#'' \<notin> set (read_request a n)" "CHR ''#'' \<notin> set (write_request a bs)"
    using escape_clean [of "read_request a n"] escape_clean [of "write_request a bs"] by simp_all
qed

lemma stub_reply_read:
  "stub_reply (read_request a n) s =
    (case as_pread s a (min 2048 n) of (Inl e, s) \<Rightarrow> (''E01'', s) | (Inr xs, s) \<Rightarrow> (hexBytes xs, s))"
proof -
  have "CHR '','' \<notin> set (hexNumber (unat a))" using hexNumber_plain by (auto simp: list_all_iff)
  then show ?thesis by (simp add: stub_reply_def read_request_def before_hit Let_def)
qed

lemma stub_reply_write:
  "stub_reply (write_request a xs) s =
    (if \<not> retired s \<and> reachable_bytes s a (length xs) = length xs
     then (''OK'', s\<lparr>contents := span_upd (contents s) a xs\<rparr>) else (''E02'', s))"
proof -
  have "CHR '','' \<notin> set (hexNumber (unat a))" "CHR '':'' \<notin> set (hexNumber (length xs))"
    using hexNumber_plain by (auto simp: list_all_iff)
  then show ?thesis by (simp add: stub_reply_def write_request_def before_hit Let_def)
qed

text \<open>An exchange with the stub, for a request that fits and a short plain reply.\<close>

lemma stub_exchange:
  assumes "connected c" "escape_text req = req" "CHR ''#'' \<notin> set req" "length req \<le> packetSize c"
    "stub_reply req (sw_space (link c)) = (r, sp)" "length r \<le> 4096" "escape_text r = r" "\<not> is_console_reply r"
  shows "\<exists>w'. sendPacket stub_io req c =
      (if is_error_reply r then Inl (''GDB error response: '' @ r) else Inr r, c\<lparr>deadline := timeout c, link := w'\<rparr>) \<and>
      sw_space w' = sp"
proof -
  let ?pk = "wire_packet req" and ?dl = "timeout c"
  have b: "before (CHR ''#'') (req @ CHR ''#'' # t) = req" for t using assms(3) by (rule before_hit)
  obtain w1 k where w1: "send_attempts 3 stub_io (noAck c) ?dl ?pk (link c) = (Inr True, w1)"
    "sw_in w1 = replicate k (CHR ''+'') @ wire_packet r @ []" "k \<le> 17" "sw_space w1 = sp"
  proof (cases "noAck c")
    case True
    then show ?thesis using that [of _ 1] assms(5,7) b by (simp add: numeral_eq_Suc stub_io_def wire_packet_def)
  next
    case False
    then show ?thesis using that [of _ 0] assms(5,7) b by (simp add: numeral_eq_Suc stub_io_def wire_packet_def)
  qed
  have r: "CHR ''#'' \<notin> set r" "length r \<le> maxWire" "decode_raw [] r = Inr r"
    using escape_clean [of r] assms(6,7) decode_escape [of r] by (simp_all add: maxWire_def maxDecoded_def)
  obtain w2 where w2: "readPacket stub_io (noAck c) ?dl w1 = (Inr r, w2)"
    using stub.readPacket_attempts_good [OF w1(2,3) r, of 2 "noAck c" ?dl]
    by (auto simp: readPacket_def numeral_eq_Suc simp del: readPacket_attempts.simps)
  have l: "reply_loop 64 stub_io (noAck c) ?dl w1 =
      (if is_error_reply r then Inl (False, ''GDB error response: '' @ r) else Inr r, w2)"
    using w2 assms(8) reply_loop.simps(2) [of 63 stub_io "noAck c" ?dl w1] by simp
  have "sw_space w2 = sp" using reply_loop_quiet [OF stub_quiet l] w1(4) by simp
  then show ?thesis using assms(1,2,4) w1(1) l by (auto simp: sendPacket_def escape_into_eq Let_def stub_io_def)
qed

lemma stub_outcome:
  assumes s: "sendPacket stub_io req c = (q, c')"
    and req: "escape_text req = req" "CHR ''#'' \<notin> set req"
    and rep: "stub_reply req (sw_space (link c)) = (r, sp)" "length r \<le> 4096" "escape_text r = r" "\<not> is_console_reply r"
  shows "(\<exists>e. q = Inl e) \<and> (sw_space (link c') = sw_space (link c) \<or> is_error_reply r \<and> sw_space (link c') = sp) \<or>
    q = Inr r \<and> \<not> is_error_reply r \<and> sw_space (link c') = sp"
proof (cases "connected c \<and> length req \<le> packetSize c")
  case True
  then obtain w' where "sendPacket stub_io req c =
      (if is_error_reply r then Inl (''GDB error response: '' @ r) else Inr r, c\<lparr>deadline := timeout c, link := w'\<rparr>)"
    "sw_space w' = sp" using stub_exchange [OF _ req _ rep] by blast
  with s show ?thesis by (auto split: if_splits)
next
  case False
  then show ?thesis using s req(1) by (auto simp: sendPacket_def escape_into_eq Let_def stub_io_def split: if_splits)
qed

lemma hexBytes_reply: "\<not> is_error_reply (hexBytes xs)" "\<not> is_console_reply (hexBytes xs)" "escape_text (hexBytes xs) = hexBytes xs"
proof -
  have "d < 16 \<Longrightarrow> digit_char d \<noteq> CHR ''E'' \<and> digit_char d \<noteq> CHR ''O''" for d
    by (erule less_16_cases) (simp_all add: digit_char_def)
  then have d: "digit_char (unat (drop_bit 4 b)) \<noteq> CHR ''E''" "digit_char (unat (drop_bit 4 b)) \<noteq> CHR ''O''" for b :: byte
    using nibble_bounds(1) [of b] by blast+
  show "\<not> is_error_reply (hexBytes xs)" "\<not> is_console_reply (hexBytes xs)"
    using d by (cases xs; auto simp: is_error_reply_def is_console_reply_def)+
  show "escape_text (hexBytes xs) = hexBytes xs" using hexBytes_plain [of xs] by (intro escape_id) (auto simp: list_all_iff)
qed

lemma short_replies:
  "is_error_reply ''E01''" "is_error_reply ''E02''" "\<not> is_error_reply ''OK''" "\<not> is_console_reply ''OK''"
  "\<not> is_console_reply ''E01''" "\<not> is_console_reply ''E02''" "escape_text ''OK'' = ''OK''" "escape_text ''E01'' = ''E01''" "escape_text ''E02'' = ''E02''"
  by code_simp+

lemma as_pread_space: "snd (as_pread s a n) = s" "fst (as_pread s a n) = Inr xs \<Longrightarrow> length xs \<le> n"
  by (auto simp: as_pread_def split: if_splits)

lemma stub_read:
  assumes "sendPacket stub_io (read_request a n) c = (q, c')"
  shows "sw_space (link c') = sw_space (link c)" "q = Inr t \<Longrightarrow> \<exists>xs. t = hexBytes xs \<and> fst (as_pread (sw_space (link c)) a (min 2048 n)) = Inr xs"
proof -
  let ?s = "sw_space (link c)"
  obtain p s' where p: "as_pread ?s a (min 2048 n) = (p, s')" by (cases "as_pread ?s a (min 2048 n)") auto
  then have s': "s' = ?s" using as_pread_space(1) [of ?s a "min 2048 n"] by simp
  note plain = request_plain(1,3) [of a n]
  have *: "sw_space (link c') = ?s \<and> (\<forall>t. q = Inr t \<longrightarrow> (\<exists>xs. t = hexBytes xs \<and> p = Inr xs))"
  proof (cases p)
    case (Inl e)
    with p s' have "stub_reply (read_request a n) ?s = (''E01'', ?s)" by (simp add: stub_reply_read)
    from stub_outcome [OF assms plain this] short_replies show ?thesis by auto
  next
    case (Inr xs)
    with p s' have r: "stub_reply (read_request a n) ?s = (hexBytes xs, ?s)" by (simp add: stub_reply_read)
    have "length (hexBytes xs) \<le> 4096" using as_pread_space(2) [of ?s a "min 2048 n" xs] p Inr by simp
    from stub_outcome [OF assms plain r this] hexBytes_reply [of xs] Inr show ?thesis by auto
  qed
  with p show "sw_space (link c') = ?s" "q = Inr t \<Longrightarrow> \<exists>xs. t = hexBytes xs \<and> fst (as_pread ?s a (min 2048 n)) = Inr xs" by auto
qed

lemma stub_write:
  assumes "sendPacket stub_io (write_request a xs) c = (q, c')"
  shows "q = Inr ''OK'' \<and> sw_space (link c') = (sw_space (link c))\<lparr>contents := span_upd (contents (sw_space (link c))) a xs\<rparr> \<or>
    (\<exists>e. q = Inl e) \<and> sw_space (link c') = sw_space (link c)"
proof -
  let ?s = "sw_space (link c)"
  note plain = request_plain(2,4) [of a xs]
  show ?thesis
  proof (cases "\<not> retired ?s \<and> reachable_bytes ?s a (length xs) = length xs")
    case True
    then have "stub_reply (write_request a xs) ?s = (''OK'', ?s\<lparr>contents := span_upd (contents ?s) a xs\<rparr>)"
      by (simp add: stub_reply_write)
    from stub_outcome [OF assms plain this] short_replies show ?thesis by auto
  next
    case False
    then have "stub_reply (write_request a xs) ?s = (''E02'', ?s)" by (simp add: stub_reply_write)
    from stub_outcome [OF assms plain this] short_replies show ?thesis by auto
  qed
qed

interpretation stub: gdb_atomic_stub stub_io "\<lambda>w. contents (sw_space w)"
proof
  fix a n and c c' :: "stub_world GdbRemoteClient" and r
  assume "sendPacket stub_io (read_request a n) c = (r, c')"
  then show "contents (sw_space (link c')) = contents (sw_space (link c))" by (simp add: stub_read(1))
next
  fix a n s bs and c c' :: "stub_world GdbRemoteClient"
  assume a: "sendPacket stub_io (read_request a n) c = (Inr s, c')" "decodeHex s = Inr bs" "length bs \<le> n"
  then obtain xs where x: "s = hexBytes xs" "fst (as_pread (sw_space (link c)) a (min 2048 n)) = Inr xs"
    using stub_read(2) [OF a(1)] by blast
  with a(2) have "bs = xs" by simp
  with proc_mem.rd_bytes [OF x(2)] show "bs = span_bytes (contents (sw_space (link c))) a (length bs)" by blast
next
  fix a and bs :: "byte list" and c c' :: "stub_world GdbRemoteClient"
  assume "sendPacket stub_io (write_request a bs) c = (Inr ''OK'', c')"
  from stub_write [OF this] show "contents (sw_space (link c')) = span_upd (contents (sw_space (link c))) a bs" by auto
next
  fix a x and bs :: "byte list" and c c' :: "stub_world GdbRemoteClient" and r
  assume "sendPacket stub_io (write_request a bs) c = (r, c')" "\<not> in_span a (length bs) x"
  from stub_write [OF this(1)] this(2) show "contents (sw_space (link c')) x = contents (sw_space (link c)) x"
    by (auto simp: span_upd_def)
next
  fix a and bs :: "byte list" and c c' :: "stub_world GdbRemoteClient" and r
  assume "sendPacket stub_io (write_request a bs) c = (r, c')" "r \<noteq> Inr ''OK''"
  from stub_write [OF this(1)] this(2) show "contents (sw_space (link c')) = contents (sw_space (link c))" by auto
qed

text \<open>The handle on such a stub is a memory port like a local process.\<close>

interpretation gdb_port: memory_port "\<lambda>h. contents (sw_space (link (gp_client h)))" "gp_read stub_io" "gp_write stub_io"
  by (rule stub.gp_port)

lemma hexNumber_length: "n < 16 ^ k \<Longrightarrow> 0 < k \<Longrightarrow> length (hexNumber n) \<le> k"
proof (induction k arbitrary: n)
  case (Suc k)
  show ?case
  proof (cases "n < 16")
    case False
    then have "n div 16 < 16 ^ k" "0 < k" using Suc.prems(1) by (auto simp: less_mult_imp_div_less mult.commute intro: gr0I)
    with Suc.IH [of "n div 16"] False show ?thesis
      by (simp add: hexNumber_def show_base_def digits_of.simps [of 16 n])
  qed (simp add: hexNumber_def show_base_def digits_of.simps [of 16 n])
qed simp

section \<open>Properties\<close>

definition sample_stub_client :: "stub_world GdbRemoteClient" where
  "sample_stub_client = (new_client \<lparr> sw_space = \<lparr> contents = (\<lambda>x. ucast x), mapped = (\<lambda>x. x < 0x2000), retired = False \<rparr>,
     sw_in = [], sw_out = [] \<rparr>)\<lparr>connected := True\<rparr>"

definition sample_handle :: "stub_world GdbProcessHandle" where
  "sample_handle = \<lparr> gp_client = sample_stub_client,
     gp_target = \<lparr> td_architecture = ''i386'', td_osAbi = [], td_machine = default_machine, td_registers = [] \<rparr>,
     gp_runtime = TR_Unknown, gp_regions = [], gp_error = [], gp_ownsSession = True \<rparr>"

text \<open>
  C7: the adapter's memory operations refine an address space, for every stub whose unconfirmed writes do
  not happen: a read never changes memory and returns a prefix of the requested bytes as they are; a write
  that reports a count has stored exactly that prefix, and no write touches memory outside its range,
  whatever mixture of chunks, short replies and failures occurs on the way.
\<close>

theorem gdb_handle_memory:
  assumes "gdb_atomic_stub io smem"
  shows "(gp_read io h a n = (r, h1) \<longrightarrow> smem (link (gp_client h1)) = smem (link (gp_client h)) \<and>
      (\<forall>xs. r = Inr xs \<longrightarrow> length xs \<le> n \<and> xs = span_bytes (smem (link (gp_client h))) a (length xs))) \<and>
    (gp_write io h a ys = (q, h2) \<and> span_ok a (length ys) \<longrightarrow>
      (\<forall>k. q = Inr k \<longrightarrow> k \<le> length ys \<and> smem (link (gp_client h2)) = span_upd (smem (link (gp_client h))) a (take k ys)) \<and>
      (\<forall>x. \<not> in_span a (length ys) x \<longrightarrow> smem (link (gp_client h2)) x = smem (link (gp_client h)) x))"
proof -
  note p = gdb_atomic_stub.gp_port [OF assms]
  show ?thesis
    using memory_port.rd_frame [OF p, of h a n] memory_port.rd_bytes [OF p, of h a n]
      memory_port.wr_bytes [OF p, of a ys h] memory_port.wr_frame [OF p, of a ys _ h]
    by auto
qed

theorem gdb_handle_memory_witness:
  "\<exists>h. gp_write stub_io sample_handle 0x1000 [7, 8, 9] = (Inr 3, h) \<and>
     contents (sw_space (link (gp_client h))) = span_upd (contents (sw_space (link (gp_client sample_handle)))) 0x1000 [7, 8, 9]"
proof -
  let ?w = "gp_write stub_io sample_handle 0x1000 [7, 8, 9]"
  have "fst ?w = Inr 3" by code_simp
  then obtain h where h: "?w = (Inr 3, h)" by (cases ?w) auto
  from gdb_handle_memory [OF stub.gdb_atomic_stub_axioms, of sample_handle "0x1000" 0 _ _ "[7, 8, 9]" "Inr 3" h] h
  show ?thesis by (simp add: span_ok_def)
qed

text \<open>
  C30: \<^verbatim>\<open>writeMemory\<close> over any stub, even one that may have performed a write it could not confirm: every
  byte the client reports as written is in the target's memory, and nothing outside the range changed,
  also when the connection is lost in the middle.
\<close>

theorem writeMemory_reported:
  assumes "gdb_stub io smem" "writeMemory io a xs c = (r, c')"
  shows "(\<forall>n. r = Inr n \<longrightarrow> n \<le> length xs \<and> span_bytes (smem (link c')) a n = take n xs) \<and>
    (\<forall>x. \<not> in_span a (length xs) x \<longrightarrow> smem (link c') x = smem (link c) x)"
  using gdb_stub.writeMemory_frame [OF assms] gdb_stub.writeMemory_prefix [OF assms(1), of a xs c _ c'] assms(2) by blast

theorem writeMemory_reported_witness:
  "\<exists>c'. writeMemory stub_io 0x1ffe [1, 2] sample_stub_client = (Inr 2, c') \<and>
     span_bytes (contents (sw_space (link c'))) 0x1ffe 2 = [1, 2]"
proof -
  let ?w = "writeMemory stub_io 0x1ffe [1, 2] sample_stub_client"
  have "fst ?w = Inr 2" by code_simp
  then obtain c' where h: "?w = (Inr 2, c')" by (cases ?w) auto
  from writeMemory_reported [OF stub.gdb_stub_axioms h] h show ?thesis by (auto simp: numeral_2_eq_2)
qed

text \<open>
  C25: \<^verbatim>\<open>readMemory\<close> gets everything: when the stub answers every chunk of the range in full, the request ends
  and returns all the bytes, however many packets it takes.
\<close>

theorem readMemory_complete:
  assumes "\<And>c. good c \<Longrightarrow> client_ok c"
    and "\<And>c k m. good c \<Longrightarrow> 0 < m \<Longrightarrow> k + m \<le> n \<Longrightarrow> m \<le> packetSize c div 2 \<Longrightarrow>
      \<exists>c'. sendPacket io (read_request (a + of_nat k) m) c = (Inr (hexBytes (span_bytes mem (a + of_nat k) m)), c') \<and> good c'"
    and "good c" "span_ok a n" "n \<le> maxDecoded"
  shows "\<exists>c'. readMemory io a n c = (Inr (span_bytes mem a n), c') \<and> good c'"
proof -
  have "\<exists>c'. gdb_read_loop io a n (span_bytes mem a k) c = (Inr (span_bytes mem a n), c') \<and> good c'" if "good c" "k \<le> n" for c k
    using that
  proof (induction "n - k" arbitrary: k c rule: less_induct)
    case less
    show ?case
    proof (cases "k < n")
      case False
      then show ?thesis using less.prems by (subst gdb_read_loop.simps) auto
    next
      case True
      let ?m = "min (n - k) (packetSize c div 2)"
      have m: "0 < ?m" using True assms(1) [OF less.prems(1)] by (auto simp: client_ok_def)
      have le: "k + ?m \<le> n" using True by simp
      obtain c1 where c1: "sendPacket io (read_request (a + of_nat k) ?m) c = (Inr (hexBytes (span_bytes mem (a + of_nat k) ?m)), c1)" "good c1"
        using assms(2) [OF less.prems(1) m le] by auto
      have "n - (k + ?m) < n - k" "k + ?m \<le> n" using m True by auto
      from less.hyps [OF this(1) c1(2) this(2)] show ?thesis
        using c1(1) m True by (subst gdb_read_loop.simps) (simp add: Let_def span_bytes_add del: min_less_iff_conj)
    qed
  qed
  from this [OF assms(3), of 0] show ?thesis
    using assms(4,5) span_overflows_iff [of n a] by (auto simp: readMemory_def span_bytes_def)
qed

theorem readMemory_complete_witness:
  "\<exists>c'. readMemory stub_io 0x100 1500 sample_stub_client =
     (Inr (span_bytes (contents (sw_space (link sample_stub_client))) 0x100 1500), c')"
proof -
  let ?sp = "sw_space (link sample_stub_client)"
  define good :: "stub_world GdbRemoteClient \<Rightarrow> bool" where
    "good = (\<lambda>c. client_ok c \<and> connected c \<and> packetSize c = 1024 \<and> sw_space (link c) = ?sp)"
  have g: "good sample_stub_client"
    by (simp add: good_def sample_stub_client_def new_client_def client_ok_def maxWire_def)
  have step: "\<exists>c'. sendPacket stub_io (read_request (0x100 + of_nat k) m) c =
      (Inr (hexBytes (span_bytes (contents ?sp) (0x100 + of_nat k) m)), c') \<and> good c'"
    if "good c" "0 < m" "k + m \<le> 1500" "m \<le> packetSize c div 2" for c k m
  proof -
    note hyp = that
    let ?a = "0x100 + of_nat k :: u64" and ?xs = "span_bytes (contents ?sp) (0x100 + of_nat k) m"
    have c: "connected c" "packetSize c = 1024" "sw_space (link c) = ?sp" "client_ok c" using that(1) by (auto simp: good_def)
    have mp: "mapped ?sp (?a + of_nat i)" if "i < m" for i
    proof -
      have "unat (0x100 + of_nat (k + i) :: u64) = 256 + (k + i)"
        using that \<open>k + m \<le> 1500\<close> by (simp add: unat_word_ariths unat_of_nat_64 del: of_nat_add)
      then have "(0x100 + of_nat (k + i) :: u64) < 0x2000" using that \<open>k + m \<le> 1500\<close> by (simp add: word_less_nat_alt)
      then show ?thesis by (simp add: sample_stub_client_def new_client_def add.assoc)
    qed
    have "reachable_bytes ?sp ?a m = m" using mp by (simp add: reachable_bytes_def takeWhile_eq_all_conv [THEN iffD2])
    then have pr: "as_pread ?sp ?a m = (Inr ?xs, ?sp)"
      using mp [of 0] that(2) by (simp add: as_pread_def) (simp add: sample_stub_client_def new_client_def)
    have "stub_reply (read_request ?a m) (sw_space (link c)) = (hexBytes ?xs, ?sp)"
      using pr c that(4) by (simp add: stub_reply_read min_def)
    moreover have "length (read_request ?a m) \<le> packetSize c"
      using hexNumber_length [of "unat ?a" 16] hexNumber_length [of m 16] c(2) that(3) unsigned_less [where ?'a = nat, of ?a]
      by (simp add: read_request_def)
    ultimately obtain w' where "sendPacket stub_io (read_request ?a m) c = (Inr (hexBytes ?xs), c\<lparr>deadline := timeout c, link := w'\<rparr>)"
      "sw_space w' = ?sp"
      using stub_exchange [OF c(1) request_plain(1,3), of ?a m "hexBytes ?xs" ?sp] hexBytes_reply [of ?xs] hyp(4) c(2) by auto
    then show ?thesis using c by (auto simp: good_def client_ok_def)
  qed
  have "\<exists>c'. readMemory stub_io 0x100 1500 sample_stub_client = (Inr (span_bytes (contents ?sp) 0x100 1500), c') \<and> good c'"
    by (rule readMemory_complete [where good = good]) (use g step in \<open>auto simp: good_def span_ok_def maxDecoded_def\<close>)
  then show ?thesis by blast
qed

definition region_has :: "MemoryRegion \<Rightarrow> u64 \<Rightarrow> bool" where
  "region_has r x \<longleftrightarrow> r_base r \<le> x \<and> unat (x - r_base r) < r_size r"

lemma region_has_iff: "region_has r x \<longleftrightarrow> unat (r_base r) \<le> unat x \<and> unat x < unat (r_base r) + r_size r"
  by (auto simp: region_has_def word_le_nat_alt unat_sub)

lemma valid_end: "validRegion r \<Longrightarrow> unat (r_base r + of_nat (r_size r)) = unat (r_base r) + r_size r"
proof -
  assume v: "validRegion r"
  have "unat (- 1 - r_base r) = unat (- 1 :: u64) - unat (r_base r)" by (rule unat_sub) simp
  then have "unat (r_base r) + r_size r < 2 ^ 64"
    using v unsigned_less [where ?'a = nat, of "r_base r"]
    by (simp add: validRegion_def unsigned_minus_1_eq_mask mask_eq_exp_minus_1) arith
  moreover from this have "unat (of_nat (r_size r) :: u64) = r_size r" by (intro unat_of_nat_64) simp
  ultimately show ?thesis by (simp add: unat_word_ariths)
qed

lemma map_regions_valid: "map_regions ms rs = Inr rs' \<Longrightarrow> list_all validRegion rs \<Longrightarrow> list_all validRegion rs'"
  by (induction ms arbitrary: rs) (auto simp: Let_def split: if_splits option.splits)

lemma no_overlap_disjoint:
  "\<not> regions_overlap rs \<Longrightarrow> list_all validRegion rs \<Longrightarrow> sorted (map r_base rs) \<Longrightarrow>
   r \<in> set (take i rs) \<Longrightarrow> i < length rs \<Longrightarrow> unat (r_base r) + r_size r \<le> unat (r_base (rs ! i))"
proof (induction rs arbitrary: i)
  case (Cons s rs)
  then obtain j where i: "i = Suc j" by (cases i) auto
  show ?case
  proof (cases "r = s")
    case True
    obtain t ts where rs: "rs = t # ts" using Cons.prems i by (cases rs) auto
    have v: "validRegion s" using Cons.prems by simp
    have "r_base s + of_nat (r_size s) \<le> r_base t" using Cons.prems(1) rs by (simp add: not_less)
    then have "unat (r_base s) + r_size s \<le> unat (r_base t)" by (simp add: word_le_nat_alt valid_end [OF v])
    moreover have "r_base t \<le> r_base (rs ! j)" using Cons.prems(3,5) i rs by (cases j) auto
    ultimately show ?thesis using True i by (simp add: word_le_nat_alt)
  next
    case False
    moreover have "\<not> regions_overlap rs" using Cons.prems(1) by (cases rs) auto
    ultimately show ?thesis using Cons i by simp
  qed
qed simp


definition sample_parse :: "string \<Rightarrow> xml option" where
  "sample_parse text = (if text = ''<t/>'' then Some (Element ''target'' [] None
     [Element ''architecture'' [] (Some '' i386 '') [], Element ''reg'' [(''name'', ''eax''), (''bitsize'', ''32'')] None []]) else None)"

definition sample_region :: "u64 \<Rightarrow> nat \<Rightarrow> MemoryRegion" where
  "sample_region b n = \<lparr> r_base = b, r_size = n, r_protection = Prot_Read, r_type = MT_Private, r_state = MS_Committed,
     r_path = [], r_fileOffset = None \<rparr>"

definition sample_options :: GdbProcessOptions where
  "sample_options = \<lparr> go_byteOrder = BO_Little, go_pointerWidth = 4, go_runtime = TR_Emulated, go_timeout = 100,
     go_regions = [sample_region 0x5000 0x10, sample_region 0x1000 0x4000] \<rparr>"

definition sample_session :: byte_pipe where
  "sample_session = \<lparr> p_in = ''+'' @ wire_packet ''qXfer:features:read+;PacketSize=400'' @ ''+'' @ wire_packet ''S05'' @
     ''+'' @ wire_packet ''l<t/>'', p_out = [] \<rparr>"


text \<open>The registers collected so far, and what the two closures keep of them.\<close>

definition registers_ok :: "GdbRegisterDescription list \<Rightarrow> bool" where
  "registers_ok rs \<longleftrightarrow> distinct (map rd_number rs) \<and> distinct (map rd_name rs) \<and> length rs \<le> 2048 \<and>
     list_all (\<lambda>r. rd_name r \<noteq> [] \<and> rd_number r \<le> 65535 \<and> 0 < rd_bits r \<and> rd_bits r \<le> 524288) rs"

definition describe_ok :: "'w describe_state \<Rightarrow> bool" where
  "describe_ok st \<longleftrightarrow> registers_ok (td_registers (ds_target st)) \<and>
     set (map rd_number (td_registers (ds_target st))) \<subseteq> set (ds_numbers st) \<and>
     set (map rd_name (td_registers (ds_target st))) \<subseteq> set (ds_names st)"

lemma visit_identity_ok: "describe_ok st \<Longrightarrow> describe_ok (snd (visit_identity x st))"
  by (auto simp: visit_identity_def describe_ok_def Let_def split: option.splits)

lemma visit_register_ok: "describe_ok st \<Longrightarrow> describe_ok (snd (visit_register x st))"
  by (auto simp: visit_register_def describe_ok_def registers_ok_def Let_def split: option.splits)

lemma visit_ok:
  assumes "\<And>annex st. describe_ok st \<Longrightarrow> describe_ok (snd (load_doc annex st))"
  shows "describe_ok st \<Longrightarrow> describe_ok (snd (visit load_doc nesting parents x st))"
    and "describe_ok st \<Longrightarrow> describe_ok (snd (visit_all load_doc nesting parents xs st))"
  using assms
proof (induction load_doc nesting parents x st and load_doc nesting parents xs st rule: visit_visit_all.induct)
  case (1 load_doc nesting parents nm attrs content children st)
  let ?x = "Element nm attrs content children"
  let ?own = "if nm = ''architecture'' \<or> nm = ''osabi'' then visit_identity ?x st else if nm = ''reg'' then visit_register ?x st else (Inr (), st)"
  have own: "describe_ok (snd ?own)" using 1(2) visit_identity_ok visit_register_ok by auto
  obtain q st' where q: "?own = (q, st')" by (cases ?own) auto
  with own have st': "describe_ok st'" by simp
  show ?case
  proof (cases "nesting > 64 \<or> xmlInclude ?x parents")
    case True
    then show ?thesis using 1(2,3) by (auto simp: Let_def split: option.splits)
  next
    case False
    then have v: "visit load_doc nesting parents ?x st =
        (case q of Inl e \<Rightarrow> (Inl e, st') | Inr _ \<Rightarrow> visit_all load_doc (nesting + 1) (?x # parents) children st')"
      unfolding visit.simps Let_def q by simp
    show ?thesis using 1(1) [OF refl _ _ q [symmetric] _ st' 1(3)] False v st' by (cases q) auto
  qed
next
  case (3 load_doc nesting parents x xs st)
  then show ?case by (cases "visit load_doc nesting parents x st") (auto split: sum.splits)
qed simp

lemma load_ok: "describe_ok st \<Longrightarrow> describe_ok (snd (load levels parse io et annex st))"
proof (induction levels arbitrary: annex st)
  case (Suc levels)
  let ?st = "st\<lparr>ds_documents := ds_documents st + 1, ds_active := annex # ds_active st\<rparr>"
  have upd: "describe_ok (st\<lparr>ds_documents := d, ds_active := a, ds_client := c, ds_total := t\<rparr>)"
    "describe_ok (st\<lparr>ds_documents := d\<rparr>)" "describe_ok (st\<lparr>ds_documents := d, ds_active := a, ds_client := c\<rparr>)" for d a c t
    using Suc.prems by (simp_all add: describe_ok_def)
  have act: "describe_ok (s\<lparr>ds_active := a\<rparr>) \<longleftrightarrow> describe_ok s" for s :: "'a describe_state" and a
    by (simp add: describe_ok_def)
  have v: "describe_ok s'" if "visit (load levels parse io et) n ps x s = (r, s')" "describe_ok s" for n ps x s r s'
    using visit_ok(1) [of "load levels parse io et" s n ps x] Suc.IH that by (metis snd_conv)
  show ?case
    using Suc.prems upd
    by (subst load.simps) (auto simp: Let_def act split: sum.splits option.splits prod.splits dest!: v)
qed (simp add: load.simps [of 0])

text \<open>
  C23: a successful \<^verbatim>\<open>describeTarget\<close> yields at most 2048 registers with distinct numbers, distinct names and
  widths between 1 and 524288 bits, however the documents include each other, and the layout it stores
  for whole-bank access holds the same registers in strictly increasing order of their numbers, so a
  register has one place in the bank.
\<close>

theorem describeTarget_layout:
  assumes "describeTarget parse io c = (Inr t, c')"
  shows "registers_ok (td_registers t) \<and> td_registers t \<noteq> [] \<and> set (registerLayout c') = set (td_registers t) \<and>
    sorted_wrt (\<lambda>r s. rd_number r < rd_number s) (registerLayout c')"
proof -
  let ?c = "c\<lparr>registerLayout := []\<rparr>"
  let ?st = "\<lparr> ds_client = ?c, ds_target = \<lparr> td_architecture = [], td_osAbi = [], td_machine = default_machine, td_registers = [] \<rparr>,
     ds_active = [], ds_names = [], ds_numbers = [], ds_next = 0, ds_documents = 0, ds_total = 0 \<rparr>"
  let ?l = "load 9 parse io (io_now io (link ?c) + timeout ?c * 10) ''target.xml'' ?st"
  have "describe_ok ?st" by (simp add: describe_ok_def registers_ok_def)
  then have ok: "describe_ok (snd ?l)" by (rule load_ok)
  have r: "td_registers t = td_registers (ds_target (snd ?l))" "registerLayout c' = sort_key rd_number (td_registers t)" "td_registers t \<noteq> []"
    using assms by (auto simp: describeTarget_def Let_def split: sum.splits prod.splits if_splits)
  have o: "registers_ok (td_registers t)" using ok r(1) by (simp add: describe_ok_def)
  have "sorted (map rd_number (registerLayout c'))" "distinct (map rd_number (registerLayout c'))"
    using o r(2) by (simp_all add: registers_ok_def distinct_map)
  then have "sorted_wrt (<) (map rd_number (registerLayout c'))" by (simp add: strict_sorted_iff)
  then show ?thesis using o r(2,3) by (simp add: sorted_wrt_map)
qed

theorem describeTarget_layout_witness:
  "\<exists>t c'. describeTarget sample_parse pipe_io ((new_client \<lparr> p_in = ''+'' @ wire_packet ''l<t/>'', p_out = [] \<rparr>)
     \<lparr>connected := True, features := [''qXfer:features:read+'']\<rparr>) = (Inr t, c') \<and> registers_ok (td_registers t) \<and>
     map rd_name (td_registers t) = [''eax''] \<and> map rd_bits (td_registers t) = [32]"
proof -
  let ?d = "describeTarget sample_parse pipe_io ((new_client \<lparr> p_in = ''+'' @ wire_packet ''l<t/>'', p_out = [] \<rparr>)
     \<lparr>connected := True, features := [''qXfer:features:read+'']\<rparr>)"
  have "map_sum (\<lambda>e. e) (\<lambda>t. (map rd_name (td_registers t), map rd_bits (td_registers t))) (fst ?d) = Inr ([''eax''], [32])"
    by code_simp
  then obtain t c' where d: "?d = (Inr t, c')" "map rd_name (td_registers t) = [''eax'']" "map rd_bits (td_registers t) = [32]"
    by (cases ?d; cases "fst ?d") auto
  from describeTarget_layout [OF d(1)] have "registers_ok (td_registers t)" by simp
  with d show ?thesis by (intro exI [of _ t] exI [of _ c'] conjI)
qed

end
