(* ===== verification/Registers.thy ===== *)
theory Registers
  imports Machine CoreTypes
begin

text \<open>
  Register snapshots of stopped threads: \<^verbatim>\<open>CpuContext\<close> of \<^verbatim>\<open>src/core/types.hpp\<close>, the editor's rows of
  \<^verbatim>\<open>src/core/cpu_registers.cpp\<close> and the flag decoding of \<^verbatim>\<open>src/arch/cpu_flags.hpp\<close>. The array of 31 ARM
  registers is a list; \<open>context_ok\<close> says that it has its length.
\<close>

unbundle bit_operations_syntax

section \<open>Contexts\<close>

record CpuContext =
  cx_rax :: u64
  cx_rbx :: u64
  cx_rcx :: u64
  cx_rdx :: u64
  cx_rsi :: u64
  cx_rdi :: u64
  cx_rbp :: u64
  cx_rsp :: u64
  cx_r8 :: u64
  cx_r9 :: u64
  cx_r10 :: u64
  cx_r11 :: u64
  cx_r12 :: u64
  cx_r13 :: u64
  cx_r14 :: u64
  cx_r15 :: u64
  cx_rip :: u64
  cx_rflags :: u64
  cx_segments :: "u64 list"
  cx_debug :: "u64 list"
  cx_architecture :: CpuArchitecture
  cx_x :: "u64 list"
  cx_sp :: u64
  cx_pc :: u64
  cx_pstate :: u64
  cx_debugRegistersValid :: bool

text \<open>The segment registers cs, ss, ds, es, fs, gs and the debug registers dr0 to dr3, dr6, dr7 are one list each: no code here names one of them.\<close>

definition empty_context :: CpuContext where
  "empty_context = \<lparr> cx_rax = 0, cx_rbx = 0, cx_rcx = 0, cx_rdx = 0, cx_rsi = 0, cx_rdi = 0, cx_rbp = 0, cx_rsp = 0,
     cx_r8 = 0, cx_r9 = 0, cx_r10 = 0, cx_r11 = 0, cx_r12 = 0, cx_r13 = 0, cx_r14 = 0, cx_r15 = 0, cx_rip = 0, cx_rflags = 0,
     cx_segments = replicate 6 0, cx_debug = replicate 6 0, cx_architecture = CA_Unknown, cx_x = replicate 31 0,
     cx_sp = 0, cx_pc = 0, cx_pstate = 0, cx_debugRegistersValid = False \<rparr>"

definition context_ok :: "CpuContext \<Rightarrow> bool" where
  "context_ok c \<longleftrightarrow> length (cx_x c) = 31"

definition hasArmRegisters :: "CpuContext \<Rightarrow> bool" where
  "hasArmRegisters c \<longleftrightarrow> cx_architecture c = CA_Arm64 \<or> cx_architecture c = CA_Arm32"

definition instructionPointer :: "CpuContext \<Rightarrow> u64" where
  "instructionPointer c = (if hasArmRegisters c then cx_pc c else cx_rip c)"

definition stackPointer :: "CpuContext \<Rightarrow> u64" where
  "stackPointer c = (if hasArmRegisters c then cx_sp c else cx_rsp c)"

definition framePointer :: "CpuContext \<Rightarrow> u64" where
  "framePointer c =
    (if cx_architecture c = CA_Arm32 then cx_x c ! 11 else if cx_architecture c = CA_Arm64 then cx_x c ! 29 else cx_rbp c)"

definition setInstructionPointer :: "u64 \<Rightarrow> CpuContext \<Rightarrow> CpuContext" where
  "setInstructionPointer v c = (if hasArmRegisters c then c\<lparr>cx_pc := v\<rparr> else c\<lparr>cx_rip := v\<rparr>)"

section \<open>Flags\<close>

definition flag :: "u64 \<Rightarrow> nat \<Rightarrow> bool" where
  "flag v n \<longleftrightarrow> v AND push_bit n 1 \<noteq> 0"

text \<open>Parts joined by single spaces, as the loops of the source append them.\<close>

fun space_join :: "string list \<Rightarrow> string" where
  "space_join [] = []"
| "space_join [s] = s"
| "space_join (s # t # ss) = s @ '' '' @ space_join (t # ss)"

definition describeEflags :: "u64 \<Rightarrow> string" where
  "describeEflags v = space_join (map snd (filter (\<lambda>(n, s). flag v n)
    [(0, ''CF''), (2, ''PF''), (4, ''AF''), (6, ''ZF''), (7, ''SF''), (8, ''TF''), (9, ''IF''), (10, ''DF''), (11, ''OF'')]))"

definition describeEflagsVerbose :: "u64 \<Rightarrow> string" where
  "describeEflagsVerbose v = space_join (map (\<lambda>(n, s). s @ (if flag v n then ''=1'' else ''=0''))
    [(0, ''CF''), (2, ''PF''), (4, ''AF''), (6, ''ZF''), (7, ''SF''), (10, ''DF''), (11, ''OF'')])"

definition conditionalJumpTaken :: "string \<Rightarrow> u64 \<Rightarrow> bool option" where
  "conditionalJumpTaken m rflags =
    (let cf = flag rflags 0; pf = flag rflags 2; zf = flag rflags 6; sf = flag rflags 7; ovf = flag rflags 11 in
     if m = ''jmp'' then Some True
     else if m = ''je'' \<or> m = ''jz'' then Some zf
     else if m = ''jne'' \<or> m = ''jnz'' then Some (\<not> zf)
     else if m = ''js'' then Some sf
     else if m = ''jns'' then Some (\<not> sf)
     else if m = ''jo'' then Some ovf
     else if m = ''jno'' then Some (\<not> ovf)
     else if m = ''jp'' \<or> m = ''jpe'' then Some pf
     else if m = ''jnp'' \<or> m = ''jpo'' then Some (\<not> pf)
     else if m = ''jc'' \<or> m = ''jb'' \<or> m = ''jnae'' then Some cf
     else if m = ''jnc'' \<or> m = ''jae'' \<or> m = ''jnb'' then Some (\<not> cf)
     else if m = ''ja'' \<or> m = ''jnbe'' then Some (\<not> cf \<and> \<not> zf)
     else if m = ''jbe'' \<or> m = ''jna'' then Some (cf \<or> zf)
     else if m = ''jg'' \<or> m = ''jnle'' then Some (\<not> zf \<and> sf = ovf)
     else if m = ''jge'' \<or> m = ''jnl'' then Some (sf = ovf)
     else if m = ''jl'' \<or> m = ''jnge'' then Some (sf \<noteq> ovf)
     else if m = ''jle'' \<or> m = ''jng'' then Some (zf \<or> sf \<noteq> ovf)
     else None)"

definition conditionalArm64JumpTaken :: "string \<Rightarrow> u64 \<Rightarrow> bool option" where
  "conditionalArm64JumpTaken m pstate =
    (let n = flag pstate 31; z = flag pstate 30; c = flag pstate 29; v = flag pstate 28 in
     if m = ''b.eq'' then Some z
     else if m = ''b.ne'' then Some (\<not> z)
     else if m = ''b.cs'' \<or> m = ''b.hs'' then Some c
     else if m = ''b.cc'' \<or> m = ''b.lo'' then Some (\<not> c)
     else if m = ''b.mi'' then Some n
     else if m = ''b.pl'' then Some (\<not> n)
     else if m = ''b.vs'' then Some v
     else if m = ''b.vc'' then Some (\<not> v)
     else if m = ''b.hi'' then Some (c \<and> \<not> z)
     else if m = ''b.ls'' then Some (\<not> c \<or> z)
     else if m = ''b.ge'' then Some (n = v)
     else if m = ''b.lt'' then Some (n \<noteq> v)
     else if m = ''b.gt'' then Some (\<not> z \<and> n = v)
     else if m = ''b.le'' then Some (z \<or> n \<noteq> v)
     else if m = ''b'' \<or> m = ''b.al'' \<or> m = ''b.nv'' then Some True
     else None)"

section \<open>Register rows\<close>

record CpuRegisterValue =
  rv_name :: string
  rv_value :: u64
  rv_bits :: nat

definition row :: "string \<Rightarrow> u64 \<Rightarrow> nat \<Rightarrow> CpuRegisterValue" where
  "row n v b = \<lparr> rv_name = n, rv_value = v, rv_bits = b \<rparr>"

text \<open>The member pointers of the x86 rows: how a row is read and how it is stored.\<close>

definition x86Members :: "((CpuContext \<Rightarrow> u64) \<times> (u64 \<Rightarrow> CpuContext \<Rightarrow> CpuContext)) list" where
  "x86Members =
    [(cx_rip, \<lambda>v c. c\<lparr>cx_rip := v\<rparr>), (cx_rsp, \<lambda>v c. c\<lparr>cx_rsp := v\<rparr>), (cx_rbp, \<lambda>v c. c\<lparr>cx_rbp := v\<rparr>),
     (cx_rax, \<lambda>v c. c\<lparr>cx_rax := v\<rparr>), (cx_rbx, \<lambda>v c. c\<lparr>cx_rbx := v\<rparr>), (cx_rcx, \<lambda>v c. c\<lparr>cx_rcx := v\<rparr>),
     (cx_rdx, \<lambda>v c. c\<lparr>cx_rdx := v\<rparr>), (cx_rsi, \<lambda>v c. c\<lparr>cx_rsi := v\<rparr>), (cx_rdi, \<lambda>v c. c\<lparr>cx_rdi := v\<rparr>),
     (cx_rflags, \<lambda>v c. c\<lparr>cx_rflags := v\<rparr>),
     (cx_r8, \<lambda>v c. c\<lparr>cx_r8 := v\<rparr>), (cx_r9, \<lambda>v c. c\<lparr>cx_r9 := v\<rparr>), (cx_r10, \<lambda>v c. c\<lparr>cx_r10 := v\<rparr>),
     (cx_r11, \<lambda>v c. c\<lparr>cx_r11 := v\<rparr>), (cx_r12, \<lambda>v c. c\<lparr>cx_r12 := v\<rparr>), (cx_r13, \<lambda>v c. c\<lparr>cx_r13 := v\<rparr>),
     (cx_r14, \<lambda>v c. c\<lparr>cx_r14 := v\<rparr>), (cx_r15, \<lambda>v c. c\<lparr>cx_r15 := v\<rparr>)]"

definition x64Names :: "string list" where
  "x64Names = [''RIP'', ''RSP'', ''RBP'', ''RAX'', ''RBX'', ''RCX'', ''RDX'', ''RSI'', ''RDI'', ''RFLAGS'',
    ''R8'', ''R9'', ''R10'', ''R11'', ''R12'', ''R13'', ''R14'', ''R15'']"

definition x32Names :: "string list" where
  "x32Names = [''EIP'', ''ESP'', ''EBP'', ''EAX'', ''EBX'', ''ECX'', ''EDX'', ''ESI'', ''EDI'', ''EFLAGS'']"

definition cpuRegisterValues :: "CpuContext \<Rightarrow> CpuRegisterValue list" where
  "cpuRegisterValues c =
    (let m32 = (\<lambda>v. v AND 0xFFFFFFFF) in
     if cx_architecture c = CA_Arm64 then
       [row ''PC'' (cx_pc c) 64, row ''SP'' (cx_sp c) 64, row ''X29'' (cx_x c ! 29) 64, row ''X30'' (cx_x c ! 30) 64]
       @ map (\<lambda>i. row (''X'' @ show_base 10 i) (cx_x c ! i) 64) [0..<29] @ [row ''PSTATE'' (cx_pstate c) 64]
     else if cx_architecture c = CA_Arm32 then
       [row ''PC'' (m32 (cx_pc c)) 32, row ''SP'' (m32 (cx_sp c)) 32, row ''R11'' (m32 (cx_x c ! 11)) 32, row ''LR'' (m32 (cx_x c ! 14)) 32]
       @ map (\<lambda>i. row (''R'' @ show_base 10 i) (m32 (cx_x c ! i)) 32) (filter (\<lambda>i. i \<noteq> 11) [0..<13])
       @ [row ''CPSR'' (m32 (cx_pstate c)) 32]
     else if cx_architecture c = CA_X86_32 then
       map (\<lambda>i. row (x32Names ! i) (m32 (fst (x86Members ! i) c)) 32) [0..<length x32Names]
     else if cx_architecture c = CA_X86_64 then
       map (\<lambda>i. row (x64Names ! i) (fst (x86Members ! i) c) 64) [0..<length x64Names]
     else [])"

text \<open>\<^verbatim>\<open>setCpuRegisterValue\<close>; \<open>None\<close> where it answers false and leaves the context alone.\<close>

definition setCpuRegisterValue :: "CpuContext \<Rightarrow> nat \<Rightarrow> u64 \<Rightarrow> CpuContext option" where
  "setCpuRegisterValue c r v =
    (let x = (\<lambda>i. c\<lparr>cx_x := (cx_x c)[i := v]\<rparr>) in
     if cx_architecture c = CA_Arm32 then
       (if v > 0xFFFFFFFF \<or> r > 16 then None
        else Some (if r = 0 then c\<lparr>cx_pc := v\<rparr> else if r = 1 then c\<lparr>cx_sp := v\<rparr> else if r = 2 then x 11
                   else if r = 3 then x 14 else if r < 15 then x (r - 4) else if r = 15 then x 12 else c\<lparr>cx_pstate := v\<rparr>))
     else if cx_architecture c = CA_Arm64 then
       (if r = 0 then Some (c\<lparr>cx_pc := v\<rparr>) else if r = 1 then Some (c\<lparr>cx_sp := v\<rparr>) else if r = 2 then Some (x 29)
        else if r = 3 then Some (x 30) else if r < 33 then Some (x (r - 4))
        else if r = 33 then Some (c\<lparr>cx_pstate := v\<rparr>) else None)
     else if cx_architecture c \<noteq> CA_X86_32 \<and> cx_architecture c \<noteq> CA_X86_64 then None
     else if cx_architecture c = CA_X86_32 \<and> (r \<ge> length x32Names \<or> v > 0xFFFFFFFF) then None
     else if cx_architecture c = CA_X86_64 \<and> r \<ge> length x64Names then None
     else Some (snd (x86Members ! r) v c))"

text \<open>The loop of \<^verbatim>\<open>mergeCpuRegisterEdits\<close> from a row on.\<close>

fun merge_rows :: "CpuRegisterValue list \<Rightarrow> u64 list \<Rightarrow> nat \<Rightarrow> CpuContext \<Rightarrow> CpuContext expected" where
  "merge_rows (reg # regs) (v # vs) r merged =
    (if v = rv_value reg then merge_rows regs vs (Suc r) merged
     else case setCpuRegisterValue merged r v of
       None \<Rightarrow> Inl (rv_name reg @ '' requires a '' @ show_base 10 (rv_bits reg) @ ''-bit value'')
     | Some merged' \<Rightarrow> merge_rows regs vs (Suc r) merged')"
| "merge_rows _ _ r merged = Inr merged"

definition mergeCpuRegisterEdits :: "CpuContext \<Rightarrow> CpuContext \<Rightarrow> u64 list \<Rightarrow> CpuContext expected" where
  "mergeCpuRegisterEdits current displayed vals =
    (if cx_architecture current \<noteq> cx_architecture displayed
     then Inl ''Thread register mode changed; refresh before applying edits''
     else if cx_architecture current = CA_Arm32 \<and> (cx_pstate current XOR cx_pstate displayed) AND 0x20 \<noteq> 0
     then Inl ''Thread ARM/Thumb mode changed; refresh before applying edits''
     else let regs = cpuRegisterValues displayed in
       if regs = [] \<or> length regs \<noteq> length vals then Inl ''Register snapshot is unavailable or incomplete''
       else merge_rows regs vals 0 current)"

definition status_bit :: "u64 \<Rightarrow> nat \<Rightarrow> string" where
  "status_bit v n = (if drop_bit n v AND 1 \<noteq> 0 then ''1'' else ''0'')"

definition describeCpuStatusFlags :: "CpuContext \<Rightarrow> string" where
  "describeCpuStatusFlags c =
    (if cx_architecture c = CA_Arm32 then
       space_join (map (\<lambda>(s, n). s @ ''='' @ status_bit (cx_pstate c) n)
         [(''N'', 31), (''Z'', 30), (''C'', 29), (''V'', 28), (''Q'', 27), (''T'', 5), (''E'', 9)])
     else if cx_architecture c = CA_Arm64 then
       space_join (map (\<lambda>(s, n). s @ ''='' @ status_bit (cx_pstate c) n) [(''N'', 31), (''Z'', 30), (''C'', 29), (''V'', 28)])
     else if cx_architecture c = CA_X86_32 \<or> cx_architecture c = CA_X86_64 then describeEflagsVerbose (cx_rflags c)
     else [])"

section \<open>Storing a row\<close>

lemma lengths [simp]: "length x86Members = 18" "length x64Names = 18" "length x32Names = 10"
  by (simp_all add: x86Members_def x64Names_def x32Names_def)

lemma less_18_cases:
  assumes "i < (18 :: nat)"
  obtains "i = 0" | "i = 1" | "i = 2" | "i = 3" | "i = 4" | "i = 5" | "i = 6" | "i = 7" | "i = 8" | "i = 9" | "i = 10" | "i = 11" | "i = 12" | "i = 13" | "i = 14" | "i = 15" | "i = 16" | "i = 17"
  using assms by atomize_elim presburger

lemma x86_get_set:
  assumes "r < 18" "i < 18"
  shows "fst (x86Members ! i) (snd (x86Members ! r) v c) = (if i = r then v else fst (x86Members ! i) c)"
  using assms unfolding x86Members_def by (elim less_18_cases; simp)

text \<open>The value of a row, by the architecture's layout.\<close>

definition shown_value :: "CpuContext \<Rightarrow> nat \<Rightarrow> u64" where
  "shown_value c r = rv_value (cpuRegisterValues c ! r)"

definition row_count :: "CpuContext \<Rightarrow> nat" where
  "row_count c = length (cpuRegisterValues c)"

lemma arm32_indices: "filter (\<lambda>i. i \<noteq> 11) [0..<13] = [0..<11] @ [12 :: nat]"
  by code_simp

lemma four: "Suc (Suc (Suc (Suc 0))) = 4"
  by simp

lemma arm64_rows:
  assumes "cx_architecture c = CA_Arm64"
  shows "row_count c = 34"
    "r < 34 \<Longrightarrow> shown_value c r = (if r = 0 then cx_pc c else if r = 1 then cx_sp c else if r = 2 then cx_x c ! 29
       else if r = 3 then cx_x c ! 30 else if r < 33 then cx_x c ! (r - 4) else cx_pstate c)"
  using assms
  by (auto simp: row_count_def shown_value_def cpuRegisterValues_def row_def Let_def nth_append nth_Cons' four simp del: upt_Suc)

lemma arm32_rows:
  assumes "cx_architecture c = CA_Arm32"
  shows "row_count c = 17"
    "r < 17 \<Longrightarrow> shown_value c r = (if r = 0 then cx_pc c else if r = 1 then cx_sp c else if r = 2 then cx_x c ! 11
       else if r = 3 then cx_x c ! 14 else if r < 15 then cx_x c ! (r - 4) else if r = 15 then cx_x c ! 12 else cx_pstate c) AND 0xFFFFFFFF"
  using assms
  by (auto simp: row_count_def shown_value_def cpuRegisterValues_def row_def Let_def nth_append nth_Cons' arm32_indices four simp del: upt_Suc)

lemma x86_32_rows:
  assumes "cx_architecture c = CA_X86_32"
  shows "row_count c = 10" "r < 10 \<Longrightarrow> shown_value c r = fst (x86Members ! r) c AND 0xFFFFFFFF"
  using assms by (auto simp: row_count_def shown_value_def cpuRegisterValues_def row_def Let_def simp del: upt_Suc)

lemma x86_64_rows:
  assumes "cx_architecture c = CA_X86_64"
  shows "row_count c = 18" "r < 18 \<Longrightarrow> shown_value c r = fst (x86Members ! r) c"
  using assms by (auto simp: row_count_def shown_value_def cpuRegisterValues_def row_def Let_def simp del: upt_Suc)

lemma small_and: "v \<le> 0xFFFFFFFF \<Longrightarrow> v AND 0xFFFFFFFF = (v :: u64)"
proof -
  assume "v \<le> 0xFFFFFFFF"
  then have "unat v < 2 ^ 32" by (simp add: word_le_nat_alt)
  then have "take_bit 32 v = v" by (simp add: word_unat_eq_iff unsigned_take_bit_eq take_bit_nat_eq_self)
  then show ?thesis by (simp add: take_bit_eq_mask mask_eq_exp_minus_1)
qed

lemma x86_set_frame:
  assumes "r < 18"
  shows "cx_architecture (snd (x86Members ! r) v c) = cx_architecture c" "cx_x (snd (x86Members ! r) v c) = cx_x c"
    "cx_segments (snd (x86Members ! r) v c) = cx_segments c" "cx_debug (snd (x86Members ! r) v c) = cx_debug c"
    "cx_debugRegistersValid (snd (x86Members ! r) v c) = cx_debugRegistersValid c"
  using assms unfolding x86Members_def by (elim less_18_cases; simp)+

text \<open>What an accepted store does: the row shows the new value, every other row what it showed before.\<close>

lemma setCpuRegisterValue_rows:
  assumes "setCpuRegisterValue c r v = Some c'" "context_ok c"
  shows "context_ok c'" "cx_architecture c' = cx_architecture c" "r < row_count c" "row_count c' = row_count c"
    "\<And>i. i < row_count c \<Longrightarrow> shown_value c' i = (if i = r then v else shown_value c i)"
    "cx_segments c' = cx_segments c \<and> cx_debug c' = cx_debug c \<and> cx_debugRegistersValid c' = cx_debugRegistersValid c"
proof -
  have len: "length (cx_x c) = 31" using assms(2) by (simp add: context_ok_def)
  consider "cx_architecture c = CA_Arm32" | "cx_architecture c = CA_Arm64" | "cx_architecture c = CA_X86_32" | "cx_architecture c = CA_X86_64"
    using assms(1) by (fastforce simp: setCpuRegisterValue_def Let_def split: if_splits)
  then have "context_ok c' \<and> cx_architecture c' = cx_architecture c \<and> r < row_count c \<and> row_count c' = row_count c \<and>
    (\<forall>i < row_count c. shown_value c' i = (if i = r then v else shown_value c i)) \<and>
    cx_segments c' = cx_segments c \<and> cx_debug c' = cx_debug c \<and> cx_debugRegistersValid c' = cx_debugRegistersValid c"
  proof cases
    case 1
    with assms(1) have v: "\<not> v > 0xFFFFFFFF" "r \<le> 16" "cx_architecture c' = CA_Arm32"
      by (auto simp: setCpuRegisterValue_def Let_def split: if_splits)
    then have "v AND 0xFFFFFFFF = v" by (intro small_and) simp
    then show ?thesis using assms(1) v 1 len
      by (auto simp: setCpuRegisterValue_def Let_def context_ok_def arm32_rows split: if_splits)
  next
    case 2
    with assms(1) have v: "r < 34" "cx_architecture c' = CA_Arm64"
      by (auto simp: setCpuRegisterValue_def Let_def split: if_splits)
    then show ?thesis using assms(1) 2 len
      by (auto simp: setCpuRegisterValue_def Let_def context_ok_def arm64_rows split: if_splits)
  next
    case 3
    with assms(1) have v: "\<not> v > 0xFFFFFFFF" "r < 10" "c' = snd (x86Members ! r) v c"
      by (auto simp: setCpuRegisterValue_def Let_def split: if_splits)
    then have "v AND 0xFFFFFFFF = v" by (intro small_and) simp
    then show ?thesis using v 3 len x86_set_frame [of r v c]
      by (auto simp: context_ok_def x86_32_rows x86_get_set)
  next
    case 4
    with assms(1) have v: "r < 18" "c' = snd (x86Members ! r) v c"
      by (auto simp: setCpuRegisterValue_def Let_def split: if_splits)
    then show ?thesis using 4 len x86_set_frame [of r v c]
      by (auto simp: context_ok_def x86_64_rows x86_get_set)
  qed
  then show "context_ok c'" "cx_architecture c' = cx_architecture c" "r < row_count c" "row_count c' = row_count c"
    "\<And>i. i < row_count c \<Longrightarrow> shown_value c' i = (if i = r then v else shown_value c i)"
    "cx_segments c' = cx_segments c \<and> cx_debug c' = cx_debug c \<and> cx_debugRegistersValid c' = cx_debugRegistersValid c" by auto
qed

section \<open>Merging edits\<close>

lemma merge_rows_ok:
  "merge_rows regs vs r c = Inr m \<Longrightarrow> length regs = length vs \<Longrightarrow> context_ok c \<Longrightarrow> r + length vs \<le> row_count c \<Longrightarrow>
   row_count m = row_count c \<and> cx_architecture m = cx_architecture c \<and> cx_segments m = cx_segments c \<and> cx_debug m = cx_debug c \<and>
   (\<forall>i < r. shown_value m i = shown_value c i) \<and>
   (\<forall>j < length vs. shown_value m (r + j) = (if vs ! j \<noteq> rv_value (regs ! j) then vs ! j else shown_value c (r + j)))"
proof (induction regs vs r c rule: merge_rows.induct)
  case (1 reg regs v vs r c)
  have "\<exists>c1. merge_rows regs vs (Suc r) c1 = Inr m \<and> context_ok c1 \<and> row_count c1 = row_count c \<and> cx_architecture c1 = cx_architecture c \<and>
      cx_segments c1 = cx_segments c \<and> cx_debug c1 = cx_debug c \<and>
      (\<forall>i < row_count c. shown_value c1 i = (if i = r \<and> v \<noteq> rv_value reg then v else shown_value c i)) \<and>
      (merge_rows regs vs (Suc r) c1 = Inr m \<longrightarrow> length regs = length vs \<longrightarrow> context_ok c1 \<longrightarrow> Suc r + length vs \<le> row_count c1 \<longrightarrow>
        row_count m = row_count c1 \<and> cx_architecture m = cx_architecture c1 \<and> cx_segments m = cx_segments c1 \<and> cx_debug m = cx_debug c1 \<and>
        (\<forall>i < Suc r. shown_value m i = shown_value c1 i) \<and>
        (\<forall>j < length vs. shown_value m (Suc r + j) = (if vs ! j \<noteq> rv_value (regs ! j) then vs ! j else shown_value c1 (Suc r + j))))"
  proof (cases "v = rv_value reg")
    case True
    with 1(1) [OF True] 1(3,5) show ?thesis by (intro exI [of _ c]) simp
  next
    case False
    with 1(3) obtain c1 where s: "setCpuRegisterValue c r v = Some c1" "merge_rows regs vs (Suc r) c1 = Inr m"
      by (auto split: option.splits)
    from setCpuRegisterValue_rows [OF s(1) 1(5)] 1(2) [OF False s(1)] False s(2) show ?thesis by (intro exI [of _ c1]) simp
  qed
  then obtain c1 where c1: "row_count c1 = row_count c" "cx_architecture c1 = cx_architecture c" "cx_segments c1 = cx_segments c"
      "cx_debug c1 = cx_debug c" "\<And>i. i < row_count c \<Longrightarrow> shown_value c1 i = (if i = r \<and> v \<noteq> rv_value reg then v else shown_value c i)"
    and m: "row_count m = row_count c1" "cx_architecture m = cx_architecture c1" "cx_segments m = cx_segments c1" "cx_debug m = cx_debug c1"
      "\<And>i. i < Suc r \<Longrightarrow> shown_value m i = shown_value c1 i"
      "\<And>j. j < length vs \<Longrightarrow> shown_value m (Suc r + j) = (if vs ! j \<noteq> rv_value (regs ! j) then vs ! j else shown_value c1 (Suc r + j))"
    using 1(4,6) by auto
  have "shown_value m (r + j) = (if (v # vs) ! j \<noteq> rv_value ((reg # regs) ! j) then (v # vs) ! j else shown_value c (r + j))"
    if "j < length (v # vs)" for j
  proof (cases j)
    case 0
    then show ?thesis using m(5) [of r] c1(5) [of r] 1(6) by simp
  next
    case (Suc k)
    then show ?thesis using m(6) [of k] c1(5) [of "Suc (r + k)"] that 1(6) by simp
  qed
  moreover have "shown_value m i = shown_value c i" if "i < r" for i using that m(5) [of i] c1(5) [of i] 1(6) by simp
  ultimately show ?case using c1(1-4) m(1-4) by simp
qed auto

text \<open>
  Applying edited register values to a thread keeps what was not edited: every row whose value differs
  from the displayed one is set to it, every other row keeps the thread's current value, even if that moved
  since the display, and the registers without a row (segments, debug registers) and the mode do not change.
\<close>

theorem mergeCpuRegisterEdits_rows:
  assumes "mergeCpuRegisterEdits current displayed vals = Inr m" "context_ok current"
  shows "length vals = row_count current \<and> row_count m = row_count current \<and> cx_architecture m = cx_architecture current \<and>
    cx_segments m = cx_segments current \<and> cx_debug m = cx_debug current \<and>
    (\<forall>i < length vals. shown_value m i = (if vals ! i \<noteq> shown_value displayed i then vals ! i else shown_value current i))"
proof -
  have a: "cx_architecture current = cx_architecture displayed" "length (cpuRegisterValues displayed) = length vals"
    "merge_rows (cpuRegisterValues displayed) vals 0 current = Inr m"
    using assms(1) by (auto simp: mergeCpuRegisterEdits_def Let_def split: if_splits)
  have n: "row_count displayed = row_count current"
    using a(1) by (simp add: row_count_def cpuRegisterValues_def Let_def split: if_splits)
  then have "length vals = row_count current" using a(2) by (simp add: row_count_def)
  with merge_rows_ok [OF a(3,2) assms(2)] show ?thesis by (simp add: shown_value_def)
qed

theorem mergeCpuRegisterEdits_rows_witness:
  "\<exists>m. mergeCpuRegisterEdits (empty_context\<lparr>cx_architecture := CA_X86_32, cx_rip := 0x2000\<rparr>)
      (empty_context\<lparr>cx_architecture := CA_X86_32, cx_rip := 0x1000\<rparr>) [0x1000, 5, 0, 0, 0, 0, 0, 0, 0, 0] = Inr m \<and>
    shown_value m 0 = 0x2000 \<and> shown_value m 1 = 5"
proof -
  let ?cur = "empty_context\<lparr>cx_architecture := CA_X86_32, cx_rip := 0x2000\<rparr>" and ?vals = "[0x1000, 5, 0, 0, 0, 0, 0, 0, 0, 0]"
  let ?dis = "empty_context\<lparr>cx_architecture := CA_X86_32, cx_rip := 0x1000\<rparr>"
  have "is_ok (mergeCpuRegisterEdits ?cur ?dis ?vals)" by code_simp
  then obtain m where m: "mergeCpuRegisterEdits ?cur ?dis ?vals = Inr m" by (auto simp: is_ok_iff)
  have d: "shown_value ?dis 0 = 0x1000" "shown_value ?dis 1 = 0" "shown_value ?cur 0 = 0x2000" by code_simp+
  have ok: "context_ok ?cur" by (simp add: context_ok_def empty_context_def)
  note all = mergeCpuRegisterEdits_rows [OF m ok, THEN conjunct2, THEN conjunct2, THEN conjunct2, THEN conjunct2, THEN conjunct2, rule_format]
  have "shown_value m 0 = 0x2000" using all [of 0] unfolding d by simp
  moreover have "shown_value m 1 = 5" using all [of 1] unfolding d by simp
  ultimately show ?thesis using m by blast
qed

section \<open>Branch predictions\<close>

text \<open>
  The flags after a comparison of two operands of any width (a subtraction that only sets flags), as the
  x86 manuals define them: borrow, zero, sign and signed overflow; the ARM carry is the inverted borrow.
\<close>

definition cmp_overflow :: "'a::len word \<Rightarrow> 'a word \<Rightarrow> bool" where
  "cmp_overflow a b \<longleftrightarrow> sint (a - b) \<noteq> sint a - sint b"

definition x86_cmp_flags :: "'a::len word \<Rightarrow> 'a word \<Rightarrow> u64 \<Rightarrow> bool" where
  "x86_cmp_flags a b f \<longleftrightarrow> flag f 0 = (a < b) \<and> flag f 6 = (a = b) \<and> flag f 7 = (sint (a - b) < 0) \<and> flag f 11 = cmp_overflow a b"

definition arm_cmp_flags :: "'a::len word \<Rightarrow> 'a word \<Rightarrow> u64 \<Rightarrow> bool" where
  "arm_cmp_flags a b f \<longleftrightarrow> flag f 29 = (\<not> a < b) \<and> flag f 30 = (a = b) \<and> flag f 31 = (sint (a - b) < 0) \<and> flag f 28 = cmp_overflow a b"

lemma cmp_signed: "(sint (a - b) < 0) \<noteq> cmp_overflow a b \<longleftrightarrow> a <s b" for a b :: "'a::len word"
proof -
  let ?M = "2 ^ (LENGTH('a) - 1) :: int" and ?d = "sint a - sint b"
  have r: "- ?M \<le> sint x" "sint x < ?M" for x :: "'a word"
    by (simp_all add: sint_greater_eq sint_less)
  have m: "(2 :: int) ^ LENGTH('a) = 2 * ?M" by (simp flip: power_Suc)
  have w: "sint (a - b) = (?d + ?M) mod (2 * ?M) - ?M"
    by (simp add: sint_word_diff signed_take_bit_eq_take_bit_shift take_bit_eq_mod m)
  consider "- ?M \<le> ?d" "?d < ?M" | "?M \<le> ?d" | "?d < - ?M" by linarith
  then show ?thesis
  proof cases
    case 1
    then have "sint (a - b) = ?d" unfolding w by simp
    then show ?thesis by (simp add: cmp_overflow_def word_sless_alt)
  next
    case 2
    have "(?d + ?M) mod (2 * ?M) = (?d - ?M + 1 * (2 * ?M)) mod (2 * ?M)" by (simp add: algebra_simps)
    also have "\<dots> = ?d - ?M" using 2 r(2) [of a] r(1) [of b] by (simp only: mod_mult_self1) simp
    finally have e: "sint (a - b) = ?d - 2 * ?M" unfolding w by simp
    with 2 r(2) [of a] r(1) [of b] show ?thesis by (simp add: cmp_overflow_def word_sless_alt)
  next
    case 3
    have "(?d + ?M) mod (2 * ?M) = (?d + 3 * ?M + (- 1) * (2 * ?M)) mod (2 * ?M)" by (simp add: algebra_simps)
    also have "\<dots> = ?d + 3 * ?M" using 3 r(1) [of a] r(2) [of b] by (simp only: mod_mult_self1) simp
    finally have e: "sint (a - b) = ?d + 2 * ?M" unfolding w by simp
    with 3 r(1) [of a] r(2) [of b] show ?thesis by (simp add: cmp_overflow_def word_sless_alt)
  qed
qed



end
