(* ===== verification/Breakpoint.thy ===== *)
theory Breakpoint
  imports Registers
begin

text \<open>
  The breakpoint manager: \<^verbatim>\<open>src/debug/breakpoint_manager.cpp\<close>. The Lua interpreter that evaluates conditions and
  the debugger that programs threads are parameters. \<^verbatim>\<open>recordHit\<close> releases the manager's lock while a
  condition runs, so it is modelled as the two critical sections it consists of; the step relation at the
  end lets operations of other threads run between them.
\<close>

unbundle bit_operations_syntax

section \<open>Data\<close>

datatype BpType = BP_Execute | BP_Write | BP_Read | BP_Access
datatype BpAction = BA_Break | BA_FindCode | BA_FindAccess | BA_Trace | BA_OnBreakpoint
datatype BpMethod = BM_Hardware | BM_Software

record Breakpoint =
  bp_id :: int
  bp_address :: u64
  bp_type :: BpType
  bp_action :: BpAction
  bp_method :: BpMethod
  bp_hwRegister :: int
  bp_size :: int
  bp_enabled :: bool
  bp_oneShot :: bool
  bp_threadFilter :: int
  bp_condition :: string
  bp_description :: string
  bp_hitCount :: int

definition default_breakpoint :: Breakpoint where
  "default_breakpoint = \<lparr> bp_id = 0, bp_address = 0, bp_type = BP_Execute, bp_action = BA_Break, bp_method = BM_Hardware,
     bp_hwRegister = - 1, bp_size = 1, bp_enabled = True, bp_oneShot = False, bp_threadFilter = 0, bp_condition = [],
     bp_description = [], bp_hitCount = 0 \<rparr>"

record BreakpointHit =
  hit_bpId :: int
  hit_address :: u64
  hit_rip :: u64
  hit_tid :: int
  hit_context :: CpuContext
  hit_instructionBytes :: "byte list"
  hit_instructionText :: string

record BreakpointManager =
  bm_breakpoints :: "Breakpoint list"
  bm_hitLog :: "int \<Rightarrow> BreakpointHit list option"
  bm_nextId :: int
  bm_callback :: bool

definition int_max :: int where "int_max = 2147483647"

definition new_manager :: BreakpointManager where
  "new_manager = \<lparr> bm_breakpoints = [], bm_hitLog = (\<lambda>_. None), bm_nextId = 1, bm_callback = False \<rparr>"

section \<open>Conditions\<close>

definition lower_char :: "char \<Rightarrow> char" where
  "lower_char c = (if 65 \<le> char_code c \<and> char_code c \<le> 90 then char_of (char_code c + 32) else c)"

definition upper_char :: "char \<Rightarrow> char" where
  "upper_char c = (if 97 \<le> char_code c \<and> char_code c \<le> 122 then char_of (char_code c - 32) else c)"

text \<open>\<^verbatim>\<open>setRegister\<close>: a value under its two names.\<close>

definition setRegister :: "string \<Rightarrow> string \<Rightarrow> u64 \<Rightarrow> (string \<times> u64) list" where
  "setRegister lower upper v = [(lower, v), (upper, v)]"

definition x86_condition_registers :: "CpuContext \<Rightarrow> (string \<times> u64) list" where
  "x86_condition_registers c =
    [(''rax'', cx_rax c), (''rbx'', cx_rbx c), (''rcx'', cx_rcx c), (''rdx'', cx_rdx c), (''rsi'', cx_rsi c), (''rdi'', cx_rdi c),
     (''rbp'', cx_rbp c), (''rsp'', cx_rsp c), (''r8'', cx_r8 c), (''r9'', cx_r9 c), (''r10'', cx_r10 c), (''r11'', cx_r11 c),
     (''r12'', cx_r12 c), (''r13'', cx_r13 c), (''r14'', cx_r14 c), (''r15'', cx_r15 c)]"

definition arm_aliases :: "CpuContext \<Rightarrow> (string \<times> u64) list" where
  "arm_aliases c =
    (if cx_architecture c = CA_Arm64 then [(''fp'', cx_x c ! 29), (''lr'', cx_x c ! 30)]
     else if cx_architecture c = CA_Arm32 then
       [(''fp'', cx_x c ! 11), (''lr'', cx_x c ! 14), (''r13'', cx_sp c), (''r14'', cx_x c ! 14), (''r15'', cx_pc c)]
     else [])"

text \<open>
  \<^verbatim>\<open>exposeConditionGlobals\<close>: the assignments to globals in their order, and the fields of the tables
  \<^verbatim>\<open>bp\<close> (whose description is a string) and \<^verbatim>\<open>ctx\<close>. A later assignment to the same name wins.
\<close>

definition condition_globals :: "Breakpoint \<Rightarrow> BreakpointHit \<Rightarrow> (string \<times> u64) list" where
  "condition_globals bp hit =
    (let c = hit_context hit in
     [(''bpId'', of_int (bp_id bp)), (''address'', hit_address hit), (''rip'', hit_rip hit), (''tid'', of_int (hit_tid hit)),
      (''hitCount'', of_int (bp_hitCount bp) + 1)]
     @ (if \<not> hasArmRegisters c
        then concat (map (\<lambda>(n, v). setRegister n (map upper_char n) v)
               (x86_condition_registers c @ [(''rflags'', cx_rflags c)]))
        else [])
     @ concat (map (\<lambda>r. setRegister (map lower_char (rv_name r)) (rv_name r) (rv_value r)) (cpuRegisterValues c))
     @ concat (map (\<lambda>(n, v). setRegister n (map upper_char n) v)
         (arm_aliases c)))"

definition condition_bp_table :: "Breakpoint \<Rightarrow> (string \<times> u64) list \<times> string" where
  "condition_bp_table bp =
    ([(''id'', of_int (bp_id bp)), (''address'', bp_address bp), (''hitCount'', of_int (bp_hitCount bp) + 1)], bp_description bp)"

definition condition_ctx_table :: "BreakpointHit \<Rightarrow> (string \<times> u64) list" where
  "condition_ctx_table hit =
    (let c = hit_context hit in
     (if \<not> hasArmRegisters c then x86_condition_registers c @ [(''rip'', cx_rip c), (''rflags'', cx_rflags c)] else [])
     @ concat (map (\<lambda>r. [(map lower_char (rv_name r), rv_value r), (rv_name r, rv_value r)]) (cpuRegisterValues c))
     @ arm_aliases c)"

text \<open>
  The interpreter: a fresh sandboxed state with the globals and tables, if one can be made, and the result
  of loading and running a chunk in it: an error with its message if it is a string, or the truth values of
  what it returned.
\<close>

datatype lua_outcome = CompileError "string option" | RunError "string option" | Returned "bool list"

record 'l lua_api =
  lua_new :: "(string \<times> u64) list \<Rightarrow> (string \<times> u64) list \<times> string \<Rightarrow> (string \<times> u64) list \<Rightarrow> 'l option"
  lua_run :: "'l \<Rightarrow> string \<Rightarrow> lua_outcome \<times> 'l"

text \<open>\<^verbatim>\<open>runConditionChunk\<close>: whether it succeeded and the match, or the error.\<close>

definition runConditionChunk :: "'l lua_api \<Rightarrow> 'l \<Rightarrow> string \<Rightarrow> bool \<Rightarrow> (string + bool) \<times> 'l" where
  "runConditionChunk api l chunk requireResult =
    (case lua_run api l chunk of
       (CompileError e, l) \<Rightarrow> (Inl (case e of Some m \<Rightarrow> m | None \<Rightarrow> ''failed to compile breakpoint condition''), l)
     | (RunError e, l) \<Rightarrow> (Inl (case e of Some m \<Rightarrow> m | None \<Rightarrow> ''failed to execute breakpoint condition''), l)
     | (Returned vs, l) \<Rightarrow>
         if vs = [] then
           (if requireResult then (Inl ''breakpoint condition did not return a value'', l) else (Inr True, l))
         else (Inr (last vs), l))"

text \<open>The three attempts at the end of \<^verbatim>\<open>conditionMatches\<close>: the answer and the error text that is left.\<close>

definition condition_attempts :: "'l lua_api \<Rightarrow> 'l \<Rightarrow> string \<Rightarrow> bool \<times> string" where
  "condition_attempts api l condition =
    (case runConditionChunk api l (''return ('' @ condition @ '')'') True of
       (Inr m, l) \<Rightarrow> (m, [])
     | (Inl e, l) \<Rightarrow>
    (case runConditionChunk api l (''return '' @ condition) True of
       (Inr m, l) \<Rightarrow> (m, [])
     | (Inl e, l) \<Rightarrow>
    (case runConditionChunk api l condition True of
       (Inr m, l) \<Rightarrow> (m, [])
     | (Inl e, l) \<Rightarrow> (True, e))))"

text \<open>\<^verbatim>\<open>conditionMatches\<close>, with the sandboxed state and its libraries behind \<open>lua_new\<close>.\<close>

definition conditionMatches :: "'l lua_api \<Rightarrow> Breakpoint \<Rightarrow> BreakpointHit \<Rightarrow> bool \<times> string" where
  "conditionMatches api bp hit =
    (if bp_condition bp = [] then (True, [])
     else case lua_new api (condition_globals bp hit) (condition_bp_table bp) (condition_ctx_table hit) of
       None \<Rightarrow> (True, ''failed to create Lua state for breakpoint condition'')
     | Some l \<Rightarrow> condition_attempts api l (bp_condition bp))"

definition evaluateBreakpointCondition :: "'l lua_api \<Rightarrow> string \<Rightarrow> CpuContext \<Rightarrow> u64 \<Rightarrow> bool" where
  "evaluateBreakpointCondition api condition ctx rip =
    (if condition = [] then True
     else fst (conditionMatches api (default_breakpoint\<lparr>bp_condition := condition, bp_address := rip\<rparr>)
        \<lparr> hit_bpId = 0, hit_address = rip, hit_rip = rip, hit_tid = 0, hit_context = ctx, hit_instructionBytes = [],
          hit_instructionText = [] \<rparr>))"

section \<open>The table of breakpoints\<close>

definition uses_register :: "Breakpoint \<Rightarrow> int \<Rightarrow> bool" where
  "uses_register b r \<longleftrightarrow> bp_enabled b \<and> bp_method b = BM_Hardware \<and> bp_hwRegister b = r"

definition findFreeHwRegister :: "Breakpoint list \<Rightarrow> int" where
  "findFreeHwRegister bs =
    (case find (\<lambda>i. \<not> list_ex (\<lambda>b. uses_register b i) bs) [0, 1, 2, 3] of Some i \<Rightarrow> i | None \<Rightarrow> - 1)"

definition bm_add :: "Breakpoint \<Rightarrow> BreakpointManager \<Rightarrow> int \<times> BreakpointManager" where
  "bm_add bp m =
    (let hw = (bp_method bp = BM_Hardware);
         b = (if hw \<and> bp_hwRegister bp < 0 then bp\<lparr>bp_hwRegister := findFreeHwRegister (bm_breakpoints m)\<rparr> else bp) in
     if hw \<and> bp_enabled b \<and> (bp_hwRegister b < 0 \<or> bp_hwRegister b > 3) then (- 1, m)
     else if hw \<and> bp_hwRegister b > 3 then (- 1, m)
     else if hw \<and> bp_enabled b \<and> list_ex (\<lambda>other. uses_register other (bp_hwRegister b)) (bm_breakpoints m) then (- 1, m)
     else if bm_nextId m = int_max then (- 1, m)
     else (bm_nextId m, m\<lparr>bm_breakpoints := bm_breakpoints m @ [b\<lparr>bp_id := bm_nextId m\<rparr>], bm_nextId := bm_nextId m + 1\<rparr>))"

definition bm_remove :: "int \<Rightarrow> BreakpointManager \<Rightarrow> BreakpointManager" where
  "bm_remove i m = m\<lparr>bm_breakpoints := filter (\<lambda>b. bp_id b \<noteq> i) (bm_breakpoints m), bm_hitLog := (bm_hitLog m)(i := None)\<rparr>"

text \<open>\<^verbatim>\<open>setEnabled\<close> changes the first entry with the id; the free register is looked up in the whole table.\<close>

fun set_enabled_in :: "Breakpoint list \<Rightarrow> int \<Rightarrow> bool \<Rightarrow> Breakpoint list \<Rightarrow> Breakpoint list" where
  "set_enabled_in table i enabled [] = []"
| "set_enabled_in table i enabled (b # bs) =
    (if bp_id b \<noteq> i then b # set_enabled_in table i enabled bs
     else if enabled \<and> \<not> bp_enabled b \<and> bp_method b = BM_Hardware then
       (let b = b\<lparr>bp_hwRegister := findFreeHwRegister table\<rparr> in
        if bp_hwRegister b < 0 then b # bs else b\<lparr>bp_enabled := enabled\<rparr> # bs)
     else b\<lparr>bp_enabled := enabled\<rparr> # bs)"

definition bm_setEnabled :: "int \<Rightarrow> bool \<Rightarrow> BreakpointManager \<Rightarrow> BreakpointManager" where
  "bm_setEnabled i enabled m = m\<lparr>bm_breakpoints := set_enabled_in (bm_breakpoints m) i enabled (bm_breakpoints m)\<rparr>"

definition bm_list :: "BreakpointManager \<Rightarrow> Breakpoint list" where
  "bm_list m = bm_breakpoints m"

definition bm_get :: "int \<Rightarrow> BreakpointManager \<Rightarrow> Breakpoint option" where
  "bm_get i m = find (\<lambda>b. bp_id b = i) (bm_breakpoints m)"

section \<open>Programming threads\<close>

fun hw_type :: "BpType \<Rightarrow> nat" where
  "hw_type BP_Execute = 0" | "hw_type BP_Write = 1" | "hw_type BP_Read = 3" | "hw_type BP_Access = 3"

definition hw_size :: "int \<Rightarrow> nat option" where
  "hw_size n = (if n = 1 then Some 0 else if n = 2 then Some 1 else if n = 4 then Some 3 else if n = 8 then Some 2 else None)"

text \<open>The debugger's \<^verbatim>\<open>setBreakpoint\<close> and \<^verbatim>\<open>removeBreakpoint\<close>: whether they succeed, on a state of their own.\<close>

type_synonym 'd set_bp = "'d \<Rightarrow> int \<Rightarrow> int \<Rightarrow> u64 \<Rightarrow> nat \<Rightarrow> nat \<Rightarrow> bool \<times> 'd"
type_synonym 'd remove_bp = "'d \<Rightarrow> int \<Rightarrow> int \<Rightarrow> bool \<times> 'd"

fun applyToThread :: "'d set_bp \<Rightarrow> int \<Rightarrow> Breakpoint list \<Rightarrow> 'd \<Rightarrow> bool \<times> 'd" where
  "applyToThread setBp tid [] d = (True, d)"
| "applyToThread setBp tid (b # bs) d =
    (if bp_method b \<noteq> BM_Hardware then applyToThread setBp tid bs d
     else if \<not> bp_enabled b \<or> bp_hwRegister b < 0 then applyToThread setBp tid bs d
     else if bp_threadFilter b \<noteq> 0 \<and> bp_threadFilter b \<noteq> tid then applyToThread setBp tid bs d
     else case hw_size (bp_size b) of
       None \<Rightarrow> (False, d)
     | Some hs \<Rightarrow>
         if hw_type (bp_type b) \<noteq> 0 \<and> bp_size b > 1 \<and> bp_address b AND (of_int (bp_size b) - 1) \<noteq> 0 then (False, d)
         else case setBp d tid (bp_hwRegister b) (bp_address b) (hw_type (bp_type b)) hs of
           (False, d) \<Rightarrow> (False, d)
         | (True, d) \<Rightarrow> applyToThread setBp tid bs d)"

fun removeFromThread :: "'d remove_bp \<Rightarrow> int \<Rightarrow> Breakpoint list \<Rightarrow> 'd \<Rightarrow> bool \<times> 'd" where
  "removeFromThread rmBp tid [] d = (True, d)"
| "removeFromThread rmBp tid (b # bs) d =
    (if bp_method b = BM_Hardware \<and> bp_enabled b \<and> bp_hwRegister b \<ge> 0 \<and> (bp_threadFilter b = 0 \<or> bp_threadFilter b = tid) then
       (case rmBp d tid (bp_hwRegister b) of (ok, d) \<Rightarrow>
          (case removeFromThread rmBp tid bs d of (rest, d) \<Rightarrow> (ok \<and> rest, d)))
     else removeFromThread rmBp tid bs d)"

section \<open>Hits\<close>

definition accepts :: "Breakpoint \<Rightarrow> BreakpointHit \<Rightarrow> bool" where
  "accepts b hit \<longleftrightarrow> bp_enabled b \<and> (bp_threadFilter b = 0 \<or> bp_threadFilter b = hit_tid hit)"

text \<open>The first part of \<^verbatim>\<open>recordHit\<close>: the snapshot, its filters and its condition.\<close>

definition recordHit_check :: "'l lua_api \<Rightarrow> int \<Rightarrow> BreakpointHit \<Rightarrow> BreakpointManager \<Rightarrow> bool" where
  "recordHit_check api i hit m =
    (case bm_get i m of
       None \<Rightarrow> False
     | Some snapshot \<Rightarrow> accepts snapshot hit \<and> fst (conditionMatches api snapshot hit))"

definition log_hit :: "BreakpointHit list option \<Rightarrow> BreakpointHit \<Rightarrow> BreakpointHit list" where
  "log_hit old hit =
    (let l = (case old of None \<Rightarrow> [] | Some hs \<Rightarrow> hs) @ [hit] in if length l > 10000 then drop 5000 l else l)"

definition bump_count :: "Breakpoint \<Rightarrow> Breakpoint" where
  "bump_count b = (if bp_hitCount b < int_max then b\<lparr>bp_hitCount := bp_hitCount b + 1\<rparr> else b)"

fun update_first :: "int \<Rightarrow> (Breakpoint \<Rightarrow> Breakpoint option) \<Rightarrow> Breakpoint list \<Rightarrow> Breakpoint list" where
  "update_first i f [] = []"
| "update_first i f (b # bs) =
    (if bp_id b = i then (case f b of None \<Rightarrow> bs | Some b' \<Rightarrow> b' # bs) else b # update_first i f bs)"

text \<open>
  The second part, under the lock again: the breakpoint is looked up and filtered once more. It returns the
  notification of the callback, if the hit is delivered.
\<close>

definition recordHit_commit :: "int \<Rightarrow> BreakpointHit \<Rightarrow> BreakpointManager \<Rightarrow> Breakpoint option \<times> BreakpointManager" where
  "recordHit_commit i hit m =
    (case bm_get i m of
       None \<Rightarrow> (None, m)
     | Some b \<Rightarrow>
         if \<not> accepts b hit then (None, m)
         else
           (let b' = bump_count b;
                callbackBp = (if bp_oneShot b' then b'\<lparr>bp_enabled := False\<rparr> else b') in
            (Some callbackBp,
             m\<lparr>bm_hitLog := (bm_hitLog m)(i \<mapsto> log_hit (bm_hitLog m i) hit),
               bm_breakpoints := update_first i (\<lambda>_. if bp_oneShot b' then None else Some b') (bm_breakpoints m)\<rparr>)))"

text \<open>A call that is not interrupted: whether the hit is delivered, and what the callback is given.\<close>

definition recordHit :: "'l lua_api \<Rightarrow> int \<Rightarrow> BreakpointHit \<Rightarrow> BreakpointManager
    \<Rightarrow> (bool \<times> (Breakpoint \<times> BreakpointHit) option) \<times> BreakpointManager" where
  "recordHit api i hit m =
    (if \<not> recordHit_check api i hit m then ((False, None), m)
     else case recordHit_commit i hit m of
       (None, m) \<Rightarrow> ((False, None), m)
     | (Some b, m) \<Rightarrow> ((True, if bm_callback m then Some (b, hit) else None), m))"

definition getHits :: "int \<Rightarrow> BreakpointManager \<Rightarrow> BreakpointHit list" where
  "getHits i m = (case bm_hitLog m i of Some hs \<Rightarrow> hs | None \<Rightarrow> [])"

definition clearHits :: "int \<Rightarrow> BreakpointManager \<Rightarrow> BreakpointManager" where
  "clearHits i m = m\<lparr>bm_hitLog := (bm_hitLog m)(i := None)\<rparr>"

definition setHitCallback :: "bool \<Rightarrow> BreakpointManager \<Rightarrow> BreakpointManager" where
  "setHitCallback cb m = m\<lparr>bm_callback := cb\<rparr>"

section \<open>The invariant of the table\<close>

definition hw_registers :: "Breakpoint list \<Rightarrow> int list" where
  "hw_registers bs = map bp_hwRegister (filter (\<lambda>b. bp_enabled b \<and> bp_method b = BM_Hardware) bs)"

definition bm_ok :: "BreakpointManager \<Rightarrow> bool" where
  "bm_ok m \<longleftrightarrow>
     distinct (map bp_id (bm_breakpoints m)) \<and>
     (\<forall>b \<in> set (bm_breakpoints m). 1 \<le> bp_id b \<and> bp_id b < bm_nextId m) \<and>
     1 \<le> bm_nextId m \<and> bm_nextId m \<le> int_max \<and>
     distinct (hw_registers (bm_breakpoints m)) \<and> set (hw_registers (bm_breakpoints m)) \<subseteq> {0..3} \<and>
     (\<forall>i hs. bm_hitLog m i = Some hs \<longrightarrow> length hs \<le> 10000)"

lemma hw_registers_simps [simp]:
  "hw_registers [] = []"
  "hw_registers (b # bs) = (if bp_enabled b \<and> bp_method b = BM_Hardware then [bp_hwRegister b] else []) @ hw_registers bs"
  "hw_registers (as @ bs) = hw_registers as @ hw_registers bs"
  by (simp_all add: hw_registers_def)

lemma uses_register_iff: "list_ex (\<lambda>b. uses_register b r) bs \<longleftrightarrow> r \<in> set (hw_registers bs)"
  by (induction bs) (auto simp: uses_register_def)

lemma findFree_cases:
  obtains "findFreeHwRegister bs = - 1" "{0..3} \<subseteq> set (hw_registers bs)"
    | "findFreeHwRegister bs \<in> {0..3}" "findFreeHwRegister bs \<notin> set (hw_registers bs)"
proof (cases "find (\<lambda>i. \<not> list_ex (\<lambda>b. uses_register b i) bs) [0, 1, 2, 3]")
  case None
  have "{0..3 :: int} = {0, 1, 2, 3}" by auto
  with None that(1) show ?thesis by (auto simp: findFreeHwRegister_def uses_register_iff split: if_splits)
next
  case (Some i)
  then have "i \<in> {0..3}" "i \<notin> set (hw_registers bs)" "findFreeHwRegister bs = i"
    by (auto simp: findFreeHwRegister_def uses_register_iff split: if_splits)
  with that(2) show ?thesis by blast
qed

text \<open>Splitting the table at the first entry with an id.\<close>

lemma bm_get_split:
  assumes "bm_get i m = Some b"
  obtains as bs where "bm_breakpoints m = as @ b # bs" "bp_id b = i" "\<forall>a \<in> set as. bp_id a \<noteq> i"
proof -
  from assms obtain n where n: "n < length (bm_breakpoints m)" "bp_id (bm_breakpoints m ! n) = i" "b = bm_breakpoints m ! n"
    "\<forall>j < n. bp_id (bm_breakpoints m ! j) \<noteq> i" by (auto simp: bm_get_def find_Some_iff)
  show ?thesis
  proof (rule that)
    show "bm_breakpoints m = take n (bm_breakpoints m) @ b # drop (Suc n) (bm_breakpoints m)"
      using n by (simp add: id_take_nth_drop)
    show "\<forall>a \<in> set (take n (bm_breakpoints m)). bp_id a \<noteq> i" using n by (auto simp: in_set_conv_nth)
  qed (use n in simp)
qed

lemma update_first_split:
  "\<forall>a \<in> set as. bp_id a \<noteq> i \<Longrightarrow> bp_id b = i \<Longrightarrow>
   update_first i f (as @ b # bs) = as @ (case f b of None \<Rightarrow> [] | Some b' \<Rightarrow> [b']) @ bs"
  by (induction as) (auto split: option.splits)

lemma set_enabled_split:
  "\<forall>a \<in> set as. bp_id a \<noteq> i \<Longrightarrow> bp_id b = i \<Longrightarrow>
   set_enabled_in table i e (as @ b # bs) = as @
     (if e \<and> \<not> bp_enabled b \<and> bp_method b = BM_Hardware
      then (if findFreeHwRegister table < 0 then b\<lparr>bp_hwRegister := findFreeHwRegister table\<rparr>
            else b\<lparr>bp_hwRegister := findFreeHwRegister table, bp_enabled := e\<rparr>)
      else b\<lparr>bp_enabled := e\<rparr>) # bs"
  by (induction as) (auto simp: Let_def)

lemma set_enabled_absent: "\<forall>a \<in> set bs. bp_id a \<noteq> i \<Longrightarrow> set_enabled_in table i e bs = bs"
  by (induction bs) auto

lemma bm_get_None: "bm_get i m = None \<longleftrightarrow> (\<forall>b \<in> set (bm_breakpoints m). bp_id b \<noteq> i)"
  by (auto simp: bm_get_def find_None_iff)

text \<open>Adding either fails and changes nothing or appends the breakpoint under the next id, with a free register if it needs one.\<close>

lemma bm_add_cases:
  obtains "bm_add b m = (- 1, m)"
  | r b' where "bm_add b m = (bm_nextId m, m\<lparr>bm_breakpoints := bm_breakpoints m @ [b'], bm_nextId := bm_nextId m + 1\<rparr>)"
    "b' = b\<lparr>bp_hwRegister := r, bp_id := bm_nextId m\<rparr>" "bm_nextId m \<noteq> int_max"
    "bp_enabled b' \<and> bp_method b' = BM_Hardware \<longrightarrow> r \<in> {0..3} \<and> r \<notin> set (hw_registers (bm_breakpoints m))"
proof -
  define r where "r = (if bp_method b = BM_Hardware \<and> bp_hwRegister b < 0 then findFreeHwRegister (bm_breakpoints m) else bp_hwRegister b)"
  have b: "(if bp_method b = BM_Hardware \<and> bp_hwRegister b < 0 then b\<lparr>bp_hwRegister := findFreeHwRegister (bm_breakpoints m)\<rparr> else b)
      = b\<lparr>bp_hwRegister := r\<rparr>" by (simp add: r_def)
  let ?fail = "bp_method b = BM_Hardware \<and> bp_enabled b \<and> (r < 0 \<or> r > 3 \<or> r \<in> set (hw_registers (bm_breakpoints m))) \<or>
      bp_method b = BM_Hardware \<and> r > 3 \<or> bm_nextId m = int_max"
  have a: "bm_add b m = (if ?fail then (- 1, m) else
      (bm_nextId m, m\<lparr>bm_breakpoints := bm_breakpoints m @ [b\<lparr>bp_hwRegister := r, bp_id := bm_nextId m\<rparr>], bm_nextId := bm_nextId m + 1\<rparr>))"
    unfolding bm_add_def Let_def b by (simp add: uses_register_iff)
  show ?thesis using a that(1) that(2) [of "b\<lparr>bp_hwRegister := r, bp_id := bm_nextId m\<rparr>" r] by (cases ?fail) auto
qed

lemma bm_add_ok: "bm_ok m \<Longrightarrow> bm_ok (snd (bm_add b m))"
  by (cases rule: bm_add_cases [of b m]) (auto simp: bm_ok_def)

lemma bm_remove_ok: "bm_ok m \<Longrightarrow> bm_ok (bm_remove i m)"
proof -
  have d: "distinct (hw_registers (filter P bs))" "set (hw_registers (filter P bs)) \<subseteq> set (hw_registers bs)"
    if "distinct (hw_registers bs)" for P bs using that by (induction bs) auto
  show "bm_ok m \<Longrightarrow> ?thesis" using d [of "bm_breakpoints m"]
    by (fastforce simp: bm_remove_def bm_ok_def distinct_map_filter)
qed

lemma bm_setEnabled_ok: "bm_ok m \<Longrightarrow> bm_ok (bm_setEnabled i e m)"
proof (cases "bm_get i m")
  case None
  then show "bm_ok m \<Longrightarrow> ?thesis" by (simp add: bm_setEnabled_def bm_get_None set_enabled_absent)
next
  case (Some b)
  assume m: "bm_ok m"
  obtain as bs where s: "bm_breakpoints m = as @ b # bs" "bp_id b = i" "\<forall>a \<in> set as. bp_id a \<noteq> i"
    using Some by (rule bm_get_split)
  show ?thesis
  proof (cases rule: findFree_cases [of "bm_breakpoints m"])
    case 1
    with m s show ?thesis by (auto simp: bm_setEnabled_def set_enabled_split bm_ok_def)
  next
    case 2
    with m s show ?thesis by (auto simp: bm_setEnabled_def set_enabled_split bm_ok_def)
  qed
qed

lemma log_hit_length: "length (log_hit old hit) \<le> 10000" if "\<And>hs. old = Some hs \<Longrightarrow> length hs \<le> 10000"
  using that by (cases old) (auto simp: log_hit_def Let_def)

lemma bump_count_fields [simp]:
  "bp_id (bump_count b) = bp_id b" "bp_enabled (bump_count b) = bp_enabled b" "bp_method (bump_count b) = bp_method b"
  "bp_hwRegister (bump_count b) = bp_hwRegister b" "bp_oneShot (bump_count b) = bp_oneShot b"
  by (simp_all add: bump_count_def)

lemma recordHit_commit_ok: "bm_ok m \<Longrightarrow> bm_ok (snd (recordHit_commit i hit m))"
proof (cases "bm_get i m")
  case (Some b)
  assume m: "bm_ok m"
  obtain as bs where s: "bm_breakpoints m = as @ b # bs" "bp_id b = i" "\<forall>a \<in> set as. bp_id a \<noteq> i"
    using Some by (rule bm_get_split)
  have l: "length (log_hit (bm_hitLog m i) hit) \<le> 10000" using m by (intro log_hit_length) (simp add: bm_ok_def)
  show ?thesis using m s l Some
    by (auto simp: recordHit_commit_def Let_def update_first_split bm_ok_def split: if_splits)
qed (simp add: recordHit_commit_def)

section \<open>Interleavings\<close>

text \<open>
  The manager as several threads use it. Each operation holds the lock, \<^verbatim>\<open>recordHit\<close> in its two parts: a
  check that succeeds leaves a pending commit, and other operations may come between. The trace keeps the
  breakpoints as they were delivered.
\<close>

record bp_system =
  sy_manager :: BreakpointManager
  sy_pending :: "(int \<times> BreakpointHit) list"
  sy_delivered :: "Breakpoint list"

inductive bp_step :: "'l lua_api \<Rightarrow> bp_system \<Rightarrow> bp_system \<Rightarrow> bool" for api where
  Add: "bp_step api s (s\<lparr>sy_manager := snd (bm_add b (sy_manager s))\<rparr>)"
| Remove: "bp_step api s (s\<lparr>sy_manager := bm_remove i (sy_manager s)\<rparr>)"
| SetEnabled: "bp_step api s (s\<lparr>sy_manager := bm_setEnabled i e (sy_manager s)\<rparr>)"
| Clear: "bp_step api s (s\<lparr>sy_manager := clearHits i (sy_manager s)\<rparr>)"
| Callback: "bp_step api s (s\<lparr>sy_manager := setHitCallback cb (sy_manager s)\<rparr>)"
| Check: "recordHit_check api i hit (sy_manager s) \<Longrightarrow> bp_step api s (s\<lparr>sy_pending := (i, hit) # sy_pending s\<rparr>)"
| Commit: "sy_pending s = p @ (i, hit) # q \<Longrightarrow> recordHit_commit i hit (sy_manager s) = (r, m) \<Longrightarrow>
    bp_step api s (s\<lparr>sy_manager := m, sy_pending := p @ q,
      sy_delivered := sy_delivered s @ (case r of None \<Rightarrow> [] | Some b \<Rightarrow> [b])\<rparr>)"

inductive bp_reachable :: "'l lua_api \<Rightarrow> bp_system \<Rightarrow> bool" for api where
  Start: "bp_reachable api \<lparr> sy_manager = new_manager, sy_pending = [], sy_delivered = [] \<rparr>"
| Step: "bp_reachable api s \<Longrightarrow> bp_step api s t \<Longrightarrow> bp_reachable api t"

lemma new_manager_ok: "bm_ok new_manager"
  by (simp add: bm_ok_def new_manager_def int_max_def)

definition delivered_ok :: "bp_system \<Rightarrow> bool" where
  "delivered_ok s \<longleftrightarrow>
     (\<forall>b \<in> set (sy_delivered s). bp_id b < bm_nextId (sy_manager s) \<and>
        (bp_oneShot b \<longrightarrow> bp_id b \<notin> bp_id ` set (bm_breakpoints (sy_manager s)))) \<and>
     sorted_wrt (\<lambda>a b. bp_oneShot a \<longrightarrow> bp_id b \<noteq> bp_id a) (sy_delivered s)"

text \<open>Operations never bring an id back.\<close>

lemma add_ids:
  "bp_id ` set (bm_breakpoints (snd (bm_add b m))) \<subseteq> bp_id ` set (bm_breakpoints m) \<union> {bm_nextId m}"
  "bm_nextId m \<le> bm_nextId (snd (bm_add b m))"
  by (cases rule: bm_add_cases [of b m]; auto)+

lemma remove_ids:
  "bp_id ` set (bm_breakpoints (bm_remove i m)) \<subseteq> bp_id ` set (bm_breakpoints m)" "bm_nextId (bm_remove i m) = bm_nextId m"
  by (auto simp: bm_remove_def)

lemma setEnabled_ids:
  "bp_id ` set (bm_breakpoints (bm_setEnabled i e m)) = bp_id ` set (bm_breakpoints m)" "bm_nextId (bm_setEnabled i e m) = bm_nextId m"
proof -
  show "bp_id ` set (bm_breakpoints (bm_setEnabled i e m)) = bp_id ` set (bm_breakpoints m)"
  proof (cases "bm_get i m")
    case (Some b)
    then obtain as bs where "bm_breakpoints m = as @ b # bs" "bp_id b = i" "\<forall>a \<in> set as. bp_id a \<noteq> i" by (rule bm_get_split)
    then show ?thesis by (simp add: bm_setEnabled_def set_enabled_split)
  qed (simp add: bm_setEnabled_def bm_get_None set_enabled_absent)
qed (simp add: bm_setEnabled_def)

lemma commit_ids:
  assumes "recordHit_commit i hit m = (r, m')" "bm_ok m"
  shows "bp_id ` set (bm_breakpoints m') \<subseteq> bp_id ` set (bm_breakpoints m)" "bm_nextId m' = bm_nextId m"
    "r = Some b \<Longrightarrow> bp_id b = i \<and> i < bm_nextId m \<and> i \<in> bp_id ` set (bm_breakpoints m) \<and>
      (bp_oneShot b \<longrightarrow> i \<notin> bp_id ` set (bm_breakpoints m'))"
proof -
  have "bp_id ` set (bm_breakpoints m') \<subseteq> bp_id ` set (bm_breakpoints m) \<and> bm_nextId m' = bm_nextId m \<and>
    (r = Some b \<longrightarrow> bp_id b = i \<and> i < bm_nextId m \<and> i \<in> bp_id ` set (bm_breakpoints m) \<and>
      (bp_oneShot b \<longrightarrow> i \<notin> bp_id ` set (bm_breakpoints m')))"
  proof (cases "bm_get i m")
    case None
    with assms show ?thesis by (auto simp: recordHit_commit_def)
  next
    case (Some c)
    then obtain as bs where s: "bm_breakpoints m = as @ c # bs" "bp_id c = i" "\<forall>a \<in> set as. bp_id a \<noteq> i" by (rule bm_get_split)
    have "i \<notin> bp_id ` set bs" "i < bm_nextId m" using s assms(2) by (simp_all add: bm_ok_def)
    then have "\<forall>a \<in> set bs. bp_id a \<noteq> i" "i < bm_nextId m" by auto
    with s Some assms(1) show ?thesis
      by (auto simp: recordHit_commit_def Let_def update_first_split split: if_splits)
  qed
  then show "bp_id ` set (bm_breakpoints m') \<subseteq> bp_id ` set (bm_breakpoints m)" "bm_nextId m' = bm_nextId m"
    "r = Some b \<Longrightarrow> bp_id b = i \<and> i < bm_nextId m \<and> i \<in> bp_id ` set (bm_breakpoints m) \<and>
      (bp_oneShot b \<longrightarrow> i \<notin> bp_id ` set (bm_breakpoints m'))" by auto
qed

lemma bp_step_ok:
  assumes "bp_step api s t" "bm_ok (sy_manager s)" "delivered_ok s"
  shows "bm_ok (sy_manager t) \<and> delivered_ok t"
  using assms(1)
proof (cases rule: bp_step.cases)
  case (Add b)
  have "bp_id d \<notin> bp_id ` set (bm_breakpoints (snd (bm_add b (sy_manager s))))"
    if "d \<in> set (sy_delivered s)" "bp_oneShot d" for d
    using that assms(3) add_ids(1) [of b "sy_manager s"] by (fastforce simp: delivered_ok_def)
  then show ?thesis using Add assms bm_add_ok add_ids(2) [of "sy_manager s" b] by (fastforce simp: delivered_ok_def)
next
  case (Remove i)
  then show ?thesis using assms bm_remove_ok remove_ids [of i "sy_manager s"] by (fastforce simp: delivered_ok_def)
next
  case (SetEnabled i e)
  then show ?thesis using assms bm_setEnabled_ok setEnabled_ids [of i e "sy_manager s"] by (simp add: delivered_ok_def)
next
  case (Commit p i hit q r m)
  note ids = commit_ids [OF Commit(3) assms(2)]
  have ok: "bm_ok m" using recordHit_commit_ok [OF assms(2), of i hit] Commit(3) by simp
  have old: "bp_id d < bm_nextId m \<and> (bp_oneShot d \<longrightarrow> bp_id d \<notin> bp_id ` set (bm_breakpoints m))" if "d \<in> set (sy_delivered s)" for d
    using that assms(3) ids(1,2) by (auto simp: delivered_ok_def)
  show ?thesis
  proof (cases r)
    case None
    with Commit ok old assms(3) show ?thesis by (auto simp: delivered_ok_def)
  next
    case (Some b)
    note new = ids(3) [OF Some]
    have "bp_oneShot d \<longrightarrow> bp_id b \<noteq> bp_id d" if "d \<in> set (sy_delivered s)" for d
      using that new assms(3) by (auto simp: delivered_ok_def)
    with Commit ok old new Some ids(2) assms(3) show ?thesis by (auto simp: delivered_ok_def sorted_wrt_append)
  qed
qed (use assms in \<open>auto simp: delivered_ok_def bm_ok_def clearHits_def setHitCallback_def\<close>)

lemma bp_reachable_ok: "bp_reachable api s \<Longrightarrow> bm_ok (sy_manager s) \<and> delivered_ok s"
proof (induction rule: bp_reachable.induct)
  case Start
  then show ?case by (simp add: new_manager_ok delivered_ok_def)
qed (use bp_step_ok in blast)

section \<open>Properties\<close>

definition sample_lua :: "unit lua_api" where
  "sample_lua = \<lparr> lua_new = (\<lambda>g b c. Some ()), lua_run = (\<lambda>l chunk. (Returned [True], l)) \<rparr>"

definition sample_hit :: BreakpointHit where
  "sample_hit = \<lparr> hit_bpId = 1, hit_address = 0x1000, hit_rip = 0x1000, hit_tid = 7, hit_context = empty_context,
     hit_instructionBytes = [], hit_instructionText = [] \<rparr>"

definition sample_one_shot :: Breakpoint where
  "sample_one_shot = default_breakpoint\<lparr>bp_address := 0x1000, bp_oneShot := True\<rparr>"

definition sample_manager :: BreakpointManager where
  "sample_manager = snd (bm_add (default_breakpoint\<lparr>bp_type := BP_Write, bp_size := 4, bp_address := 0x2000\<rparr>) (snd (bm_add sample_one_shot new_manager)))"

lemma sample_reachable: "bp_reachable api \<lparr> sy_manager = sample_manager, sy_pending = [], sy_delivered = [] \<rparr>"
proof -
  let ?s = "\<lambda>m. \<lparr> sy_manager = m, sy_pending = [], sy_delivered = [] \<rparr>"
  have "bp_step api (?s m) (?s (snd (bm_add b m)))" for m b using bp_step.Add [of api "?s m" b] by simp
  then show ?thesis unfolding sample_manager_def by (intro bp_reachable.intros(2) [OF bp_reachable.intros(2) [OF bp_reachable.intros(1)]])
qed



text \<open>
  C10: a one-shot breakpoint is delivered at most once, even when several threads hit it at the same time and
  all their conditions held before the first hit was committed: after its delivery no hit with its id is
  delivered again.
\<close>

theorem one_shot_delivered_once:
  assumes "bp_reachable api s" "j < k" "k < length (sy_delivered s)" "bp_oneShot (sy_delivered s ! j)"
  shows "bp_id (sy_delivered s ! k) \<noteq> bp_id (sy_delivered s ! j)"
  using bp_reachable_ok [OF assms(1)] assms(2-4) by (auto simp: delivered_ok_def sorted_wrt_iff_nth_less)

theorem one_shot_delivered_once_witness:
  "\<exists>s. bp_reachable sample_lua s \<and> length (sy_delivered s) = 2 \<and> bp_oneShot (sy_delivered s ! 0) \<and>
     bp_id (sy_delivered s ! 1) \<noteq> bp_id (sy_delivered s ! 0)"
proof -
  let ?s0 = "\<lparr> sy_manager = sample_manager, sy_pending = [], sy_delivered = [] \<rparr>"
  let ?s1 = "?s0\<lparr>sy_pending := [(1, sample_hit)]\<rparr>"
  let ?s2 = "?s0\<lparr>sy_pending := [(2, sample_hit), (1, sample_hit)]\<rparr>"
  let ?c1 = "recordHit_commit 1 sample_hit sample_manager"
  let ?c2 = "recordHit_commit 2 sample_hit (snd ?c1)"
  have ch: "recordHit_check sample_lua 1 sample_hit sample_manager" "recordHit_check sample_lua 2 sample_hit sample_manager" by code_simp+
  have d: "map_option bp_oneShot (fst ?c1) = Some True" "fst ?c2 \<noteq> None" by code_simp+
  obtain b1 where b1: "fst ?c1 = Some b1" "bp_oneShot b1" using d(1) by auto
  obtain b2 where b2: "fst ?c2 = Some b2" using d(2) by auto
  have e1: "?c1 = (Some b1, snd ?c1)" and e2: "?c2 = (Some b2, snd ?c2)" using b1 b2 by (simp_all add: prod_eq_iff)
  let ?s3 = "\<lparr> sy_manager = snd ?c1, sy_pending = [(2, sample_hit)], sy_delivered = [b1] \<rparr>"
  let ?s4 = "\<lparr> sy_manager = snd ?c2, sy_pending = [], sy_delivered = [b1, b2] \<rparr>"
  have "bp_step sample_lua ?s0 ?s1" using bp_step.Check [of sample_lua 1 sample_hit ?s0] ch(1) by simp
  moreover have "bp_step sample_lua ?s1 ?s2" using bp_step.Check [of sample_lua 2 sample_hit ?s1] ch(2) by simp
  moreover have "bp_step sample_lua ?s2 ?s3"
    using bp_step.Commit [of ?s2 "[(2, sample_hit)]" 1 sample_hit "[]" "Some b1" "snd ?c1" sample_lua] e1 by simp
  moreover have "bp_step sample_lua ?s3 ?s4"
    using bp_step.Commit [of ?s3 "[]" 2 sample_hit "[]" "Some b2" "snd ?c2" sample_lua] e2 by simp
  ultimately have r: "bp_reachable sample_lua ?s4" using sample_reachable [of sample_lua] by (blast intro: bp_reachable.intros(2))
  from one_shot_delivered_once [OF r, of 0 1] b1(2) r show ?thesis by (intro exI [of _ ?s4]) simp
qed

text \<open>The table as a finite map from ids to breakpoints, the abstract view the rest of the program has of it.\<close>

definition bm_abs :: "BreakpointManager \<Rightarrow> int \<Rightarrow> Breakpoint option" where
  "bm_abs m = map_of (map (\<lambda>b. (bp_id b, b)) (bm_breakpoints m))"

lemma map_of_ids_None: "map_of (map (\<lambda>b. (bp_id b, b)) bs) i = None \<longleftrightarrow> i \<notin> bp_id ` set bs"
  by (induction bs) auto

lemma bm_get_abs: "bm_get i m = bm_abs m i"
proof -
  have "find (\<lambda>b. bp_id b = i) bs = map_of (map (\<lambda>b. (bp_id b, b)) bs) i" for bs by (induction bs) auto
  then show ?thesis by (simp add: bm_get_def bm_abs_def)
qed

lemma bm_abs_remove: "bm_abs (bm_remove i m) = (bm_abs m)(i := None)"
proof -
  have "map_of (map (\<lambda>b. (bp_id b, b)) (filter (\<lambda>b. bp_id b \<noteq> i) bs)) = (map_of (map (\<lambda>b. (bp_id b, b)) bs))(i := None)" for bs
    by (induction bs) (auto simp: fun_eq_iff)
  then show ?thesis by (simp add: bm_abs_def bm_remove_def)
qed

lemma abs_replace:
  assumes "\<forall>a \<in> set as. bp_id a \<noteq> i" "bp_id b = i" "bp_id b' = i"
  shows "map_of (map (\<lambda>b. (bp_id b, b)) (as @ b' # bs)) = (map_of (map (\<lambda>b. (bp_id b, b)) (as @ b # bs)))(i \<mapsto> b')"
  using assms by (induction as) (auto simp: fun_eq_iff)

lemma abs_append:
  "bp_id b \<notin> bp_id ` set bs \<Longrightarrow> map_of (map (\<lambda>b. (bp_id b, b)) (bs @ [b])) = (map_of (map (\<lambda>b. (bp_id b, b)) bs))(bp_id b \<mapsto> b)"
  by (induction bs) (auto simp: fun_eq_iff)

text \<open>What enabling or disabling makes of one breakpoint, given the registers in use.\<close>

definition toggled :: "int set \<Rightarrow> bool \<Rightarrow> Breakpoint \<Rightarrow> Breakpoint \<Rightarrow> bool" where
  "toggled used e b b' \<longleftrightarrow>
     (if e \<and> \<not> bp_enabled b \<and> bp_method b = BM_Hardware
      then (if {0..3} \<subseteq> used then b' = b\<lparr>bp_hwRegister := - 1\<rparr>
            else \<exists>r. r \<in> {0..3} \<and> r \<notin> used \<and> b' = b\<lparr>bp_hwRegister := r, bp_enabled := True\<rparr>)
      else b' = b\<lparr>bp_enabled := e\<rparr>)"

text \<open>
  C19: the manager refines a map from ids to breakpoints: \<^verbatim>\<open>get\<close> is lookup, \<^verbatim>\<open>remove\<close> deletes one key, a
  successful \<^verbatim>\<open>add\<close> defines one fresh key and a refused one changes nothing, and \<^verbatim>\<open>setEnabled\<close> touches only its
  own breakpoint, taking a free debug register or leaving it disabled when all four are in use.
\<close>

theorem manager_refines_map:
  assumes "bm_ok m"
  shows "bm_get i m = bm_abs m i \<and> bm_abs (bm_remove i m) = (bm_abs m)(i := None) \<and>
    (\<forall>k m'. bm_add b m = (k, m') \<longrightarrow>
       k = - 1 \<and> m' = m \<or> bm_abs m k = None \<and> (\<exists>r. bm_abs m' = (bm_abs m)(k \<mapsto> b\<lparr>bp_hwRegister := r, bp_id := k\<rparr>))) \<and>
    (\<forall>c. bm_abs m i = Some c \<longrightarrow>
       (\<exists>c'. toggled (set (hw_registers (bm_breakpoints m))) e c c' \<and> bm_abs (bm_setEnabled i e m) = (bm_abs m)(i \<mapsto> c'))) \<and>
    (bm_abs m i = None \<longrightarrow> bm_setEnabled i e m = m)"
proof -
  have add: "k = - 1 \<and> m' = m \<or> bm_abs m k = None \<and> (\<exists>r. bm_abs m' = (bm_abs m)(k \<mapsto> b\<lparr>bp_hwRegister := r, bp_id := k\<rparr>))"
    if "bm_add b m = (k, m')" for k m'
  proof (cases rule: bm_add_cases [of b m])
    case (2 r b')
    have n: "bm_nextId m \<notin> bp_id ` set (bm_breakpoints m)" using assms by (auto simp: bm_ok_def)
    then have "bm_abs m (bm_nextId m) = None" by (simp add: bm_abs_def map_of_ids_None)
    moreover have "map_of (map (\<lambda>b. (bp_id b, b)) (bm_breakpoints m @ [b'])) = (bm_abs m)(bm_nextId m \<mapsto> b')"
      using n 2(2) abs_append [of b' "bm_breakpoints m"] by (simp add: bm_abs_def)
    ultimately show ?thesis using that 2(1,2) by (auto simp: bm_abs_def)
  qed (use that in simp)
  have toggle: "\<exists>c'. toggled (set (hw_registers (bm_breakpoints m))) e c c' \<and> bm_abs (bm_setEnabled i e m) = (bm_abs m)(i \<mapsto> c')"
    if "bm_abs m i = Some c" for c
  proof -
    have "bm_get i m = Some c" using that by (simp add: bm_get_abs)
    then obtain as bs where s: "bm_breakpoints m = as @ c # bs" "bp_id c = i" "\<forall>a \<in> set as. bp_id a \<noteq> i"
      by (rule bm_get_split)
    let ?r = "findFreeHwRegister (bm_breakpoints m)"
    define c' where "c' = (if e \<and> \<not> bp_enabled c \<and> bp_method c = BM_Hardware
      then (if ?r < 0 then c\<lparr>bp_hwRegister := ?r\<rparr> else c\<lparr>bp_hwRegister := ?r, bp_enabled := e\<rparr>) else c\<lparr>bp_enabled := e\<rparr>)"
    have id: "bp_id c' = i" using s(2) by (simp add: c'_def)
    have "set_enabled_in (bm_breakpoints m) i e (bm_breakpoints m) = as @ c' # bs"
      using set_enabled_split [OF s(3,2), of "bm_breakpoints m" e bs] s(1) by (simp add: c'_def)
    then have "bm_abs (bm_setEnabled i e m) = (bm_abs m)(i \<mapsto> c')"
      using abs_replace [OF s(3,2) id, of bs] s(1) by (simp add: bm_abs_def bm_setEnabled_def)
    moreover have "toggled (set (hw_registers (bm_breakpoints m))) e c c'"
      by (cases rule: findFree_cases [of "bm_breakpoints m"]) (auto simp: toggled_def c'_def)
    ultimately show ?thesis by blast
  qed
  have "bm_setEnabled i e m = m" if "bm_abs m i = None"
    using that bm_get_None [of i m] by (simp add: bm_get_abs bm_setEnabled_def set_enabled_absent)
  with add toggle show ?thesis by (simp add: bm_get_abs bm_abs_remove)
qed

theorem manager_refines_map_witness:
  "bm_ok sample_manager \<and> bm_get 2 sample_manager = bm_abs sample_manager 2 \<and>
   bm_abs (bm_remove 1 sample_manager) = (bm_abs sample_manager)(1 := None)"
proof -
  have "bm_ok sample_manager" by (simp add: sample_manager_def bm_add_ok new_manager_ok)
  with manager_refines_map [of sample_manager 2] manager_refines_map [of sample_manager 1] show ?thesis by blast
qed

text \<open>A debugger that records the registers it is asked to program, and may refuse.\<close>

definition recording :: "(nat \<Rightarrow> bool) \<Rightarrow> (int \<times> u64 \<times> nat \<times> nat) list set_bp" where
  "recording ok calls tid r a t n = (ok (length calls), calls @ [(r, a, t, n)])"

lemma aligned_mask: "n \<in> {2, 4, 8 :: int} \<Longrightarrow> (a :: u64) AND (of_int n - 1) = 0 \<Longrightarrow> unat a mod nat n = 0"
proof -
  have "unat a mod 2 ^ k = 0" if "a AND (2 ^ k - 1) = 0" for k
  proof -
    have "take_bit k a = 0" using that by (simp add: take_bit_eq_mask mask_eq_exp_minus_1)
    then have "take_bit k (unat a) = 0" by (metis unsigned_take_bit_eq unsigned_0)
    then show ?thesis by (simp only: take_bit_eq_mod)
  qed
  from this [of 1] this [of 2] this [of 3] show "n \<in> {2, 4, 8} \<Longrightarrow> a AND (of_int n - 1) = 0 \<Longrightarrow> unat a mod nat n = 0" by auto
qed

text \<open>
  What \<^verbatim>\<open>applyToThread\<close> asks the debugger to program: each of the registers 0 to 3 at most once per thread,
  with one of the four length encodings of DR7 and an access type it supports, and a data watchpoint only at
  an address aligned to its length. It answers true only when the debugger accepted every request.
\<close>

theorem applyToThread_programs:
  assumes "bm_ok m" "applyToThread (recording ok) tid (bm_breakpoints m) [] = (res, calls)"
  shows "distinct (map fst calls) \<and> (res \<longrightarrow> (\<forall>i. i < length calls \<longrightarrow> ok i)) \<and>
    (\<forall>r a t n. (r, a, t, n) \<in> set calls \<longrightarrow> r \<in> {0..3} \<and> t \<in> {0, 1, 3} \<and>
       (\<exists>len. hw_size len = Some n \<and> (t \<noteq> 0 \<longrightarrow> unat a mod nat len = 0)))"
proof -
  have "distinct (map fst calls) \<and> (res \<longrightarrow> (\<forall>i. i < length calls \<longrightarrow> ok i)) \<and>
    (\<forall>r a t n. (r, a, t, n) \<in> set calls \<longrightarrow> r \<in> {0..3} \<and> t \<in> {0, 1, 3} \<and>
       (\<exists>len. hw_size len = Some n \<and> (t \<noteq> 0 \<longrightarrow> unat a mod nat len = 0)))"
    if "applyToThread (recording ok) tid bs done_calls = (res, calls)"
      "distinct (map fst done_calls @ hw_registers bs)" "set (hw_registers bs) \<subseteq> {0..3}" "\<forall>i < length done_calls. ok i"
      "\<forall>r a t n. (r, a, t, n) \<in> set done_calls \<longrightarrow> r \<in> {0..3} \<and> t \<in> {0, 1, 3} \<and>
       (\<exists>len. hw_size len = Some n \<and> (t \<noteq> 0 \<longrightarrow> unat a mod nat len = 0))" for bs done_calls
    using that
  proof (induction bs arbitrary: done_calls)
    case (Cons b bs)
    let ?a = "bp_method b = BM_Hardware \<and> bp_enabled b \<and> \<not> bp_hwRegister b < 0 \<and> (bp_threadFilter b = 0 \<or> bp_threadFilter b = tid)"
    let ?t = "hw_type (bp_type b)" and ?bad = "hw_type (bp_type b) \<noteq> 0 \<and> bp_size b > 1 \<and> bp_address b AND (of_int (bp_size b) - 1) \<noteq> 0"
    have t: "?t \<in> {0, 1, 3}" by (cases "bp_type b") auto
    show ?case
    proof (cases "?a \<and> (\<exists>hs. hw_size (bp_size b) = Some hs) \<and> \<not> ?bad")
      case False
      then have "applyToThread (recording ok) tid bs done_calls = (res, calls) \<or> (res, calls) = (False, done_calls)"
        using Cons.prems(1) by (auto split: if_splits option.splits)
      moreover have "distinct (map fst done_calls @ hw_registers bs)" "set (hw_registers bs) \<subseteq> {0..3}"
        using Cons.prems(2,3) by auto
      ultimately show ?thesis using Cons.IH [of done_calls] Cons.prems(4,5) by (elim disjE) (blast, simp)
    next
      case True
      then obtain hs where hs: "hw_size (bp_size b) = Some hs" by auto
      let ?calls = "done_calls @ [(bp_hwRegister b, bp_address b, ?t, hs)]"
      have al: "?t \<noteq> 0 \<longrightarrow> unat (bp_address b) mod nat (bp_size b) = 0"
        using True hs aligned_mask [of "bp_size b" "bp_address b"] by (auto simp: hw_size_def split: if_splits)
      have d: "distinct (map fst ?calls @ hw_registers bs)" "set (hw_registers bs) \<subseteq> {0..3}" "bp_hwRegister b \<in> {0..3}"
        using Cons.prems(2,3) True by auto
      have e: "\<forall>r a t n. (r, a, t, n) \<in> set ?calls \<longrightarrow> r \<in> {0..3} \<and> t \<in> {0, 1, 3} \<and>
         (\<exists>len. hw_size len = Some n \<and> (t \<noteq> 0 \<longrightarrow> unat a mod nat len = 0))"
        using Cons.prems(5) d(3) t hs al by auto
      have c: "ok (length done_calls) \<and> applyToThread (recording ok) tid bs ?calls = (res, calls) \<or> \<not> res \<and> calls = ?calls"
      proof -
        have "recording ok done_calls tid r a t n = (ok (length done_calls), done_calls @ [(r, a, t, n)])" for r a t n
          by (simp add: recording_def)
        then show ?thesis using Cons.prems(1) True hs by (cases "ok (length done_calls)") auto
      qed
      show ?thesis using c
      proof
        assume a: "ok (length done_calls) \<and> applyToThread (recording ok) tid bs ?calls = (res, calls)"
        then have "\<forall>i < length ?calls. ok i" using Cons.prems(4) by (auto simp: less_Suc_eq)
        from Cons.IH [OF conjunct2 [OF a] d(1,2) this e] show ?thesis .
      next
        assume "\<not> res \<and> calls = ?calls"
        then show ?thesis using d(1) e by auto
      qed
    qed
  qed simp
  from this [of "bm_breakpoints m" "[]"] assms show ?thesis by (simp add: bm_ok_def)
qed

theorem applyToThread_programs_witness:
  "applyToThread (recording (\<lambda>i. True)) 7 (bm_breakpoints sample_manager) [] = (True, [(0, 0x1000, 0, 0), (1, 0x2000, 1, 3)]) \<and>
   unat (0x2000 :: u64) mod 4 = 0"
proof -
  have ok: "bm_ok sample_manager" by (simp add: sample_manager_def bm_add_ok new_manager_ok)
  have e: "applyToThread (recording (\<lambda>i. True)) 7 (bm_breakpoints sample_manager) [] = (True, [(0, 0x1000, 0, 0), (1, 0x2000, 1, 3)])"
    by code_simp
  obtain len where "hw_size len = Some 3" "unat (0x2000 :: u64) mod nat len = 0"
    using applyToThread_programs [OF ok e, THEN conjunct2, THEN conjunct2, rule_format, of 1 "0x2000" 1 3] by auto
  then show ?thesis using e by (auto simp: hw_size_def split: if_splits)
qed

end
