(* ===== verification/Capabilities.thy ===== *)
theory Capabilities
  imports Machine CoreTypes Text
begin

unbundle bit_operations_syntax

text \<open>
  What the tool may do with a target (\<^verbatim>\<open>core/target_capabilities.cpp\<close>): the table of features and their states
  for a target description, the refusal texts the frontends show, the ownership check in front of every
  \<^verbatim>\<open>PTRACE_SEIZE\<close>, and the probe that explains an unreadable process. The operating system appears as the
  record \<open>caps_env\<close> (the build, the caller's ids, the files of \<^verbatim>\<open>/proc\<close>) and a process as its
  operations \<open>describe\<close> and \<open>read\<close> over a state.
\<close>

section \<open>Features\<close>

datatype TargetFeature = TF_ReadMemory | TF_WriteMemory | TF_NumericScan | TF_PointerScan | TF_Disassemble | TF_Assemble
  | TF_Allocate | TF_Protect | TF_LibraryInjection | TF_CodeInjection | TF_Debugger
  | TF_HardwareWatchpoint | TF_SoftwareWatchpoint | TF_Trace | TF_GuestDebugging | TF_RemoteThread

datatype CapabilityState = CS_Available | CS_Partial | CS_Unsupported | CS_Blocked | CS_Unknown

record TargetCapability =
  tc_feature :: TargetFeature
  tc_state :: CapabilityState
  tc_reason :: string

fun targetFeatureName :: "TargetFeature \<Rightarrow> string" where
  "targetFeatureName TF_ReadMemory = ''read memory''"
| "targetFeatureName TF_WriteMemory = ''write memory''"
| "targetFeatureName TF_NumericScan = ''numeric scan''"
| "targetFeatureName TF_PointerScan = ''pointer scan''"
| "targetFeatureName TF_Disassemble = ''disassemble''"
| "targetFeatureName TF_Assemble = ''assemble''"
| "targetFeatureName TF_Allocate = ''allocate memory''"
| "targetFeatureName TF_Protect = ''change protection''"
| "targetFeatureName TF_LibraryInjection = ''inject library''"
| "targetFeatureName TF_RemoteThread = ''create remote thread''"
| "targetFeatureName TF_CodeInjection = ''injection template / hook''"
| "targetFeatureName TF_Debugger = ''debugger''"
| "targetFeatureName TF_HardwareWatchpoint = ''hardware watchpoint''"
| "targetFeatureName TF_SoftwareWatchpoint = ''software watchpoint''"
| "targetFeatureName TF_Trace = ''instruction trace''"
| "targetFeatureName TF_GuestDebugging = ''guest debugging''"

fun capabilityStateName :: "CapabilityState \<Rightarrow> string" where
  "capabilityStateName CS_Available = ''available''"
| "capabilityStateName CS_Partial = ''partial''"
| "capabilityStateName CS_Unsupported = ''unsupported''"
| "capabilityStateName CS_Blocked = ''blocked''"
| "capabilityStateName CS_Unknown = ''unknown''"

section \<open>The environment\<close>

text \<open>
  What the functions ask of the machine they run on: how the tool was built and which Capstone it has, the
  caller's process, user and group ids, which task directories exist under \<^verbatim>\<open>/proc/self/task\<close>, the lines of
  a process's \<^verbatim>\<open>status\<close> file (none when it cannot be opened) and the number read from
  \<^verbatim>\<open>ptrace_scope\<close> (-1 when there is none).
\<close>

record caps_env =
  ce_build :: build_target
  ce_capstone :: nat
  ce_pid :: int
  ce_task :: "int \<Rightarrow> bool"
  ce_uid :: u32
  ce_gid :: u32
  ce_status :: "int \<Rightarrow> string list"
  ce_scope :: int

text \<open>\<^verbatim>\<open>std::error_code\<close>: whether its category is the system one, the number (0 is no error) and its message.\<close>

record error_code =
  ec_system :: bool
  ec_value :: int
  ec_message :: string

definition no_error :: error_code where
  "no_error = \<lparr> ec_system = True, ec_value = 0, ec_message = ''Success'' \<rparr>"

definition is_error :: "error_code \<Rightarrow> bool" where
  "is_error e \<longleftrightarrow> ec_value e \<noteq> 0"

abbreviation EPERM :: int where "EPERM \<equiv> 1"

section \<open>The capability table\<close>

text \<open>The lambda \<^verbatim>\<open>add\<close>: a dead target and a target of another user override the state and the reason.\<close>

definition add_capability :: "TargetDescription \<Rightarrow> TargetFeature \<Rightarrow> CapabilityState \<Rightarrow> string \<Rightarrow> TargetCapability" where
  "add_capability d f s reason =
    (let (s, reason) = if \<not> live d then (CS_Blocked, ''Target exited or its identity changed'') else (s, reason);
         (s, reason) = if otherOwner d then (CS_Blocked, ''The process belongs to another user; only root can open it'') else (s, reason)
     in \<lparr> tc_feature = f, tc_state = s, tc_reason = reason \<rparr>)"

definition is_local :: "TargetDescription \<Rightarrow> bool" where
  "is_local d \<longleftrightarrow> transport d = TT_Local"

definition nativeX86 :: "caps_env \<Rightarrow> TargetDescription \<Rightarrow> bool" where
  "nativeX86 env d \<longleftrightarrow> is_local d \<and> architecture (nativeTargetMachine (ce_build env)) = CA_X86_64 \<and> isX86 (host d) \<and>
     (abi (host d) = TA_LinuxI386 \<or> abi (host d) = TA_LinuxX86_64 \<or> abi (host d) = TA_LinuxX32)"

definition nativeArmMemory :: "caps_env \<Rightarrow> TargetDescription \<Rightarrow> bool" where
  "nativeArmMemory env d \<longleftrightarrow> is_local d \<and> architecture (nativeTargetMachine (ce_build env)) = CA_Arm64 \<and>
     architecture (host d) = CA_Arm64 \<and> abi (host d) = TA_LinuxAarch64"

definition nativeX86Debug :: "caps_env \<Rightarrow> TargetDescription \<Rightarrow> bool" where
  "nativeX86Debug env d \<longleftrightarrow> is_local d \<and> architecture (nativeTargetMachine (ce_build env)) = CA_X86_64 \<and> isX86 (host d) \<and>
     (abi (host d) = TA_LinuxI386 \<or> abi (host d) = TA_LinuxX86_64 \<or> abi (host d) = TA_LinuxX32)"

definition nativeArmSession :: "caps_env \<Rightarrow> TargetDescription \<Rightarrow> bool" where
  "nativeArmSession env d \<longleftrightarrow> is_local d \<and> architecture (nativeTargetMachine (ce_build env)) = CA_Arm64 \<and>
     architecture (host d) = CA_Arm64 \<and> abi (host d) = TA_LinuxAarch64 \<and>
     architecture (program d) = CA_Arm64 \<and> runtime d = TR_Native"

definition ownedTracer :: "caps_env \<Rightarrow> TargetDescription \<Rightarrow> bool" where
  "ownedTracer env d \<longleftrightarrow> tracerPid d = ce_pid env \<or> (is_local d \<and> tracerPid d > 0 \<and> ce_task env (tracerPid d))"

definition tracedElsewhere :: "caps_env \<Rightarrow> TargetDescription \<Rightarrow> bool" where
  "tracedElsewhere env d \<longleftrightarrow> tracerPid d \<noteq> 0 \<and> \<not> ownedTracer env d"

definition byteTransport :: "TargetDescription \<Rightarrow> bool" where
  "byteTransport d \<longleftrightarrow> transport d = TT_Local \<or> transport d = TT_CEServer \<or> transport d = TT_Gdb"

definition memory_capability :: "TargetDescription \<Rightarrow> TargetFeature \<Rightarrow> TargetCapability" where
  "memory_capability d f = add_capability d f (if byteTransport d then CS_Available else CS_Partial)
     (if byteTransport d then ''Access permissions are checked by the memory operation''
      else ''Process transport integration is incomplete or unknown'')"

definition numeric_capability :: "TargetDescription \<Rightarrow> TargetCapability" where
  "numeric_capability d = add_capability d TF_NumericScan
     (if byteTransport d \<and> byteOrder (program d) \<noteq> BO_Unknown then CS_Available else CS_Partial)
     (if byteOrder (program d) = BO_Unknown then ''Byte scans work; numeric scans need an explicit data byte order''
      else ''Uses the selected program's data byte order; access permissions are checked at use'')"

definition pointer_capability :: "TargetDescription \<Rightarrow> TargetCapability" where
  "pointer_capability d = add_capability d TF_PointerScan
     (if hasPointers (program d) \<and> byteOrder (program d) \<noteq> BO_Unknown then CS_Available else CS_Unknown)
     (if \<not> hasPointers (program d) then ''Target pointer width is unknown''
      else if byteOrder (program d) = BO_Unknown then ''Target byte order is unknown''
      else ''Uses the program's pointer width and byte order'')"

text \<open>\<^verbatim>\<open>instructionBackend\<close> is whether the program's architecture has a disassembler.\<close>

definition instruction_capability :: "caps_env \<Rightarrow> TargetDescription \<Rightarrow> TargetFeature \<Rightarrow> TargetCapability" where
  "instruction_capability env d f =
    (let instructions = disassemblerArchFor (ce_capstone env) (program d);
         assembler = (case instructions of Inl e \<Rightarrow> Inl e | Inr a \<Rightarrow> assemblerArchFor a);
         fallback = add_capability d f (if is_ok instructions then CS_Available else CS_Unsupported)
           (if is_ok instructions then ''Select the module's instruction mode for mixed-code targets''
            else ''No instruction backend for '' @ cpuArchitectureName (architecture (program d)))
     in if f = TF_Assemble \<and> is_ok instructions
        then case assembler of Inl e \<Rightarrow> add_capability d f CS_Unsupported e | Inr _ \<Rightarrow> fallback
        else fallback)"

definition mapping_capability :: "caps_env \<Rightarrow> TargetDescription \<Rightarrow> TargetFeature \<Rightarrow> TargetCapability" where
  "mapping_capability env d f =
    (if pendingRecovery d then add_capability d f CS_Blocked ''Pending syscall recovery; retry before another operation''
     else if tracedElsewhere env d \<and> is_local d then add_capability d f CS_Blocked ''Target is traced by another debugger''
     else if transport d = TT_CEServer then add_capability d f CS_Available ''Executed by the remote server''
     else if nativeArmMemory env d then add_capability d f CS_Partial
       ''Linux syscall backend with vector-state recovery; live scalable vectors require an unfiltered kernel main stack without active GCS''
     else let nativeMemory = nativeX86 env d \<or> nativeArmMemory env d in
       add_capability d f (if nativeMemory then CS_Available else CS_Unsupported)
         (if nativeMemory then ''Linux syscall backend with retained recovery'' else ''Target syscall ABI has no backend yet''))"

definition session_capability :: "caps_env \<Rightarrow> TargetDescription \<Rightarrow> TargetFeature \<Rightarrow> TargetCapability" where
  "session_capability env d f =
    (if pendingRecovery d then add_capability d f CS_Blocked ''Target has pending syscall recovery''
     else if tracedElsewhere env d then add_capability d f CS_Blocked ''Target is traced by another debugger''
     else if f = TF_SoftwareWatchpoint \<and> (nativeX86 env d \<or> nativeArmSession env d) \<and> runtime d = TR_Native then
       add_capability d f CS_Partial ''Page guards observe user-mode faults; kernel writes and overlapping/bulk accesses need additional coverage''
     else if (f = TF_Debugger \<or> f = TF_Trace \<or> f = TF_HardwareWatchpoint) \<and> nativeArmSession env d then
       add_capability d f CS_Partial ''Native ARM64 session/trace/watchpoint backend; complete frontend and unwinding integration is pending''
     else if (f = TF_LibraryInjection \<or> f = TF_RemoteThread) \<and> runtime d \<noteq> TR_Wine \<and> (nativeX86 env d \<or> nativeArmSession env d) then
       add_capability d f CS_Partial ''Native call owner with retained private frames; requires an eligible native thread and target loader/pthread symbols''
     else let backend = (if f = TF_LibraryInjection \<or> f = TF_RemoteThread \<or> f = TF_SoftwareWatchpoint then nativeX86 env d else nativeX86Debug env d) in
       if \<not> backend \<or> \<not> isX86 (program d) then
         let remoteDebugger = (transport d = TT_CEServer \<and> architecture (program d) = CA_X86_64 \<and> (f = TF_Debugger \<or> f = TF_HardwareWatchpoint)) in
         add_capability d f (if remoteDebugger then CS_Partial else CS_Unsupported)
           (if remoteDebugger then ''Remote context/events exist; local ptrace operations are unavailable''
            else ''No complete backend for this target/transport'')
       else if runtime d = TR_Wine \<and> (f = TF_LibraryInjection \<or> f = TF_RemoteThread) then
         add_capability d f CS_Unsupported ''Wine-safe loader calls and Windows thread initialization need a dedicated backend''
       else if runtime d = TR_Wine \<and> f = TF_SoftwareWatchpoint then
         add_capability d f CS_Unsupported ''Page guards conflict with Wine/Proton write-watch''
       else if runtime d = TR_Wine \<and> f = TF_HardwareWatchpoint then
         add_capability d f CS_Partial ''Transient watchpoints currently cover only the main thread''
       else add_capability d f CS_Available '''')"

definition code_capability :: "TargetDescription \<Rightarrow> TargetCapability" where
  "code_capability d = add_capability d TF_CodeInjection
     (if isX86 (program d) \<and> transport d \<noteq> TT_Gdb then CS_Available else CS_Unsupported)
     (if transport d = TT_Gdb then ''Guest allocation, protection and relocation adapters are incomplete''
      else if isX86 (program d) then ''Allocation/protection and exact instruction relocation are also required''
      else ''Injection templates and hooks currently require x86'')"

definition guest_capability :: "TargetDescription \<Rightarrow> TargetCapability" where
  "guest_capability d = add_capability d TF_GuestDebugging (if transport d = TT_Gdb then CS_Partial else CS_Unsupported)
     (if transport d = TT_Gdb then ''Guest memory and XML-described registers are available; debugger/MMU integration is incomplete''
      else ''Guest CPU/MMU adapters are not complete'')"

definition targetCapabilities :: "caps_env \<Rightarrow> TargetDescription \<Rightarrow> TargetCapability list" where
  "targetCapabilities env d =
     map (memory_capability d) [TF_ReadMemory, TF_WriteMemory] @
     [numeric_capability d, pointer_capability d] @
     map (instruction_capability env d) [TF_Disassemble, TF_Assemble] @
     map (mapping_capability env d) [TF_Allocate, TF_Protect] @
     map (session_capability env d) [TF_LibraryInjection, TF_RemoteThread, TF_Debugger, TF_HardwareWatchpoint, TF_SoftwareWatchpoint, TF_Trace] @
     [code_capability d, guest_capability d]"

section \<open>Refusals\<close>

definition refused :: "CapabilityState \<Rightarrow> bool" where
  "refused s \<longleftrightarrow> s = CS_Unsupported \<or> s = CS_Blocked \<or> s = CS_Unknown"

fun first_refusal :: "TargetFeature \<Rightarrow> TargetCapability list \<Rightarrow> string option" where
  "first_refusal f [] = None"
| "first_refusal f (c # cs) =
    (if tc_feature c = f \<and> refused (tc_state c) then Some (targetFeatureName f @ '': '' @ tc_reason c) else first_refusal f cs)"

text \<open>\<open>describe\<close> is the virtual \<^verbatim>\<open>targetDescription\<close> of the process handle, which may query and change the target.\<close>

type_synonym 'w describer = "'w \<Rightarrow> TargetDescription \<times> 'w"

definition process_capabilities :: "caps_env \<Rightarrow> 'w describer \<Rightarrow> 'w \<Rightarrow> TargetCapability list \<times> 'w" where
  "process_capabilities env describe w = (case describe w of (d, w) \<Rightarrow> (targetCapabilities env d, w))"

definition unsupportedTargetOperation :: "caps_env \<Rightarrow> 'w describer \<Rightarrow> TargetFeature \<Rightarrow> 'w \<Rightarrow> string option \<times> 'w" where
  "unsupportedTargetOperation env describe f w =
    (case process_capabilities env describe w of (cs, w) \<Rightarrow> (first_refusal f cs, w))"

definition scope_note :: "int \<Rightarrow> string" where
  "scope_note scope = (if scope \<ge> 1 then '' (kernel.yama.ptrace_scope='' @ show_int scope @ '' only lets a process read its own descendants: start the target from this tool, run as root or with cap_sys_ptrace, or set ptrace_scope to 0)'' else [])"

definition targetOperationError :: "caps_env \<Rightarrow> 'w describer \<Rightarrow> TargetFeature \<Rightarrow> error_code \<Rightarrow> 'w \<Rightarrow> string \<times> 'w" where
  "targetOperationError env describe f e w =
    (case unsupportedTargetOperation env describe f w of
       (Some reason, w) \<Rightarrow> (reason, w)
     | (None, w) \<Rightarrow>
       (case describe w of (d, w) \<Rightarrow>
         (if \<not> is_local d \<and> (f = TF_Debugger \<or> f = TF_Trace \<or> f = TF_HardwareWatchpoint \<or> f = TF_SoftwareWatchpoint)
            then targetFeatureName f @ '': local ptrace operations are unavailable over this transport''
          else if is_error e \<and> ec_system e \<and> ec_value e = EPERM \<and> is_local d
            then targetFeatureName f @ '': '' @ ec_message e @ scope_note (ce_scope env)
          else if is_error e then targetFeatureName f @ '': '' @ ec_message e
          else targetFeatureName f @ '' failed'', w)))"

section \<open>Ownership\<close>

text \<open>
  \<^verbatim>\<open>ids >> id\<close> for an \<^verbatim>\<open>unsigned long\<close>: white space is skipped, a sign is accepted (a minus negates modulo
  $2^{64}$), and the extraction fails when no digit follows or the value does not fit.
\<close>

definition extract_ulong :: "string \<Rightarrow> (u64 \<times> string) option" where
  "extract_ulong s =
    (let s = dropWhile is_space s;
         neg = (s \<noteq> [] \<and> hd s = CHR ''-'');
         s = (if s \<noteq> [] \<and> (hd s = CHR ''-'' \<or> hd s = CHR ''+'') then tl s else s);
         ds = takeWhile (is_digit_of 10) s;
         n = run_value 10 ds
     in if ds = [] \<or> n \<ge> 2 ^ 64 then None
        else Some (if neg then - of_nat n else of_nat n, dropWhile (is_digit_of 10) s))"

lemma dropWhile_shorter: "length (dropWhile P s) \<le> length s"
  by (induction s) auto

lemma extract_ulong_shorter:
  assumes "extract_ulong s = Some (v, r)"
  shows "length r < length s"
proof -
  define t where "t = dropWhile is_space s"
  define u where "u = (if t \<noteq> [] \<and> (hd t = CHR ''-'' \<or> hd t = CHR ''+'') then tl t else t)"
  from assms have r: "r = dropWhile (is_digit_of 10) u" and ds: "takeWhile (is_digit_of 10) u \<noteq> []"
    unfolding extract_ulong_def Let_def t_def [symmetric] u_def [symmetric] by (auto split: if_split_asm)
  have "length u \<le> length t" by (simp add: u_def)
  also have "length t \<le> length s" by (simp add: t_def dropWhile_shorter)
  finally have "length u \<le> length s" .
  moreover have "length r < length u" using ds takeWhile_dropWhile_id [of "is_digit_of 10" u]
    by (metis r length_append length_greater_0_conv less_add_same_cancel2)
  ultimately show ?thesis by simp
qed

text \<open>The numbers of a line, up to the first that cannot be read.\<close>

function read_ids :: "string \<Rightarrow> u64 list" where
  "read_ids s = (case extract_ulong s of None \<Rightarrow> [] | Some (v, r) \<Rightarrow> v # read_ids r)"
  by pat_completeness auto
termination by (relation "measure length") (auto dest: extract_ulong_shorter)

declare read_ids.simps [simp del]

definition ids_match :: "u64 \<Rightarrow> string \<Rightarrow> bool" where
  "ids_match want s = (let ids = read_ids s in list_all (\<lambda>id. id = want) ids \<and> length ids = 4)"

definition isUid :: "string \<Rightarrow> bool" where
  "isUid line = (take 4 line = ''Uid:'')"

definition isGid :: "string \<Rightarrow> bool" where
  "isGid line = (take 4 line = ''Gid:'')"

text \<open>One line of the status file: the pair of \<^verbatim>\<open>uidsMatch\<close> and \<^verbatim>\<open>gidsMatch\<close> after it.\<close>

definition status_line :: "caps_env \<Rightarrow> bool \<times> bool \<Rightarrow> string \<Rightarrow> bool \<times> bool" where
  "status_line env m line =
    (case m of (uidsMatch, gidsMatch) \<Rightarrow>
      if \<not> isUid line \<and> \<not> isGid line then m
      else let want = (if isUid line then ucast (ce_uid env) else ucast (ce_gid env)); ok = ids_match want (drop 4 line) in
        if isUid line then (ok, gidsMatch) else (uidsMatch, ok))"

definition processOwnedByCaller :: "caps_env \<Rightarrow> int \<Rightarrow> bool" where
  "processOwnedByCaller env p =
    (if p \<le> 0 then False
     else if ce_uid env = 0 then True
     else case foldl (status_line env) (False, False) (ce_status env p) of (uidsMatch, gidsMatch) \<Rightarrow> uidsMatch \<and> gidsMatch)"

text \<open>
  The seize itself is the parameter \<open>ptrace_seize\<close>, from the thread, the options and the state to the
  result of the call and the new state; a refusal is -1 with \<^verbatim>\<open>errno\<close> EPERM and no call.
\<close>

definition seizeIfOwned :: "caps_env \<Rightarrow> (int \<Rightarrow> u64 \<Rightarrow> 'w \<Rightarrow> (int \<times> int) \<times> 'w) \<Rightarrow> int \<Rightarrow> u64 \<Rightarrow> 'w \<Rightarrow> (int \<times> int) \<times> 'w" where
  "seizeIfOwned env ptrace_seize tid options w =
    (if \<not> processOwnedByCaller env tid then ((- 1, EPERM), w) else ptrace_seize tid options w)"

section \<open>Probing a target\<close>

type_synonym 'w prober = "u64 \<Rightarrow> nat \<Rightarrow> 'w \<Rightarrow> (error_code + byte list) \<times> 'w"

text \<open>The loop over the regions: whether a byte was read, the number of probes and the last error.\<close>

fun probe_regions :: "'w prober \<Rightarrow> MemoryRegion list \<Rightarrow> nat \<Rightarrow> error_code \<Rightarrow> 'w \<Rightarrow> (bool \<times> nat \<times> error_code) \<times> 'w" where
  "probe_regions read [] probed lst w = ((False, probed, lst), w)"
| "probe_regions read (r # rs) probed lst w =
    (if \<not> prot_has (r_protection r) Prot_Read \<or> r_size r = 0 then probe_regions read rs probed lst w
     else case read (r_base r) 1 w of (res, w) \<Rightarrow>
       (case res of
          Inr bytes \<Rightarrow> if length bytes = 1 then ((True, probed, lst), w)
            else if Suc probed = 4 then ((False, Suc probed, lst), w) else probe_regions read rs (Suc probed) lst w
        | Inl e \<Rightarrow> if Suc probed = 4 then ((False, Suc probed, e), w) else probe_regions read rs (Suc probed) e w))"

definition memoryAccessProblem :: "caps_env \<Rightarrow> 'w describer \<Rightarrow> ('w \<Rightarrow> MemoryRegion list \<times> 'w) \<Rightarrow> 'w prober \<Rightarrow> 'w \<Rightarrow> string option \<times> 'w" where
  "memoryAccessProblem env describe queryRegions read w =
    (case queryRegions w of (rs, w) \<Rightarrow>
      (case probe_regions read rs 0 no_error w of ((found, probed, lst), w) \<Rightarrow>
        if found then (None, w)
        else if probed = 0 \<or> \<not> is_error lst then (None, w)
        else case targetOperationError env describe TF_ReadMemory lst w of (t, w) \<Rightarrow> (Some t, w)))"

section \<open>Lemmas on the table\<close>

lemma tc_feature_simps [simp]:
  "tc_feature (add_capability d f s r) = f"
  "tc_feature (memory_capability d f) = f"
  "tc_feature (numeric_capability d) = TF_NumericScan"
  "tc_feature (pointer_capability d) = TF_PointerScan"
  "tc_feature (code_capability d) = TF_CodeInjection"
  "tc_feature (guest_capability d) = TF_GuestDebugging"
  by (simp_all add: add_capability_def memory_capability_def numeric_capability_def pointer_capability_def
    code_capability_def guest_capability_def Let_def)

lemma tc_feature_cases [simp]:
  "tc_feature (instruction_capability env d f) = f"
  "tc_feature (mapping_capability env d f) = f"
  "tc_feature (session_capability env d f) = f"
  by (simp_all add: instruction_capability_def mapping_capability_def session_capability_def Let_def split: sum.splits)

lemma tc_state_add: "tc_state (add_capability d f s r) = (if live d \<and> \<not> otherOwner d then s else CS_Blocked)"
  by (simp add: add_capability_def)

definition session_features :: "TargetFeature list" where
  "session_features = [TF_LibraryInjection, TF_RemoteThread, TF_Debugger, TF_HardwareWatchpoint, TF_SoftwareWatchpoint, TF_Trace]"

text \<open>The features in the order of the table.\<close>

lemma targetCapabilities_features:
  "map tc_feature (targetCapabilities env d) =
     [TF_ReadMemory, TF_WriteMemory, TF_NumericScan, TF_PointerScan, TF_Disassemble, TF_Assemble, TF_Allocate, TF_Protect]
     @ session_features @ [TF_CodeInjection, TF_GuestDebugging]"
  by (simp add: targetCapabilities_def session_features_def)

lemma feature_listed: "f \<in> tc_feature ` set (targetCapabilities env d)"
proof -
  have "f \<in> set (map tc_feature (targetCapabilities env d))"
    unfolding targetCapabilities_features session_features_def by (cases f) simp_all
  then show ?thesis by simp
qed

lemma capabilities_distinct: "distinct (map tc_feature (targetCapabilities env d))"
  unfolding targetCapabilities_features session_features_def by simp

text \<open>Every entry goes through \<open>add_capability\<close>.\<close>

definition added :: "TargetDescription \<Rightarrow> TargetCapability \<Rightarrow> bool" where
  "added d c \<longleftrightarrow> (\<exists>s r. c = add_capability d (tc_feature c) s r)"

lemma added_add [simp]: "added d (add_capability d f s r)"
  by (auto simp: added_def)

lemma added_entries [simp]:
  "added d (memory_capability d f)" "added d (numeric_capability d)" "added d (pointer_capability d)"
  "added d (code_capability d)" "added d (guest_capability d)"
  by (simp_all add: memory_capability_def numeric_capability_def pointer_capability_def code_capability_def guest_capability_def)

lemma added_cases [simp]:
  "added d (instruction_capability env d f)" "added d (mapping_capability env d f)" "added d (session_capability env d f)"
  by (simp_all add: instruction_capability_def mapping_capability_def session_capability_def Let_def split: sum.splits)

lemma capability_added: "c \<in> set (targetCapabilities env d) \<Longrightarrow> added d c"
  by (auto simp: targetCapabilities_def)

lemma added_state: "added d c \<Longrightarrow> \<not> live d \<or> otherOwner d \<Longrightarrow> tc_state c = CS_Blocked"
  unfolding added_def by (metis tc_state_add)

text \<open>The state the table gives a feature.\<close>

definition feature_state :: "caps_env \<Rightarrow> TargetDescription \<Rightarrow> TargetFeature \<Rightarrow> CapabilityState" where
  "feature_state env d f = (case find (\<lambda>c. tc_feature c = f) (targetCapabilities env d) of None \<Rightarrow> CS_Unknown | Some c \<Rightarrow> tc_state c)"

lemma find_distinct_key:
  "distinct (map k xs) \<Longrightarrow> x \<in> set xs \<Longrightarrow> find (\<lambda>y. k y = k x) xs = Some x"
  by (induction xs) (auto simp: rev_image_eqI)

lemma feature_state_entry:
  assumes "c \<in> set (targetCapabilities env d)" "tc_feature c = f"
  shows "feature_state env d f = tc_state c"
  using find_distinct_key [OF capabilities_distinct assms(1)] assms(2) by (simp add: feature_state_def)

lemma first_refusal_find:
  assumes "distinct (map tc_feature cs)"
  shows "first_refusal f cs = (case find (\<lambda>c. tc_feature c = f) cs of None \<Rightarrow> None
    | Some c \<Rightarrow> if refused (tc_state c) then Some (targetFeatureName f @ '': '' @ tc_reason c) else None)"
proof -
  have n: "f \<notin> tc_feature ` set cs \<Longrightarrow> first_refusal f cs = None" for f cs by (induction cs) auto
  have k: "f \<notin> tc_feature ` set cs \<Longrightarrow> find (\<lambda>c. tc_feature c = f) cs = None" for f cs by (auto simp: find_None_iff)
  from assms show ?thesis by (induction cs) (auto simp: n k)
qed

lemma feature_state_mem: "\<exists>c \<in> set (targetCapabilities env d). tc_feature c = f \<and>
   find (\<lambda>c. tc_feature c = f) (targetCapabilities env d) = Some c"
proof -
  obtain c where "c \<in> set (targetCapabilities env d)" "tc_feature c = f" using feature_listed [of f env d] by auto
  with find_distinct_key [OF capabilities_distinct this(1)] show ?thesis by auto
qed

lemma first_refusal_iff: "first_refusal f (targetCapabilities env d) \<noteq> None \<longleftrightarrow> refused (feature_state env d f)"
  using feature_state_mem [of env d f]
  by (auto simp: first_refusal_find [OF capabilities_distinct] feature_state_def split: if_splits)

lemma session_state:
  assumes "f \<in> set session_features"
  shows "feature_state env d f = tc_state (session_capability env d f)"
  using assms by (intro feature_state_entry) (auto simp: targetCapabilities_def session_features_def)

lemma mapping_state:
  assumes "f \<in> {TF_Allocate, TF_Protect}"
  shows "feature_state env d f = tc_state (mapping_capability env d f)"
  using assms by (intro feature_state_entry) (auto simp: targetCapabilities_def)

lemma code_state: "feature_state env d TF_CodeInjection = tc_state (code_capability d)"
  by (intro feature_state_entry) (auto simp: targetCapabilities_def)

section \<open>Lemmas on the status file\<close>

text \<open>How the kernel prints the four ids of a line.\<close>

definition id_fields :: "nat list \<Rightarrow> string" where
  "id_fields ids = concat (map (\<lambda>n. CHR 0x09 # show_base 10 n) ids)"

lemma extract_ulong_field:
  assumes "n < 2 ^ 64" "rest = [] \<or> \<not> is_digit_of 10 (hd rest)"
  shows "extract_ulong (CHR 0x09 # show_base 10 n @ rest) = Some (of_nat n, rest)"
proof -
  obtain c r where s: "show_base 10 n = c # r" using show_base_nonempty(1) [of 10 n] by (cases "show_base 10 n") auto
  have digits: "\<forall>c \<in> set (show_base 10 n). is_digit_of 10 c" using show_base_digits [of 10 n] by simp
  then have c: "is_digit_of 10 c" using s by simp
  have tab: "is_space (CHR 0x09)" by code_simp
  have rest: "takeWhile (is_digit_of 10) rest = []" "dropWhile (is_digit_of 10) rest = rest"
    using assms(2) by (cases rest; simp)+
  have "dropWhile is_space (CHR 0x09 # show_base 10 n @ rest) = show_base 10 n @ rest"
    using s tab digit_not_special(1) [OF c] by simp
  moreover have "takeWhile (is_digit_of 10) (show_base 10 n @ rest) = show_base 10 n"
    "dropWhile (is_digit_of 10) (show_base 10 n @ rest) = rest"
    using digits rest by (simp_all add: takeWhile_append2 dropWhile_append2)
  ultimately show ?thesis using s digit_not_special(2,3) [OF c] assms(1) run_value_show_base [of 10 n]
    by (simp add: extract_ulong_def Let_def)
qed

lemma read_ids_fields: "list_all (\<lambda>n. n < 2 ^ 64) ids \<Longrightarrow> read_ids (id_fields ids) = map of_nat ids"
proof (induction ids)
  case Nil
  have "extract_ulong [] = None" by code_simp
  then show ?case by (simp add: id_fields_def read_ids.simps)
next
  case (Cons n ids)
  have tab: "\<not> is_digit_of 10 (CHR 0x09)" by code_simp
  have "id_fields ids = [] \<or> \<not> is_digit_of 10 (hd (id_fields ids))" by (cases ids) (simp_all add: id_fields_def tab)
  with extract_ulong_field [of n "id_fields ids"] Cons show ?case
    by (subst read_ids.simps) (simp add: id_fields_def)
qed

lemma status_line_other: "\<not> isUid l \<Longrightarrow> \<not> isGid l \<Longrightarrow> status_line env m l = m"
  by (simp add: status_line_def split: prod.splits)

lemma status_lines_other: "list_all (\<lambda>l. \<not> isUid l \<and> \<not> isGid l) ls \<Longrightarrow> foldl (status_line env) m ls = m"
  by (induction ls arbitrary: m) (auto simp: status_line_other)

lemma ids_match_fields:
  assumes "list_all (\<lambda>n. n < 2 ^ 32) ids"
  shows "ids_match (ucast (want :: u32)) (id_fields ids) \<longleftrightarrow> ids = replicate 4 (unat want)"
proof -
  have b: "list_all (\<lambda>n. n < 2 ^ 64) ids" using assms by (auto simp: list_all_iff)
  have eq: "(of_nat n :: u64) = ucast want \<longleftrightarrow> n = unat want" if "n < 2 ^ 32" for n
    using that unsigned_less [of want, where 'a = nat]
    by (auto simp: word_unat_eq_iff unat_of_nat unsigned_ucast_eq take_bit_eq_mod)
  have "list_all (\<lambda>id. id = ucast want) (map (of_nat :: nat \<Rightarrow> u64) ids) \<longleftrightarrow> list_all (\<lambda>n. n = unat want) ids"
    using assms eq by (auto simp: list_all_iff)
  then have "ids_match (ucast want) (id_fields ids) \<longleftrightarrow> list_all (\<lambda>n. n = unat want) ids \<and> length ids = 4"
    unfolding ids_match_def read_ids_fields [OF b] Let_def by simp
  also have "\<dots> \<longleftrightarrow> ids = replicate 4 (unat want)"
    by (auto simp: list_eq_iff_nth_eq list_all_length)
  finally show ?thesis .
qed

section \<open>What the probe reports\<close>

definition readable_region :: "MemoryRegion \<Rightarrow> bool" where
  "readable_region r \<longleftrightarrow> prot_has (r_protection r) Prot_Read \<and> r_size r \<noteq> 0"

text \<open>For a target that does not change while it is probed, the loop looks at the first \<open>4 - k\<close> readable regions.\<close>

lemma probe_regions_pure:
  assumes "\<And>a n w. read a n w = (f a n, w)" "k < 4" "cs = take (4 - k) (filter readable_region rs)"
  shows "fst (fst (probe_regions read rs k lst w)) \<longleftrightarrow> (\<exists>c \<in> set cs. \<exists>b. f (r_base c) 1 = Inr [b])"
    and "(\<forall>c \<in> set cs. \<forall>b. f (r_base c) 1 \<noteq> Inr [b]) \<Longrightarrow>
      probe_regions read rs k lst w = ((False, k + length cs, foldl (\<lambda>e c. case f (r_base c) 1 of Inl x \<Rightarrow> x | Inr _ \<Rightarrow> e) lst cs), w)"
  using assms(2,3)
proof (induction rs arbitrary: k lst cs)
  case Nil
  { case 1 with Nil show ?case by simp }
  { case 2 with Nil show ?case by simp }
next
  case (Cons r rs)
  have step: "take (4 - k) (x # xs) = x # take (3 - k) xs" if "k < 4" for k x and xs :: "MemoryRegion list"
    using that by (simp add: take_Cons')
  have one: "length bs = Suc 0 \<longleftrightarrow> (\<exists>b. bs = [b])" for bs :: "byte list" by (cases bs) auto
  { case 1
    from 1 Cons.IH(1) [of k] Cons.IH(1) [of "Suc k"] show ?case
      by (cases "Suc k = 4") (auto simp: assms(1) step readable_region_def one split: sum.splits) }
  { case 2
    show ?case
    proof (cases "readable_region r")
      case False
      with 2 have "probe_regions read rs k lst w =
          ((False, k + length cs, foldl (\<lambda>e c. case f (r_base c) 1 of Inl x \<Rightarrow> x | Inr _ \<Rightarrow> e) lst cs), w)"
        by (intro Cons.IH(2)) auto
      with False show ?thesis by (auto simp: readable_region_def)
    next
      case True
      define cs' where "cs' = take (3 - k) (filter readable_region rs)"
      have cs: "cs = r # cs'" using True 2 step [OF 2(2)] by (simp add: cs'_def)
      have "probe_regions read rs (Suc k) e w =
          ((False, Suc k + length cs', foldl (\<lambda>e c. case f (r_base c) 1 of Inl x \<Rightarrow> x | Inr _ \<Rightarrow> e) e cs'), w)" if "Suc k \<noteq> 4" for e
        using 2(1,2) that by (intro Cons.IH(2)) (simp_all add: cs cs'_def)
      moreover have "cs' = []" if "Suc k = 4" using that by (simp add: cs'_def)
      moreover have "length bs \<noteq> 1" if "f (r_base r) 1 = Inr bs" for bs using 2(1) that cs one [of bs] by auto
      ultimately show ?thesis using True cs
        by (cases "f (r_base r) 1") (auto simp: assms(1) [of "r_base r" 1 w] assms(1) [of "r_base r" "Suc 0" w] readable_region_def)
    qed }
qed

text \<open>
  An unreadable process is reported exactly when the first four readable regions exist and all fail, with the
  reason of the last error.
\<close>

theorem memoryAccessProblem_reports:
  assumes "\<And>a n w. read a n w = (f a n, w)"
  shows "fst (memoryAccessProblem env (\<lambda>w. (d, w)) (\<lambda>w. (rs, w)) read w) =
    (let cs = take 4 (filter readable_region rs); e = foldl (\<lambda>e c. case f (r_base c) 1 of Inl x \<Rightarrow> x | Inr _ \<Rightarrow> e) no_error cs in
     if (\<exists>c \<in> set cs. \<exists>b. f (r_base c) 1 = Inr [b]) \<or> \<not> is_error e then None
     else Some (fst (targetOperationError env (\<lambda>w. (d, w)) TF_ReadMemory e w)))"
proof -
  define cs where "cs = take 4 (filter readable_region rs)"
  have cs: "cs = take (4 - 0) (filter readable_region rs)" by (simp add: cs_def)
  note p = probe_regions_pure [OF assms zero_less_numeral cs, where lst = no_error and w = w]
  show ?thesis
  proof (cases "\<exists>c \<in> set cs. \<exists>b. f (r_base c) 1 = Inr [b]")
    case True
    then show ?thesis using p(1) by (simp add: memoryAccessProblem_def Let_def cs_def [symmetric] prod.case_eq_if)
  next
    case False
    then have "probe_regions read rs 0 no_error w =
        ((False, length cs, foldl (\<lambda>e c. case f (r_base c) 1 of Inl x \<Rightarrow> x | Inr _ \<Rightarrow> e) no_error cs), w)" using p(2) by simp
    with False show ?thesis
      by (cases "cs = []") (simp_all add: memoryAccessProblem_def Let_def cs_def [symmetric] prod.case_eq_if is_error_def no_error_def)
  qed
qed

section \<open>Properties\<close>

definition sample_caps_env :: caps_env where
  "sample_caps_env = \<lparr> ce_build = \<lparr> build_isa = Build_x86_64, build_pointer_size = 8, build_big_endian = False, build_riscv_xlen = 0 \<rparr>, ce_capstone = 5, ce_pid = 100,
     ce_task = (\<lambda>_. False), ce_uid = 1000, ce_gid = 1000,
     ce_status = (\<lambda>p. if p = 7 then [''Name:'' @ CHR 0x09 # ''game'', ''Uid:'' @ id_fields [1000, 1000, 1000, 1000], ''Gid:'' @ id_fields [1000, 1000, 1000, 1000]]
       else [''Uid:'' @ id_fields [1000, 0, 0, 0], ''Gid:'' @ id_fields [1000, 1000, 1000, 1000]]),
     ce_scope = 1 \<rparr>"

text \<open>
  C22: the capability table of any target lists each of the sixteen features exactly once and is what decides a
  refusal. Nothing is offered for a target that has exited or belongs to another user; while a syscall
  recovery is pending or another debugger traces the target, memory mapping (for the local transport), calls
  into the target, debugging, watchpoints and tracing are blocked; a Wine process gets no library injection,
  remote thread or page-guard watchpoint, and a GDB target no allocation, protection change, hook or ptrace session.
\<close>

theorem capabilities_complete:
  "distinct (map tc_feature (targetCapabilities env d)) \<and> (\<forall>f. f \<in> set (map tc_feature (targetCapabilities env d))) \<and>
   (describe w = (d, w') \<longrightarrow> fst (unsupportedTargetOperation env describe f w) \<noteq> None \<longleftrightarrow>
      feature_state env d f \<in> {CS_Unsupported, CS_Blocked, CS_Unknown}) \<and>
   (\<not> live d \<or> otherOwner d \<longrightarrow> feature_state env d f = CS_Blocked) \<and>
   (f \<in> set session_features \<and> (pendingRecovery d \<or> tracedElsewhere env d) \<longrightarrow> feature_state env d f = CS_Blocked) \<and>
   (f \<in> {TF_Allocate, TF_Protect} \<and> (pendingRecovery d \<or> tracedElsewhere env d \<and> transport d = TT_Local) \<longrightarrow> feature_state env d f = CS_Blocked) \<and>
   (f \<in> {TF_LibraryInjection, TF_RemoteThread, TF_SoftwareWatchpoint} \<and> runtime d = TR_Wine \<longrightarrow>
      feature_state env d f \<in> {CS_Unsupported, CS_Blocked}) \<and>
   (f \<in> set session_features \<union> {TF_Allocate, TF_Protect, TF_CodeInjection} \<and> transport d = TT_Gdb \<longrightarrow>
      feature_state env d f \<in> {CS_Unsupported, CS_Blocked})"
proof -
  have "feature_state env d f = CS_Blocked" if "\<not> live d \<or> otherOwner d"
  proof -
    obtain c where c: "c \<in> set (targetCapabilities env d)" "tc_feature c = f" using feature_state_mem [of env d f] by blast
    from feature_state_entry [OF c] added_state [OF capability_added [OF c(1)] that] show ?thesis by simp
  qed
  moreover have "feature_state env d f = CS_Blocked" if "f \<in> set session_features" "pendingRecovery d \<or> tracedElsewhere env d"
    using that(2) unfolding session_state [OF that(1)]
    by (elim disjE) (simp_all add: session_capability_def tc_state_add)
  moreover have "feature_state env d f = CS_Blocked"
    if "f \<in> {TF_Allocate, TF_Protect}" "pendingRecovery d \<or> tracedElsewhere env d \<and> transport d = TT_Local"
    using that(2) unfolding mapping_state [OF that(1)]
    by (elim disjE) (simp_all add: mapping_capability_def tc_state_add is_local_def)
  moreover have "feature_state env d f \<in> {CS_Unsupported, CS_Blocked}"
    if f: "f \<in> {TF_LibraryInjection, TF_RemoteThread, TF_SoftwareWatchpoint}" and "runtime d = TR_Wine"
  proof -
    have s: "f \<in> set session_features" using f by (auto simp: session_features_def)
    show ?thesis using that unfolding session_state [OF s] insert_iff
      by (elim disjE) (simp_all add: session_capability_def tc_state_add Let_def nativeArmSession_def)
  qed
  moreover have "feature_state env d f \<in> {CS_Unsupported, CS_Blocked}" if g: "transport d = TT_Gdb" and f: "f \<in> set session_features"
    using g session_state [OF f]
    by (simp add: session_capability_def tc_state_add Let_def nativeArmSession_def nativeX86_def nativeX86Debug_def is_local_def)
  moreover have "feature_state env d f \<in> {CS_Unsupported, CS_Blocked}" if g: "transport d = TT_Gdb" and f: "f \<in> {TF_Allocate, TF_Protect}"
    using g mapping_state [OF f] by (simp add: mapping_capability_def tc_state_add Let_def nativeArmMemory_def nativeX86_def is_local_def)
  moreover have "feature_state env d f \<in> {CS_Unsupported, CS_Blocked}" if g: "transport d = TT_Gdb" and f: "f = TF_CodeInjection"
    using g f code_state [of env d] by (simp add: code_capability_def tc_state_add)
  moreover have "fst (unsupportedTargetOperation env describe f w) \<noteq> None \<longleftrightarrow> feature_state env d f \<in> {CS_Unsupported, CS_Blocked, CS_Unknown}"
    if "describe w = (d, w')"
    using that first_refusal_iff [of f env d] by (auto simp: unsupportedTargetOperation_def process_capabilities_def refused_def)
  moreover have "f \<in> set (map tc_feature (targetCapabilities env d))" for f using feature_listed [of f env d] by simp
  ultimately show ?thesis using capabilities_distinct [of env d] by blast
qed

definition sample_target :: TargetDescription where
  "sample_target = \<lparr> host = default_machine, program = default_machine\<lparr> architecture := CA_X86_64 \<rparr>, transport = TT_Gdb, runtime = TR_Wine,
     mixedCode = False, live = True, otherOwner = False, tracerPid = 0, pendingRecovery = False \<rparr>"

theorem capabilities_complete_witness:
  "feature_state sample_caps_env sample_target TF_Allocate \<in> {CS_Unsupported, CS_Blocked} \<and>
   feature_state sample_caps_env sample_target TF_RemoteThread \<in> {CS_Unsupported, CS_Blocked} \<and>
   fst (unsupportedTargetOperation sample_caps_env (\<lambda>w. (sample_target, w)) TF_Allocate ()) \<noteq> None"
proof -
  have t: "transport sample_target = TT_Gdb" "runtime sample_target = TR_Wine" by (simp_all add: sample_target_def)
  from capabilities_complete [of sample_caps_env sample_target "\<lambda>w. (sample_target, w)" "()" "()" TF_Allocate] t
    capabilities_complete [of sample_caps_env sample_target "\<lambda>w. (sample_target, w)" "()" "()" TF_RemoteThread]
  show ?thesis by auto
qed

text \<open>
  C18: a thread is only seized when it belongs to the caller. For the status file the kernel writes, the check
  succeeds exactly for root or when all four user ids and all four group ids of the process are the caller's
  real ones; otherwise \<^verbatim>\<open>seizeIfOwned\<close> fails with EPERM and never calls ptrace.
\<close>

theorem seize_only_owned:
  assumes "ce_status env p = pre @ (''Uid:'' @ id_fields us) # mid @ (''Gid:'' @ id_fields gs) # post"
    and "list_all (\<lambda>l. \<not> isUid l \<and> \<not> isGid l) (pre @ mid @ post)"
    and "list_all (\<lambda>n. n < 2 ^ 32) (us @ gs)"
  shows "(processOwnedByCaller env p \<longleftrightarrow>
      p > 0 \<and> (ce_uid env = 0 \<or> us = replicate 4 (unat (ce_uid env)) \<and> gs = replicate 4 (unat (ce_gid env)))) \<and>
    seizeIfOwned env ptrace_seize p options w =
      (if processOwnedByCaller env p then ptrace_seize p options w else ((- 1, EPERM), w))"
proof -
  have u: "status_line env (a, b) (''Uid:'' @ id_fields us) = (us = replicate 4 (unat (ce_uid env)), b)" for a b
    using assms(3) ids_match_fields [of us "ce_uid env"] by (simp add: status_line_def isUid_def isGid_def Let_def)
  have g: "status_line env (a, b) (''Gid:'' @ id_fields gs) = (a, gs = replicate 4 (unat (ce_gid env)))" for a b
    using assms(3) ids_match_fields [of gs "ce_gid env"] by (simp add: status_line_def isUid_def isGid_def Let_def)
  have "foldl (status_line env) (False, False) (ce_status env p) =
      (us = replicate 4 (unat (ce_uid env)), gs = replicate 4 (unat (ce_gid env)))"
    unfolding assms(1) using assms(2) u g by (simp add: status_lines_other)
  then show ?thesis by (auto simp: processOwnedByCaller_def seizeIfOwned_def)
qed

theorem seize_only_owned_witness:
  "processOwnedByCaller sample_caps_env 7 \<and> \<not> processOwnedByCaller sample_caps_env 8 \<and>
   seizeIfOwned sample_caps_env (\<lambda>_ _ w. ((0, 0), Suc w)) 8 0 5 = ((- 1, EPERM), 5)"
proof -
  have 7: "ce_status sample_caps_env 7 = [''Name:'' @ CHR 0x09 # ''game''] @ (''Uid:'' @ id_fields [1000, 1000, 1000, 1000]) # []
      @ (''Gid:'' @ id_fields [1000, 1000, 1000, 1000]) # []"
    and 8: "ce_status sample_caps_env 8 = [] @ (''Uid:'' @ id_fields [1000, 0, 0, 0]) # [] @ (''Gid:'' @ id_fields [1000, 1000, 1000, 1000]) # []"
    by (simp_all add: sample_caps_env_def)
  have id: "ce_uid sample_caps_env = 1000" "ce_gid sample_caps_env = 1000" by (simp_all add: sample_caps_env_def)
  have four: "replicate 4 x = [x, x, x, x]" for x :: nat by (simp add: numeral_eq_Suc)
  from seize_only_owned [OF 7, of "\<lambda>_ _ w. ((0, 0), Suc w)" 0 5] have "processOwnedByCaller sample_caps_env 7"
    by (simp add: id isUid_def isGid_def four)
  moreover from seize_only_owned [OF 8, of "\<lambda>_ _ w. ((0, 0), Suc w)" 0 5]
  have "\<not> processOwnedByCaller sample_caps_env 8" "seizeIfOwned sample_caps_env (\<lambda>_ _ w. ((0, 0), Suc w)) 8 0 5 = ((- 1, EPERM), 5)"
    by (simp_all add: id four)
  ultimately show ?thesis by blast
qed

end
