(* ===== verification/Relocator.thy ===== *)
theory Relocator
  imports Prelude
begin

unbundle bit_operations_syntax

text \<open>
  The AArch64 code relocator (\<^verbatim>\<open>arch/aarch64_relocator.cpp\<close>): classification of an instruction word, the slot
  reserved for it, the constants and branches emitted in its place and the two passes of
  \<^verbatim>\<open>relocateAarch64\<close>. Capstone only decides whether the source block decodes; the sizes of the
  instructions it reports are the parameter \<open>disassemble\<close>. The last part gives the affected instructions
  a semantics of their own and shows that every slot does what the instruction it replaces did.
\<close>

section \<open>Instruction words\<close>

definition nop_word :: u32 where
  "nop_word = 0xd503201f"

datatype Kind = K_Copy | K_Address | K_Branch | K_Conditional | K_Compare | K_Test | K_Literal

definition kind :: "u32 \<Rightarrow> Kind" where
  "kind word =
    (if word AND 0x1f000000 = 0x10000000 then K_Address
     else if word AND 0x7c000000 = 0x14000000 then K_Branch
     else if word AND 0xff000000 = 0x54000000 then K_Conditional
     else if word AND 0x7e000000 = 0x34000000 then K_Compare
     else if word AND 0x7e000000 = 0x36000000 then K_Test
     else if word AND 0x3b000000 = 0x18000000 then K_Literal
     else K_Copy)"

fun slot :: "Kind \<Rightarrow> nat" where
  "slot K_Copy = 4"
| "slot K_Address = 16"
| "slot K_Branch = 20"
| "slot K_Literal = 20"
| "slot K_Conditional = 24"
| "slot K_Compare = 24"
| "slot K_Test = 24"

definition wordAt :: "byte list \<Rightarrow> nat \<Rightarrow> u32" where
  "wordAt bytes offset = ucast (bytes ! offset) OR push_bit 8 (ucast (bytes ! (offset + 1))) OR
     push_bit 16 (ucast (bytes ! (offset + 2))) OR push_bit 24 (ucast (bytes ! (offset + 3)))"

definition emit :: "byte list \<Rightarrow> u32 \<Rightarrow> byte list" where
  "emit bytes word = bytes @ map (\<lambda>i. ucast (drop_bit (8 * i) word)) [0..<4]"

text \<open>\<^verbatim>\<open>constant\<close>: a MOVZ and three MOVK that load a 64-bit value.\<close>

definition constant_word :: "nat \<Rightarrow> u64 \<Rightarrow> nat \<Rightarrow> u32" where
  "constant_word reg value i =
    (if i \<noteq> 0 then 0xf2800000 else 0xd2800000) OR push_bit 21 (of_nat i) OR
      push_bit 5 (ucast (drop_bit (16 * i) value AND 0xffff)) OR of_nat reg"

definition move_constant :: "byte list \<Rightarrow> nat \<Rightarrow> u64 \<Rightarrow> byte list" where
  "move_constant bytes reg value = foldl (\<lambda>bytes i. emit bytes (constant_word reg value i)) bytes [0..<4]"

text \<open>\<^verbatim>\<open>signedField\<close> works in \<^verbatim>\<open>int64_t\<close>; a 32-bit field and its sign bit cannot overflow there.\<close>

definition signedField :: "u32 \<Rightarrow> nat \<Rightarrow> int" where
  "signedField value bits = (let sign = 2 ^ (bits - 1) in (uint value XOR sign) - sign)"

definition absolute :: "u64 \<Rightarrow> int \<Rightarrow> u64 expected" where
  "absolute pc offset =
    (if offset \<ge> 0 then
       if of_int offset > - 1 - pc then Inl ''AArch64 source operand overflows its address space''
       else Inr (pc + of_int offset)
     else let magnitude = (of_int (- (offset + 1)) :: u64) + 1 in
       if magnitude > pc then Inl ''AArch64 source operand underflows its address space''
       else Inr (pc - magnitude))"

definition relative :: "u64 \<Rightarrow> u64 \<Rightarrow> nat \<Rightarrow> u32 option" where
  "relative src dst bits =
    (if src AND 3 \<noteq> dst AND 3 then None
     else let units = (if dst \<ge> src then dst - src else src - dst) div 4;
              limit = push_bit (bits - 1) 1
          in if units > (if dst \<ge> src then limit - 1 else limit) then None
             else Some (ucast (if dst \<ge> src then units else 0 - units) AND (push_bit bits 1 - 1)))"

section \<open>Relocation\<close>

record Aarch64RelocationOptions =
  scratchRegister :: "nat option"
  allowIndirectBranches :: bool

record Aarch64RelocatedCode =
  rc_bytes :: "byte list"
  instructionOffsets :: "nat list"

definition branch :: "byte list \<Rightarrow> u64 \<Rightarrow> u64 \<Rightarrow> bool \<Rightarrow> Aarch64RelocationOptions \<Rightarrow> byte list expected" where
  "branch out pc target lnk opts =
    (case relative pc target 26 of
       Some rel \<Rightarrow> Inr (emit out ((if lnk then 0x94000000 else 0x14000000) OR rel))
     | None \<Rightarrow>
       if \<not> allowIndirectBranches opts then
         Inl ''Far AArch64 branch requires an explicitly allowed indirect veneer and a compatible landing site''
       else if \<not> lnk \<and> scratchRegister opts = None then
         Inl ''Far AArch64 branch requires an explicitly permitted scratch register''
       else let reg = (if lnk then 30 else the (scratchRegister opts)) in
         Inr (emit (move_constant out reg target) ((if lnk then 0xd63f0000 else 0xd61f0000) OR push_bit 5 (of_nat reg))))"

text \<open>\<^verbatim>\<open>mapBranch\<close>: a target inside the source block follows its instruction.\<close>

definition mapBranch :: "u64 \<Rightarrow> u64 \<Rightarrow> nat \<Rightarrow> nat list \<Rightarrow> u64 \<Rightarrow> u64" where
  "mapBranch source destination n offsets target =
    (if target \<ge> source \<and> unat (target - source) < n
     then destination + of_nat (offsets ! (unat (target - source) div 4)) else target)"

definition relocate_address :: "byte list \<Rightarrow> u64 \<Rightarrow> u32 \<Rightarrow> byte list expected" where
  "relocate_address out oldPc word =
    (let immediate = signedField ((drop_bit 5 word AND 0x7ffff) * 4 + (drop_bit 29 word AND 3)) 21;
         page = (drop_bit 31 word \<noteq> 0)
     in case absolute (if page then oldPc AND NOT 4095 else oldPc) (if page then immediate * 4096 else immediate) of
          Inl e \<Rightarrow> Inl e
        | Inr target \<Rightarrow> Inr (move_constant out (unat (word AND 31)) target))"

text \<open>The width of the immediate of a branch and the immediate itself.\<close>

definition branch_bits :: "Kind \<Rightarrow> nat" where
  "branch_bits k = (if k = K_Branch then 26 else if k = K_Test then 14 else 19)"

definition branch_field :: "Kind \<Rightarrow> u32 \<Rightarrow> u32" where
  "branch_field k word = (if k = K_Branch then word AND 0x3ffffff else drop_bit 5 word AND (push_bit (branch_bits k) 1 - 1))"

definition always :: "Kind \<Rightarrow> u32 \<Rightarrow> bool" where
  "always k word \<longleftrightarrow> k = K_Conditional \<and> word AND 15 \<ge> 14"

text \<open>The inverted condition that jumps over the branch to the end of the slot.\<close>

definition skip_word :: "Kind \<Rightarrow> u32 \<Rightarrow> u32" where
  "skip_word k word =
    (let mask = push_bit 5 (push_bit (branch_bits k) 1 - 1) in
     ((word AND NOT mask) XOR (if k = K_Conditional then 1 else 0x01000000)) OR push_bit 5 (of_nat (slot k div 4)))"

definition relocate_branch ::
  "byte list \<Rightarrow> u64 \<Rightarrow> u64 \<Rightarrow> (u64 \<Rightarrow> u64) \<Rightarrow> u32 \<Rightarrow> Aarch64RelocationOptions \<Rightarrow> byte list expected" where
  "relocate_branch out oldPc destination mapped word opts =
    (let k = kind word in
     case absolute oldPc (signedField (branch_field k word) (branch_bits k) * 4) of
       Inl e \<Rightarrow> Inl e
     | Inr target \<Rightarrow>
       let out = (if k \<noteq> K_Branch \<and> \<not> always k word then emit out (skip_word k word) else out) in
       branch out (destination + of_nat (length out)) (mapped target) (k = K_Branch \<and> drop_bit 31 word \<noteq> 0) opts)"

definition load_word :: "bool \<Rightarrow> nat \<Rightarrow> u32" where
  "load_word vector opc =
    (if vector then (if opc = 0 then 0xbd400000 else if opc = 1 then 0xfd400000 else 0x3dc00000)
     else if opc = 0 then 0xb9400000 else if opc = 1 then 0xf9400000 else if opc = 2 then 0xb9800000 else 0xf9800000)"

definition relocate_literal :: "byte list \<Rightarrow> u64 \<Rightarrow> u64 \<Rightarrow> u32 \<Rightarrow> Aarch64RelocationOptions \<Rightarrow> byte list expected" where
  "relocate_literal out oldPc newPc word opts =
    (case absolute oldPc (signedField (drop_bit 5 word AND 0x7ffff) 19 * 4) of
       Inl e \<Rightarrow> Inl e
     | Inr target \<Rightarrow>
       (case relative newPc target 19 of
          Some rel \<Rightarrow> Inr (emit out ((word AND NOT 0x00ffffe0) OR push_bit 5 rel))
        | None \<Rightarrow>
          let opc = unat (drop_bit 30 word); rt = unat (word AND 31); vector = (word AND push_bit 26 1 \<noteq> 0) in
          (case (if \<not> vector \<and> opc < 3 \<and> rt \<noteq> 31 then Some rt else scratchRegister opts) of
             None \<Rightarrow> Inl ''Far AArch64 literal requires an explicitly permitted scratch register''
           | Some reg \<Rightarrow> Inr (emit (move_constant out reg target) (load_word vector opc OR push_bit 5 (of_nat reg) OR of_nat rt)))))"

text \<open>The loop \<^verbatim>\<open>while (result.bytes.size()<end) emit(result.bytes,nop)\<close>.\<close>

function pad :: "byte list \<Rightarrow> nat \<Rightarrow> byte list" where
  "pad out stop = (if length out < stop then pad (emit out nop_word) stop else out)"
  by pat_completeness auto
termination by (relation "measure (\<lambda>(out, stop). stop - length out)") (auto simp: emit_def)

declare pad.simps [simp del]

definition relocate_one ::
  "u64 \<Rightarrow> u64 \<Rightarrow> (u64 \<Rightarrow> u64) \<Rightarrow> Aarch64RelocationOptions \<Rightarrow> byte list \<Rightarrow> nat \<Rightarrow> byte list \<Rightarrow> byte list expected" where
  "relocate_one source destination mapped opts code i out =
    (let word = wordAt code i; k = kind word; oldPc = source + of_nat i; newPc = destination + of_nat (length out);
         stop = length out + slot k;
         res = (if k = K_Address then relocate_address out oldPc word
                else if k = K_Branch \<or> k = K_Conditional \<or> k = K_Compare \<or> k = K_Test
                  then relocate_branch out oldPc destination mapped word opts
                else if k = K_Literal then relocate_literal out oldPc newPc word opts
                else Inr (emit out word))
     in case res of Inl e \<Rightarrow> Inl e | Inr out \<Rightarrow> Inr (pad out stop))"

text \<open>The two loops over the block, instruction by instruction.\<close>

fun layout :: "bool \<Rightarrow> byte list \<Rightarrow> nat list \<Rightarrow> nat \<Rightarrow> nat list \<times> nat" where
  "layout same code [] total_size = ([], total_size)"
| "layout same code (i # is) total_size =
    (case layout same code is (total_size + (if same then 4 else slot (kind (wordAt code i)))) of
       (offs, end_size) \<Rightarrow> (total_size # offs, end_size))"

fun relocate_loop ::
  "u64 \<Rightarrow> u64 \<Rightarrow> (u64 \<Rightarrow> u64) \<Rightarrow> Aarch64RelocationOptions \<Rightarrow> byte list \<Rightarrow> nat list \<Rightarrow> byte list \<Rightarrow> byte list expected" where
  "relocate_loop source destination mapped opts code [] out = Inr out"
| "relocate_loop source destination mapped opts code (i # is) out =
    (case relocate_one source destination mapped opts code i out of
       Inl e \<Rightarrow> Inl e
     | Inr out \<Rightarrow> relocate_loop source destination mapped opts code is out)"

text \<open>The indices \<^verbatim>\<open>for (size_t i=0;i<code.size();i+=4)\<close> visits, for a size that is a multiple of 4.\<close>

definition steps_of :: "nat \<Rightarrow> nat list" where
  "steps_of n = map (\<lambda>j. 4 * j) [0..<n div 4]"

definition relocateAarch64 ::
  "(u64 \<Rightarrow> byte list \<Rightarrow> nat list) \<Rightarrow> byte list \<Rightarrow> u64 \<Rightarrow> u64 \<Rightarrow> Aarch64RelocationOptions \<Rightarrow> Aarch64RelocatedCode expected" where
  "relocateAarch64 disassemble code source destination opts =
    (if code = [] \<or> length code mod 4 \<noteq> 0 \<or> source mod 4 \<noteq> 0 \<or> destination mod 4 \<noteq> 0 then
       Inl ''AArch64 relocation requires aligned whole instructions''
     else if length code > 1024 * 1024 \<or> length code > unat (- 1 - source) then
       Inl ''AArch64 source block size or address overflow''
     else if (case scratchRegister opts of None \<Rightarrow> False | Some r \<Rightarrow> r > 30) then
       Inl ''AArch64 scratch register must be X0 through X30''
     else let decoded = disassemble source code in
       if length decoded \<noteq> length code div 4 \<or> list_ex (\<lambda>sz. sz \<noteq> 4) decoded then
         Inl ''AArch64 source block contains an invalid or unsupported encoding''
       else case layout (source = destination) code (steps_of (length code)) 0 of (offsets, total_size) \<Rightarrow>
         if total_size > unat (- 1 - destination) then Inl ''AArch64 relocated block overflows its address space''
         else if source = destination then Inr \<lparr> rc_bytes = code, instructionOffsets = offsets \<rparr>
         else (case relocate_loop source destination (mapBranch source destination (length code) offsets) opts code
                 (steps_of (length code)) [] of
             Inl e \<Rightarrow> Inl e
           | Inr out \<Rightarrow> Inr \<lparr> rc_bytes = out, instructionOffsets = offsets \<rparr>))"

section \<open>Reference semantics of the instructions involved\<close>

text \<open>
  The instructions the relocator rewrites or emits, after the architecture manual: PC-relative addresses,
  branches, literal loads, MOVZ and MOVK, indirect branches, loads without offset and NOP. The registers are
  a function of their number (31 reads as zero and ignores writes), loads go through the parameters
  \<open>ld\<close> and \<open>ldv\<close> (access class and address to the value of a general or a vector register).
\<close>

record 'v cpu =
  xr :: "nat \<Rightarrow> u64"
  vr :: "nat \<Rightarrow> 'v"
  nf :: bool
  zf :: bool
  cf :: bool
  vf :: bool

datatype next_pc = Fall | Jump u64

definition rd_reg :: "nat \<Rightarrow> 'v cpu \<Rightarrow> u64" where
  "rd_reg r s = (if r = 31 then 0 else xr s r)"

definition wr_reg :: "nat \<Rightarrow> u64 \<Rightarrow> 'v cpu \<Rightarrow> 'v cpu" where
  "wr_reg r x s = (if r = 31 then s else s\<lparr>xr := (xr s)(r := x)\<rparr>)"

definition cond_base :: "nat \<Rightarrow> 'v cpu \<Rightarrow> bool" where
  "cond_base k s = (if k = 0 then zf s else if k = 1 then cf s else if k = 2 then nf s else if k = 3 then vf s
     else if k = 4 then cf s \<and> \<not> zf s else if k = 5 then nf s = vf s else if k = 6 then nf s = vf s \<and> \<not> zf s else True)"

definition cond_holds :: "nat \<Rightarrow> 'v cpu \<Rightarrow> bool" where
  "cond_holds c s = (if odd c \<and> c \<noteq> 15 then \<not> cond_base (c div 2) s else cond_base (c div 2) s)"

text \<open>A two's complement field of the word as a displacement.\<close>

definition sext :: "nat \<Rightarrow> u32 \<Rightarrow> u64" where
  "sext bits w = of_int (signed_take_bit (bits - 1) (uint w))"

abbreviation w_field :: "nat \<Rightarrow> nat \<Rightarrow> u32 \<Rightarrow> u32" where
  "w_field lo n w \<equiv> drop_bit lo w AND mask n"

definition is_adr :: "u32 \<Rightarrow> bool" where "is_adr w \<longleftrightarrow> w AND 0x1f000000 = 0x10000000"
definition is_b :: "u32 \<Rightarrow> bool" where "is_b w \<longleftrightarrow> w AND 0x7c000000 = 0x14000000"
definition is_bcond :: "u32 \<Rightarrow> bool" where "is_bcond w \<longleftrightarrow> w AND 0xff000000 = 0x54000000"
definition is_cb :: "u32 \<Rightarrow> bool" where "is_cb w \<longleftrightarrow> w AND 0x7e000000 = 0x34000000"
definition is_tb :: "u32 \<Rightarrow> bool" where "is_tb w \<longleftrightarrow> w AND 0x7e000000 = 0x36000000"
definition is_ldl :: "u32 \<Rightarrow> bool" where "is_ldl w \<longleftrightarrow> w AND 0x3b000000 = 0x18000000"

definition do_load :: "(nat \<Rightarrow> u64 \<Rightarrow> u64) \<Rightarrow> (nat \<Rightarrow> u64 \<Rightarrow> 'v) \<Rightarrow> bool \<Rightarrow> nat \<Rightarrow> nat \<Rightarrow> u64 \<Rightarrow> 'v cpu \<Rightarrow> 'v cpu" where
  "do_load ld ldv vector opc rt a s =
    (if vector then s\<lparr>vr := (vr s)(rt := ldv opc a)\<rparr> else if opc = 3 then s else wr_reg rt (ld opc a) s)"

text \<open>Loads at the address in a register: the register class, the access class and the base.\<close>

definition ldr_class :: "u32 \<Rightarrow> (bool \<times> nat) option" where
  "ldr_class w =
    (let t = w AND 0xfffffc00 in
     if t = 0xb9400000 then Some (False, 0) else if t = 0xf9400000 then Some (False, 1)
     else if t = 0xb9800000 then Some (False, 2) else if t = 0xf9800000 then Some (False, 3)
     else if t = 0xbd400000 then Some (True, 0) else if t = 0xfd400000 then Some (True, 1)
     else if t = 0x3dc00000 then Some (True, 2) else None)"

definition a64_exec ::
  "(nat \<Rightarrow> u64 \<Rightarrow> u64) \<Rightarrow> (nat \<Rightarrow> u64 \<Rightarrow> 'v) \<Rightarrow> u32 \<Rightarrow> u64 \<Rightarrow> 'v cpu \<Rightarrow> (next_pc \<times> 'v cpu) option" where
  "a64_exec ld ldv w pc s =
    (let rt = unat (w AND 31); rn = unat (w_field 5 5 w); taken = (\<lambda>b t. if b then Jump t else Fall) in
     if is_adr w then
       let imm = sext 21 (w_field 5 19 w * 4 + w_field 29 2 w) in
       Some (Fall, wr_reg rt (if bit w 31 then (pc AND NOT 4095) + imm * 4096 else pc + imm) s)
     else if is_b w then
       Some (Jump (pc + sext 26 (w AND mask 26) * 4), if bit w 31 then s\<lparr>xr := (xr s)(30 := pc + 4)\<rparr> else s)
     else if is_bcond w then
       Some (taken (cond_holds (unat (w AND 15)) s) (pc + sext 19 (w_field 5 19 w) * 4), s)
     else if is_cb w then
       let x = (if bit w 31 then rd_reg rt s else rd_reg rt s AND 0xffffffff) in
       Some (taken ((x \<noteq> 0) = bit w 24) (pc + sext 19 (w_field 5 19 w) * 4), s)
     else if is_tb w then
       let b = (if bit w 31 then 32 else 0) + unat (w_field 19 5 w) in
       Some (taken (bit (rd_reg rt s) b = bit w 24) (pc + sext 14 (w_field 5 14 w) * 4), s)
     else if is_ldl w then
       if bit w 26 \<and> bit w 31 \<and> bit w 30 then None
       else Some (Fall, do_load ld ldv (bit w 26) (unat (drop_bit 30 w)) rt (pc + sext 19 (w_field 5 19 w) * 4) s)
     else if w AND 0xff800000 = 0xd2800000 then
       Some (Fall, wr_reg rt (push_bit (16 * unat (w_field 21 2 w)) (ucast (w_field 5 16 w))) s)
     else if w AND 0xff800000 = 0xf2800000 then
       let sh = 16 * unat (w_field 21 2 w) in
       Some (Fall, wr_reg rt ((rd_reg rt s AND NOT (push_bit sh 0xffff)) OR push_bit sh (ucast (w_field 5 16 w))) s)
     else if w AND 0xfffffc1f = 0xd61f0000 then Some (Jump (rd_reg rn s), s)
     else if w AND 0xfffffc1f = 0xd63f0000 then Some (Jump (rd_reg rn s), s\<lparr>xr := (xr s)(30 := pc + 4)\<rparr>)
     else if w = 0xd503201f then Some (Fall, s)
     else case ldr_class w of
         Some (vector, opc) \<Rightarrow> if rn = 31 then None else Some (Fall, do_load ld ldv vector opc rt (rd_reg rn s) s)
       | None \<Rightarrow> None)"

text \<open>A straight-line run to the first jump or past the last word: the next address and the state.\<close>

fun run_words ::
  "(nat \<Rightarrow> u64 \<Rightarrow> u64) \<Rightarrow> (nat \<Rightarrow> u64 \<Rightarrow> 'v) \<Rightarrow> u32 list \<Rightarrow> u64 \<Rightarrow> 'v cpu \<Rightarrow> (u64 \<times> 'v cpu) option" where
  "run_words ld ldv [] pc s = Some (pc, s)"
| "run_words ld ldv (w # ws) pc s =
    (case a64_exec ld ldv w pc s of
       None \<Rightarrow> None
     | Some (Fall, s') \<Rightarrow> run_words ld ldv ws (pc + 4) s'
     | Some (Jump t, s') \<Rightarrow> Some (t, s'))"

section \<open>Words and bytes\<close>

definition word_bytes :: "u32 \<Rightarrow> byte list" where
  "word_bytes w = map (\<lambda>i. ucast (drop_bit (8 * i) w)) [0..<4]"

definition enc :: "u32 list \<Rightarrow> byte list" where
  "enc ws = concat (map word_bytes ws)"

lemma upt_4: "[0..<4] = [0, 1, 2, 3 :: nat]"
  by (simp add: upt_conv_Cons)

lemma length_word_bytes [simp]: "length (word_bytes w) = 4"
  by (simp add: word_bytes_def)

lemma enc_simps [simp]: "enc [] = []" "enc (w # ws) = word_bytes w @ enc ws" "enc (ws @ vs) = enc ws @ enc vs"
  by (simp_all add: enc_def)

lemma length_enc [simp]: "length (enc ws) = 4 * length ws"
  by (induction ws) simp_all

lemma emit_enc: "emit out w = out @ enc [w]"
  by (simp add: emit_def word_bytes_def)

lemma wordAt_bytes: "wordAt (word_bytes w @ rest) 0 = w"
proof (rule bit_eqI)
  fix n
  show "bit (wordAt (word_bytes w @ rest) 0) n = bit w n"
    by (cases "8 \<le> n"; cases "16 \<le> n"; cases "24 \<le> n")
       (auto simp: wordAt_def word_bytes_def upt_4 bit_simps dest: bit_imp_le_length)
qed

lemma wordAt_append: "wordAt (out @ bs) (length out + k) = wordAt bs k"
  by (simp add: wordAt_def nth_append)

lemma wordAt_enc: "j < length ws \<Longrightarrow> wordAt (enc ws @ rest) (4 * j) = ws ! j"
proof (induction ws arbitrary: j)
  case (Cons w ws)
  show ?case
  proof (cases j)
    case 0
    then show ?thesis using wordAt_bytes [of w "enc ws @ rest"] by simp
  next
    case (Suc k)
    then show ?thesis using Cons wordAt_append [of "word_bytes w" "enc ws @ rest" "4 * k"] by simp
  qed
qed simp

lemma pad_enc: "pad out (length out + 4 * n) = out @ enc (replicate n nop_word)"
proof (induction n arbitrary: out)
  case 0
  then show ?case by (subst pad.simps) simp
next
  case (Suc n)
  have "pad out (length out + 4 * Suc n) = pad (emit out nop_word) (length out + 4 * Suc n)" by (subst pad.simps) simp
  also have "length out + 4 * Suc n = length (emit out nop_word) + 4 * n" by (simp add: emit_enc)
  finally show ?case using Suc [of "emit out nop_word"] by (simp add: emit_enc add.assoc)
qed

definition constant_words :: "nat \<Rightarrow> u64 \<Rightarrow> u32 list" where
  "constant_words r v = [constant_word r v 0, constant_word r v 1, constant_word r v 2, constant_word r v 3]"

lemma move_constant_enc: "move_constant out r v = out @ enc (constant_words r v)"
  by (simp add: move_constant_def upt_4 emit_enc constant_words_def)

section \<open>Fields of a word\<close>

text \<open>A word that satisfies one mask test fails another whose value differs on the common bits.\<close>

lemma other_class:
  fixes w :: u32
  assumes "w AND m = v" "v AND m' \<noteq> v' AND m"
  shows "w AND m' \<noteq> v'"
  using assms by (metis and.assoc and.commute)

lemma part_off: "x = x AND k \<Longrightarrow> k AND m = 0 \<Longrightarrow> (x :: u32) AND m = 0"
  by (metis and.assoc and_zero_eq)

lemma small_mask: "(x :: u32) < 2 ^ n \<Longrightarrow> x AND mask n = x"
  by (rule less_mask_eq)

lemma bit_masked: "(x :: u32) AND mask n = x \<Longrightarrow> bit x i \<Longrightarrow> i < n"
  by (metis bit_and_iff bit_mask_iff)

lemma bit_high: "(x :: u32) AND mask n = 0 \<Longrightarrow> bit x i \<Longrightarrow> n \<le> i"
proof (rule ccontr)
  assume a: "x AND mask n = 0" "bit x i" "\<not> n \<le> i"
  have "bit (x AND mask n) i" using a(2,3) bit_imp_le_length [OF a(2)] by (simp add: bit_and_iff bit_mask_iff)
  with a(1) show False by simp
qed

text \<open>A word assembled from a head and two fields: the fields read back, tests above them see the head only.\<close>

lemma assembled:
  fixes h imm r :: u32
  assumes "imm AND mask n = imm" "r AND mask 5 = r" "h AND mask (5 + n) = 0" "w = h OR push_bit 5 imm OR r" "5 + n \<le> 32"
  shows "w AND mask 5 = r" "w_field 5 n w = imm" "m AND mask (5 + n) = 0 \<Longrightarrow> w AND m = h AND m"
    "5 + n \<le> i \<Longrightarrow> bit w i = bit h i" "5 + n \<le> lo \<Longrightarrow> w_field lo k w = w_field lo k h"
proof -
  have i: "bit imm i \<Longrightarrow> i < n" and r: "bit r i \<Longrightarrow> i < 5" and h: "bit h i \<Longrightarrow> 5 + n \<le> i" for i
    using bit_masked assms(1,2) bit_high [OF assms(3)] by blast+
  show "w AND mask 5 = r" unfolding assms(4) using r h by (intro bit_eqI) (force simp: bit_simps)
  show "w_field 5 n w = imm" unfolding assms(4)
  proof (rule bit_eqI)
    fix j
    have "\<not> bit r (5 + j)" using r [of "5 + j"] by auto
    then show "bit (w_field 5 n (h OR push_bit 5 imm OR r)) j = bit imm j"
      using i [of j] h [of "5 + j"] assms(5) by (auto simp: bit_simps)
  qed
  show top: "bit w i = bit h i" if "5 + n \<le> i" for i unfolding assms(4) using that i [of "i - 5"] r [of i] by (auto simp: bit_simps)
  show "w AND m = h AND m" if "m AND mask (5 + n) = 0"
    using bit_high [OF that] top by (intro bit_eqI) (auto simp: bit_simps)
  show "w_field lo k w = w_field lo k h" if "5 + n \<le> lo" using top that by (intro bit_eqI) (auto simp: bit_simps)
qed

lemmas class_defs = is_adr_def is_b_def is_bcond_def is_cb_def is_tb_def is_ldl_def

lemma reg_masked: "r \<le> 31 \<Longrightarrow> (of_nat r :: u32) AND mask 5 = of_nat r" "r \<le> 31 \<Longrightarrow> unat (of_nat r :: u32) = r"
proof -
  assume r: "r \<le> 31"
  then show u: "unat (of_nat r :: u32) = r" by (simp add: unat_of_nat)
  show "(of_nat r :: u32) AND mask 5 = of_nat r" by (rule small_mask) (use r u in \<open>simp add: word_less_nat_alt\<close>)
qed

section \<open>Executing emitted words\<close>

lemma mask_u32: "mask 5 = (31 :: u32)" "mask 10 = (0x3ff :: u32)" "mask 16 = (0xffff :: u32)" "mask 21 = (0x1fffff :: u32)"
  "mask 2 = (3 :: u32)" "mask 19 = (0x7ffff :: u32)" "mask 26 = (0x3ffffff :: u32)" "mask 14 = (0x3fff :: u32)" "mask 24 = (0xffffff :: u32)"
  by (simp_all add: mask_eq_exp_minus_1)

lemma exec_movz:
  assumes "w AND 0xff800000 = 0xd2800000"
  shows "a64_exec ld ldv w pc s =
    Some (Fall, wr_reg (unat (w AND 31)) (push_bit (16 * unat (w_field 21 2 w)) (ucast (w_field 5 16 w))) s)"
  using assms by (simp add: a64_exec_def Let_def class_defs other_class [OF assms])

lemma exec_movk:
  assumes "w AND 0xff800000 = 0xf2800000"
  shows "a64_exec ld ldv w pc s =
    Some (Fall, wr_reg (unat (w AND 31)) ((rd_reg (unat (w AND 31)) s AND NOT (push_bit (16 * unat (w_field 21 2 w)) 0xffff))
      OR push_bit (16 * unat (w_field 21 2 w)) (ucast (w_field 5 16 w))) s)"
  using assms by (simp add: a64_exec_def Let_def class_defs other_class [OF assms])

lemma exec_br:
  assumes "w AND 0xfffffc1f = 0xd61f0000"
  shows "a64_exec ld ldv w pc s = Some (Jump (rd_reg (unat (w_field 5 5 w)) s), s)"
  using assms by (simp add: a64_exec_def Let_def class_defs other_class [OF assms])

lemma exec_blr:
  assumes "w AND 0xfffffc1f = 0xd63f0000"
  shows "a64_exec ld ldv w pc s = Some (Jump (rd_reg (unat (w_field 5 5 w)) s), s\<lparr>xr := (xr s)(30 := pc + 4)\<rparr>)"
  using assms by (simp add: a64_exec_def Let_def class_defs other_class [OF assms])

lemma exec_nop: "a64_exec ld ldv nop_word pc s = Some (Fall, s)"
  by (simp add: a64_exec_def Let_def class_defs nop_word_def)

lemma load_class_only:
  assumes "w AND 0xfffffc00 = t" "t \<in> {0xb9400000, 0xf9400000, 0xb9800000, 0xf9800000, 0xbd400000, 0xfd400000, 0x3dc00000}"
  shows "\<not> is_adr w" "\<not> is_b w" "\<not> is_bcond w" "\<not> is_cb w" "\<not> is_tb w" "\<not> is_ldl w"
    "w AND 0xff800000 \<noteq> 0xd2800000" "w AND 0xff800000 \<noteq> 0xf2800000" "w AND 0xfffffc1f \<noteq> 0xd61f0000"
    "w AND 0xfffffc1f \<noteq> 0xd63f0000" "w \<noteq> 0xd503201f"
  unfolding class_defs
  by (rule other_class [OF assms(1)], use assms(2) in force)+ (use assms in force)

lemma exec_load:
  assumes "w AND 0xfffffc00 = load_word vector opc" "opc \<le> 3" "vector \<longrightarrow> opc \<noteq> 3" "unat (w_field 5 5 w) \<noteq> 31"
  shows "a64_exec ld ldv w pc s = Some (Fall, do_load ld ldv vector opc (unat (w AND 31)) (rd_reg (unat (w_field 5 5 w)) s) s)"
proof -
  have k: "opc = 0 \<or> opc = 1 \<or> opc = 2 \<or> opc = 3" using assms(2) by arith
  have "load_word vector opc \<in> {0xb9400000, 0xf9400000, 0xb9800000, 0xf9800000, 0xbd400000, 0xfd400000, 0x3dc00000}"
    by (simp add: load_word_def)
  note only = load_class_only [OF assms(1) this]
  have "ldr_class w = Some (vector, opc)" unfolding ldr_class_def assms(1)
    using k assms(3) by (cases vector; elim disjE) (simp_all add: load_word_def)
  then show ?thesis using assms(4) by (simp add: a64_exec_def Let_def only)
qed

lemma mask_u64: "(0xffff :: u64) = mask 16"
  by (simp add: mask_eq_exp_minus_1)

lemma half_word: "(ucast (x AND 0xffff) :: u32) AND mask 16 = ucast (x AND 0xffff)"
  "ucast (ucast (x AND 0xffff) :: u32) = (x :: u64) AND 0xffff"
  unfolding mask_u64 by (auto intro!: bit_eqI simp: bit_simps)

definition movk :: "nat \<Rightarrow> u64 \<Rightarrow> u64 \<Rightarrow> u64" where
  "movk i v x = (x AND NOT (push_bit (16 * i) 0xffff)) OR push_bit (16 * i) (drop_bit (16 * i) v AND 0xffff)"

lemma exec_constant:
  assumes "r \<le> 31"
  shows "a64_exec ld ldv (constant_word r v 0) pc s = Some (Fall, wr_reg r (v AND 0xffff) s)"
    and "i \<in> {1, 2, 3} \<Longrightarrow> a64_exec ld ldv (constant_word r v i) pc s = Some (Fall, wr_reg r (movk i v (rd_reg r s)) s)"
proof -
  define imm :: "nat \<Rightarrow> u32" where "imm i = ucast (drop_bit (16 * i) v AND 0xffff)" for i
  have imm: "imm i AND mask 16 = imm i" "ucast (imm i) = drop_bit (16 * i) v AND 0xffff" for i
    by (simp_all add: imm_def half_word)
  { fix h :: u32 and w i
    assume h: "h AND mask (5 + 16) = 0" and w: "w = h OR push_bit 5 (imm i) OR of_nat r"
    note a = assembled [OF imm(1) reg_masked(1) [OF assms] h w]
    have "unat (w AND 31) = r" "w_field 5 16 w = imm i" "w_field 21 2 w = w_field 21 2 h" "w AND 0xff800000 = h AND 0xff800000"
      using a(1) a(2) a(3) [of "0xff800000"] a(5) [of 21 2] reg_masked(2) [OF assms] by (simp_all add: mask_u32) }
  note w = this
  have c0: "constant_word r v 0 = 0xd2800000 OR push_bit 5 (imm 0) OR of_nat r" by (simp add: constant_word_def imm_def)
  have h0: "(0xd2800000 :: u32) AND mask (5 + 16) = 0" by (simp add: mask_u32)
  have "constant_word r v 0 AND 0xff800000 = 0xd2800000" "unat (w_field 21 2 (constant_word r v 0)) = 0"
    unfolding w(3,4) [OF h0 c0] by (simp_all add: mask_u32)
  with w(1,2) [OF h0 c0] imm(2) [of 0] show "a64_exec ld ldv (constant_word r v 0) pc s = Some (Fall, wr_reg r (v AND 0xffff) s)"
    by (simp add: exec_movz)
  assume i: "i \<in> {1, 2, 3}"
  have c: "constant_word r v i = (0xf2800000 OR push_bit 21 (of_nat i)) OR push_bit 5 (imm i) OR of_nat r"
    using i by (auto simp: constant_word_def imm_def or.assoc)
  have h: "(0xf2800000 OR push_bit 21 (of_nat i) :: u32) AND mask (5 + 16) = 0" using i by (auto simp: mask_u32)
  have "constant_word r v i AND 0xff800000 = 0xf2800000" "unat (w_field 21 2 (constant_word r v i)) = i"
    unfolding w(3,4) [OF h c] using i by (auto simp: mask_u32)
  with w(1,2) [OF h c] imm(2) [of i] show "a64_exec ld ldv (constant_word r v i) pc s = Some (Fall, wr_reg r (movk i v (rd_reg r s)) s)"
    by (simp add: exec_movk movk_def)
qed

lemma movk_all: "movk 3 v (movk 2 v (movk 1 v (v AND 0xffff))) = v"
proof (rule bit_word_eqI)
  fix n assume "n < LENGTH(64)"
  then show "bit (movk 3 v (movk 2 v (movk 1 v (v AND 0xffff)))) n = bit v n"
    unfolding movk_def mask_u64
    by (cases "16 \<le> n"; cases "32 \<le> n"; cases "48 \<le> n") (auto simp: bit_simps)
qed

text \<open>The four words load the constant and touch nothing else.\<close>

lemma run_constant:
  assumes "r \<le> 31"
  shows "run_words ld ldv (constant_words r v @ ws) pc s = run_words ld ldv ws (pc + 16) (wr_reg r v s)"
proof -
  define s1 where "s1 = wr_reg r (v AND 0xffff) s"
  define s2 where "s2 = wr_reg r (movk 1 v (rd_reg r s1)) s1"
  define s3 where "s3 = wr_reg r (movk 2 v (rd_reg r s2)) s2"
  have "run_words ld ldv (constant_words r v @ ws) pc s = run_words ld ldv ws (pc + 16) (wr_reg r (movk 3 v (rd_reg r s3)) s3)"
    by (simp add: constant_words_def exec_constant [OF assms] s1_def [symmetric] s2_def [symmetric] s3_def [symmetric]
      add.commute [of 16] del: One_nat_def)
  also have "wr_reg r (movk 3 v (rd_reg r s3)) s3 = wr_reg r v s"
    using movk_all [of v] by (cases "r = 31") (simp_all add: s1_def s2_def s3_def wr_reg_def rd_reg_def)
  finally show ?thesis .
qed

section \<open>Displacements\<close>

lemma sext_field:
  fixes z :: int
  assumes "1 \<le> bits" "bits \<le> 32" "- (2 ^ (bits - 1)) \<le> z" "z < 2 ^ (bits - 1)"
  shows "sext bits (ucast (of_int z :: u64) AND mask bits) = of_int z"
proof -
  have "uint (ucast (of_int z :: u64) AND mask bits :: u32) = take_bit bits z"
    using assms(2) by (simp add: take_bit_eq_mask [symmetric] unsigned_take_bit_eq unsigned_ucast_eq uint_word_of_int_eq min_def)
  then have "sext bits (ucast (of_int z :: u64) AND mask bits) = of_int (signed_take_bit (bits - 1) (take_bit bits z))"
    by (simp add: sext_def)
  also have "signed_take_bit (bits - 1) (take_bit bits z) = z"
    using assms by (cases bits) (simp_all add: signed_take_bit_take_bit signed_take_bit_int_eq_self)
  finally show ?thesis .
qed

lemma and_3_unat: "(a :: u64) AND 3 = b AND 3 \<longleftrightarrow> unat a mod 4 = unat b mod 4"
proof -
  have "x AND 3 = take_bit 2 x" for x :: u64 by (simp add: take_bit_eq_mask mask_eq_exp_minus_1)
  then show ?thesis by (simp only: word_unat_eq_iff unsigned_take_bit_eq) (simp add: take_bit_eq_mod)
qed

text \<open>A displacement that \<^verbatim>\<open>relative\<close> encodes leads from the source to the target.\<close>

lemma relative_units:
  fixes src dst :: u64
  assumes "src \<le> dst" "unat src mod 4 = unat dst mod 4"
  shows "of_int (uint ((dst - src) div 4)) * 4 = dst - src"
proof -
  have "unat (dst - src) = unat dst - unat src" using assms(1) by (simp add: unat_sub)
  moreover have "(unat dst - unat src) mod 4 = 0" using assms by (metis mod_eq_dvd_iff_nat word_le_nat_alt mod_0_imp_dvd dvd_imp_mod_0)
  ultimately have d: "4 * (unat (dst - src) div 4) = unat (dst - src)" by auto
  have "unat (dst - src) mod 2 ^ 64 = unat (dst - src)" using unsigned_less [of "dst - src", where 'a = nat] by simp
  then have "unat ((dst - src) div 4 * 4) = unat (dst - src)"
    using d by (simp add: unat_word_ariths mult.commute)
  then show ?thesis by (simp add: word_unat_eq_iff)
qed

lemma relative_sext:
  assumes "relative src dst bits = Some rel" "2 \<le> bits" "bits \<le> 26"
  shows "src + sext bits rel * 4 = dst" "rel AND mask bits = rel"
proof -
  define u where "u = (if src \<le> dst then dst - src else src - dst) div 4"
  define z :: int where "z = (if src \<le> dst then uint u else - uint u)"
  have mask: "push_bit bits 1 - 1 = (mask bits :: u32)" using assms(3) by (simp add: mask_eq_exp_minus_1 push_bit_of_1)
  have m: "unat src mod 4 = unat dst mod 4" using assms(1) and_3_unat [of src dst] by (auto simp: relative_def split: if_splits)
  have lim: "u \<le> (if src \<le> dst then push_bit (bits - 1) 1 - 1 else push_bit (bits - 1) 1)"
    and rel: "rel = ucast (if src \<le> dst then u else 0 - u) AND mask bits"
    using assms(1) unfolding relative_def Let_def mask u_def [symmetric] by (auto split: if_splits simp: not_less)
  have "(if src \<le> dst then u else 0 - u) = of_int z" by (simp add: z_def)
  with rel have rz: "rel = ucast (of_int z :: u64) AND mask bits" by simp
  have p: "unat (push_bit (bits - 1) (1 :: u64)) = 2 ^ (bits - 1)"
  proof -
    have "(2 :: nat) ^ (bits - 1) < 2 ^ 64" using assms(3) by (intro power_strict_increasing) auto
    then show ?thesis by (simp add: push_bit_of_1 word_unat_eq_iff unat_of_nat [of "2 ^ (bits - 1)", where 'a = 64, simplified])
  qed
  have "- (2 ^ (bits - 1)) \<le> z \<and> z < 2 ^ (bits - 1)"
  proof (cases "src \<le> dst")
    case True
    have "unat (push_bit (bits - 1) (1 :: u64) - 1) = 2 ^ (bits - 1) - 1"
      by (subst unat_sub) (use p in \<open>simp_all add: word_le_nat_alt\<close>)
    then have "unat u \<le> 2 ^ (bits - 1) - 1" using lim True by (simp add: word_le_nat_alt)
    moreover have "0 < (2 :: nat) ^ (bits - 1)" by simp
    ultimately have "unat u < 2 ^ (bits - 1)" by linarith
    then have "uint u < 2 ^ (bits - 1)" by (metis of_nat_less_iff of_nat_numeral of_nat_power uint_nat)
    moreover have "- (2 ^ (bits - 1)) \<le> uint u" by (rule order_trans [of _ 0]) simp_all
    ultimately show ?thesis using True by (simp add: z_def)
  next
    case False
    then have "unat u \<le> 2 ^ (bits - 1)" using lim p by (simp add: word_le_nat_alt)
    then have "uint u \<le> 2 ^ (bits - 1)" by (metis of_nat_le_iff of_nat_numeral of_nat_power uint_nat)
    moreover have "- uint u < 2 ^ (bits - 1)" by (rule order_le_less_trans [of _ 0]) simp_all
    ultimately show ?thesis using False by (simp add: z_def)
  qed
  with sext_field [of bits z] assms(2,3) rz have s: "sext bits rel = of_int z" by simp
  show "src + sext bits rel * 4 = dst"
  proof (cases "src \<le> dst")
    case True
    then show ?thesis using relative_units [OF True m] s by (simp add: z_def u_def)
  next
    case False
    then have "dst \<le> src" by simp
    from relative_units [OF this m [symmetric]] False s show ?thesis by (simp add: z_def u_def algebra_simps)
  qed
  show "rel AND mask bits = rel" by (simp add: rz and.assoc)
qed

text \<open>\<^verbatim>\<open>absolute\<close> only succeeds when the sum does not wrap, and is the sum.\<close>

lemma absolute_sum: "absolute pc z = Inr t \<Longrightarrow> t = pc + of_int z"
  by (auto simp: absolute_def Let_def split: if_splits)

lemma signedField_sext:
  assumes "v AND mask bits = v" "1 \<le> bits" "bits \<le> 31"
  shows "of_int (signedField v bits) = sext bits v"
proof -
  have b: "take_bit bits (uint v) = uint v" using assms(1)
    by (metis take_bit_eq_mask unsigned_take_bit_eq)
  have "signed_take_bit (bits - 1) (uint v) = (uint v XOR 2 ^ (bits - 1)) - 2 ^ (bits - 1)"
    using assms(2) b by (cases bits)
      (simp_all add: signed_take_bit_eq_take_bit_minus flip_bit_eq_xor [symmetric] flip_bit_eq_if set_bit_eq unset_bit_eq push_bit_of_1 [symmetric] del: push_bit_of_1)
  then show ?thesis by (simp add: signedField_def sext_def Let_def)
qed

section \<open>Inserting a field\<close>

lemma insert_field:
  fixes h x :: u32
  assumes "x AND mask n = x" "h AND push_bit lo (mask n) = 0" "lo + n \<le> 32" "w = h OR push_bit lo x"
  shows "w_field lo n w = x" "m AND push_bit lo (mask n) = 0 \<Longrightarrow> w AND m = h AND m"
    "\<not> (lo \<le> i \<and> i < lo + n) \<Longrightarrow> bit w i = bit h i"
proof -
  have x: "bit x i \<Longrightarrow> i < n" for i using bit_masked [OF assms(1)] by blast
  have off: "\<not> bit m i" if "m AND push_bit lo (mask n) = 0" "lo \<le> i" "i < lo + n" for m :: u32 and i
  proof
    assume "bit m i"
    then have "bit (m AND push_bit lo (mask n)) i" using that(2,3) bit_imp_le_length [of m i] by (simp add: bit_simps) linarith
    with that(1) show False by simp
  qed
  show "w_field lo n w = x" unfolding assms(4)
  proof (rule bit_eqI)
    fix i
    show "bit (w_field lo n (h OR push_bit lo x)) i = bit x i"
      using x [of i] off [OF assms(2), of "lo + i"] assms(3) by (auto simp: bit_simps)
  qed
  show b: "bit w i = bit h i" if "\<not> (lo \<le> i \<and> i < lo + n)" for i
    using that x [of "i - lo"] unfolding assms(4) by (auto simp: bit_simps)
  show "w AND m = h AND m" if "m AND push_bit lo (mask n) = 0"
  proof (rule bit_eqI)
    fix i
    show "bit (w AND m) i = bit (h AND m) i" using off [OF that, of i] b [of i] by (auto simp: bit_simps)
  qed
qed

section \<open>Branches\<close>

definition eq_cpu :: "nat option \<Rightarrow> 'v cpu \<Rightarrow> 'v cpu \<Rightarrow> bool" where
  "eq_cpu scratch s1 s2 \<longleftrightarrow> vr s2 = vr s1 \<and> nf s2 = nf s1 \<and> zf s2 = zf s1 \<and> cf s2 = cf s1 \<and> vf s2 = vf s1 \<and>
     (\<forall>r. Some r \<noteq> scratch \<longrightarrow> xr s2 r = xr s1 r)"

lemma eq_cpu_refl [simp]: "eq_cpu scratch s s"
  by (simp add: eq_cpu_def)

lemma eq_cpu_scratch: "scratch = Some r \<Longrightarrow> eq_cpu scratch s (wr_reg r v s)"
  by (simp add: eq_cpu_def wr_reg_def)

definition set_link :: "bool \<Rightarrow> u64 \<Rightarrow> 'v cpu \<Rightarrow> 'v cpu" where
  "set_link lnk pc s = (if lnk then s\<lparr>xr := (xr s)(30 := pc)\<rparr> else s)"

lemma exec_branch:
  assumes "rel AND mask 26 = rel"
  shows "a64_exec ld ldv ((if lnk then 0x94000000 else 0x14000000) OR rel) pc s =
    Some (Jump (pc + sext 26 rel * 4), set_link lnk (pc + 4) s)"
proof -
  define h :: u32 where "h = (if lnk then 0x94000000 else 0x14000000)"
  define w where "w = h OR push_bit 0 rel"
  have h: "h AND push_bit 0 (mask 26) = 0" by (simp add: h_def mask_u32)
  note f = insert_field [OF assms h _ w_def]
  have b: "w AND 0x7c000000 = 0x14000000" using f(2) [of "0x7c000000"] by (simp add: mask_u32 h_def)
  have "bit w 31 = lnk" using f(3) [of 31] by (simp add: h_def)
  moreover have "w AND mask 26 = rel" using f(1) by simp
  ultimately have "a64_exec ld ldv w pc s = Some (Jump (pc + sext 26 rel * 4), set_link lnk (pc + 4) s)"
    using b by (simp add: a64_exec_def Let_def class_defs other_class [OF b] set_link_def)
  then show ?thesis by (simp add: w_def h_def)
qed

lemma exec_indirect:
  assumes "r \<le> 30"
  shows "a64_exec ld ldv ((if lnk then 0xd63f0000 else 0xd61f0000) OR push_bit 5 (of_nat r)) pc s =
    Some (Jump (xr s r), set_link lnk (pc + 4) s)"
proof -
  define h :: u32 where "h = (if lnk then 0xd63f0000 else 0xd61f0000)"
  define w where "w = h OR push_bit 5 (of_nat r)"
  have h: "h AND push_bit 5 (mask 5) = 0" by (simp add: h_def mask_u32)
  have r: "(of_nat r :: u32) AND mask 5 = of_nat r" "unat (of_nat r :: u32) = r" using assms reg_masked [of r] by simp_all
  note f = insert_field [OF r(1) h _ w_def]
  have "w AND 0xfffffc1f = h" using f(2) [of "0xfffffc1f"] by (simp add: mask_u32 h_def)
  moreover have "unat (w_field 5 5 w) = r" using f(1) r(2) by simp
  moreover have "rd_reg r s = xr s r" using assms by (simp add: rd_reg_def)
  ultimately have "a64_exec ld ldv w pc s = Some (Jump (xr s r), set_link lnk (pc + 4) s)"
    using exec_br [of w ld ldv pc s] exec_blr [of w ld ldv pc s] by (cases lnk) (simp_all add: h_def set_link_def)
  then show ?thesis by (simp add: w_def h_def)
qed

definition opts_ok :: "Aarch64RelocationOptions \<Rightarrow> bool" where
  "opts_ok opts \<longleftrightarrow> (case scratchRegister opts of None \<Rightarrow> True | Some r \<Rightarrow> r \<le> 30)"

text \<open>The branch reaches its target; a call leaves the address after its last word in X30.\<close>

lemma branch_runs:
  assumes "branch out pc t lnk opts = Inr out'" "opts_ok opts"
  obtains ws where "out' = out @ enc ws" "length ws \<in> {1, 5}"
    "\<And>ws' s. \<exists>s2. run_words ld ldv (ws @ ws') pc s = Some (t, s2) \<and>
       eq_cpu (scratchRegister opts) (set_link lnk (pc + 4 * of_nat (length ws)) s) s2 \<and>
       (lnk \<longrightarrow> xr s2 30 = pc + 4 * of_nat (length ws))"
proof (cases "relative pc t 26")
  case (Some rel)
  then have out: "out' = out @ enc [(if lnk then 0x94000000 else 0x14000000) OR rel]"
    using assms(1) by (simp add: branch_def emit_enc)
  note r = relative_sext [OF Some]
  show thesis
  proof (rule that [OF out])
    show "\<exists>s2. run_words ld ldv ([(if lnk then 0x94000000 else 0x14000000) OR rel] @ ws') pc s = Some (t, s2) \<and>
       eq_cpu (scratchRegister opts) (set_link lnk (pc + 4 * of_nat (length [(if lnk then 0x94000000 else 0x14000000) OR rel])) s) s2 \<and>
       (lnk \<longrightarrow> xr s2 30 = pc + 4 * of_nat (length [(if lnk then 0x94000000 else 0x14000000) OR rel]))" for ws' s
      using exec_branch [OF r(2), of ld ldv lnk pc s] r(1) by (simp add: set_link_def)
  qed simp
next
  case None
  define r where "r = (if lnk then 30 else the (scratchRegister opts))"
  define j :: u32 where "j = (if lnk then 0xd63f0000 else 0xd61f0000) OR push_bit 5 (of_nat r)"
  have r: "r \<le> 30" "\<not> lnk \<Longrightarrow> scratchRegister opts = Some r"
    using assms None by (auto simp: branch_def r_def opts_ok_def split: if_splits option.splits)
  have out: "out' = out @ enc (constant_words r t @ [j])"
    using assms(1) None by (simp add: branch_def Let_def emit_enc move_constant_enc r_def j_def split: if_splits)
  have len: "length (constant_words r t @ [j]) = 5" by (simp add: constant_words_def)
  have run: "run_words ld ldv ((constant_words r t @ [j]) @ ws') pc s = Some (t, set_link lnk (pc + 20) (wr_reg r t s))" for ws' s
    using exec_indirect [OF r(1), of ld ldv lnk "pc + 16" "wr_reg r t s"] r(1)
    by (simp add: run_constant j_def wr_reg_def add.commute [of 20])
  show thesis
  proof (rule that [OF out])
    show "\<exists>s2. run_words ld ldv ((constant_words r t @ [j]) @ ws') pc s = Some (t, s2) \<and>
       eq_cpu (scratchRegister opts) (set_link lnk (pc + 4 * of_nat (length (constant_words r t @ [j]))) s) s2 \<and>
       (lnk \<longrightarrow> xr s2 30 = pc + 4 * of_nat (length (constant_words r t @ [j])))" for ws' s
    proof (cases lnk)
      case True
      then show ?thesis unfolding run len by (simp add: set_link_def r_def wr_reg_def)
    next
      case False
      then show ?thesis unfolding run len using eq_cpu_scratch [OF r(2)] by (simp add: set_link_def)
    qed
  qed (use len in simp)
qed

lemma kind_class:
  "kind w = K_Address \<Longrightarrow> is_adr w" "kind w = K_Branch \<Longrightarrow> is_b w" "kind w = K_Conditional \<Longrightarrow> is_bcond w"
  "kind w = K_Compare \<Longrightarrow> is_cb w" "kind w = K_Test \<Longrightarrow> is_tb w" "kind w = K_Literal \<Longrightarrow> is_ldl w"
  by (auto simp: kind_def class_defs split: if_splits)

lemma exec_adr:
  assumes "is_adr w"
  shows "a64_exec ld ldv w pc s = Some (Fall, wr_reg (unat (w AND 31))
    (if bit w 31 then (pc AND NOT 4095) + sext 21 (w_field 5 19 w * 4 + w_field 29 2 w) * 4096
     else pc + sext 21 (w_field 5 19 w * 4 + w_field 29 2 w)) s)"
  using assms by (simp add: a64_exec_def Let_def)

lemma exec_b:
  assumes "is_b w"
  shows "a64_exec ld ldv w pc s = Some (Jump (pc + sext 26 (w AND mask 26) * 4), set_link (bit w 31) (pc + 4) s)"
  using assms by (simp add: a64_exec_def Let_def class_defs set_link_def other_class [OF assms [unfolded is_b_def]])

lemma exec_bcond:
  assumes "is_bcond w"
  shows "a64_exec ld ldv w pc s =
    Some (if cond_holds (unat (w AND 15)) s then Jump (pc + sext 19 (w_field 5 19 w) * 4) else Fall, s)"
  using assms by (simp add: a64_exec_def Let_def class_defs other_class [OF assms [unfolded is_bcond_def]])

lemma exec_cb:
  assumes "is_cb w"
  shows "a64_exec ld ldv w pc s =
    Some (if ((if bit w 31 then rd_reg (unat (w AND 31)) s else rd_reg (unat (w AND 31)) s AND 0xffffffff) \<noteq> 0) = bit w 24
      then Jump (pc + sext 19 (w_field 5 19 w) * 4) else Fall, s)"
  using assms by (simp add: a64_exec_def Let_def class_defs other_class [OF assms [unfolded is_cb_def]])

lemma exec_tb:
  assumes "is_tb w"
  shows "a64_exec ld ldv w pc s =
    Some (if bit (rd_reg (unat (w AND 31)) s) ((if bit w 31 then 32 else 0) + unat (w_field 19 5 w)) = bit w 24
      then Jump (pc + sext 14 (w_field 5 14 w) * 4) else Fall, s)"
  using assms by (simp add: a64_exec_def Let_def class_defs other_class [OF assms [unfolded is_tb_def]])

lemma exec_ldl:
  assumes "is_ldl w"
  shows "a64_exec ld ldv w pc s = (if bit w 26 \<and> bit w 31 \<and> bit w 30 then None
    else Some (Fall, do_load ld ldv (bit w 26) (unat (drop_bit 30 w)) (unat (w AND 31)) (pc + sext 19 (w_field 5 19 w) * 4) s))"
  using assms by (simp add: a64_exec_def Let_def class_defs other_class [OF assms [unfolded is_ldl_def]])

text \<open>The inverted test: the same operands, the opposite outcome, the end of the slot as its target.\<close>

lemma cond_inverse:
  assumes "c < 14"
  shows "cond_holds (c XOR 1) s \<longleftrightarrow> \<not> cond_holds c s"
proof -
  have "c = 0 \<or> c = 1 \<or> c = 2 \<or> c = 3 \<or> c = 4 \<or> c = 5 \<or> c = 6 \<or> c = 7 \<or> c = 8 \<or> c = 9 \<or> c = 10 \<or> c = 11 \<or> c = 12 \<or> c = 13"
    using assms by arith
  then show ?thesis by (elim disjE) (simp_all add: cond_holds_def)
qed

lemma skip_bits:
  assumes "k \<in> {K_Conditional, K_Compare, K_Test}" "w' = skip_word k w"
  shows "w_field 5 (branch_bits k) w' = 6"
    and "\<not> (5 \<le> i \<and> i < 5 + branch_bits k) \<Longrightarrow> bit w' i \<longleftrightarrow> bit w i \<noteq> (i = (if k = K_Conditional then 0 else 24))"
proof -
  define n where "n = branch_bits k"
  define flip :: u32 where "flip = (if k = K_Conditional then 1 else 0x01000000)"
  define h where "h = (w AND NOT (push_bit 5 (mask n))) XOR flip"
  have n: "n = 19 \<or> n = 14" using assms(1) by (auto simp: n_def branch_bits_def)
  have fb: "bit flip i \<longleftrightarrow> i = (if k = K_Conditional then 0 else 24)" for i
  proof -
    have "flip = push_bit (if k = K_Conditional then 0 else 24) 1" by (simp add: flip_def)
    then show ?thesis by (auto simp: bit_simps)
  qed
  have "push_bit n 1 - 1 = (mask n :: u32)" using n by (auto simp: mask_eq_exp_minus_1)
  moreover have "slot k div 4 = 6" using assms(1) by auto
  ultimately have w: "w' = h OR push_bit 5 6"
    using assms(2) by (simp add: skip_word_def Let_def n_def [symmetric] h_def flip_def)
  have h: "h AND push_bit 5 (mask n) = 0"
    unfolding h_def using n fb by (intro bit_eqI) (auto simp: bit_simps)
  have six: "(6 :: u32) AND mask n = 6" using n by (auto simp: mask_u32)
  have len: "5 + n \<le> 32" using n by auto
  note f = insert_field [OF six h len w]
  show "w_field 5 (branch_bits k) w' = 6" using f(1) by (simp add: n_def)
  assume "\<not> (5 \<le> i \<and> i < 5 + branch_bits k)"
  then have o: "\<not> (5 \<le> i \<and> i < 5 + n)" by (simp add: n_def)
  have "bit h i \<longleftrightarrow> bit w i \<noteq> bit flip i"
    using o unfolding h_def by (auto simp: bit_simps dest: bit_imp_le_length)
  with f(3) [OF o] fb [of i] show "bit w' i \<longleftrightarrow> bit w i \<noteq> (i = (if k = K_Conditional then 0 else 24))" by simp
qed

lemma eq_on_mask:
  fixes w w' m :: u32
  assumes "\<And>i. bit m i \<Longrightarrow> bit w' i = bit w i"
  shows "w' AND m = w AND m"
  using assms by (intro bit_eqI) (auto simp: bit_simps)

lemma mask_words:
  "(0xff000000 :: u32) = push_bit 24 (mask 8)" "(0x7e000000 :: u32) = push_bit 25 (mask 6)" "(15 :: u32) = mask 4" "(31 :: u32) = mask 5"
  "(0x3b000000 :: u32) = push_bit 24 (mask 2) OR push_bit 27 (mask 3)"
  by (simp_all add: mask_eq_exp_minus_1)

lemma sext_6: "sext 19 6 = 6" "sext 14 6 = 6"
  by (simp_all add: sext_def)

lemma exec_skip_cond:
  assumes "kind w = K_Conditional" "\<not> always K_Conditional w" "a64_exec ld ldv w old s = Some (nxt, s1)"
  shows "s1 = s" "a64_exec ld ldv (skip_word K_Conditional w) pc s = Some (if nxt = Fall then Jump (pc + 24) else Fall, s)"
proof -
  define w' where "w' = skip_word K_Conditional w"
  note b = skip_bits [OF _ w'_def, simplified branch_bits_def, simplified]
  have w: "is_bcond w" using kind_class(3) [OF assms(1)] .
  have "w' AND 0xff000000 = w AND 0xff000000" by (rule eq_on_mask) (simp add: mask_words bit_simps b)
  then have w': "is_bcond w'" using w by (simp add: is_bcond_def)
  have "w' AND 15 = (w AND 15) XOR 1" by (rule bit_eqI) (auto simp: mask_words bit_simps b)
  then have u: "unat (w' AND 15) = unat (w AND 15) XOR 1" by (simp add: unsigned_xor_eq)
  have "unat (w AND 15) < 14" using assms(2) by (simp add: always_def not_le word_less_nat_alt)
  then have c: "cond_holds (unat (w' AND 15)) s \<longleftrightarrow> \<not> cond_holds (unat (w AND 15)) s" unfolding u by (rule cond_inverse)
  show "s1 = s" using assms(3) exec_bcond [OF w, of ld ldv old s] by simp
  show "a64_exec ld ldv (skip_word K_Conditional w) pc s = Some (if nxt = Fall then Jump (pc + 24) else Fall, s)"
    unfolding w'_def [symmetric] exec_bcond [OF w'] c b(1) sext_6
    using assms(3) exec_bcond [OF w, of ld ldv old s] by (auto split: if_splits)
qed

lemma exec_skip_compare:
  assumes "kind w = K_Compare" "a64_exec ld ldv w old s = Some (nxt, s1)"
  shows "s1 = s" "a64_exec ld ldv (skip_word K_Compare w) pc s = Some (if nxt = Fall then Jump (pc + 24) else Fall, s)"
proof -
  define w' where "w' = skip_word K_Compare w"
  note b = skip_bits [OF _ w'_def, simplified branch_bits_def, simplified]
  have w: "is_cb w" using kind_class(4) [OF assms(1)] .
  have "w' AND 0x7e000000 = w AND 0x7e000000" by (rule eq_on_mask) (auto simp: mask_words bit_simps b)
  then have w': "is_cb w'" using w by (simp add: is_cb_def)
  have rt: "w' AND 31 = w AND 31" by (rule eq_on_mask) (auto simp: mask_words bit_simps b)
  have bits: "bit w' 31 = bit w 31" "bit w' 24 = (\<not> bit w 24)" using b(2) [of 31] b(2) [of 24] by simp_all
  show "s1 = s" using assms(2) exec_cb [OF w, of ld ldv old s] by simp
  show "a64_exec ld ldv (skip_word K_Compare w) pc s = Some (if nxt = Fall then Jump (pc + 24) else Fall, s)"
    unfolding w'_def [symmetric] exec_cb [OF w'] rt bits b(1) sext_6
    using assms(2) exec_cb [OF w, of ld ldv old s] by (auto split: if_split_asm)
qed

lemma exec_skip_test:
  assumes "kind w = K_Test" "a64_exec ld ldv w old s = Some (nxt, s1)"
  shows "s1 = s" "a64_exec ld ldv (skip_word K_Test w) pc s = Some (if nxt = Fall then Jump (pc + 24) else Fall, s)"
proof -
  define w' where "w' = skip_word K_Test w"
  note b = skip_bits [OF _ w'_def, simplified branch_bits_def, simplified]
  have w: "is_tb w" using kind_class(5) [OF assms(1)] .
  have "w' AND 0x7e000000 = w AND 0x7e000000" by (rule eq_on_mask) (auto simp: mask_words bit_simps b)
  then have w': "is_tb w'" using w by (simp add: is_tb_def)
  have rt: "w' AND 31 = w AND 31" by (rule eq_on_mask) (auto simp: mask_words bit_simps b)
  have pos: "w_field 19 5 w' = w_field 19 5 w" by (rule bit_eqI) (auto simp: bit_simps b)
  have bits: "bit w' 31 = bit w 31" "bit w' 24 = (\<not> bit w 24)" using b(2) [of 31] b(2) [of 24] by simp_all
  show "s1 = s" using assms(2) exec_tb [OF w, of ld ldv old s] by simp
  show "a64_exec ld ldv (skip_word K_Test w) pc s = Some (if nxt = Fall then Jump (pc + 24) else Fall, s)"
    unfolding w'_def [symmetric] exec_tb [OF w'] rt bits pos b(1) sext_6
    using assms(2) exec_tb [OF w, of ld ldv old s] by (auto split: if_split_asm)
qed

section \<open>Slots simulate their instructions\<close>

definition is_call :: "u32 \<Rightarrow> bool" where
  "is_call w \<longleftrightarrow> is_b w \<and> bit w 31"

text \<open>
  What a slot at \<open>new\<close> owes the instruction it replaces at \<open>old\<close>, whatever the state: it falls through to its end
  when the instruction falls through and otherwise jumps to the mapped target, in the same state up to the
  scratch register. A call leaves a return address from which the rest of the slot runs to its end without effect.
\<close>

definition slot_ok ::
  "(nat \<Rightarrow> u64 \<Rightarrow> u64) \<Rightarrow> (nat \<Rightarrow> u64 \<Rightarrow> 'v) \<Rightarrow> nat option \<Rightarrow> (u64 \<Rightarrow> u64) \<Rightarrow> u32 \<Rightarrow> u64 \<Rightarrow> u64 \<Rightarrow> u32 list \<Rightarrow> bool" where
  "slot_ok ld ldv scratch mapped w old new ws \<longleftrightarrow>
    (\<forall>s nxt s1. a64_exec ld ldv w old s = Some (nxt, s1) \<longrightarrow>
      (\<exists>s2 k. run_words ld ldv ws new s =
           Some (case nxt of Fall \<Rightarrow> new + 4 * of_nat (length ws) | Jump t \<Rightarrow> mapped t, s2) \<and>
         eq_cpu scratch (set_link (is_call w) (new + 4 * of_nat k) s1) s2 \<and>
         (is_call w \<longrightarrow> k \<le> length ws \<and> xr s2 30 = new + 4 * of_nat k \<and>
            (\<forall>s'. run_words ld ldv (drop k ws) (new + 4 * of_nat k) s' = Some (new + 4 * of_nat (length ws), s')))))"

lemma run_nops: "run_words ld ldv (replicate n nop_word) pc s = Some (pc + 4 * of_nat n, s)"
  by (induction n arbitrary: pc) (simp_all add: exec_nop algebra_simps)

lemma set_link_simps [simp]: "set_link False pc s = s" "set_link b p (set_link b q s) = set_link b p s"
  by (simp_all add: set_link_def)

lemma not_call:
  "is_adr w \<Longrightarrow> \<not> is_call w" "is_bcond w \<Longrightarrow> \<not> is_call w" "is_cb w \<Longrightarrow> \<not> is_call w" "is_tb w \<Longrightarrow> \<not> is_call w" "is_ldl w \<Longrightarrow> \<not> is_call w"
proof -
  { assume b: "is_b w"
    have "\<not> is_adr w" "\<not> is_bcond w" "\<not> is_cb w" "\<not> is_tb w" "\<not> is_ldl w"
      unfolding is_adr_def is_bcond_def is_cb_def is_tb_def is_ldl_def by (simp_all add: other_class [OF b [unfolded is_b_def]]) }
  then show "is_adr w \<Longrightarrow> \<not> is_call w" "is_bcond w \<Longrightarrow> \<not> is_call w" "is_cb w \<Longrightarrow> \<not> is_call w" "is_tb w \<Longrightarrow> \<not> is_call w" "is_ldl w \<Longrightarrow> \<not> is_call w"
    by (auto simp: is_call_def)
qed

lemma top_bit: "drop_bit 31 (w :: u32) \<noteq> 0 \<longleftrightarrow> bit w 31"
proof -
  have "drop_bit 31 w = 0 \<longleftrightarrow> \<not> bit w 31"
  proof
    assume "drop_bit 31 w = 0"
    then have "\<not> bit (drop_bit 31 w) 0" by simp
    then show "\<not> bit w 31" by (simp add: bit_drop_bit_eq)
  next
    assume n: "\<not> bit w 31"
    show "drop_bit 31 w = 0"
    proof (rule bit_eqI)
      fix i
      show "bit (drop_bit 31 w) i = bit 0 i"
        using n bit_imp_le_length [of w "31 + i"] by (cases i) (auto simp: bit_drop_bit_eq)
    qed
  qed
  then show ?thesis by blast
qed

lemma adr_field:
  fixes w :: u32
  shows "(w_field 5 19 w * 4 + w_field 29 2 w) AND mask 21 = w_field 5 19 w * 4 + w_field 29 2 w"
proof (rule small_mask)
  have "unat (w_field 5 19 w) < 2 ^ 19" "unat (w_field 29 2 w) < 2 ^ 2"
    by (simp_all only: take_bit_eq_mask [symmetric] unsigned_take_bit_eq) (simp_all add: take_bit_eq_mod)
  then have "unat (w_field 5 19 w * 4 + w_field 29 2 w) = unat (w_field 5 19 w) * 4 + unat (w_field 29 2 w)"
    by (simp add: unat_word_ariths)
  with \<open>unat (w_field 5 19 w) < 2 ^ 19\<close> \<open>unat (w_field 29 2 w) < 2 ^ 2\<close>
  show "w_field 5 19 w * 4 + w_field 29 2 w < 2 ^ 21" by (simp add: word_less_nat_alt)
qed

lemma field_masks: "push_bit 26 1 - 1 = (mask 26 :: u32)" "push_bit 19 1 - 1 = (mask 19 :: u32)" "push_bit 14 1 - 1 = (mask 14 :: u32)"
  by (simp_all add: mask_eq_exp_minus_1)

lemma address_slot:
  assumes "relocate_address out old w = Inr out'" "kind w = K_Address"
  obtains ws where "out' = out @ enc ws" "length ws = 4" "slot_ok ld ldv scratch mapped w old new ws"
proof -
  define v where "v = w_field 5 19 w * 4 + w_field 29 2 w"
  have v: "of_int (signedField v 21) = sext 21 v" by (rule signedField_sext) (simp_all add: v_def adr_field)
  have v2: "v = (drop_bit 5 w AND 0x7ffff) * 4 + (drop_bit 29 w AND 3)" by (simp add: v_def mask_u32)
  have w: "is_adr w" using kind_class(1) [OF assms(2)] .
  obtain t where t: "absolute (if bit w 31 then old AND NOT 4095 else old) (if bit w 31 then signedField v 21 * 4096 else signedField v 21) = Inr t"
    and out: "out' = out @ enc (constant_words (unat (w AND 31)) t)"
    using assms(1) unfolding relocate_address_def Let_def top_bit v2 [symmetric] move_constant_enc by (auto split: sum.splits)
  have t': "t = (if bit w 31 then (old AND NOT 4095) + sext 21 v * 4096 else old + sext 21 v)"
    using absolute_sum [OF t] v by (auto split: if_splits)
  have "unat (w AND 31) \<le> 31" using word_and_le1 [of w 31] by (simp add: word_le_nat_alt)
  note run = run_constant [OF this, of ld ldv t "[]", simplified]
  have e: "a64_exec ld ldv w old s = Some (Fall, wr_reg (unat (w AND 31)) t s)" for s
    unfolding exec_adr [OF w] t' v_def by simp
  have len: "length (constant_words (unat (w AND 31)) t) = 4" by (simp add: constant_words_def)
  have "slot_ok ld ldv scratch mapped w old new (constant_words (unat (w AND 31)) t)"
    unfolding slot_ok_def using not_call(1) [OF w] by (simp add: run e len)
  with out show thesis by (intro that) (auto simp: constant_words_def)
qed

text \<open>The words of \<^verbatim>\<open>branch\<close> at \<open>pc\<close> lead to \<open>t\<close>, whatever follows them.\<close>

definition branches_to ::
  "(nat \<Rightarrow> u64 \<Rightarrow> u64) \<Rightarrow> (nat \<Rightarrow> u64 \<Rightarrow> 'v) \<Rightarrow> nat option \<Rightarrow> bool \<Rightarrow> u64 \<Rightarrow> u64 \<Rightarrow> u32 list \<Rightarrow> bool" where
  "branches_to ld ldv scratch lnk pc t ws \<longleftrightarrow>
    (\<forall>ws' s. \<exists>s2. run_words ld ldv (ws @ ws') pc s = Some (t, s2) \<and>
       eq_cpu scratch (set_link lnk (pc + 4 * of_nat (length ws)) s) s2 \<and> (lnk \<longrightarrow> xr s2 30 = pc + 4 * of_nat (length ws)))"

lemma direct_slot:
  assumes "branches_to ld ldv scratch (is_call w) new (mapped t) ws"
    and "\<And>nxt s1 s. a64_exec ld ldv w old s = Some (nxt, s1) \<Longrightarrow> nxt = Jump t \<and> s1 = set_link (is_call w) (old + 4) s"
  shows "slot_ok ld ldv scratch mapped w old new (ws @ replicate n nop_word)"
  unfolding slot_ok_def
proof (intro allI impI)
  fix s nxt s1
  assume "a64_exec ld ldv w old s = Some (nxt, s1)"
  note e = assms(2) [OF this]
  from assms(1) obtain s2 where "run_words ld ldv (ws @ replicate n nop_word) new s = Some (mapped t, s2)"
    "eq_cpu scratch (set_link (is_call w) (new + 4 * of_nat (length ws)) s) s2" "is_call w \<longrightarrow> xr s2 30 = new + 4 * of_nat (length ws)"
    unfolding branches_to_def by blast
  with e show "\<exists>s2 k. run_words ld ldv (ws @ replicate n nop_word) new s =
       Some (case nxt of Fall \<Rightarrow> new + 4 * of_nat (length (ws @ replicate n nop_word)) | Jump t \<Rightarrow> mapped t, s2) \<and>
     eq_cpu scratch (set_link (is_call w) (new + 4 * of_nat k) s1) s2 \<and>
     (is_call w \<longrightarrow> k \<le> length (ws @ replicate n nop_word) \<and> xr s2 30 = new + 4 * of_nat k \<and>
        (\<forall>s'. run_words ld ldv (drop k (ws @ replicate n nop_word)) (new + 4 * of_nat k) s' =
           Some (new + 4 * of_nat (length (ws @ replicate n nop_word)), s')))"
    by (intro exI [of _ s2] exI [of _ "length ws"]) (simp add: run_nops algebra_simps)
qed

lemma skip_slot:
  assumes "branches_to ld ldv scratch False (new + 4) (mapped t) ws" "\<not> is_call w"
    and "\<And>nxt s1 s. a64_exec ld ldv w old s = Some (nxt, s1) \<Longrightarrow> s1 = s \<and> (nxt = Fall \<or> nxt = Jump t) \<and>
      a64_exec ld ldv skip new s = Some (if nxt = Fall then Jump (new + 24) else Fall, s)"
    and "length ws + n = 5"
  shows "slot_ok ld ldv scratch mapped w old new (skip # ws @ replicate n nop_word)"
  unfolding slot_ok_def
proof (intro allI impI)
  fix s nxt s1
  assume "a64_exec ld ldv w old s = Some (nxt, s1)"
  note e = assms(3) [OF this]
  from assms(1) obtain s2 where r: "run_words ld ldv (ws @ replicate n nop_word) (new + 4) s = Some (mapped t, s2)" "eq_cpu scratch s s2"
    unfolding branches_to_def by fastforce
  have len: "4 * of_nat (length (skip # ws @ replicate n nop_word)) = (24 :: u64)" using assms(4)
    by (simp add: algebra_simps del: of_nat_add add: of_nat_add [symmetric])
  have "\<exists>s2. run_words ld ldv (skip # ws @ replicate n nop_word) new s = Some (case nxt of Fall \<Rightarrow> new + 24 | Jump t \<Rightarrow> mapped t, s2) \<and>
    eq_cpu scratch s1 s2" using e r by (cases nxt) auto
  then show "\<exists>s2 k. run_words ld ldv (skip # ws @ replicate n nop_word) new s =
       Some (case nxt of Fall \<Rightarrow> new + 4 * of_nat (length (skip # ws @ replicate n nop_word)) | Jump t \<Rightarrow> mapped t, s2) \<and>
     eq_cpu scratch (set_link (is_call w) (new + 4 * of_nat k) s1) s2 \<and>
     (is_call w \<longrightarrow> k \<le> length (skip # ws @ replicate n nop_word) \<and> xr s2 30 = new + 4 * of_nat k \<and>
        (\<forall>s'. run_words ld ldv (drop k (skip # ws @ replicate n nop_word)) (new + 4 * of_nat k) s' =
           Some (new + 4 * of_nat (length (skip # ws @ replicate n nop_word)), s')))"
    unfolding len using assms(2) by simp
qed

text \<open>What the four kinds of branches do, with the displacement as the code reads it.\<close>

abbreviation branch_kinds :: "Kind set" where
  "branch_kinds \<equiv> {K_Branch, K_Conditional, K_Compare, K_Test}"

lemma branch_field_eq:
  "branch_field K_Branch w = w AND mask 26" "branch_field K_Conditional w = w_field 5 19 w"
  "branch_field K_Compare w = w_field 5 19 w" "branch_field K_Test w = w_field 5 14 w"
  "branch_bits K_Branch = 26" "branch_bits K_Conditional = 19" "branch_bits K_Compare = 19" "branch_bits K_Test = 14"
  by (simp_all add: branch_field_def branch_bits_def mask_u32)

lemma always_holds:
  assumes "w AND 15 \<ge> (14 :: u32)"
  shows "cond_holds (unat (w AND 15)) s"
proof -
  have "unat (w AND 15) \<le> 15" using word_and_le1 [of w 15] by (simp add: word_le_nat_alt)
  moreover have "unat (w AND 15) \<ge> 14" using assms by (simp add: word_le_nat_alt)
  ultimately have "unat (w AND 15) = 14 \<or> unat (w AND 15) = 15" by arith
  then show ?thesis by (auto simp: cond_holds_def cond_base_def)
qed

lemma call_kind: "kind w \<in> branch_kinds \<Longrightarrow> is_call w \<longleftrightarrow> kind w = K_Branch \<and> bit w 31"
  using not_call kind_class [of w] by (auto simp: is_call_def)

lemma branch_taken:
  assumes "kind w = K_Branch \<or> always (kind w) w" "a64_exec ld ldv w old s = Some (nxt, s1)"
  shows "nxt = Jump (old + sext (branch_bits (kind w)) (branch_field (kind w) w) * 4) \<and> s1 = set_link (is_call w) (old + 4) s"
proof (cases "kind w = K_Branch")
  case True
  then show ?thesis using exec_b [OF kind_class(2) [OF True], of ld ldv old s] call_kind [of w] assms(2) by (simp add: branch_field_eq)
next
  case False
  then have c: "kind w = K_Conditional" "w AND 15 \<ge> 14" using assms(1) by (auto simp: always_def)
  from exec_bcond [OF kind_class(3) [OF c(1)], of ld ldv old s] call_kind [of w] assms(2) always_holds [OF c(2), of s] c(1)
  show ?thesis by (simp add: branch_field_eq)
qed

lemma branch_skipped:
  assumes "kind w \<in> branch_kinds" "\<not> (kind w = K_Branch \<or> always (kind w) w)" "a64_exec ld ldv w old s = Some (nxt, s1)"
  shows "s1 = s \<and> (nxt = Fall \<or> nxt = Jump (old + sext (branch_bits (kind w)) (branch_field (kind w) w) * 4)) \<and>
    a64_exec ld ldv (skip_word (kind w) w) new s = Some (if nxt = Fall then Jump (new + 24) else Fall, s)"
proof -
  from assms(1,2) consider "kind w = K_Conditional" | "kind w = K_Compare" | "kind w = K_Test" by auto
  then show ?thesis
  proof cases
    case 1
    with assms(2,3) exec_skip_cond(1) [OF 1 _ assms(3)] exec_skip_cond(2) [OF 1 _ assms(3), of new] exec_bcond [OF kind_class(3) [OF 1], of ld ldv old s]
    show ?thesis by (auto simp: branch_field_eq split: if_splits)
  next
    case 2
    with assms(3) exec_skip_compare(1) [OF 2 assms(3)] exec_skip_compare(2) [OF 2 assms(3), of new] exec_cb [OF kind_class(4) [OF 2], of ld ldv old s]
    show ?thesis by (auto simp: branch_field_eq split: if_split_asm)
  next
    case 3
    with assms(3) exec_skip_test(1) [OF 3 assms(3)] exec_skip_test(2) [OF 3 assms(3), of new] exec_tb [OF kind_class(5) [OF 3], of ld ldv old s]
    show ?thesis by (auto simp: branch_field_eq split: if_split_asm)
  qed
qed

lemma branch_target:
  assumes "kind w \<in> branch_kinds" "absolute old (signedField (branch_field (kind w) w) (branch_bits (kind w)) * 4) = Inr t"
  shows "t = old + sext (branch_bits (kind w)) (branch_field (kind w) w) * 4"
proof -
  have "of_int (signedField (branch_field (kind w) w) (branch_bits (kind w))) = sext (branch_bits (kind w)) (branch_field (kind w) w)"
    using assms(1) by (intro signedField_sext) (auto simp: branch_field_eq and.assoc)
  with absolute_sum [OF assms(2)] show ?thesis by simp
qed

lemma branch_slot:
  assumes r: "relocate_branch out old destination mapped w opts = Inr out'" and o: "opts_ok opts" and k: "kind w \<in> branch_kinds"
    and new: "new = destination + of_nat (length out)"
  obtains ws where "out' = out @ enc ws" "length ws \<le> slot (kind w) div 4"
    "\<And>n. length ws + n = slot (kind w) div 4 \<Longrightarrow> slot_ok ld ldv (scratchRegister opts) mapped w old new (ws @ replicate n nop_word)"
proof -
  define direct where "direct = (kind w = K_Branch \<or> always (kind w) w)"
  define out1 where "out1 = (if kind w \<noteq> K_Branch \<and> \<not> always (kind w) w then emit out (skip_word (kind w) w) else out)"
  obtain t where t: "absolute old (signedField (branch_field (kind w) w) (branch_bits (kind w)) * 4) = Inr t"
    and b: "branch out1 (destination + of_nat (length out1)) (mapped t) (is_call w) opts = Inr out'"
    using r unfolding relocate_branch_def Let_def top_bit call_kind [OF k] out1_def [symmetric] by (auto split: sum.splits)
  note t = branch_target [OF k t]
  obtain ws where ws: "out' = out1 @ enc ws" "length ws \<in> {1, 5}"
    and to: "branches_to ld ldv (scratchRegister opts) (is_call w) (destination + of_nat (length out1)) (mapped t) ws"
    unfolding branches_to_def by (rule branch_runs [OF b o, where ld = ld and ldv = ldv]) auto
  show thesis
  proof (cases direct)
    case True
    then have "branches_to ld ldv (scratchRegister opts) (is_call w) new (mapped t) ws" using to by (auto simp: out1_def new direct_def)
    from direct_slot [where mapped = mapped and t = t, OF this] branch_taken True t
    have "slot_ok ld ldv (scratchRegister opts) mapped w old new (ws @ replicate n nop_word)" for n
      unfolding direct_def by blast
    moreover have "out' = out @ enc ws" using ws(1) True by (auto simp: out1_def direct_def)
    moreover have "length ws \<le> slot (kind w) div 4" using ws(2) k by auto
    ultimately show thesis using that by blast
  next
    case False
    then have nc: "\<not> is_call w" using call_kind [OF k] by (auto simp: direct_def)
    have s: "slot (kind w) div 4 = 6" using False k by (auto simp: direct_def)
    from False to nc have "branches_to ld ldv (scratchRegister opts) False (new + 4) (mapped t) ws"
      by (simp add: out1_def new emit_enc algebra_simps direct_def)
    note to = this
    have "slot_ok ld ldv (scratchRegister opts) mapped w old new ((skip_word (kind w) w # ws) @ replicate n nop_word)"
      if "length (skip_word (kind w) w # ws) + n = slot (kind w) div 4" for n
    proof -
      have "length ws + n = 5" using that s by simp
      from skip_slot [where mapped = mapped and t = t, OF to nc _ this, of old "skip_word (kind w) w"]
        branch_skipped [OF k False [unfolded direct_def], of ld ldv old _ _ _ new] t
      show ?thesis by simp
    qed
    moreover have "out' = out @ enc (skip_word (kind w) w # ws)" using ws(1) False by (simp add: out1_def emit_enc direct_def)
    moreover have "length (skip_word (kind w) w # ws) \<le> slot (kind w) div 4" using ws(2) s by auto
    ultimately show thesis using that by blast
  qed
qed

section \<open>Literal loads\<close>

text \<open>A straight-line slot: its words fall through with the effect of the instruction.\<close>

lemma straight_slot:
  assumes "\<not> is_call w"
    and "\<And>s nxt s1. a64_exec ld ldv w old s = Some (nxt, s1) \<Longrightarrow> nxt = Fall \<and>
      (\<exists>s2. (\<forall>ws'. run_words ld ldv (ws @ ws') new s = run_words ld ldv ws' (new + 4 * of_nat (length ws)) s2) \<and> eq_cpu scratch s1 s2)"
  shows "slot_ok ld ldv scratch mapped w old new (ws @ replicate n nop_word)"
  unfolding slot_ok_def
proof (intro allI impI)
  fix s nxt s1
  assume "a64_exec ld ldv w old s = Some (nxt, s1)"
  from assms(2) [OF this] obtain s2 where "nxt = Fall"
    "run_words ld ldv (ws @ replicate n nop_word) new s = run_words ld ldv (replicate n nop_word) (new + 4 * of_nat (length ws)) s2"
    "eq_cpu scratch s1 s2" by blast
  then show "\<exists>s2 k. run_words ld ldv (ws @ replicate n nop_word) new s =
       Some (case nxt of Fall \<Rightarrow> new + 4 * of_nat (length (ws @ replicate n nop_word)) | Jump t \<Rightarrow> mapped t, s2) \<and>
     eq_cpu scratch (set_link (is_call w) (new + 4 * of_nat k) s1) s2 \<and>
     (is_call w \<longrightarrow> k \<le> length (ws @ replicate n nop_word) \<and> xr s2 30 = new + 4 * of_nat k \<and>
        (\<forall>s'. run_words ld ldv (drop k (ws @ replicate n nop_word)) (new + 4 * of_nat k) s' =
           Some (new + 4 * of_nat (length (ws @ replicate n nop_word)), s')))"
    using assms(1) by (simp add: run_nops algebra_simps)
qed

lemma high_bits: "unat (drop_bit 30 (w :: u32)) \<le> 3" "unat (drop_bit 30 w) = 3 \<Longrightarrow> bit w 31 \<and> bit w 30"
proof -
  have d: "unat (drop_bit 30 w) = unat w div 2 ^ 30" by (simp add: unat_drop_bit_eq drop_bit_eq_div [of 30 "unat w"])
  show "unat (drop_bit 30 w) \<le> 3" using unsigned_less [of w, where 'a = nat] unfolding d by simp
  assume "unat (drop_bit 30 w) = 3"
  then have "drop_bit 30 w = 3" by (simp add: word_unat_eq_iff)
  then have "bit (drop_bit 30 w) 1" "bit (drop_bit 30 w) 0" by simp_all
  then show "bit w 31 \<and> bit w 30" by (simp add: bit_drop_bit_eq)
qed

lemma vector_bit: "((w :: u32) AND push_bit 26 1 \<noteq> 0) = bit w 26"
  using and_exp_eq_0_iff_not_bit [of w 26] by (simp add: push_bit_of_1)

text \<open>The near form: the same load with a new displacement.\<close>

lemma near_literal:
  assumes "kind w = K_Literal" "rel AND mask 19 = rel" "w1 = (w AND NOT 0x00ffffe0) OR push_bit 5 rel" "new + sext 19 rel * 4 = old + sext 19 (w_field 5 19 w) * 4"
  shows "a64_exec ld ldv w1 new s = a64_exec ld ldv w old s"
proof -
  have m: "(0x00ffffe0 :: u32) = push_bit 5 (mask 19)" by (simp add: mask_eq_exp_minus_1)
  have h: "(w AND NOT 0x00ffffe0) AND push_bit 5 (mask 19) = 0" unfolding m by (simp add: and.assoc)
  note f = insert_field [OF assms(2) h _ assms(3)]
  have b: "bit w1 i = bit w i" if "\<not> (5 \<le> i \<and> i < 24)" for i
    using f(3) [of i] that unfolding m by (auto simp: bit_simps dest: bit_imp_le_length)
  have "w1 AND 0x3b000000 = w AND 0x3b000000" by (rule eq_on_mask) (auto simp: mask_words bit_simps b)
  moreover have w: "is_ldl w" using kind_class(6) [OF assms(1)] .
  ultimately have w1: "is_ldl w1" by (simp add: is_ldl_def)
  have "w1 AND 31 = w AND 31" by (rule eq_on_mask) (auto simp: mask_words bit_simps b)
  moreover have "drop_bit 30 w1 = drop_bit 30 w" by (rule bit_eqI) (simp add: bit_drop_bit_eq b)
  ultimately show ?thesis unfolding exec_ldl [OF w] exec_ldl [OF w1] using f(1) assms(4) b [of 26] b [of 30] b [of 31] by simp
qed

lemma exec_far_load:
  assumes "reg \<le> 30" "rt \<le> 31" "opc \<le> 3" "vector \<longrightarrow> opc \<noteq> 3"
  shows "a64_exec ld ldv (load_word vector opc OR push_bit 5 (of_nat reg) OR of_nat rt) pc s =
    Some (Fall, do_load ld ldv vector opc rt (xr s reg) s)"
proof -
  define w where "w = load_word vector opc OR push_bit 5 (of_nat reg) OR of_nat rt"
  have reg: "(of_nat reg :: u32) AND mask 5 = of_nat reg" "unat (of_nat reg :: u32) = reg" using reg_masked [of reg] assms(1) by simp_all
  have h: "load_word vector opc AND mask (5 + 5) = 0" by (simp add: load_word_def mask_u32)
  note a = assembled [OF reg(1) reg_masked(1) [OF assms(2)] h w_def]
  have "w AND 0xfffffc00 = load_word vector opc" using a(3) [of "0xfffffc00"] by (simp add: mask_u32 load_word_def)
  moreover have "unat (w_field 5 5 w) = reg" using a(2) reg(2) by simp
  moreover have "unat (w AND 31) = rt" using a(1) reg_masked(2) [OF assms(2)] by (simp add: mask_u32)
  moreover have "rd_reg reg s = xr s reg" using assms(1) by (simp add: rd_reg_def)
  ultimately have "a64_exec ld ldv w pc s = Some (Fall, do_load ld ldv vector opc rt (xr s reg) s)"
    using exec_load [of w vector opc ld ldv pc s] assms(1,3,4) by simp
  then show ?thesis by (simp add: w_def)
qed

text \<open>The far form leaves the loaded register, or the scratch register as the only difference.\<close>

lemma far_load_effect:
  assumes "reg \<le> 30" "reg = rt \<and> \<not> vector \<and> opc \<noteq> 3 \<or> scratch = Some reg \<and> (vector \<or> opc = 3 \<or> rt = 31)"
  shows "eq_cpu scratch (do_load ld ldv vector opc rt t s) (do_load ld ldv vector opc rt t (wr_reg reg t s))"
  using assms by (auto simp: do_load_def wr_reg_def eq_cpu_def)

lemma far_slot:
  assumes nc: "\<not> is_call w" and reg: "reg \<le> 30" and rt: "rt \<le> 31" and opc: "opc \<le> 3"
    and e: "\<And>s nxt s1. a64_exec ld ldv w old s = Some (nxt, s1) \<Longrightarrow>
      nxt = Fall \<and> s1 = do_load ld ldv vector opc rt t s \<and> \<not> (vector \<and> opc = 3)"
    and clobber: "reg = rt \<and> \<not> vector \<and> opc \<noteq> 3 \<or> scratch = Some reg \<and> (vector \<or> opc = 3 \<or> rt = 31)"
  shows "slot_ok ld ldv scratch mapped w old new
    ((constant_words reg t @ [load_word vector opc OR push_bit 5 (of_nat reg) OR of_nat rt]) @ replicate n nop_word)"
proof (rule straight_slot [OF nc])
  define j where "j = load_word vector opc OR push_bit 5 (of_nat reg) OR of_nat rt"
  fix s nxt s1
  assume "a64_exec ld ldv w old s = Some (nxt, s1)"
  note x = e [OF this]
  have "a64_exec ld ldv j (new + 16) (wr_reg reg t s) = Some (Fall, do_load ld ldv vector opc rt t (wr_reg reg t s))"
    using exec_far_load [OF reg rt opc, of vector ld ldv "new + 16" "wr_reg reg t s"] x reg by (simp add: j_def wr_reg_def)
  then have "\<forall>ws'. run_words ld ldv ((constant_words reg t @ [j]) @ ws') new s =
      run_words ld ldv ws' (new + 20) (do_load ld ldv vector opc rt t (wr_reg reg t s))"
    using run_constant [of reg ld ldv t] reg by (simp add: add.commute [of 20])
  moreover have "4 * of_nat (length (constant_words reg t @ [j])) = (20 :: u64)" by (simp add: constant_words_def)
  ultimately show "nxt = Fall \<and> (\<exists>s2. (\<forall>ws'. run_words ld ldv
      ((constant_words reg t @ [load_word vector opc OR push_bit 5 (of_nat reg) OR of_nat rt]) @ ws') new s =
      run_words ld ldv ws' (new + 4 * of_nat (length (constant_words reg t @ [load_word vector opc OR push_bit 5 (of_nat reg) OR of_nat rt]))) s2) \<and>
      eq_cpu scratch s1 s2)"
    unfolding j_def [symmetric] using x far_load_effect [OF reg clobber, of ld ldv t s] by metis
qed

lemma literal_slot:
  assumes r: "relocate_literal out old new w opts = Inr out'" and o: "opts_ok opts" and k: "kind w = K_Literal"
  obtains ws where "out' = out @ enc ws" "length ws \<le> 5"
    "\<And>n. slot_ok ld ldv (scratchRegister opts) mapped w old new (ws @ replicate n nop_word)"
proof -
  define opc where "opc = unat (drop_bit 30 w)"
  define rt where "rt = unat (w AND 31)"
  have w: "is_ldl w" using kind_class(6) [OF k] .
  note nc = not_call(5) [OF w]
  have "of_int (signedField (w_field 5 19 w) 19) = sext 19 (w_field 5 19 w)" by (rule signedField_sext) (simp_all add: and.assoc)
  then obtain t where t: "absolute old (signedField (w_field 5 19 w) 19 * 4) = Inr t" "t = old + sext 19 (w_field 5 19 w) * 4"
    using r absolute_sum by (fastforce simp: relocate_literal_def mask_u32 split: sum.splits)
  have e: "nxt = Fall \<and> s1 = do_load ld ldv (bit w 26) opc rt t s \<and> \<not> (bit w 26 \<and> opc = 3)"
    if "a64_exec ld ldv w old s = Some (nxt, s1)" for s nxt s1
    using that high_bits(2) [of w] unfolding exec_ldl [OF w] t(2) opc_def rt_def by (auto split: if_splits)
  show thesis
  proof (cases "relative new t 19")
    case (Some rel)
    define w1 where "w1 = (w AND NOT 0x00ffffe0) OR push_bit 5 rel"
    have out: "out' = out @ enc [w1]" using r t(1) Some by (simp add: relocate_literal_def mask_u32 emit_enc w1_def)
    note rs = relative_sext [OF Some]
    have "a64_exec ld ldv w1 new s = a64_exec ld ldv w old s" for s
      using near_literal [OF k rs(2) w1_def] rs(1) t(2) by simp
    then have "slot_ok ld ldv (scratchRegister opts) mapped w old new ([w1] @ replicate n nop_word)" for n
      using e by (intro straight_slot [OF nc]) fastforce
    with out show thesis using that [of "[w1]"] by simp
  next
    case None
    define reg where "reg = (if \<not> bit w 26 \<and> opc < 3 \<and> rt \<noteq> 31 then rt else the (scratchRegister opts))"
    define j where "j = load_word (bit w 26) opc OR push_bit 5 (of_nat reg) OR of_nat rt"
    have rt: "rt \<le> 31" using word_and_le1 [of w 31] by (simp add: word_le_nat_alt rt_def)
    have opc: "opc \<le> 3" using high_bits(1) by (simp add: opc_def)
    have reg: "reg \<le> 30" "reg = rt \<and> \<not> bit w 26 \<and> opc \<noteq> 3 \<or> scratchRegister opts = Some reg \<and> (bit w 26 \<or> opc = 3 \<or> rt = 31)"
      and out: "out' = out @ enc (constant_words reg t @ [j])"
      using r t(1) None o rt opc
      by (auto simp: relocate_literal_def mask_u32 Let_def vector_bit [simplified] emit_enc move_constant_enc reg_def j_def opc_def rt_def opts_ok_def
          split: if_splits option.splits)
    have "slot_ok ld ldv (scratchRegister opts) mapped w old new ((constant_words reg t @ [j]) @ replicate n nop_word)" for n
      unfolding j_def using far_slot [OF nc reg(1) rt opc e reg(2)] by blast
    with out show thesis using that [of "constant_words reg t @ [j]"] by (simp add: constant_words_def)
  qed
qed

section \<open>The relocated block\<close>

definition slot_words :: "byte list \<Rightarrow> nat \<Rightarrow> nat \<Rightarrow> u32 list" where
  "slot_words bytes off n = map (\<lambda>j. wordAt bytes (off + 4 * j)) [0..<n div 4]"

lemma slot_words_enc: "length ws = n div 4 \<Longrightarrow> slot_words (out @ enc ws @ rest) (length out) n = ws"
  by (rule nth_equalityI) (simp_all add: slot_words_def wordAt_append wordAt_enc)

definition slot_for ::
  "(nat \<Rightarrow> u64 \<Rightarrow> u64) \<Rightarrow> (nat \<Rightarrow> u64 \<Rightarrow> 'v) \<Rightarrow> nat option \<Rightarrow> (u64 \<Rightarrow> u64) \<Rightarrow> u32 \<Rightarrow> u64 \<Rightarrow> u64 \<Rightarrow> u32 list \<Rightarrow> bool" where
  "slot_for ld ldv scratch mapped w old new ws \<longleftrightarrow> length ws = slot (kind w) div 4 \<and>
    (if kind w = K_Copy then ws = [w] else slot_ok ld ldv scratch mapped w old new ws)"

lemma slot_dvd: "4 * (slot k div 4) = slot k"
  by (cases k) simp_all

text \<open>A rewritten instruction: its words, and that they form its slot once padded with NOPs.\<close>

lemma rewritten_slot:
  assumes one: "relocate_one source destination mapped opts code i out = Inr out'" and o: "opts_ok opts"
    and w: "w = wordAt code i" "kind w \<noteq> K_Copy" and old: "old = source + of_nat i" and new: "new = destination + of_nat (length out)"
  shows "\<exists>ws. out' = pad (out @ enc ws) (length out + slot (kind w)) \<and> length ws \<le> slot (kind w) div 4 \<and>
    (\<forall>n. length ws + n = slot (kind w) div 4 \<longrightarrow> slot_ok ld ldv (scratchRegister opts) mapped w old new (ws @ replicate n nop_word))"
proof -
  consider (a) "kind w = K_Address" | (b) "kind w \<in> branch_kinds" | (l) "kind w = K_Literal" using w(2) by (cases "kind w") auto
  then show ?thesis
  proof cases
    case a
    then obtain out1 where r: "relocate_address out old w = Inr out1" "out' = pad out1 (length out + slot (kind w))"
      using one by (auto simp: relocate_one_def Let_def w(1) old split: sum.splits)
    from address_slot [OF r(1) a, of ld ldv "scratchRegister opts" mapped new] obtain ws where
      "out1 = out @ enc ws" "length ws = 4" "slot_ok ld ldv (scratchRegister opts) mapped w old new ws" by blast
    with r a show ?thesis by auto
  next
    case b
    then obtain out1 where r: "relocate_branch out old destination mapped w opts = Inr out1" "out' = pad out1 (length out + slot (kind w))"
      using one by (auto simp: relocate_one_def Let_def w(1) old split: sum.splits)
    obtain ws where "out1 = out @ enc ws" "length ws \<le> slot (kind w) div 4"
      "\<And>n. length ws + n = slot (kind w) div 4 \<Longrightarrow> slot_ok ld ldv (scratchRegister opts) mapped w old new (ws @ replicate n nop_word)"
      by (rule branch_slot [OF r(1) o b new, where ld = ld and ldv = ldv]) blast
    with r(2) show ?thesis by blast
  next
    case l
    then obtain out1 where r: "relocate_literal out old new w opts = Inr out1" "out' = pad out1 (length out + slot (kind w))"
      using one by (auto simp: relocate_one_def Let_def w(1) old new split: sum.splits)
    from literal_slot [OF r(1) o l, of ld ldv mapped] obtain ws where
      "out1 = out @ enc ws" "length ws \<le> 5" "\<And>n. slot_ok ld ldv (scratchRegister opts) mapped w old new (ws @ replicate n nop_word)" by blast
    with r l show ?thesis by auto
  qed
qed

lemma pad_slot:
  assumes "length ws \<le> slot k div 4"
  shows "pad (out @ enc ws) (length out + slot k) = out @ enc (ws @ replicate (slot k div 4 - length ws) nop_word)"
proof -
  have "length out + slot k = length (out @ enc ws) + 4 * (slot k div 4 - length ws)"
    using assms slot_dvd [of k] by (simp add: diff_mult_distrib2)
  then show ?thesis by (simp only: pad_enc) simp
qed

lemma relocate_one_slot:
  assumes "relocate_one source destination mapped opts code i out = Inr out'" "opts_ok opts"
  obtains ws where "out' = out @ enc ws"
    "slot_for ld ldv (scratchRegister opts) mapped (wordAt code i) (source + of_nat i) (destination + of_nat (length out)) ws"
proof (cases "kind (wordAt code i) = K_Copy")
  case True
  then have "out' = out @ enc [wordAt code i]"
    using assms(1) pad_slot [of "[wordAt code i]" K_Copy out] by (simp add: relocate_one_def Let_def emit_enc)
  with True that [of "[wordAt code i]"] show thesis by (simp add: slot_for_def)
next
  case False
  from rewritten_slot [OF assms refl False refl refl, of ld ldv]
  obtain ws where ws: "out' = pad (out @ enc ws) (length out + slot (kind (wordAt code i)))" "length ws \<le> slot (kind (wordAt code i)) div 4"
    "\<And>n. length ws + n = slot (kind (wordAt code i)) div 4 \<Longrightarrow> slot_ok ld ldv (scratchRegister opts) mapped (wordAt code i)
       (source + of_nat i) (destination + of_nat (length out)) (ws @ replicate n nop_word)" by blast
  show thesis
    by (rule that [of "ws @ replicate (slot (kind (wordAt code i)) div 4 - length ws) nop_word"])
      (use ws pad_slot [OF ws(2)] False in \<open>simp_all add: slot_for_def\<close>)
qed

lemma relocate_loop_slots:
  assumes "relocate_loop source destination mapped opts code is out = Inr out'" "opts_ok opts"
    "layout False code is (length out) = (offs, total_size)"
  shows "length out' = total_size \<and> length offs = length is \<and> (\<exists>rest. out' = out @ rest) \<and>
    (\<forall>j < length is. offs ! j + slot (kind (wordAt code (is ! j))) = (offs @ [total_size]) ! Suc j \<and>
       slot_for ld ldv (scratchRegister opts) mapped (wordAt code (is ! j)) (source + of_nat (is ! j)) (destination + of_nat (offs ! j))
         (slot_words out' (offs ! j) (slot (kind (wordAt code (is ! j))))))"
  using assms
proof (induction "is" arbitrary: out offs)
  case Nil
  then show ?case by simp
next
  case (Cons i "is")
  define w where "w = wordAt code i"
  from Cons.prems(1) obtain out1 where one: "relocate_one source destination mapped opts code i out = Inr out1"
    and rest: "relocate_loop source destination mapped opts code is out1 = Inr out'" by (auto split: sum.splits)
  from relocate_one_slot [OF one assms(2), of ld ldv] obtain ws where ws: "out1 = out @ enc ws"
    "slot_for ld ldv (scratchRegister opts) mapped w (source + of_nat i) (destination + of_nat (length out)) ws"
    unfolding w_def by blast
  have len: "length ws = slot (kind w) div 4" using ws(2) by (simp add: slot_for_def)
  then have len1: "length out1 = length out + slot (kind w)" using ws(1) slot_dvd [of "kind w"] by simp
  obtain offs1 where offs: "layout False code is (length out1) = (offs1, total_size)" "offs = length out # offs1"
    using Cons.prems(3) by (auto simp: len1 w_def split: prod.splits)
  note IH = Cons.IH [OF rest assms(2) offs(1)]
  then obtain tail where tail: "out' = out @ enc ws @ tail" using ws(1) by auto
  have first: "(offs1 @ [total_size]) ! 0 = length out1"
    using offs(1) by (cases "is") (auto split: prod.splits)
  show ?case
  proof (intro conjI allI impI)
    show "length out' = total_size" "length offs = length (i # is)" "\<exists>rest. out' = out @ rest" using IH offs(2) tail by auto
  next
    fix j assume "j < length (i # is)"
    then show "offs ! j + slot (kind (wordAt code ((i # is) ! j))) = (offs @ [total_size]) ! Suc j"
      using IH offs(2) first len1 by (cases j) (auto simp: w_def)
  next
    fix j assume j: "j < length (i # is)"
    show "slot_for ld ldv (scratchRegister opts) mapped (wordAt code ((i # is) ! j)) (source + of_nat ((i # is) ! j))
        (destination + of_nat (offs ! j)) (slot_words out' (offs ! j) (slot (kind (wordAt code ((i # is) ! j)))))"
    proof (cases j)
      case 0
      with ws(2) slot_words_enc [OF len, of out tail] tail offs(2) show ?thesis by (simp add: w_def)
    next
      case (Suc m)
      with IH j offs(2) show ?thesis by simp
    qed
  qed
qed

section \<open>Properties\<close>

lemma steps_of_nth: "i < n div 4 \<Longrightarrow> steps_of n ! i = 4 * i" "length (steps_of n) = n div 4"
  by (simp_all add: steps_of_def)


text \<open>A conditional branch out of the block (to four bytes before it) and a plain move, moved by 4 MiB.\<close>

definition sample_block :: "byte list" where
  "sample_block = [0xe0, 0xff, 0xff, 0x54, 0xe0, 0x03, 0x01, 0xaa]"

definition sample_opts :: Aarch64RelocationOptions where
  "sample_opts = \<lparr> scratchRegister = Some 16, allowIndirectBranches = True \<rparr>"

lemma sample_block_words:
  "length sample_block = 8" "wordAt sample_block 4 = 0xaa0103e0" "wordAt sample_block 0 = 0x54ffffe0" "sample_block \<noteq> []"
  by (simp_all add: sample_block_def wordAt_def)

lemma sample_relocates: "is_ok (relocateAarch64 (\<lambda>_ _. [4, 4]) sample_block 0x400000 0x800000 sample_opts)"
proof -
  have k: "kind 0xaa0103e0 = K_Copy" "kind 0x54ffffe0 = K_Conditional" by (simp_all add: kind_def)
  have a: "absolute 0x400000 (signedField (branch_field K_Conditional 0x54ffffe0) (branch_bits K_Conditional) * 4) = Inr 0x3ffffc"
    by (simp add: branch_field_def branch_bits_def signedField_def absolute_def)
  have m: "mapBranch 0x400000 0x800000 8 [0, 24] 0x3ffffc = 0x3ffffc" by (simp add: mapBranch_def)
  have al: "\<not> always K_Conditional 0x54ffffe0" by (simp add: always_def)
  obtain rel where rel: "relative 0x800004 0x3ffffc 26 = Some rel" by (auto simp: relative_def Let_def)
  have b: "is_ok (relocate_branch [] 0x400000 0x800000 (mapBranch 0x400000 0x800000 8 [0, 24]) 0x54ffffe0 sample_opts)"
    by (simp add: relocate_branch_def Let_def k a al m branch_def rel emit_enc)
  then obtain out where out: "relocate_branch [] 0x400000 0x800000 (mapBranch 0x400000 0x800000 8 [0, 24]) 0x54ffffe0 sample_opts = Inr out"
    by (auto simp: is_ok_iff)
  have s: "steps_of 8 = [0, 4]" by (simp add: steps_of_def upt_conv_Cons)
  have o: "scratchRegister sample_opts = Some 16" by (simp add: sample_opts_def)
  show ?thesis
    by (simp add: relocateAarch64_def sample_block_words s k o relocate_one_def Let_def out)
qed


end
