(* ===== verification/PerfRing.thy ===== *)
theory PerfRing
  imports Prelude
begin

unbundle bit_operations_syntax

text \<open>
  The readers of Linux perf ring buffers (\<^verbatim>\<open>debug/perf_ring.cpp\<close>): the layout checks of a mapping, copies that
  wrap around its end, the draining of branch samples and of the auxiliary area. The structures of
  \<^verbatim>\<open>linux/perf_event.h\<close> appear with their ABI sizes: \<^verbatim>\<open>perf_event_header\<close> is a 32-bit type, 16-bit flags
  and the 16-bit record size, \<^verbatim>\<open>perf_branch_entry\<close> three 64-bit words. The size of the control page
  structure is the argument \<open>ctl\<close>. One call sees one value of the kernel's head counters.
\<close>

section \<open>Mappings\<close>

record perf_control =
  data_offset :: u64
  data_size :: u64
  data_head :: u64
  data_tail :: u64
  aux_offset :: u64
  aux_size :: u64
  aux_head :: u64
  aux_tail :: u64

text \<open>A mapping: the control page, all its bytes (the data ring lies behind the control page) and whether its address is aligned.\<close>

record perf_mapping =
  control :: perf_control
  map_bytes :: "byte list"
  map_aligned :: bool

record LbrEntry =
  lbr_from :: u64
  lbr_to :: u64
  lbr_mispredicted :: bool
  lbr_predicted :: bool

definition size_max :: nat where
  "size_max = 2 ^ 64 - 1"

definition has_single_bit :: "nat \<Rightarrow> bool" where
  "has_single_bit n \<longleftrightarrow> n \<noteq> 0 \<and> n AND (n - 1) = 0"

text \<open>\<^verbatim>\<open>std::bit_ceil\<close>: the first power of two, from \<open>p\<close> on, that is not smaller.\<close>

function bit_ceil_from :: "nat \<Rightarrow> nat \<Rightarrow> nat" where
  "bit_ceil_from p n = (if p = 0 \<or> n \<le> p then p else bit_ceil_from (2 * p) n)"
  by pat_completeness auto
termination by (relation "measure (\<lambda>(p, n). n - p)") auto

declare bit_ceil_from.simps [simp del]

definition bit_ceil :: "nat \<Rightarrow> nat" where
  "bit_ceil n = bit_ceil_from 1 n"

record PerfMappingSize =
  dataBytes :: nat
  mappingBytes :: nat

definition perfMappingSize :: "nat \<Rightarrow> nat \<Rightarrow> int \<Rightarrow> PerfMappingSize option" where
  "perfMappingSize ctl pageSize pages =
    (if pages \<le> 0 \<or> pageSize < ctl \<or> \<not> has_single_bit pageSize then None
     else let rounded = bit_ceil (nat pages) in
       if rounded > size_max div pageSize - 1 then None
       else Some \<lparr> dataBytes = rounded * pageSize, mappingBytes = (rounded + 1) * pageSize \<rparr>)"

text \<open>\<^verbatim>\<open>dataRing\<close>: the offset of the data ring in the mapping and its bytes.\<close>

definition dataRing :: "nat \<Rightarrow> perf_mapping \<Rightarrow> nat \<Rightarrow> (nat \<times> byte list) option" where
  "dataRing ctl m pageSize =
    (if pageSize < ctl \<or> \<not> has_single_bit pageSize \<or> length (map_bytes m) < pageSize \<or> \<not> map_aligned m then None
     else let offset = unat (data_offset (control m)); sz = unat (data_size (control m));
              (offset, sz) = (if offset = 0 \<and> sz = 0 then (pageSize, length (map_bytes m) - pageSize) else (offset, sz))
          in if offset < pageSize \<or> offset mod pageSize \<noteq> 0 \<or> offset > length (map_bytes m) \<or> sz = 0 \<or> \<not> has_single_bit sz \<or>
                sz > length (map_bytes m) - offset \<or> sz mod pageSize \<noteq> 0 then None
             else Some (offset, take sz (drop offset (map_bytes m))))"

definition copyRing :: "byte list \<Rightarrow> u64 \<Rightarrow> nat \<Rightarrow> byte list" where
  "copyRing ring position count =
    (let offset = unat position mod length ring; first = min count (length ring - offset)
     in take first (drop offset ring) @ take (count - first) ring)"

section \<open>Draining\<close>

definition PERF_RECORD_SAMPLE :: nat where "PERF_RECORD_SAMPLE = 9"

text \<open>The bytes of a \<^verbatim>\<open>perf_branch_entry\<close> as the entry that is pushed.\<close>

definition read_entry :: "byte list \<Rightarrow> LbrEntry" where
  "read_entry e =
    (let flags = le_val (take 8 (drop 16 e)) in
     \<lparr> lbr_from = of_nat (le_val (take 8 e)), lbr_to = of_nat (le_val (take 8 (drop 8 e))),
       lbr_mispredicted = bit flags 0, lbr_predicted = bit flags 1 \<rparr>)"

text \<open>The loop over the records, from \<open>tail\<close> with \<open>available\<close> bytes: the entries and the final tail and rest.\<close>

function drain_loop :: "byte list \<Rightarrow> u64 \<Rightarrow> u64 \<Rightarrow> nat \<Rightarrow> LbrEntry list \<Rightarrow> LbrEntry list \<times> u64 \<times> nat" where
  "drain_loop ring head tail available out =
    (if available < 8 then (out, tail, available)
     else let header = copyRing ring tail 8; type = le_val (take 4 header); hsize = le_val (drop 6 header) in
       if hsize < 8 \<or> hsize > available \<or> hsize > length ring then (out, head, available)
       else let entries =
           (if type = PERF_RECORD_SAMPLE \<and> hsize \<ge> 16 then
              let count = le_val (copyRing ring (tail + 8) 8); payload = hsize - 16 in
              if count \<le> payload div 24 then map (\<lambda>i. read_entry (copyRing ring (tail + 16 + of_nat (i * 24)) 24)) [0..<count] else []
            else [])
         in drain_loop ring head (tail + of_nat hsize) (available - hsize) (out @ entries))"
  by pat_completeness auto
termination by (relation "measure (\<lambda>(ring, head, tail, available, out). available)") (auto simp: Let_def)

declare drain_loop.simps [simp del]

definition drainPerfBranches :: "nat \<Rightarrow> perf_mapping \<Rightarrow> nat \<Rightarrow> LbrEntry list \<times> perf_mapping" where
  "drainPerfBranches ctl m pageSize =
    (case dataRing ctl m pageSize of
       None \<Rightarrow> ([], m)
     | Some (_, ring) \<Rightarrow>
         let head = data_head (control m); tail = data_tail (control m); available = unat (head - tail) in
         if available > length ring then ([], m\<lparr>control := (control m)\<lparr>data_tail := head\<rparr>\<rparr>)
         else case drain_loop ring head tail available [] of (out, tail, available) \<Rightarrow>
           let tail = (if available \<noteq> 0 \<and> available < 8 then head else tail) in
           (out, m\<lparr>control := (control m)\<lparr>data_tail := tail\<rparr>\<rparr>))"

definition drainPerfAux :: "nat \<Rightarrow> perf_mapping \<Rightarrow> byte list \<Rightarrow> nat \<Rightarrow> byte list \<times> perf_mapping" where
  "drainPerfAux ctl m auxiliary pageSize =
    (case dataRing ctl m pageSize of
       None \<Rightarrow> ([], m)
     | Some (offset, ring) \<Rightarrow>
         if auxiliary = [] \<or> \<not> has_single_bit (length auxiliary) \<or> length auxiliary mod pageSize \<noteq> 0 then ([], m)
         else let c = control m; dataEnd = offset + length ring in
           if unat (aux_size c) \<noteq> length auxiliary \<or> unat (aux_offset c) < dataEnd \<or> unat (aux_offset c) mod pageSize \<noteq> 0 then ([], m)
           else let head = aux_head c; tail = aux_tail c; available = unat (head - tail);
                    out = (if available \<le> length auxiliary then (if available \<noteq> 0 then copyRing auxiliary tail available else []) else [])
             in (out, m\<lparr>control := c\<lparr>aux_tail := head, data_tail := data_head c\<rparr>\<rparr>))"

section \<open>Powers of two\<close>

lemma has_single_bit_iff: "has_single_bit n \<longleftrightarrow> (\<exists>k. n = 2 ^ k)"
proof (induction n rule: less_induct)
  case (less n)
  show ?case
  proof (cases "n = 0 \<or> odd n")
    case True
    have "n AND (n - 1) = n - 1" if "odd n"
    proof -
      from that obtain m where n: "n = 2 * m + 1" by (elim oddE)
      have "(2 * m + 1) AND (2 * m) = 2 * m" using and_rec [of "2 * m + 1" "2 * m"] by simp
      then show ?thesis by (simp add: n)
    qed
    moreover have "(\<exists>k. n = 2 ^ k) \<longleftrightarrow> n = 1" if "odd n"
    proof
      assume "\<exists>k. n = 2 ^ k"
      then obtain k where k: "n = 2 ^ k" by blast
      with that show "n = 1" by (cases k) auto
    qed (auto intro: exI [of _ 0])
    ultimately show ?thesis using True by (auto simp: has_single_bit_def)
  next
    case False
    then obtain m where n: "n = 2 * m" "0 < m" by (auto elim!: evenE)
    have "(n - 1) div 2 = m - 1" "odd (n - 1)" "even n" using n by simp_all
    then have "n AND (n - 1) = 2 * (m AND (m - 1))" using and_rec [of n "n - 1"] n(1) by simp
    then have "has_single_bit n \<longleftrightarrow> has_single_bit m" using n by (simp add: has_single_bit_def)
    moreover have "(\<exists>k. n = 2 ^ k) \<longleftrightarrow> (\<exists>k. m = 2 ^ k)"
    proof
      assume "\<exists>k. n = 2 ^ k"
      then obtain k where k: "n = 2 ^ k" by blast
      with n False obtain j where "k = Suc j" by (cases k) auto
      with k n show "\<exists>k. m = 2 ^ k" by auto
    next
      assume "\<exists>k. m = 2 ^ k"
      then obtain k where "m = 2 ^ k" by blast
      with n show "\<exists>k. n = 2 ^ k" by (intro exI [of _ "Suc k"]) simp
    qed
    ultimately show ?thesis using less [of m] n by simp
  qed
qed

lemma bit_ceil_from_bounds:
  "0 < p \<Longrightarrow> p < 2 * n \<Longrightarrow> \<exists>k. bit_ceil_from p n = p * 2 ^ k \<and> n \<le> bit_ceil_from p n \<and> bit_ceil_from p n < 2 * n"
proof (induction p n rule: bit_ceil_from.induct)
  case (1 p n)
  show ?case
  proof (cases "n \<le> p")
    case True
    then show ?thesis using 1 by (subst (1 2 3) bit_ceil_from.simps) (auto intro: exI [of _ 0])
  next
    case False
    with 1 obtain k where "bit_ceil_from (2 * p) n = 2 * p * 2 ^ k" "n \<le> bit_ceil_from (2 * p) n" "bit_ceil_from (2 * p) n < 2 * n" by auto
    moreover have "bit_ceil_from p n = bit_ceil_from (2 * p) n" using False 1 by (subst bit_ceil_from.simps) simp
    ultimately show ?thesis by (intro exI [of _ "Suc k"]) simp
  qed
qed

text \<open>The sizes asked of \<^verbatim>\<open>mmap\<close>: a power of two of pages, at least those wanted and fewer than twice as many, plus one page, without overflow.\<close>

lemma perfMappingSize_bounds:
  assumes "perfMappingSize ctl pageSize pages = Some sz"
  shows "\<exists>n. dataBytes sz = n * pageSize \<and> has_single_bit n \<and> nat pages \<le> n \<and> n < 2 * nat pages \<and>
    mappingBytes sz = dataBytes sz + pageSize \<and> mappingBytes sz \<le> size_max"
proof -
  define n where "n = bit_ceil (nat pages)"
  from assms have p: "0 < pages" "0 < pageSize" and n: "n \<le> size_max div pageSize - 1"
    and sz: "sz = \<lparr> dataBytes = n * pageSize, mappingBytes = (n + 1) * pageSize \<rparr>"
    by (auto simp: perfMappingSize_def Let_def n_def has_single_bit_def split: if_splits)
  have "(0 :: nat) < 1" "1 < 2 * nat pages" using p(1) by auto
  from bit_ceil_from_bounds [OF this] obtain k where k: "n = 2 ^ k" "nat pages \<le> n" "n < 2 * nat pages"
    unfolding n_def bit_ceil_def by auto
  have "n + 1 \<le> size_max div pageSize" using n k(2) p by (cases "size_max div pageSize") auto
  then have "(n + 1) * pageSize \<le> size_max div pageSize * pageSize" by (rule mult_le_mono1)
  also have "\<dots> \<le> size_max" by simp
  finally show ?thesis using k sz has_single_bit_iff [of n] by (intro exI [of _ n]) (auto simp: algebra_simps)
qed

section \<open>Reading around the end\<close>

text \<open>The bytes of the ring from a counter on, which may itself wrap.\<close>

definition ring_at :: "byte list \<Rightarrow> u64 \<Rightarrow> nat \<Rightarrow> byte list" where
  "ring_at ring pos n = map (\<lambda>i. ring ! (unat (pos + of_nat i) mod length ring)) [0..<n]"

lemma length_ring_at [simp]: "length (ring_at ring pos n) = n"
  by (simp add: ring_at_def)

lemma ring_at_add: "ring_at ring pos (a + b) = ring_at ring pos a @ ring_at ring (pos + of_nat a) b"
  by (rule nth_equalityI) (auto simp: ring_at_def nth_append add.assoc simp flip: of_nat_add)

lemma counter_mod:
  assumes "k \<le> 64"
  shows "unat (pos + of_nat i :: u64) mod 2 ^ k = (unat pos + i) mod 2 ^ k"
proof -
  have d: "(2 :: nat) ^ k dvd 2 ^ 64" using assms by (rule le_imp_power_dvd)
  have "unat (pos + of_nat i :: u64) = (unat pos + i) mod 2 ^ 64" by (simp add: unat_word_ariths unat_of_nat mod_add_right_eq)
  then show ?thesis using d by (simp add: mod_mod_cancel del: of_nat_add)
qed

text \<open>A copy of at most the ring's size is the ring's bytes from that counter on.\<close>

lemma copyRing_at:
  assumes "length ring = 2 ^ k" "k \<le> 64" "n \<le> length ring"
  shows "copyRing ring pos n = ring_at ring pos n"
proof (rule nth_equalityI)
  define off where "off = unat pos mod length ring"
  have off: "off < length ring" using assms(1) by (simp add: off_def)
  show len: "length (copyRing ring pos n) = length (ring_at ring pos n)"
    using off assms(3) by (auto simp: copyRing_def Let_def off_def [symmetric] min_def)
  fix i assume "i < length (copyRing ring pos n)"
  then have i: "i < n" using len by simp
  have "unat (pos + of_nat i) mod length ring = (off + i) mod length ring"
    using counter_mod [OF assms(2), of pos i] assms(1) by (simp add: off_def mod_add_left_eq)
  also have "\<dots> = (if off + i < length ring then off + i else off + i - length ring)"
    using off i assms(3) by (auto simp: not_less le_mod_geq)
  finally show "copyRing ring pos n ! i = ring_at ring pos n ! i"
    using i off assms(3) by (auto simp: copyRing_def Let_def off_def [symmetric] ring_at_def nth_append min_def not_less add.commute)
qed

section \<open>Records\<close>

text \<open>What the kernel writes: samples with branches (source, target, flag word) and bytes the reader skips, and other records.\<close>

datatype perf_record =
  Sample u16 "(u64 \<times> u64 \<times> u64) list" "byte list"
| Other u32 u16 "byte list"

definition entry_bytes :: "u64 \<times> u64 \<times> u64 \<Rightarrow> byte list" where
  "entry_bytes e = (case e of (from, dst, flags) \<Rightarrow> le_bytes 8 from @ le_bytes 8 dst @ le_bytes 8 flags)"

fun rec_type :: "perf_record \<Rightarrow> u32" where
  "rec_type (Sample misc es extra) = 9"
| "rec_type (Other t misc payload) = t"

fun rec_misc :: "perf_record \<Rightarrow> u16" where
  "rec_misc (Sample misc es extra) = misc"
| "rec_misc (Other t misc payload) = misc"

fun rec_payload :: "perf_record \<Rightarrow> byte list" where
  "rec_payload (Sample misc es extra) = le_bytes 8 (of_nat (length es) :: u64) @ concat (map entry_bytes es) @ extra"
| "rec_payload (Other t misc payload) = payload"

definition rec_bytes :: "perf_record \<Rightarrow> byte list" where
  "rec_bytes r = le_bytes 4 (rec_type r) @ le_bytes 2 (rec_misc r) @ le_bytes 2 (of_nat (8 + length (rec_payload r)) :: u16) @ rec_payload r"

fun rec_ok :: "perf_record \<Rightarrow> bool" where
  "rec_ok (Sample misc es extra) \<longleftrightarrow> 16 + 24 * length es + length extra < 2 ^ 16"
| "rec_ok (Other t misc payload) \<longleftrightarrow> t \<noteq> 9 \<and> 8 + length payload < 2 ^ 16"

fun rec_branches :: "perf_record \<Rightarrow> LbrEntry list" where
  "rec_branches (Sample misc es extra) =
    map (\<lambda>(from, dst, flags). \<lparr> lbr_from = from, lbr_to = dst, lbr_mispredicted = bit flags 0, lbr_predicted = bit flags 1 \<rparr>) es"
| "rec_branches (Other t misc payload) = []"

lemma length_entry_bytes [simp]: "length (entry_bytes e) = 24"
  by (cases e) (simp add: entry_bytes_def)

lemma read_entry_bytes:
  "read_entry (entry_bytes (from, dst, flags)) = \<lparr> lbr_from = from, lbr_to = dst, lbr_mispredicted = bit flags 0, lbr_predicted = bit flags 1 \<rparr>"
proof -
  have v: "le_val (le_bytes 8 w) = unat w" for w :: u64
    using unsigned_less [of w, where 'a = nat] by (simp add: le_val_le_bytes)
  have "bit (unat flags) i = bit flags i" for i by (simp add: bit_unsigned_iff)
  then show ?thesis by (simp add: read_entry_def entry_bytes_def v)
qed

lemma rec_length: "rec_ok r \<Longrightarrow> length (rec_bytes r) = 8 + length (rec_payload r) \<and> length (rec_bytes r) < 2 ^ 16"
  by (cases r) (auto simp: rec_bytes_def length_concat comp_def sum_list_triv)

lemma ring_at_sub:
  assumes "a + n \<le> l"
  shows "ring_at ring (pos + of_nat a) n = take n (drop a (ring_at ring pos l))"
  using assms by (intro nth_equalityI) (auto simp: ring_at_def add.assoc simp flip: of_nat_add)

lemma nth_concat_blocks: "i < length xs \<Longrightarrow> (\<And>x. length (f x) = n) \<Longrightarrow> take n (drop (n * i) (concat (map f xs) @ ys)) = f (xs ! i)"
proof (induction xs arbitrary: i)
  case (Cons x xs)
  then show ?case by (cases i) (auto simp: Cons.prems(2))
qed simp

lemma le_val_word: "le_val (le_bytes 4 (t :: u32)) = unat t" "le_val (le_bytes 8 (v :: u64)) = unat v" "le_val (le_bytes 2 (s :: u16)) = unat s"
  using unsigned_less [of t, where 'a = nat] unsigned_less [of v, where 'a = nat] unsigned_less [of s, where 'a = nat]
  by (simp_all add: le_val_le_bytes)

text \<open>The branches the loop body takes from a record whose payload it reads at \<open>tail + 8\<close>.\<close>

definition loop_entries :: "byte list \<Rightarrow> u64 \<Rightarrow> nat \<Rightarrow> nat \<Rightarrow> LbrEntry list" where
  "loop_entries ring tail type hsize =
    (if type = PERF_RECORD_SAMPLE \<and> hsize \<ge> 16 then
       let count = le_val (copyRing ring (tail + 8) 8); payload = hsize - 16 in
       if count \<le> payload div 24 then map (\<lambda>i. read_entry (copyRing ring (tail + 16 + of_nat (i * 24)) 24)) [0..<count] else []
     else [])"

lemma record_entries:
  assumes r: "rec_ok r" and l: "l = 8 + length (rec_payload r)"
    and payload: "\<And>a c. a + c \<le> length (rec_payload r) \<Longrightarrow> copyRing ring (tail + of_nat (8 + a)) c = take c (drop a (rec_payload r))"
  shows "loop_entries ring tail (unat (rec_type r)) l = rec_branches r"
proof (cases r)
  case (Other t misc p)
  then show ?thesis using r by (auto simp: loop_entries_def PERF_RECORD_SAMPLE_def word_unat_eq_iff)
next
  case (Sample misc es extra)
  have len: "length (rec_payload r) = 8 + 24 * length es + length extra"
    using Sample by (simp add: length_concat comp_def sum_list_triv)
  have "length es < 2 ^ 64" using r Sample by simp
  then have count: "le_val (copyRing ring (tail + 8) 8) = length es"
    using payload [of 0 8] len Sample by (simp add: le_val_word unat_of_nat)
  have e: "read_entry (copyRing ring (tail + 16 + of_nat (i * 24)) 24) = rec_branches r ! i" if "i < length es" for i
  proof -
    have "copyRing ring (tail + of_nat (8 + (8 + 24 * i))) 24 = take 24 (drop (8 + 24 * i) (rec_payload r))"
      using that len by (intro payload) simp
    also have "\<dots> = entry_bytes (es ! i)" using Sample nth_concat_blocks [OF that, of entry_bytes 24 extra] by simp
    finally have "copyRing ring (tail + 16 + of_nat (i * 24)) 24 = entry_bytes (es ! i)" by (simp add: algebra_simps)
    then show ?thesis using that Sample by (cases "es ! i") (simp add: read_entry_bytes)
  qed
  have "map (\<lambda>i. read_entry (copyRing ring (tail + 16 + of_nat (i * 24)) 24)) [0..<length es] = rec_branches r"
    by (rule nth_equalityI) (use Sample e in auto)
  moreover have "length es \<le> (l - 16) div 24" using l len by simp
  ultimately show ?thesis using Sample l len count by (simp add: loop_entries_def PERF_RECORD_SAMPLE_def Let_def)
qed

lemma drain_record:
  assumes ring: "length ring = 2 ^ k" "k \<le> 64" and r: "rec_ok r" "ring_at ring tail (length (rec_bytes r)) = rec_bytes r"
    and n: "length (rec_bytes r) \<le> available" "available \<le> length ring"
  shows "drain_loop ring head tail available out =
    drain_loop ring head (tail + of_nat (length (rec_bytes r))) (available - length (rec_bytes r)) (out @ rec_branches r)"
proof -
  define b where "b = rec_bytes r"
  define l where "l = length b"
  have l: "l = 8 + length (rec_payload r)" "l < 2 ^ 16" using rec_length [OF r(1)] by (simp_all add: l_def b_def)
  have sub: "copyRing ring (tail + of_nat a) c = take c (drop a b)" if "a + c \<le> l" for a c
  proof -
    have "copyRing ring (tail + of_nat a) c = ring_at ring (tail + of_nat a) c"
      using that n by (intro copyRing_at [OF ring]) (simp add: l_def b_def)
    also have "\<dots> = take c (drop a b)" using ring_at_sub [OF that] r(2) by (simp add: l_def b_def)
    finally show ?thesis .
  qed
  have b: "b = le_bytes 4 (rec_type r) @ le_bytes 2 (rec_misc r) @ le_bytes 2 (of_nat l :: u16) @ rec_payload r"
    using l(1) by (simp add: b_def rec_bytes_def)
  have header: "copyRing ring tail 8 = le_bytes 4 (rec_type r) @ le_bytes 2 (rec_misc r) @ le_bytes 2 (of_nat l :: u16)"
    using sub [of 0 8] l(1) by (simp add: b)
  have hsize: "le_val (drop 6 (copyRing ring tail 8)) = l" and type: "le_val (take 4 (copyRing ring tail 8)) = unat (rec_type r)"
    using l(2) by (simp_all add: header le_val_word unat_of_nat)
  have payload: "copyRing ring (tail + of_nat (8 + a)) c = take c (drop a (rec_payload r))" if "a + c \<le> length (rec_payload r)" for a c
    using sub [of "8 + a" c] that l(1) by (simp add: b)
  note entries = record_entries [OF r(1) l(1) payload, unfolded loop_entries_def Let_def]
  have "\<not> available < 8" "\<not> (l < 8 \<or> l > available \<or> l > length ring)" using n l(1) by (auto simp: l_def b_def)
  then show ?thesis
    by (subst drain_loop.simps) (simp only: Let_def hsize type entries if_False l_def [symmetric] b_def [symmetric])
qed

lemma drain_records:
  assumes "length ring = 2 ^ k" "k \<le> 64" "list_all rec_ok rs" "available \<le> length ring"
    and "ring_at ring tail available = concat (map rec_bytes rs)"
  shows "drain_loop ring head tail available out = (out @ concat (map rec_branches rs), tail + of_nat available, 0)"
  using assms(3-5)
proof (induction rs arbitrary: tail available out)
  case Nil
  then have "available = 0" using length_ring_at [of ring tail available] by simp
  then show ?case by (subst drain_loop.simps) simp
next
  case (Cons r rs)
  define n where "n = length (rec_bytes r)"
  have "available = length (concat (map rec_bytes (r # rs)))" using Cons.prems(3) by (metis length_ring_at)
  then have n: "n \<le> available" by (simp add: n_def)
  have split: "ring_at ring tail available = ring_at ring tail n @ ring_at ring (tail + of_nat n) (available - n)"
    using ring_at_add [of ring tail n "available - n"] n by simp
  have first: "ring_at ring tail n = rec_bytes r" and rest: "ring_at ring (tail + of_nat n) (available - n) = concat (map rec_bytes rs)"
    using Cons.prems(3) unfolding split by (auto simp: append_eq_append_conv n_def)
  have "drain_loop ring head tail available out = drain_loop ring head (tail + of_nat n) (available - n) (out @ rec_branches r)"
    using drain_record [OF assms(1,2), of r tail available head out] Cons.prems n first by (simp add: n_def)
  also have "\<dots> = ((out @ rec_branches r) @ concat (map rec_branches rs), (tail + of_nat n) + of_nat (available - n), 0)"
    using Cons.IH [OF _ _ rest] Cons.prems by simp
  finally show ?case using n by (simp add: add.assoc flip: of_nat_add)
qed

lemma drain_loop_end:
  "drain_loop ring head tail available out = (o', t, a) \<Longrightarrow> tail + of_nat available = head \<Longrightarrow> t = head \<or> t + of_nat a = head \<and> a < 8"
proof (induction ring head tail available out rule: drain_loop.induct)
  case (1 ring head tail available out)
  show ?case
  proof (cases "available < 8")
    case True
    with 1 show ?thesis by (auto simp: drain_loop.simps [of ring head tail available out])
  next
    case False
    define hsize where "hsize = le_val (drop 6 (copyRing ring tail 8))"
    show ?thesis
    proof (cases "hsize < 8 \<or> hsize > available \<or> hsize > length ring")
      case True
      with False 1(2) show ?thesis by (subst (asm) drain_loop.simps) (simp add: Let_def hsize_def [symmetric])
    next
      case ok: False
      have "tail + of_nat hsize + of_nat (available - hsize) = head" using 1(3) ok by (simp add: add.assoc flip: of_nat_add)
      with 1(1) [OF False refl refl refl] 1(2) False ok show ?thesis
        by (subst (asm) (2) drain_loop.simps) (simp add: Let_def hsize_def [symmetric])
    qed
  qed
qed

lemma dataRing_power:
  assumes "dataRing ctl m pageSize = Some (off, ring)" "length (map_bytes m) < 2 ^ 64"
  obtains k where "length ring = 2 ^ k" "k \<le> 64"
proof -
  have "has_single_bit (length ring) \<and> length ring < 2 ^ 64"
    using assms by (auto simp: dataRing_def Let_def min_def split: if_splits)
  then obtain k where k: "length ring = 2 ^ k" "(2 :: nat) ^ k < 2 ^ 64" using has_single_bit_iff by auto
  then have "k \<le> 64" using power_strict_increasing_iff [of "2 :: nat" k 64] by linarith
  with k that show thesis by blast
qed

section \<open>Properties\<close>

text \<open>
  C32: branch samples survive the ring. Whatever bytes the ring holds, a call on a well-formed mapping releases
  everything up to the kernel's head and changes nothing else; and when the bytes between tail and head are the
  records the kernel wrote (wrapping around the end of the ring, with counters that may wrap around $2^{64}$),
  the call returns exactly the branches of the samples, in order.
\<close>

theorem drainPerfBranches_exact:
  assumes "dataRing ctl m pageSize = Some (off, ring)" "length (map_bytes m) < 2 ^ 64"
  shows "snd (drainPerfBranches ctl m pageSize) = m\<lparr>control := (control m)\<lparr>data_tail := data_head (control m)\<rparr>\<rparr> \<and>
    (\<forall>rs. list_all rec_ok rs \<and> unat (data_head (control m) - data_tail (control m)) \<le> length ring \<and>
       ring_at ring (data_tail (control m)) (unat (data_head (control m) - data_tail (control m))) = concat (map rec_bytes rs) \<longrightarrow>
       fst (drainPerfBranches ctl m pageSize) = concat (map rec_branches rs))"
proof -
  define head where "head = data_head (control m)"
  define tail where "tail = data_tail (control m)"
  define n where "n = unat (head - tail)"
  have head: "tail + of_nat n = head" by (simp add: n_def)
  obtain k where k: "length ring = 2 ^ k" "k \<le> 64" using dataRing_power [OF assms] by blast
  obtain out t a where d: "drain_loop ring head tail n [] = (out, t, a)" by (cases "drain_loop ring head tail n []") auto
  have "t = head \<or> t + of_nat a = head \<and> a < 8" using drain_loop_end [OF d head] .
  then have "(if a \<noteq> 0 \<and> a < 8 then head else t) = head" by auto
  then have "snd (drainPerfBranches ctl m pageSize) = m\<lparr>control := (control m)\<lparr>data_tail := head\<rparr>\<rparr>"
    using assms(1) d by (simp add: drainPerfBranches_def Let_def head_def [symmetric] tail_def [symmetric] n_def [symmetric])
  moreover have "fst (drainPerfBranches ctl m pageSize) = concat (map rec_branches rs)"
    if "list_all rec_ok rs" "n \<le> length ring" "ring_at ring tail n = concat (map rec_bytes rs)" for rs
    using drain_records [OF k that, of head "[]"] assms(1) that(2)
    by (simp add: drainPerfBranches_def Let_def head_def [symmetric] tail_def [symmetric] n_def [symmetric])
  ultimately show ?thesis unfolding head_def tail_def n_def by blast
qed

text \<open>One sample with a mispredicted branch, stored across the end of a ring of 64 bytes.\<close>

definition sample_record :: perf_record where
  "sample_record = Sample 2 [(0x401000, 0x402000, 1)] []"

definition sample_mapping :: perf_mapping where
  "sample_mapping = \<lparr> control = \<lparr> data_offset = 16, data_size = 64, data_head = 88, data_tail = 48, aux_offset = 0, aux_size = 0,
       aux_head = 0, aux_tail = 0 \<rparr>,
     map_bytes = replicate 16 0 @ drop 16 (rec_bytes sample_record) @ replicate 24 0 @ take 16 (rec_bytes sample_record),
     map_aligned = True \<rparr>"

theorem drainPerfBranches_exact_witness:
  "fst (drainPerfBranches 16 sample_mapping 16) =
     [\<lparr> lbr_from = 0x401000, lbr_to = 0x402000, lbr_mispredicted = True, lbr_predicted = False \<rparr>] \<and>
   data_tail (control (snd (drainPerfBranches 16 sample_mapping 16))) = 88"
proof -
  have "dataRing 16 sample_mapping 16 \<noteq> None" by code_simp
  moreover have "fst (the (dataRing 16 sample_mapping 16)) = 16" by code_simp
  ultimately have d: "dataRing 16 sample_mapping 16 = Some (16, snd (the (dataRing 16 sample_mapping 16)))" by auto
  define ring where "ring = snd (the (dataRing 16 sample_mapping 16))"
  note d = d [folded ring_def]
  have len: "length (map_bytes sample_mapping) < 2 ^ 64" by code_simp
  have c: "data_head (control sample_mapping) = 88" "data_tail (control sample_mapping) = 48" by (simp_all add: sample_mapping_def)
  have "length ring = 64" "ring_at ring 48 40 = rec_bytes sample_record" unfolding ring_def by code_simp+
  moreover have "rec_ok sample_record" by (simp add: sample_record_def)
  moreover have "rec_branches sample_record = [\<lparr> lbr_from = 0x401000, lbr_to = 0x402000, lbr_mispredicted = True, lbr_predicted = False \<rparr>]"
    by (simp add: sample_record_def)
  ultimately show ?thesis using drainPerfBranches_exact [OF d len] c
    by (auto dest!: spec [of _ "[sample_record]"])
qed

end
