(* ===== verification/ScanBuffer.thy ===== *)
theory ScanBuffer
  imports Memory CoreTypes
begin

text \<open>
  The buffer scanners of \<^verbatim>\<open>scanner/memory_scanner.cpp\<close>: a buffer of target bytes is searched for the
  candidates that match, in increasing order of address. An integer type of the scanner is a width and a
  signedness, a value of it is an \<^typ>\<open>int\<close> in its range. The vector paths are modelled with the
  instructions they use (unaligned load, broadcast, lane compare, byte mask), each on the list of bytes of
  a register, and are shown to find what the plain loop finds.
\<close>

unbundle bit_operations_syntax

section \<open>Candidates of a buffer\<close>

text \<open>A call of \<^verbatim>\<open>addResult\<close> or \<^verbatim>\<open>addAllTypeResult\<close> made by a scanner.\<close>

datatype emission =
    AddResult (e_addr: u64) (e_value: "byte list")
  | AddAllTypeResult (e_addr: u64) (e_value: "byte list") (e_mask: byte)

definition window :: "'a list \<Rightarrow> nat \<Rightarrow> nat \<Rightarrow> 'a list" where
  "window buf off n = take n (drop off buf)"

text \<open>
  \<^verbatim>\<open>for (off = from; off < limit; off += stride)\<close>. Every caller has replaced a stride of 0 by 1. Offsets are
  below the size of a buffer in memory, so that their sum with a stride below the limit stays in range.
\<close>

function stride_loop :: "nat \<Rightarrow> nat \<Rightarrow> (nat \<Rightarrow> 'e list) \<Rightarrow> nat \<Rightarrow> 'e list" where
  "stride_loop limit stride body off =
    (if off < limit \<and> 0 < stride then body off @ stride_loop limit stride body (off + stride) else [])"
  by auto

termination
  by (relation "measure (\<lambda>(limit, stride, body, off). limit - off)") auto

declare stride_loop.simps [simp del]

text \<open>What a scan is for: every matching candidate of the buffer on the grid, in order.\<close>

definition grid_offsets :: "nat \<Rightarrow> nat \<Rightarrow> nat \<Rightarrow> nat list" where
  "grid_offsets stride sz n = filter (\<lambda>off. stride dvd off) [0..<n + 1 - sz]"

definition matches_at :: "nat \<Rightarrow> nat \<Rightarrow> (byte list \<Rightarrow> bool) \<Rightarrow> byte list \<Rightarrow> nat list" where
  "matches_at stride sz P buf = filter (\<lambda>off. P (window buf off sz)) (grid_offsets stride sz (length buf))"

definition hits :: "nat \<Rightarrow> nat \<Rightarrow> (byte list \<Rightarrow> bool) \<Rightarrow> byte list \<Rightarrow> u64 \<Rightarrow> emission list" where
  "hits stride sz P buf base = map (\<lambda>off. AddResult (base + of_nat off) (window buf off sz)) (matches_at stride sz P buf)"

lemma length_window [simp]: "off + n \<le> length buf \<Longrightarrow> length (window buf off n) = n"
  by (simp add: window_def)

lemma nth_window: "off + n \<le> length buf \<Longrightarrow> i < n \<Longrightarrow> window buf off n ! i = buf ! (off + i)"
  by (simp add: window_def)

lemma window_window: "i + m \<le> n \<Longrightarrow> window (window buf off n) i m = window buf (off + i) m"
  by (simp add: window_def drop_take min_def add.commute)

lemma dvd_between: "(s :: nat) dvd a \<Longrightarrow> a < b \<Longrightarrow> b < a + s \<Longrightarrow> \<not> s dvd b"
proof
  assume "s dvd a" "a < b" "b < a + s" "s dvd b"
  then have "s dvd b - a" by (simp add: dvd_diff_nat)
  with \<open>a < b\<close> \<open>b < a + s\<close> show False by (auto dest: dvd_imp_le)
qed

lemma stride_loop_eq:
  assumes "0 < stride" "stride dvd off"
  shows "stride_loop limit stride body off = concat (map body (filter (\<lambda>o'. stride dvd o') [off..<limit]))"
  using assms(2)
proof (induction "limit - off" arbitrary: off rule: less_induct)
  case less
  show ?case
  proof (cases "off < limit")
    case True
    let ?P = "\<lambda>o'. stride dvd o'"
    have none: "filter ?P [Suc off..<min (off + stride) limit] = []"
      using dvd_between [OF less.prems] by (auto simp: filter_empty_conv)
    have "[off..<limit] = off # [Suc off..<min (off + stride) limit] @ [min (off + stride) limit..<limit]"
      using True assms(1) upt_add_eq_append [of "Suc off" "min (off + stride) limit" "limit - min (off + stride) limit"]
      by (simp add: upt_conv_Cons)
    then have "filter ?P [off..<limit] = off # filter ?P [min (off + stride) limit..<limit]"
      using none less.prems by (simp only: filter_append filter.simps append_Nil if_True)
    also have "filter ?P [min (off + stride) limit..<limit] = filter ?P [off + stride..<limit]"
      by (simp add: min_def)
    finally show ?thesis
      using less.hyps [of "off + stride"] less.prems True assms(1)
      by (subst stride_loop.simps) simp
  qed (subst stride_loop.simps, simp)
qed

lemma stride_loop_0: "0 < stride \<Longrightarrow>
    stride_loop limit stride body 0 = concat (map body (filter (\<lambda>off. stride dvd off) [0..<limit]))"
  by (simp add: stride_loop_eq)

lemma concat_map_if:
  "concat (map (\<lambda>x. if P x then [f x] else []) xs) = map f (filter P xs)"
  by (induction xs) auto

lemma concat_map_Nil [simp]: "concat (map (\<lambda>x. []) xs) = []"
  by (simp add: concat_eq_Nil_conv)

lemma concat_map_filter: "concat (map (\<lambda>x. if P x then f x else []) xs) = concat (map f (filter P xs))"
  by (induction xs) auto

lemma upt_shift: "[p..<p + n] = map ((+) p) [0..<n]"
proof -
  have "map ((+) p) [0..<n] = map (\<lambda>i. i + p) [0..<n]" by (simp add: add.commute)
  then show ?thesis unfolding map_add_upt [of p n] by (simp add: add.commute)
qed

lemma filter_upt_bounded:
  assumes "\<And>b. Q b \<longleftrightarrow> b < k \<and> R b" "k \<le> n"
  shows "filter Q [0..<n] = filter R [0..<k]"
proof -
  have "[0..<n] = [0..<k] @ [k..<n]" using assms(2) upt_add_eq_append [of 0 k "n - k"] by simp
  moreover have "filter Q [0..<k] = filter R [0..<k]" by (rule filter_cong) (auto simp: assms(1))
  moreover have "filter Q [k..<n] = []" by (auto simp: filter_empty_conv assms(1))
  ultimately show ?thesis by simp
qed

lemma stride_hits:
  assumes "0 < stride" "limit = length buf + 1 - sz"
  shows "stride_loop limit stride
      (\<lambda>off. if P (window buf off sz) then [AddResult (base + of_nat off) (window buf off sz)] else []) 0
    = hits stride sz P buf base"
  using assms by (simp add: stride_loop_0 concat_map_if hits_def matches_at_def grid_offsets_def)

lemma hits_short: "length buf < sz \<Longrightarrow> hits stride sz P buf base = []"
  by (simp add: hits_def matches_at_def grid_offsets_def)

lemma hits_cong:
  assumes "\<And>bs. length bs = sz \<Longrightarrow> P bs \<longleftrightarrow> Q bs"
  shows "hits stride sz P buf base = hits stride sz Q buf base"
  unfolding hits_def matches_at_def grid_offsets_def
  by (intro arg_cong2 [where f = map] refl filter_cong) (auto intro!: assms)

section \<open>Scalars\<close>

datatype int_type = U8 | I16 | I32 | I64 | U32 | U64

fun int_bytes :: "int_type \<Rightarrow> nat" where
  "int_bytes U8 = 1" | "int_bytes I16 = 2" | "int_bytes I32 = 4" | "int_bytes I64 = 8" | "int_bytes U32 = 4" | "int_bytes U64 = 8"

fun int_signed :: "int_type \<Rightarrow> bool" where
  "int_signed U8 = False" | "int_signed I16 = True" | "int_signed I32 = True" | "int_signed I64 = True"
| "int_signed U32 = False" | "int_signed U64 = False"

text \<open>\<^verbatim>\<open>static_cast<T>\<close> of an integer.\<close>

definition int_cast :: "int_type \<Rightarrow> int \<Rightarrow> int" where
  "int_cast T v = (if int_signed T then signed_take_bit (8 * int_bytes T - 1) v else take_bit (8 * int_bytes T) v)"

text \<open>The scanning host is little-endian; \<^verbatim>\<open>memcpy\<close> of a scalar out of a buffer and back.\<close>

abbreviation nativeScanByteOrder :: ByteOrder where "nativeScanByteOrder \<equiv> BO_Little"

definition copy_scalar :: "int_type \<Rightarrow> byte list \<Rightarrow> int" where
  "copy_scalar T bs = int_cast T (int (le_val (take (int_bytes T) bs)))"

definition scalar_bytes :: "int_type \<Rightarrow> int \<Rightarrow> byte list" where
  "scalar_bytes T v = le_bytes (int_bytes T) (word_of_int v :: u64)"

definition swapScanScalar :: "int_type \<Rightarrow> int \<Rightarrow> int" where
  "swapScanScalar T v = copy_scalar T (rev (scalar_bytes T v))"

definition readScanScalar :: "int_type \<Rightarrow> byte list \<Rightarrow> ByteOrder \<Rightarrow> int" where
  "readScanScalar T bs order =
    (let value = copy_scalar T bs
     in if int_bytes T > 1 \<and> order \<noteq> nativeScanByteOrder then swapScanScalar T value else value)"

lemma int_bytes_pos [simp]: "0 < int_bytes T" "int_bytes T \<noteq> 0"
  by (cases T; simp)+

lemma int_cast_cong: "int_cast T a = int_cast T b \<longleftrightarrow> take_bit (8 * int_bytes T) a = take_bit (8 * int_bytes T) b"
proof (cases "int_signed T")
  case True
  then have "8 * int_bytes T = Suc (8 * int_bytes T - 1)" by (cases T) simp_all
  with True signed_take_bit_eq_iff_take_bit_eq [of "8 * int_bytes T - 1" a b] show ?thesis
    by (simp add: int_cast_def)
qed (simp add: int_cast_def)

lemma int_cast_idem [simp]: "int_cast T (int_cast T v) = int_cast T v"
  by (simp add: int_cast_def)

lemma length_scalar_bytes [simp]: "length (scalar_bytes T v) = int_bytes T"
  by (simp add: scalar_bytes_def)

lemma le_val_scalar_bytes: "int (le_val (scalar_bytes T v)) = take_bit (8 * int_bytes T) v"
proof -
  have "(256 :: nat) ^ n = 2 ^ (8 * n)" for n by (simp add: power_mult)
  moreover have "8 * int_bytes T \<le> 64" by (cases T) simp_all
  ultimately show ?thesis
    by (simp add: scalar_bytes_def le_val_le_bytes unsigned_of_int of_nat_take_bit min_def flip: take_bit_eq_mod)
qed

lemma take_bit_le_val: "length bs = n \<Longrightarrow> take_bit (8 * n) (int (le_val bs)) = int (le_val bs)"
proof -
  assume "length bs = n"
  with le_val_bound [of bs] have "le_val bs < 2 ^ (8 * n)" by (simp add: power_mult)
  then have "take_bit (8 * n) (le_val bs) = le_val bs" by (simp add: take_bit_nat_eq_self_iff)
  then show ?thesis by (simp add: take_bit_of_nat)
qed

text \<open>A scalar equals a value exactly when its bytes are the bytes of the value.\<close>

lemma copy_scalar_eq_iff:
  assumes "length bs = int_bytes T"
  shows "copy_scalar T bs = int_cast T v \<longleftrightarrow> bs = scalar_bytes T v"
proof -
  have "copy_scalar T bs = int_cast T v \<longleftrightarrow> int (le_val bs) = int (le_val (scalar_bytes T v))"
    unfolding le_val_scalar_bytes using assms take_bit_le_val [OF assms] by (simp add: copy_scalar_def int_cast_cong)
  then have "copy_scalar T bs = int_cast T v \<longleftrightarrow> le_val bs = le_val (scalar_bytes T v)" by simp
  also have "\<dots> \<longleftrightarrow> bs = scalar_bytes T v"
    using assms le_val_inject [of bs "scalar_bytes T v"] by auto
  finally show ?thesis .
qed

lemma scalar_bytes_copy:
  assumes "length bs = int_bytes T"
  shows "scalar_bytes T (copy_scalar T bs) = bs"
  using copy_scalar_eq_iff [OF assms, of "copy_scalar T bs"] by (simp add: copy_scalar_def)

lemma copy_scalar_bytes [simp]: "copy_scalar T (scalar_bytes T v) = int_cast T v"
  by (simp add: copy_scalar_eq_iff)

lemma int_cast_swap [simp]: "int_cast T (swapScanScalar T v) = swapScanScalar T v"
  by (simp add: swapScanScalar_def copy_scalar_def)

text \<open>Reading in the target's byte order.\<close>

lemma readScanScalar_order:
  assumes "length bs = int_bytes T"
  shows "readScanScalar T bs order = copy_scalar T (if order \<noteq> nativeScanByteOrder then rev bs else bs)"
proof -
  have "rev bs = bs" if "int_bytes T \<le> 1"
    using that assms by (cases bs) (auto simp: le_Suc_eq)
  then show ?thesis by (auto simp: readScanScalar_def swapScanScalar_def scalar_bytes_copy assms Let_def)
qed

lemma swap_needle:
  assumes "length bs = int_bytes T" "int_cast T v = v"
  shows "copy_scalar T bs = swapScanScalar T v \<longleftrightarrow> copy_scalar T (rev bs) = v"
proof -
  have "copy_scalar T bs = swapScanScalar T v \<longleftrightarrow> bs = rev (scalar_bytes T v)"
    using copy_scalar_eq_iff [OF assms(1), of "swapScanScalar T v"]
    by (simp only: int_cast_swap) (simp add: swapScanScalar_def scalar_bytes_copy)
  also have "\<dots> \<longleftrightarrow> copy_scalar T (rev bs) = v"
    using copy_scalar_eq_iff [of "rev bs" T v] assms by (auto simp: rev_swap)
  finally show ?thesis .
qed

section \<open>Comparisons\<close>

fun getCompare :: "ScanCompare \<Rightarrow> 'a::linorder \<Rightarrow> 'a \<Rightarrow> 'a \<Rightarrow> bool" where
  "getCompare SC_Exact c v v2 \<longleftrightarrow> c = v"
| "getCompare SC_Greater c v v2 \<longleftrightarrow> c > v"
| "getCompare SC_Less c v v2 \<longleftrightarrow> c < v"
| "getCompare SC_Between c v v2 \<longleftrightarrow> (if v \<le> v2 then c \<ge> v \<and> c \<le> v2 else c \<ge> v2 \<and> c \<le> v)"
| "getCompare SC_Changed c v v2 \<longleftrightarrow> c \<noteq> v"
| "getCompare SC_Unchanged c v v2 \<longleftrightarrow> c = v"
| "getCompare SC_Increased c v v2 \<longleftrightarrow> c > v"
| "getCompare SC_Decreased c v v2 \<longleftrightarrow> c < v"
| "getCompare SC_SameAsFirst c v v2 \<longleftrightarrow> c = v"
| "getCompare SC_Unknown c v v2 \<longleftrightarrow> True"
| "getCompare SC_IncreasedBy c v v2 \<longleftrightarrow> c = v"
| "getCompare SC_DecreasedBy c v v2 \<longleftrightarrow> c = v"

section \<open>Vector instructions\<close>

datatype SimdMode = Scalar | SSE2 | AVX2

text \<open>
  \<^verbatim>\<open>simdMode\<close> on x86-64: the forced mode of the tests (negative when there is none), the environment
  variable \<^verbatim>\<open>CE_SCAN_SIMD\<close> and whether the processor has AVX2.
\<close>

definition simdMode :: "int \<Rightarrow> string option \<Rightarrow> bool \<Rightarrow> SimdMode" where
  "simdMode forced e avx2 =
    (if forced \<ge> 0 then (if forced = 0 then Scalar else if forced = 1 then SSE2 else AVX2)
     else let detected = (if avx2 then AVX2 else SSE2) in
       case e of
         None \<Rightarrow> detected
       | Some v \<Rightarrow>
           if v = ''off'' \<or> v = ''0'' \<or> v = ''scalar'' then Scalar
           else if v = ''sse2'' then SSE2
           else if v = ''avx2'' then detected
           else detected)"

text \<open>
  A register is the list of its bytes: \<^verbatim>\<open>loadu\<close> of \<open>n\<close> bytes, \<^verbatim>\<open>set1\<close> of a lane, \<^verbatim>\<open>cmpeq\<close> of lanes of
  \<open>L\<close> bytes (all ones where the lanes are equal), and \<^verbatim>\<open>movemask_epi8\<close>, the top bit of each byte.
\<close>

definition vec_loadu :: "nat \<Rightarrow> byte list \<Rightarrow> nat \<Rightarrow> byte list" where
  "vec_loadu n buf off = window buf off n"

definition vec_set1 :: "nat \<Rightarrow> byte list \<Rightarrow> byte list" where
  "vec_set1 W lane = concat (replicate W lane)"

definition vec_cmpeq :: "nat \<Rightarrow> nat \<Rightarrow> byte list \<Rightarrow> byte list \<Rightarrow> byte list" where
  "vec_cmpeq L W a b = concat (map (\<lambda>k. replicate L (if window a (k * L) L = window b (k * L) L then 0xFF else 0)) [0..<W])"

definition vec_movemask :: "byte list \<Rightarrow> 32 word" where
  "vec_movemask v = horner_sum of_bool 2 (map (\<lambda>b. bit b 7) v)"

lemma nth_concat_same:
  assumes "\<forall>xs \<in> set xss. length xs = n" "i < n" "k < length xss"
  shows "concat xss ! (k * n + i) = xss ! k ! i"
  using assms
proof (induction xss arbitrary: k)
  case (Cons xs xss)
  then show ?case by (cases k) (auto simp: nth_append)
qed simp

lemma length_concat_same: "\<forall>xs \<in> set xss. length xs = n \<Longrightarrow> length (concat xss) = length xss * n"
  by (induction xss) auto

lemma window_set1:
  assumes "length lane = L" "k < W"
  shows "window (vec_set1 W lane) (k * L) L = lane"
proof (rule nth_equalityI)
  have len: "length (vec_set1 W lane) = W * L"
    using assms length_concat_same [of "replicate W lane" L] by (simp add: vec_set1_def)
  have "k * L + L \<le> W * L" using assms(2) mult_le_mono1 [of "Suc k" W L] by (simp add: add.commute)
  with len show len': "length (window (vec_set1 W lane) (k * L) L) = length lane" using assms by simp
  fix i assume "i < length (window (vec_set1 W lane) (k * L) L)"
  then have "i < L" by (simp add: len' assms)
  with \<open>k * L + L \<le> W * L\<close> len show "window (vec_set1 W lane) (k * L) L ! i = lane ! i"
    using nth_concat_same [of "replicate W lane" L i k] assms by (simp add: nth_window vec_set1_def)
qed

text \<open>The lowest bit of a lane in the mask says whether the lane of the buffer is the needle.\<close>

lemma movemask_lane:
  assumes "length lane = L" "0 < L" "k < W" "W * L \<le> 32"
  shows "vec_movemask (vec_cmpeq L W v (vec_set1 W lane)) AND push_bit (k * L) 1 \<noteq> 0 \<longleftrightarrow> window v (k * L) L = lane"
proof -
  let ?eq = "map (\<lambda>k. replicate L (if window v (k * L) L = window (vec_set1 W lane) (k * L) L then 0xFF else 0 :: byte)) [0..<W]"
  have len: "length (concat ?eq) = W * L" using length_concat_same [of ?eq L] by auto
  have pos: "k * L < W * L" using assms(2,3) by simp
  have "bit (vec_movemask (concat ?eq)) (k * L) \<longleftrightarrow> bit (concat ?eq ! (k * L)) 7"
    using len pos assms(4) by (simp add: vec_movemask_def bit_horner_sum_bit_word_iff)
  also have "concat ?eq ! (k * L) = (if window v (k * L) L = lane then 0xFF else 0)"
    using nth_concat_same [of ?eq L 0 k] assms window_set1 [OF assms(1,3)] by auto
  finally have "bit (vec_movemask (concat ?eq)) (k * L) \<longleftrightarrow> window v (k * L) L = lane" by (simp split: if_splits)
  moreover have "m AND push_bit i 1 \<noteq> 0 \<longleftrightarrow> bit m i" for m :: "32 word" and i
    by (simp add: push_bit_of_1 and_exp_eq_0_iff_not_bit)
  ultimately show ?thesis by (simp add: vec_cmpeq_def)
qed

section \<open>Exact integer scans\<close>

definition emitAt :: "int_type \<Rightarrow> byte list \<Rightarrow> nat \<Rightarrow> u64 \<Rightarrow> emission" where
  "emitAt T buf off base = AddResult (base + of_nat off) (window buf off (int_bytes T))"

definition emitMaskLanes :: "int_type \<Rightarrow> nat \<Rightarrow> byte list \<Rightarrow> nat \<Rightarrow> 32 word \<Rightarrow> u64 \<Rightarrow> emission list" where
  "emitMaskLanes T W buf firstLane lanes base =
    concat (map (\<lambda>lane. if lanes AND push_bit (lane * int_bytes T) 1 \<noteq> 0
                        then [emitAt T buf ((firstLane + lane) * int_bytes T) base] else []) [0..<W])"

text \<open>The remaining lanes, one at a time.\<close>

definition scalar_lanes :: "int_type \<Rightarrow> byte list \<Rightarrow> nat \<Rightarrow> nat \<Rightarrow> u64 \<Rightarrow> int \<Rightarrow> emission list" where
  "scalar_lanes T buf i nLanes base needle =
    concat (map (\<lambda>i. if copy_scalar T (drop (i * int_bytes T) buf) = needle
                     then [emitAt T buf (i * int_bytes T) base] else []) [i..<nLanes])"

text \<open>
  The loop of \<^verbatim>\<open>scanExactAVX2\<close> and \<^verbatim>\<open>scanExactSSE2\<close>: \<open>W\<close> lanes at a time while a whole register fits,
  then the rest.
\<close>

function vector_lanes :: "int_type \<Rightarrow> nat \<Rightarrow> byte list \<Rightarrow> nat \<Rightarrow> nat \<Rightarrow> u64 \<Rightarrow> int \<Rightarrow> emission list" where
  "vector_lanes T W buf i nLanes base needle =
    (if 0 < W \<and> i + W \<le> nLanes then
       let L = int_bytes T;
           v = vec_loadu (W * L) buf (i * L);
           lanes = vec_movemask (vec_cmpeq L W v (vec_set1 W (scalar_bytes T needle)))
       in (if lanes \<noteq> 0 then emitMaskLanes T W buf i lanes base else []) @
          vector_lanes T W buf (i + W) nLanes base needle
     else scalar_lanes T buf i nLanes base needle)"
  by auto

termination
  by (relation "measure (\<lambda>(T, W, buf, i, nLanes, base, needle). nLanes - i)") auto

declare vector_lanes.simps [simp del]

definition scanExactAVX2 :: "int_type \<Rightarrow> byte list \<Rightarrow> nat \<Rightarrow> u64 \<Rightarrow> int \<Rightarrow> emission list" where
  "scanExactAVX2 T buf nLanes base needle = vector_lanes T (32 div int_bytes T) buf 0 nLanes base needle"

definition scanExactSSE2 :: "int_type \<Rightarrow> byte list \<Rightarrow> nat \<Rightarrow> u64 \<Rightarrow> int \<Rightarrow> emission list" where
  "scanExactSSE2 T buf nLanes base needle = vector_lanes T (16 div int_bytes T) buf 0 nLanes base needle"

definition scanExactInteger :: "SimdMode \<Rightarrow> int_type \<Rightarrow> byte list \<Rightarrow> u64 \<Rightarrow> nat \<Rightarrow> int \<Rightarrow> emission list" where
  "scanExactInteger mode T buf base alignment needle =
    (let sz = int_bytes T in
     if length buf < sz then []
     else let alignment = (if alignment = 0 then 1 else alignment) in
     if alignment = sz then
       let nLanes = (length buf - sz) div sz + 1 in
       if mode = AVX2 then scanExactAVX2 T buf nLanes base needle
       else if mode = SSE2 \<and> (sz = 1 \<or> sz = 2 \<or> sz = 4) then scanExactSSE2 T buf nLanes base needle
       else scalar_lanes T buf 0 nLanes base needle
     else
       stride_loop (length buf - sz + 1) alignment
         (\<lambda>off. if copy_scalar T (drop off buf) = needle then [emitAt T buf off base] else []) 0)"

definition scanRelational :: "int_type \<Rightarrow> byte list \<Rightarrow> u64 \<Rightarrow> nat \<Rightarrow> int \<Rightarrow> int \<Rightarrow> ScanCompare \<Rightarrow> emission list" where
  "scanRelational T buf base alignment v v2 cmp =
    (let sz = int_bytes T in
     if length buf < sz then []
     else let alignment = (if alignment = 0 then 1 else alignment); limit = length buf - sz + 1;
       run = (\<lambda>pred. stride_loop limit alignment
         (\<lambda>off. if pred (copy_scalar T (drop off buf)) then [emitAt T buf off base] else []) 0)
     in case cmp of
          SC_Greater \<Rightarrow> run (\<lambda>c. c > v)
        | SC_Less \<Rightarrow> run (\<lambda>c. c < v)
        | SC_Between \<Rightarrow> run (\<lambda>c. if v \<le> v2 then c \<ge> v \<and> c \<le> v2 else c \<ge> v2 \<and> c \<le> v)
        | SC_Changed \<Rightarrow> run (\<lambda>c. c \<noteq> v)
        | SC_Unchanged \<Rightarrow> run (\<lambda>c. c = v)
        | SC_Increased \<Rightarrow> run (\<lambda>c. c > v)
        | SC_Decreased \<Rightarrow> run (\<lambda>c. c < v)
        | SC_SameAsFirst \<Rightarrow> run (\<lambda>c. c = v)
        | SC_Unknown \<Rightarrow> run (\<lambda>c. True)
        | _ \<Rightarrow> run (\<lambda>c. c = v))"

definition scanIntegerFast :: "SimdMode \<Rightarrow> int_type \<Rightarrow> byte list \<Rightarrow> u64 \<Rightarrow> nat \<Rightarrow> int \<Rightarrow> int \<Rightarrow> ScanCompare \<Rightarrow> emission list" where
  "scanIntegerFast mode T buf base alignment v v2 cmp =
    (if cmp = SC_Exact then scanExactInteger mode T buf base alignment v
     else scanRelational T buf base alignment v v2 cmp)"

definition scanIntegerTarget ::
  "SimdMode \<Rightarrow> int_type \<Rightarrow> byte list \<Rightarrow> u64 \<Rightarrow> nat \<Rightarrow> int \<Rightarrow> int \<Rightarrow> ScanCompare \<Rightarrow> ByteOrder \<Rightarrow> emission list" where
  "scanIntegerTarget mode T buf base alignment v v2 compare order =
    (if int_bytes T = 1 \<or> order = nativeScanByteOrder then scanIntegerFast mode T buf base alignment v v2 compare
     else if compare = SC_Exact then scanExactInteger mode T buf base alignment (swapScanScalar T v)
     else if length buf < int_bytes T then []
     else stride_loop (length buf - int_bytes T + 1) (max 1 alignment)
       (\<lambda>off. if getCompare compare (readScanScalar T (drop off buf) order) v v2
              then [AddResult (base + of_nat off) (window buf off (int_bytes T))] else []) 0)"

subsection \<open>All paths find the same candidates\<close>

lemma copy_scalar_drop: "copy_scalar T (drop off buf) = copy_scalar T (window buf off (int_bytes T))"
  by (simp add: copy_scalar_def window_def)

lemma readScanScalar_drop: "readScanScalar T (drop off buf) order = readScanScalar T (window buf off (int_bytes T)) order"
  by (simp add: readScanScalar_def copy_scalar_drop Let_def)

lemma vector_lanes_scalar:
  assumes "int_cast T needle = needle" "nLanes * int_bytes T \<le> length buf" "W * int_bytes T \<le> 32"
  shows "vector_lanes T W buf i nLanes base needle = scalar_lanes T buf i nLanes base needle"
  using assms(2)
proof (induction "nLanes - i" arbitrary: i rule: less_induct)
  case less
  show ?case
  proof (cases "0 < W \<and> i + W \<le> nLanes")
    case True
    define L where "L = int_bytes T"
    define lanes where "lanes = vec_movemask (vec_cmpeq L W (vec_loadu (W * L) buf (i * L)) (vec_set1 W (scalar_bytes T needle)))"
    have lane: "lanes AND push_bit (k * L) 1 \<noteq> 0 \<longleftrightarrow> copy_scalar T (drop ((i + k) * L) buf) = needle" if "k < W" for k
    proof -
      have in_buf: "(i + k) * L + L \<le> length buf"
        using mult_le_mono1 [of "Suc (i + k)" nLanes L] True that less.prems by (simp add: L_def)
      have "k * L + L \<le> W * L" using mult_le_mono1 [of "Suc k" W L] that by simp
      then have "window (vec_loadu (W * L) buf (i * L)) (k * L) L = window buf ((i + k) * L) L"
        by (simp add: vec_loadu_def window_window add_mult_distrib)
      then show ?thesis
        unfolding lanes_def using movemask_lane [of "scalar_bytes T needle" L k W] that assms(3) in_buf
          copy_scalar_eq_iff [of "window buf ((i + k) * L) L" T needle] assms(1)
        by (simp add: L_def copy_scalar_drop)
    qed
    have "emitMaskLanes T W buf i lanes base = scalar_lanes T buf i (i + W) base needle"
    proof -
      have "[i..<i + W] = map (\<lambda>k. i + k) [0..<W]" by (simp add: map_add_upt add.commute)
      then show ?thesis
        unfolding emitMaskLanes_def scalar_lanes_def using lane
        by (auto simp: L_def comp_def intro!: arg_cong [where f = concat])
    qed
    moreover have "scalar_lanes T buf i (i + W) base needle = []" if "lanes = 0"
      using that calculation by (simp add: emitMaskLanes_def)
    ultimately have "(if lanes \<noteq> 0 then emitMaskLanes T W buf i lanes base else []) = scalar_lanes T buf i (i + W) base needle"
      by auto
    moreover have "scalar_lanes T buf i nLanes base needle =
        scalar_lanes T buf i (i + W) base needle @ scalar_lanes T buf (i + W) nLanes base needle"
      unfolding scalar_lanes_def using True upt_add_eq_append [of i "i + W" "nLanes - (i + W)"] by simp
    moreover have "vector_lanes T W buf i nLanes base needle =
        (if lanes \<noteq> 0 then emitMaskLanes T W buf i lanes base else []) @ vector_lanes T W buf (i + W) nLanes base needle"
      using True by (subst vector_lanes.simps) (simp only: Let_def lanes_def L_def if_True simp_thms)
    moreover have "vector_lanes T W buf (i + W) nLanes base needle = scalar_lanes T buf (i + W) nLanes base needle"
      using True less.hyps [of "i + W"] less.prems by linarith
    ultimately show ?thesis by simp
  next
    case False
    then show ?thesis by (subst vector_lanes.simps) (simp only: if_False)
  qed
qed

lemma lanes_offsets:
  assumes "0 < sz" "sz \<le> n"
  shows "map (\<lambda>i. i * sz) [0..<(n - sz) div sz + 1] = filter (\<lambda>off. sz dvd off) [0..<n - sz + 1]"
proof (rule sorted_distinct_set_unique)
  define m where "m = (n - sz) div sz + 1"
  show "sorted (map (\<lambda>i. i * sz) [0..<(n - sz) div sz + 1])"
    unfolding m_def [symmetric] by (intro sorted_map [THEN iffD2] sorted_wrt_mono_rel [OF _ sorted_upt]) simp
  show "distinct (map (\<lambda>i. i * sz) [0..<(n - sz) div sz + 1])"
    unfolding m_def [symmetric] using assms by (simp add: distinct_map inj_on_def)
  have "i < m \<longleftrightarrow> i * sz < n - sz + 1" for i
    using assms(1) by (simp add: m_def less_Suc_eq_le less_eq_div_iff_mult_less_eq)
  then have "{..<m} = {i. i * sz < n - sz + 1}" by auto
  then have "(\<lambda>i. i * sz) ` {..<m} = {off. off < n - sz + 1 \<and> sz dvd off}" by (auto simp: dvd_def mult.commute)
  then show "set (map (\<lambda>i. i * sz) [0..<(n - sz) div sz + 1]) = set (filter (\<lambda>off. sz dvd off) [0..<n - sz + 1])"
    unfolding m_def [symmetric] by (simp only: set_map set_filter set_upt atLeast0LessThan lessThan_iff)
qed (simp_all add: sorted_wrt_filter del: upt_Suc)

lemma scalar_lanes_hits:
  assumes "int_bytes T \<le> length buf"
  shows "scalar_lanes T buf 0 ((length buf - int_bytes T) div int_bytes T + 1) base needle =
    hits (int_bytes T) (int_bytes T) (\<lambda>bs. copy_scalar T bs = needle) buf base"
proof -
  let ?sz = "int_bytes T"
  let ?e = "\<lambda>off. AddResult (base + of_nat off) (window buf off ?sz)"
  let ?P = "\<lambda>off. copy_scalar T (window buf off ?sz) = needle"
  have "scalar_lanes T buf 0 ((length buf - ?sz) div ?sz + 1) base needle =
      concat (map (\<lambda>off. if ?P off then [?e off] else []) (map (\<lambda>i. i * ?sz) [0..<(length buf - ?sz) div ?sz + 1]))"
    unfolding emitAt_def scalar_lanes_def by (simp add: copy_scalar_drop comp_def del: upt_Suc)
  also have "\<dots> = map ?e (filter ?P (filter (\<lambda>off. ?sz dvd off) [0..<length buf - ?sz + 1]))"
    unfolding lanes_offsets [OF int_bytes_pos(1) assms] concat_map_if ..
  finally show ?thesis using assms by (simp add: hits_def matches_at_def grid_offsets_def Suc_diff_le)
qed

lemma scanExactInteger_hits:
  assumes "int_cast T needle = needle"
  shows "scanExactInteger mode T buf base al needle = hits (max 1 al) (int_bytes T) (\<lambda>bs. copy_scalar T bs = needle) buf base"
proof (cases "length buf < int_bytes T")
  case True
  then show ?thesis by (simp add: scanExactInteger_def hits_short)
next
  case False
  define n where "n = (length buf - int_bytes T) div int_bytes T + 1"
  have "(length buf - int_bytes T) div int_bytes T * int_bytes T \<le> length buf - int_bytes T" by (rule div_times_less_eq_dividend)
  with False have "n * int_bytes T \<le> length buf" unfolding n_def add_mult_distrib by linarith
  note same = vector_lanes_scalar [OF assms this, where i = 0 and base = base]
  have widths: "16 div int_bytes T * int_bytes T \<le> 32" "32 div int_bytes T * int_bytes T \<le> 32" by (cases T; simp)+
  have al: "(if al = 0 then 1 else al) = max 1 al" by simp
  show ?thesis
  proof (cases "max 1 al = int_bytes T")
    case True
    with False scalar_lanes_hits [of T buf base needle] show ?thesis
      unfolding scanExactInteger_def Let_def al n_def [symmetric]
      by (simp add: scanExactAVX2_def scanExactSSE2_def same widths)
  next
    case False
    with \<open>\<not> length buf < int_bytes T\<close> show ?thesis
      unfolding scanExactInteger_def Let_def al
      using stride_hits [of "max 1 al" "length buf - int_bytes T + 1" buf "int_bytes T" "\<lambda>bs. copy_scalar T bs = needle" base]
      unfolding emitAt_def by (simp add: copy_scalar_drop Suc_diff_le)
  qed
qed

lemma scanRelational_hits:
  assumes "cmp \<noteq> SC_Exact"
  shows "scanRelational T buf base al v v2 cmp = hits (max 1 al) (int_bytes T) (\<lambda>bs. getCompare cmp (copy_scalar T bs) v v2) buf base"
proof (cases "length buf < int_bytes T")
  case False
  have al: "(if al = 0 then 1 else al) = max 1 al" by simp
  have run: "stride_loop (length buf - int_bytes T + 1) (max 1 al)
        (\<lambda>off. if pred (copy_scalar T (drop off buf)) then [emitAt T buf off base] else []) 0 =
      hits (max 1 al) (int_bytes T) (\<lambda>bs. pred (copy_scalar T bs)) buf base" for pred
    using stride_hits [of "max 1 al" "length buf - int_bytes T + 1" buf "int_bytes T" "\<lambda>bs. pred (copy_scalar T bs)" base] False
    unfolding emitAt_def by (simp add: copy_scalar_drop Suc_diff_le)
  have "scanRelational T buf base al v v2 cmp = stride_loop (length buf - int_bytes T + 1) (max 1 al)
      (\<lambda>off. if getCompare cmp (copy_scalar T (drop off buf)) v v2 then [emitAt T buf off base] else []) 0"
    using False assms unfolding scanRelational_def Let_def al by (cases cmp) simp_all
  with run [of "\<lambda>c. getCompare cmp c v v2"] show ?thesis by simp
qed (simp add: scanRelational_def hits_short)

text \<open>
  The scan of a buffer for an integer: the candidates whose value, read in the target's byte order, compares
  as asked, whatever the mode, the stride and the order.
\<close>

lemma scanIntegerTarget_hits:
  assumes "int_cast T v = v"
  shows "scanIntegerTarget mode T buf base al v v2 cmp order =
    hits (max 1 al) (int_bytes T) (\<lambda>bs. getCompare cmp (readScanScalar T bs order) v v2) buf base"
proof (cases "int_bytes T = 1 \<or> order = nativeScanByteOrder")
  case True
  then have "readScanScalar T bs order = copy_scalar T bs" for bs by (auto simp: readScanScalar_def Let_def)
  with True assms show ?thesis
    by (simp add: scanIntegerTarget_def scanIntegerFast_def scanExactInteger_hits scanRelational_hits)
next
  case swapped: False
  show ?thesis
  proof (cases "cmp = SC_Exact")
    case True
    have "hits (max 1 al) (int_bytes T) (\<lambda>bs. copy_scalar T bs = swapScanScalar T v) buf base =
        hits (max 1 al) (int_bytes T) (\<lambda>bs. getCompare cmp (readScanScalar T bs order) v v2) buf base"
      by (rule hits_cong) (use swapped True assms in \<open>simp add: swap_needle readScanScalar_order\<close>)
    with True swapped show ?thesis by (simp add: scanIntegerTarget_def scanExactInteger_hits)
  next
    case False
    with swapped show ?thesis
      using stride_hits [of "max 1 al" "length buf - int_bytes T + 1" buf "int_bytes T"
          "\<lambda>bs. getCompare cmp (readScanScalar T bs order) v v2" base]
      by (cases "length buf < int_bytes T")
        (simp_all add: scanIntegerTarget_def hits_short readScanScalar_drop Suc_diff_le)
  qed
qed

section \<open>Byte patterns\<close>

subsection \<open>Searching for one byte\<close>

definition ctz :: "32 word \<Rightarrow> nat" where
  "ctz m = length (takeWhile (\<lambda>i. \<not> bit m i) [0..<32])"

text \<open>The bits of a mask from the lowest one, each cleared by \<^verbatim>\<open>m &= m - 1\<close>.\<close>

lemma clear_lowest_less: "m \<noteq> 0 \<Longrightarrow> unat (m AND (m - 1)) < unat (m :: 32 word)"
proof -
  assume "m \<noteq> 0"
  then have "m - 1 < m" by (simp add: word_less_nat_alt measure_unat)
  moreover have "m AND (m - 1) \<le> m - 1" by (rule word_and_le1)
  ultimately show ?thesis by (simp add: word_less_nat_alt word_le_nat_alt)
qed

function anchor_bits :: "(nat \<Rightarrow> 'e list) \<Rightarrow> nat \<Rightarrow> 32 word \<Rightarrow> 'e list" where
  "anchor_bits verify p m = (if m = 0 then [] else verify (p + ctz m) @ anchor_bits verify p (m AND (m - 1)))"
  by auto

termination
  by (relation "measure (\<lambda>(verify, p, m). unat m)") (auto intro: clear_lowest_less)

declare anchor_bits.simps [simp del]

function anchor_vector :: "byte list \<Rightarrow> nat \<Rightarrow> nat \<Rightarrow> byte \<Rightarrow> (nat \<Rightarrow> 'e list) \<Rightarrow> 'e list \<times> nat" where
  "anchor_vector buf p endPos anchor verify =
    (if p + 16 \<le> endPos then
       let m = vec_movemask (vec_cmpeq 1 16 (vec_loadu 16 buf p) (vec_set1 16 [anchor]));
           (rest, q) = anchor_vector buf (p + 16) endPos anchor verify
       in (anchor_bits verify p m @ rest, q)
     else ([], p))"
  by auto

termination
  by (relation "measure (\<lambda>(buf, p, endPos, anchor, verify). endPos - p)") auto

declare anchor_vector.simps [simp del]

definition anchorScan :: "SimdMode \<Rightarrow> byte list \<Rightarrow> nat \<Rightarrow> nat \<Rightarrow> byte \<Rightarrow> (nat \<Rightarrow> 'e list) \<Rightarrow> 'e list" where
  "anchorScan mode buf startPos endPos anchor verify =
    (let (found, p) = (if mode \<noteq> Scalar then anchor_vector buf startPos endPos anchor verify else ([], startPos))
     in found @ concat (map (\<lambda>p. if buf ! p = anchor then verify p else []) [p..<endPos]))"

lemma ctz_least:
  assumes "m \<noteq> 0"
  shows "ctz m < 32" "bit m (ctz m)" "i < ctz m \<Longrightarrow> \<not> bit m i"
proof -
  from assms obtain j where j: "bit m j" by (auto simp: bit_eq_iff)
  then have "j < 32" using bit_imp_le_length [of m j] by simp
  with j have some: "\<exists>i \<in> set [0..<32]. \<not> \<not> bit m i" by auto
  then have "length (takeWhile (\<lambda>i. \<not> bit m i) [0..<32]) \<noteq> length [0..<32]"
    by (metis (mono_tags, lifting) takeWhile_eq_take take_all_iff le_refl set_takeWhileD)
  then show lt: "ctz m < 32" using length_takeWhile_le [of "\<lambda>i. \<not> bit m i" "[0..<32]"] by (simp add: ctz_def)
  then show "bit m (ctz m)" using nth_length_takeWhile [of "\<lambda>i. \<not> bit m i" "[0..<32]"] by (simp add: ctz_def)
  show "\<not> bit m i" if "i < ctz m"
    using that lt takeWhile_nth [of i "\<lambda>i. \<not> bit m i" "[0..<32]"]
      set_takeWhileD [of i "\<lambda>i. \<not> bit m i" "[0..<32]"] nth_mem [of i "takeWhile (\<lambda>i. \<not> bit m i) [0..<32]"]
    by (simp add: ctz_def)
qed

lemma clear_lowest_bit:
  assumes "m \<noteq> 0"
  shows "bit (m AND (m - 1)) i \<longleftrightarrow> bit m i \<and> i \<noteq> ctz m"
proof -
  note ctz = ctz_least [OF assms]
  let ?k = "ctz m"
  define q :: "32 word" where "q = push_bit (Suc ?k) (drop_bit (Suc ?k) m)"
  have q: "bit q j \<longleftrightarrow> ?k < j \<and> bit m j" for j
    using bit_imp_le_length [of m j] by (auto simp: q_def bit_push_bit_iff bit_drop_bit_eq not_less Suc_le_eq simp del: push_bit_Suc drop_bit_Suc)
  have "m = q OR 2 ^ ?k"
    by (rule bit_eqI) (use ctz in \<open>auto simp: q bit_or_iff bit_exp_iff linorder_neq_iff\<close>)
  moreover have "q AND 2 ^ ?k = 0" by (rule bit_eqI) (auto simp: q bit_and_iff bit_exp_iff)
  ultimately have m: "m = q + 2 ^ ?k" by (simp add: disjunctive_add_eq_or)
  have "q AND mask ?k = 0" by (rule bit_eqI) (auto simp: q bit_and_iff bit_mask_iff)
  then have "q + mask ?k = q OR mask ?k" by (simp add: disjunctive_add_eq_or)
  then have pred: "m - 1 = q OR mask ?k" by (subst m) (simp add: mask_eq_exp_minus_1 add_diff_eq)
  show ?thesis
    unfolding pred using ctz by (auto simp: bit_and_iff bit_or_iff bit_mask_iff q linorder_neq_iff)
qed

lemma anchor_bits_eq: "anchor_bits verify p m = concat (map (\<lambda>b. verify (p + b)) (filter (bit m) [0..<32]))"
proof (induction verify p m rule: anchor_bits.induct)
  case (1 verify p m)
  show ?case
  proof (cases "m = 0")
    case True
    then show ?thesis by (subst anchor_bits.simps) (simp add: filter_False)
  next
    case False
    note ctz = ctz_least [OF False]
    have split: "[0..<32] = [0..<ctz m] @ ctz m # [Suc (ctz m)..<32]"
      using ctz(1) upt_add_eq_append [of 0 "ctz m" "32 - ctz m"] by (simp add: upt_conv_Cons)
    have low: "filter P [0..<ctz m] = []" if "\<And>i. P i \<Longrightarrow> bit m i" for P
      using that ctz(3) by (force simp: filter_empty_conv)
    define m' where "m' = m AND (m - 1)"
    have m': "bit m' i \<longleftrightarrow> bit m i \<and> i \<noteq> ctz m" for i unfolding m'_def by (rule clear_lowest_bit [OF False])
    have "filter (bit m') [Suc (ctz m)..<32] = filter (bit m) [Suc (ctz m)..<32]" by (rule filter_cong) (auto simp: m')
    then have "filter (bit m') [0..<32] = filter (bit m) [Suc (ctz m)..<32]"
      unfolding split using low [of "bit m'"] m' by simp
    moreover have "filter (bit m) [0..<32] = ctz m # filter (bit m) [Suc (ctz m)..<32]"
      unfolding split using low [of "bit m"] ctz(2) by simp
    ultimately show ?thesis using 1 False by (subst anchor_bits.simps) (simp only: m'_def if_False list.map concat.simps simp_thms)
  qed
qed

lemma anchor_mask:
  assumes "p + 16 \<le> length buf"
  shows "bit (vec_movemask (vec_cmpeq 1 16 (vec_loadu 16 buf p) (vec_set1 16 [anchor]))) b \<longleftrightarrow> b < 16 \<and> buf ! (p + b) = anchor"
    (is "bit ?m b \<longleftrightarrow> _")
proof (cases "b < 16")
  case True
  have "window (vec_loadu 16 buf p) b 1 = [buf ! (p + b)]"
    using assms True by (simp add: vec_loadu_def window_window) (simp add: window_def take_Suc hd_drop_conv_nth)
  with True show ?thesis
    using movemask_lane [of "[anchor]" 1 b 16 "vec_loadu 16 buf p"] by (simp add: push_bit_of_1 and_exp_eq_0_iff_not_bit)
next
  case False
  have "length (vec_cmpeq 1 16 v w) = 16" for v w by (simp add: vec_cmpeq_def length_concat comp_def)
  with False show ?thesis by (simp add: vec_movemask_def bit_horner_sum_bit_word_iff)
qed

lemma anchor_vector_eq:
  assumes "endPos \<le> length buf" "p \<le> endPos"
  shows "fst (anchor_vector buf p endPos anchor verify) @
      concat (map (\<lambda>p. if buf ! p = anchor then verify p else []) [snd (anchor_vector buf p endPos anchor verify)..<endPos])
    = concat (map verify (filter (\<lambda>p. buf ! p = anchor) [p..<endPos]))"
  using assms(2)
proof (induction "endPos - p" arbitrary: p rule: less_induct)
  case less
  let ?P = "\<lambda>p. buf ! p = anchor"
  show ?case
  proof (cases "p + 16 \<le> endPos")
    case True
    let ?m = "vec_movemask (vec_cmpeq 1 16 (vec_loadu 16 buf p) (vec_set1 16 [anchor]))"
    have "filter (bit ?m) [0..<32] = filter (\<lambda>b. ?P (p + b)) [0..<16]"
      by (rule filter_upt_bounded) (use anchor_mask [of p buf anchor] True assms(1) in simp_all)
    then have "anchor_bits verify p ?m = concat (map verify (filter ?P [p..<p + 16]))"
      unfolding anchor_bits_eq upt_shift [of p 16] filter_map map_map comp_def by (simp only:)
    moreover have "[p..<endPos] = [p..<p + 16] @ [p + 16..<endPos]"
      using True upt_add_eq_append [of p "p + 16" "endPos - (p + 16)"] by simp
    ultimately show ?thesis
      using less.hyps [of "p + 16"] True
      by (subst (1 2) anchor_vector.simps) (simp add: Let_def split_beta)
  next
    case False
    then show ?thesis
      by (subst (1 2) anchor_vector.simps) (simp add: concat_map_filter)
  qed
qed

lemma anchorScan_eq:
  assumes "endPos \<le> length buf" "startPos \<le> endPos"
  shows "anchorScan mode buf startPos endPos anchor verify = concat (map verify (filter (\<lambda>p. buf ! p = anchor) [startPos..<endPos]))"
  using anchor_vector_eq [OF assms, of anchor verify]
  by (auto simp: anchorScan_def split_beta concat_map_filter)

subsection \<open>Text\<close>

definition lower_byte :: "byte \<Rightarrow> byte" where
  "lower_byte c = (if c \<ge> 0x41 \<and> c \<le> 0x5A then c + 0x20 else c)"

text \<open>One UTF-16 code unit after the other; only whole ASCII units are folded.\<close>

fun unicode_units_match :: "ByteOrder \<Rightarrow> byte list \<Rightarrow> byte list \<Rightarrow> bool" where
  "unicode_units_match order (v0 # v1 # vs) (n0 # n1 # ns) =
    (let (vl, vh) = (if order = BO_Big then (v1, v0) else (v0, v1));
         (nl, nh) = (if order = BO_Big then (n1, n0) else (n0, n1))
     in if vh \<noteq> nh then False
        else if vh = 0 \<and> vl < 128 \<and> nl < 128 then lower_byte vl = lower_byte nl \<and> unicode_units_match order vs ns
        else vl = nl \<and> unicode_units_match order vs ns)"
| "unicode_units_match order vs ns = True"

text \<open>The first \<open>n\<close> bytes of the value against those of the needle.\<close>

definition stringBytesMatch :: "byte list \<Rightarrow> byte list \<Rightarrow> nat \<Rightarrow> bool \<Rightarrow> bool \<Rightarrow> ByteOrder \<Rightarrow> bool" where
  "stringBytesMatch value needle n caseSensitive unicode order =
    (if caseSensitive then take n value = take n needle
     else if unicode then
       (if n mod 2 \<noteq> 0 then False else unicode_units_match order (take n value) (take n needle))
     else map lower_byte (take n value) = map lower_byte (take n needle))"

definition scanBufferString :: "SimdMode \<Rightarrow> byte list \<Rightarrow> u64 \<Rightarrow> byte list \<Rightarrow> bool \<Rightarrow> emission list" where
  "scanBufferString mode buf baseAddr needle caseInsensitive =
    (if needle = [] \<or> length buf < length needle then []
     else let nLen = length needle; limit = length buf - nLen + 1 in
       if \<not> caseInsensitive then
         anchorScan mode buf 0 limit (needle ! 0)
           (\<lambda>off. if window buf off nLen = needle then [AddResult (baseAddr + of_nat off) (window buf off nLen)] else [])
       else stride_loop limit 1
         (\<lambda>off. if stringBytesMatch (drop off buf) needle nLen False False BO_Little
                then [AddResult (baseAddr + of_nat off) (window buf off nLen)] else []) 0)"

text \<open>\<open>n\<close> is the needle \<^verbatim>\<open>utf16Bytes\<close> gives.\<close>

definition scanBufferUnicode :: "byte list \<Rightarrow> u64 \<Rightarrow> byte list \<Rightarrow> bool \<Rightarrow> ByteOrder \<Rightarrow> emission list" where
  "scanBufferUnicode buf baseAddr n caseInsensitive order =
    (let nBytes = length n in
     if nBytes = 0 \<or> length buf < nBytes then []
     else stride_loop (length buf - nBytes + 1) 2
       (\<lambda>off. if stringBytesMatch (drop off buf) n nBytes (\<not> caseInsensitive) True order
              then [AddResult (baseAddr + of_nat off) (window buf off nBytes)] else []) 0)"

subsection \<open>Masked bytes\<close>

definition masked_match :: "byte list \<Rightarrow> byte list \<Rightarrow> byte list \<Rightarrow> bool" where
  "masked_match value pattern mask' = list_all (\<lambda>(v, p, m). v AND m = p AND m) (zip value (zip pattern mask'))"

text \<open>The position of the first byte that must match in full, the length of the pattern when there is none.\<close>

definition anchor_index :: "byte list \<Rightarrow> nat" where
  "anchor_index mask' = length (takeWhile (\<lambda>m. m \<noteq> 0xFF) mask')"

definition scanBufferAOB :: "SimdMode \<Rightarrow> byte list \<Rightarrow> u64 \<Rightarrow> byte list \<Rightarrow> byte list \<Rightarrow> emission list" where
  "scanBufferAOB mode buf baseAddr pattern mask' =
    (if pattern = [] \<or> length mask' \<noteq> length pattern \<or> length buf < length pattern then []
     else let pLen = length pattern; limit = length buf - pLen + 1;
         verifyAt = (\<lambda>off. if masked_match (window buf off pLen) pattern mask'
                           then [AddResult (baseAddr + of_nat off) (window buf off pLen)] else []);
         anchorIdx = anchor_index mask'
       in if anchorIdx = pLen then stride_loop limit 1 verifyAt 0
          else anchorScan mode buf anchorIdx (limit + anchorIdx) (pattern ! anchorIdx) (\<lambda>p. verifyAt (p - anchorIdx)))"

definition scanBufferBinary :: "byte list \<Rightarrow> u64 \<Rightarrow> byte list \<Rightarrow> byte list \<Rightarrow> nat \<Rightarrow> emission list" where
  "scanBufferBinary buf baseAddr pattern mask' alignment =
    (if pattern = [] \<or> length mask' \<noteq> length pattern \<or> length buf < length pattern then []
     else let alignment = (if alignment = 0 then 1 else alignment); pLen = length pattern; limit = length buf - pLen + 1
       in stride_loop limit alignment
         (\<lambda>off. if masked_match (window buf off pLen) pattern mask'
                then [AddResult (baseAddr + of_nat off) (window buf off pLen)] else []) 0)"

definition scanBufferUnknown :: "byte list \<Rightarrow> u64 \<Rightarrow> nat \<Rightarrow> nat \<Rightarrow> emission list" where
  "scanBufferUnknown buf baseAddr alignment valueSize =
    (if valueSize = 0 \<or> length buf < valueSize then []
     else let alignment = (if alignment = 0 then 1 else alignment); limit = length buf - valueSize + 1
       in stride_loop limit alignment (\<lambda>off. [AddResult (baseAddr + of_nat off) (window buf off valueSize)]) 0)"

subsection \<open>The pattern scanners find every match\<close>

lemma grid_hits:
  assumes "sz \<le> length buf" "alignment = max 1 al"
  shows "stride_loop (length buf - sz + 1) alignment
      (\<lambda>off. if P (window buf off sz) then [AddResult (base + of_nat off) (window buf off sz)] else []) 0
    = hits (max 1 al) sz P buf base"
  using stride_hits [of "max 1 al" "length buf - sz + 1" buf sz P base] assms by (simp add: Suc_diff_le)

text \<open>An anchor inside the needle only skips positions where the needle cannot be.\<close>

lemma anchored_hits:
  assumes "0 < sz" "sz \<le> length buf" "i < sz" and P: "\<And>bs. length bs = sz \<Longrightarrow> P bs \<Longrightarrow> bs ! i = anchor"
  shows "anchorScan mode buf i (length buf - sz + 1 + i) anchor
      (\<lambda>p. if P (window buf (p - i) sz) then [AddResult (base + of_nat (p - i)) (window buf (p - i) sz)] else [])
    = hits 1 sz P buf base"
proof -
  let ?limit = "length buf - sz + 1"
  let ?e = "\<lambda>off. AddResult (base + of_nat off) (window buf off sz)"
  let ?v = "\<lambda>off. if P (window buf off sz) then [?e off] else []"
  have "anchorScan mode buf i (?limit + i) anchor (\<lambda>p. ?v (p - i)) =
      concat (map (\<lambda>p. ?v (p - i)) (filter (\<lambda>p. buf ! p = anchor) (map ((+) i) [0..<?limit])))"
    unfolding upt_shift [symmetric] add.commute [of ?limit i]
    by (rule anchorScan_eq) (use assms in simp_all)
  also have "\<dots> = concat (map ?v (filter (\<lambda>off. buf ! (i + off) = anchor) [0..<?limit]))"
    by (simp only: filter_map map_map comp_def add_diff_cancel_left')
  also have "\<dots> = map ?e (filter (\<lambda>off. P (window buf off sz)) (filter (\<lambda>off. buf ! (i + off) = anchor) [0..<?limit]))"
    by (rule concat_map_if)
  also have "filter (\<lambda>off. P (window buf off sz)) (filter (\<lambda>off. buf ! (i + off) = anchor) [0..<?limit]) =
      filter (\<lambda>off. P (window buf off sz)) [0..<?limit]"
    unfolding filter_filter
  proof (rule filter_cong [OF refl])
    fix off assume "off \<in> set [0..<?limit]"
    then have "off + sz \<le> length buf" using assms(2) by auto
    with assms(3) P [of "window buf off sz"] show "(buf ! (i + off) = anchor \<and> P (window buf off sz)) = P (window buf off sz)"
      by (auto simp: nth_window add.commute)
  qed
  finally show ?thesis using assms(2) by (simp add: hits_def matches_at_def grid_offsets_def Suc_diff_le)
qed

lemma stringBytesMatch_drop:
  "stringBytesMatch (drop off buf) needle n cs u order = stringBytesMatch (window buf off n) needle n cs u order"
  by (simp add: stringBytesMatch_def window_def)

lemma scanBufferString_hits:
  assumes "needle \<noteq> []"
  shows "scanBufferString mode buf base needle ci =
    hits 1 (length needle) (\<lambda>bs. stringBytesMatch bs needle (length needle) (\<not> ci) False BO_Little) buf base"
proof (cases "length buf < length needle")
  case False
  have "hits 1 (length needle) (\<lambda>bs. bs = needle) buf base =
      hits 1 (length needle) (\<lambda>bs. stringBytesMatch bs needle (length needle) True False BO_Little) buf base"
    by (rule hits_cong) (simp add: stringBytesMatch_def)
  moreover have "anchorScan mode buf 0 (length buf - length needle + 1) (needle ! 0)
      (\<lambda>p. if window buf p (length needle) = needle then [AddResult (base + of_nat p) (window buf p (length needle))] else [])
    = hits 1 (length needle) (\<lambda>bs. bs = needle) buf base"
    by (rule anchored_hits [where i = 0, unfolded diff_zero add_0_right]) (use assms False in auto)
  ultimately show ?thesis
    using assms False grid_hits [of "length needle" buf 1 0 "\<lambda>bs. stringBytesMatch bs needle (length needle) False False BO_Little" base]
    by (cases ci) (simp_all add: scanBufferString_def stringBytesMatch_drop Let_def)
qed (use assms in \<open>simp add: scanBufferString_def hits_short\<close>)

lemma scanBufferUnicode_hits:
  assumes "n \<noteq> []"
  shows "scanBufferUnicode buf base n ci order =
    hits 2 (length n) (\<lambda>bs. stringBytesMatch bs n (length n) (\<not> ci) True order) buf base"
  using assms grid_hits [of "length n" buf 2 2 "\<lambda>bs. stringBytesMatch bs n (length n) (\<not> ci) True order" base]
  by (cases "length buf < length n") (simp_all add: scanBufferUnicode_def hits_short stringBytesMatch_drop Let_def numeral_2_eq_2)

lemma anchor_index_less: "anchor_index mask' \<noteq> length mask' \<Longrightarrow> anchor_index mask' < length mask' \<and> mask' ! anchor_index mask' = 0xFF"
  using length_takeWhile_le [of "\<lambda>m. m \<noteq> 0xFF" mask'] nth_length_takeWhile [of "\<lambda>m. m \<noteq> 0xFF" mask']
  by (auto simp: anchor_index_def)

lemma masked_match_full:
  assumes "masked_match value pattern mask'" "i < length value" "i < length pattern" "i < length mask'" "mask' ! i = 0xFF"
  shows "value ! i = pattern ! i"
proof -
  have "(0xFF :: byte) = - 1" by simp
  with assms show ?thesis by (auto simp: masked_match_def list_all_length)
qed

lemma scanBufferAOB_hits:
  assumes "pattern \<noteq> []" "length mask' = length pattern"
  shows "scanBufferAOB mode buf base pattern mask' = hits 1 (length pattern) (\<lambda>bs. masked_match bs pattern mask') buf base"
proof (cases "length buf < length pattern")
  case False
  show ?thesis
  proof (cases "anchor_index mask' = length mask'")
    case True
    with False assms show ?thesis
      using grid_hits [of "length pattern" buf 1 0 "\<lambda>bs. masked_match bs pattern mask'" base]
      by (simp add: scanBufferAOB_def)
  next
    case other: False
    note i = anchor_index_less [OF other]
    have "anchorScan mode buf (anchor_index mask') (length buf - length pattern + 1 + anchor_index mask') (pattern ! anchor_index mask')
        (\<lambda>p. if masked_match (window buf (p - anchor_index mask') (length pattern)) pattern mask'
             then [AddResult (base + of_nat (p - anchor_index mask')) (window buf (p - anchor_index mask') (length pattern))] else [])
      = hits 1 (length pattern) (\<lambda>bs. masked_match bs pattern mask') buf base"
      by (rule anchored_hits) (use assms False i masked_match_full [of _ pattern mask' "anchor_index mask'"] in auto)
    with False assms other show ?thesis by (simp add: scanBufferAOB_def Let_def)
  qed
qed (use assms in \<open>simp add: scanBufferAOB_def hits_short\<close>)

lemma scanBufferBinary_hits:
  assumes "pattern \<noteq> []" "length mask' = length pattern"
  shows "scanBufferBinary buf base pattern mask' al = hits (max 1 al) (length pattern) (\<lambda>bs. masked_match bs pattern mask') buf base"
proof -
  have "(if al = 0 then 1 else al) = max 1 al" by simp
  with assms grid_hits [of "length pattern" buf "max 1 al" al "\<lambda>bs. masked_match bs pattern mask'" base] show ?thesis
    by (cases "length buf < length pattern") (simp_all add: scanBufferBinary_def hits_short Let_def)
qed

lemma scanBufferUnknown_hits:
  assumes "0 < sz"
  shows "scanBufferUnknown buf base al sz = hits (max 1 al) sz (\<lambda>bs. True) buf base"
proof -
  have "(if al = 0 then 1 else al) = max 1 al" by simp
  with assms grid_hits [of sz buf "max 1 al" al "\<lambda>bs. True" base] show ?thesis
    by (cases "length buf < sz") (simp_all add: scanBufferUnknown_def hits_short Let_def)
qed

section \<open>What a scan of a buffer finds\<close>

text \<open>
  C4: an integer scan of a buffer reports exactly the offsets of the grid at which a whole value lies in the buffer
  and compares as asked, once each and in increasing order, with the bytes found there. The vector paths (AVX2,
  SSE2), the scalar path, the reversed needle of a foreign byte order and the relational loops all give this list.
\<close>

theorem integer_scan_exact:
  assumes "int_cast T v = v"
  shows "scanIntegerTarget mode T buf base alignment v v2 cmp order =
    map (\<lambda>off. AddResult (base + of_nat off) (take (int_bytes T) (drop off buf)))
      (filter (\<lambda>off. max 1 alignment dvd off \<and> getCompare cmp (readScanScalar T (drop off buf) order) v v2)
        [0..<length buf + 1 - int_bytes T])"
  unfolding scanIntegerTarget_hits [OF assms] hits_def matches_at_def grid_offsets_def filter_filter
  by (simp add: window_def readScanScalar_drop)

theorem integer_scan_exact_witness:
  "scanIntegerTarget AVX2 I16 [0x2A, 0, 0, 0x2A, 0x2A, 0] 0x1000 2 0x2A 0 SC_Exact BO_Little =
    [AddResult 0x1000 [0x2A, 0], AddResult 0x1004 [0x2A, 0]]"
  unfolding integer_scan_exact [where T = I16 and v = "0x2A", simplified int_cast_def, simplified] by code_simp

text \<open>
  C35: the pattern scanners report exactly the positions at which the pattern lies, once each and in increasing
  order. Text and byte patterns are looked for at every offset and the search for one anchor byte, sixteen
  positions at a time or one by one, skips none of them; a masked byte agrees where its mask has ones; binary
  patterns are looked for on the grid of the alignment.
\<close>

theorem pattern_scan_exact:
  assumes "pattern \<noteq> []" "length masks = length pattern"
  shows "scanBufferAOB mode buf base pattern masks =
      map (\<lambda>off. AddResult (base + of_nat off) (take (length pattern) (drop off buf)))
        (filter (\<lambda>off. \<forall>j < length pattern. (buf ! (off + j)) AND masks ! j = pattern ! j AND masks ! j)
          [0..<length buf + 1 - length pattern]) \<and>
    scanBufferBinary buf base pattern masks alignment =
      map (\<lambda>off. AddResult (base + of_nat off) (take (length pattern) (drop off buf)))
        (filter (\<lambda>off. max 1 alignment dvd off \<and>
            (\<forall>j < length pattern. (buf ! (off + j)) AND masks ! j = pattern ! j AND masks ! j))
          [0..<length buf + 1 - length pattern]) \<and>
    scanBufferString mode buf base pattern ci =
      map (\<lambda>off. AddResult (base + of_nat off) (take (length pattern) (drop off buf)))
        (filter (\<lambda>off. if ci then map lower_byte (take (length pattern) (drop off buf)) = map lower_byte pattern
            else take (length pattern) (drop off buf) = pattern)
          [0..<length buf + 1 - length pattern])"
proof -
  have masked: "masked_match (window buf off (length pattern)) pattern masks \<longleftrightarrow>
      (\<forall>j < length pattern. (buf ! (off + j)) AND masks ! j = pattern ! j AND masks ! j)"
    if "off < Suc (length buf) - length pattern" for off
    using that assms by (auto simp: masked_match_def list_all_length nth_window)
  have agree: "filter (\<lambda>off. Q off \<and> masked_match (window buf off (length pattern)) pattern masks) [0..<length buf + 1 - length pattern] =
      filter (\<lambda>off. Q off \<and> (\<forall>j < length pattern. (buf ! (off + j)) AND masks ! j = pattern ! j AND masks ! j))
        [0..<length buf + 1 - length pattern]" for Q
    by (rule filter_cong [OF refl]) (use masked in auto)
  have folded: "stringBytesMatch (window buf off (length pattern)) pattern (length pattern) (\<not> ci) False BO_Little \<longleftrightarrow>
      (if ci then map lower_byte (take (length pattern) (drop off buf)) = map lower_byte pattern
       else take (length pattern) (drop off buf) = pattern)" for off
    by (simp add: stringBytesMatch_def window_def)
  have "scanBufferAOB mode buf base pattern masks =
      map (\<lambda>off. AddResult (base + of_nat off) (take (length pattern) (drop off buf)))
        (filter (\<lambda>off. \<forall>j < length pattern. (buf ! (off + j)) AND masks ! j = pattern ! j AND masks ! j)
          [0..<length buf + 1 - length pattern])"
    unfolding scanBufferAOB_hits [OF assms] hits_def matches_at_def grid_offsets_def filter_filter
    by (simp add: window_def [symmetric] agree [simplified] agree [of "\<lambda>off. True", simplified])
  moreover have "scanBufferBinary buf base pattern masks alignment =
      map (\<lambda>off. AddResult (base + of_nat off) (take (length pattern) (drop off buf)))
        (filter (\<lambda>off. max 1 alignment dvd off \<and>
            (\<forall>j < length pattern. (buf ! (off + j)) AND masks ! j = pattern ! j AND masks ! j))
          [0..<length buf + 1 - length pattern])"
    unfolding scanBufferBinary_hits [OF assms] hits_def matches_at_def grid_offsets_def filter_filter
    by (simp add: window_def [symmetric] agree [simplified])
  moreover have "scanBufferString mode buf base pattern ci =
      map (\<lambda>off. AddResult (base + of_nat off) (take (length pattern) (drop off buf)))
        (filter (\<lambda>off. if ci then map lower_byte (take (length pattern) (drop off buf)) = map lower_byte pattern
            else take (length pattern) (drop off buf) = pattern)
          [0..<length buf + 1 - length pattern])"
    unfolding scanBufferString_hits [OF assms(1)] hits_def matches_at_def grid_offsets_def filter_filter folded
    by (simp add: window_def)
  ultimately show ?thesis by blast
qed

theorem pattern_scan_exact_witness:
  "scanBufferAOB SSE2 [0, 0x48, 0x8B, 0x10, 0x48, 0x8B, 0x1F] 0x400000 [0x48, 0x8B, 0x10] [0xFF, 0xFF, 0xF0] =
    [AddResult 0x400001 [0x48, 0x8B, 0x10], AddResult 0x400004 [0x48, 0x8B, 0x1F]]"
  unfolding pattern_scan_exact [where pattern = "[0x48, 0x8B, 0x10]" and masks = "[0xFF, 0xFF, 0xF0]", simplified, THEN conjunct1] by code_simp

end
