(* ===== verification/ScanNumber.thy ===== *)
theory ScanNumber
  imports Text CoreTypes Complex_Main
begin

text \<open>
  The literals of a scan (\<^verbatim>\<open>scanner/scan_number.cpp\<close>). A decimal literal is kept exactly, as a 64-bit magnitude
  with a sign and flags, next to the double it denotes, so that an integer in memory is compared with what
  the user typed and not with a rounded double. The double itself (\<^verbatim>\<open>std::from_chars\<close>, \<^verbatim>\<open>std::isfinite\<close>,
  \<^verbatim>\<open>std::isnan\<close> and the conversion of a 64-bit integer) is a parameter: a type \<^typ>\<open>'d\<close> and its operations.
\<close>

unbundle bit_operations_syntax

section \<open>Literals\<close>

record AllIntegerValue =
  magnitude :: nat
  negative :: bool
  fractional :: bool
  outsideMagnitude :: bool
  unordered :: bool

definition new_integer :: AllIntegerValue where
  "new_integer = \<lparr>magnitude = 0, negative = False, fractional = False, outsideMagnitude = False, unordered = False\<rparr>"

record 'd Number =
  integer :: AllIntegerValue
  floating :: 'd
  decimals :: nat

text \<open>The operations on doubles; \<^verbatim>\<open>from_chars\<close> gives \<^const>\<open>None\<close> unless it converts the whole text.\<close>

record 'd fp =
  fp_from_chars :: "string \<Rightarrow> 'd option"
  fp_isfinite :: "'d \<Rightarrow> bool"
  fp_isnan :: "'d \<Rightarrow> bool"
  fp_of_int :: "int \<Rightarrow> 'd"
  fp_zero :: 'd
  fp_below_zero :: "'d \<Rightarrow> bool"
  fp_negate :: "'d \<Rightarrow> 'd"

definition blank :: "char set" where
  "blank = {CHR '' '', CHR 0x09, CHR 0x0D, CHR 0x0A}"

text \<open>\<^verbatim>\<open>std::from_chars\<close> for an unsigned 64-bit number of the whole text.\<close>

definition from_chars_u64 :: "nat \<Rightarrow> string \<Rightarrow> nat option" where
  "from_chars_u64 base s =
    (if s = [] \<or> \<not> list_all (is_digit_of base) s then None
     else let n = run_value base s in if n < 2 ^ 64 then Some n else None)"

definition lower_ascii :: "char \<Rightarrow> char" where
  "lower_ascii c = (if 65 \<le> char_code c \<and> char_code c \<le> 90 then char_of (char_code c + 32) else c)"

definition is_decimal :: "char \<Rightarrow> bool" where
  "is_decimal c \<longleftrightarrow> 48 \<le> char_code c \<and> char_code c \<le> 57"

text \<open>The first loop: the digits, how many of them follow the separator, and the rest of the text.\<close>

fun digit_run :: "bool \<Rightarrow> string \<Rightarrow> string \<times> nat \<times> string" where
  "digit_run separator [] = ([], 0, [])"
| "digit_run separator (c # cs) =
    (if is_decimal c then
       (case digit_run separator cs of (ds, f, rest) \<Rightarrow> (c # ds, (if separator then Suc f else f), rest))
     else if (c = CHR ''.'' \<or> c = CHR '','') \<and> \<not> separator then digit_run True cs
     else ([], 0, c # cs))"

definition exponent_of :: "string \<Rightarrow> nat" where
  "exponent_of ds = foldl (\<lambda>e c. min 8192 (e * 10 + digit_or_0 c)) 0 ds"

text \<open>The exponent part and the rest after it; \<^const>\<open>None\<close> when an exponent has no digits.\<close>

definition parse_exponent :: "string \<Rightarrow> (int \<times> string) option" where
  "parse_exponent rest =
    (if rest \<noteq> [] \<and> (hd rest = CHR ''e'' \<or> hd rest = CHR ''E'') then
       let t = tl rest;
           sign = (t \<noteq> [] \<and> (hd t = CHR ''+'' \<or> hd t = CHR ''-''));
           exponentNegative = (sign \<and> hd t = CHR ''-'');
           u = (if sign then tl t else t);
           ds = takeWhile is_decimal u
       in if ds = [] then None
          else Some (if exponentNegative then - int (exponent_of ds) else int (exponent_of ds), dropWhile is_decimal u)
     else Some (0, rest))"

text \<open>The last loop, from digit \<open>i\<close> with \<open>n\<close> digits to go; \<^const>\<open>None\<close> when the magnitude does not fit.\<close>

fun magnitude_loop :: "string \<Rightarrow> nat \<Rightarrow> nat \<Rightarrow> nat \<Rightarrow> nat option" where
  "magnitude_loop digits i 0 m = Some m"
| "magnitude_loop digits i (Suc n) m =
    (let digit = (if i < length digits then digit_or_0 (digits ! i) else 0)
     in if m > (2 ^ 64 - 1 - digit) div 10 then None else magnitude_loop digits (Suc i) n (m * 10 + digit))"

definition parse_hex :: "'d fp \<Rightarrow> bool \<Rightarrow> string \<Rightarrow> 'd Number option" where
  "parse_hex fp neg body =
    (case from_chars_u64 16 body of
       None \<Rightarrow> None
     | Some n \<Rightarrow>
         if neg \<and> n > 2 ^ 63 then None
         else let bits = (if neg then - of_nat n else of_nat n :: u64);
                  value = sint bits
           in Some \<lparr>integer = new_integer\<lparr>negative := value < 0, magnitude := if value < 0 then unat (- bits) else unat bits\<rparr>,
                    floating = fp_of_int fp value, decimals = 0\<rparr>)"

text \<open>The exact part of a finite decimal literal, after the sign.\<close>

definition parse_decimal :: "bool \<Rightarrow> string \<Rightarrow> (AllIntegerValue \<times> nat) option" where
  "parse_decimal neg body =
    (case digit_run False body of (digits, fractionalDigits, rest) \<Rightarrow>
       if digits = [] then None
       else case parse_exponent rest of
         None \<Rightarrow> None
       | Some (exponent, rest') \<Rightarrow>
           if rest' \<noteq> [] then None
           else let decs = nat (int fractionalDigits - exponent);
                    significant = length (takeWhile (\<lambda>c. c = CHR ''0'') digits)
             in if significant = length digits then Some (new_integer, decs)
                else let point = int (length digits) - int fractionalDigits + exponent - int significant;
                         digits' = drop significant digits;
                         fractionStart = nat point;
                         number = new_integer\<lparr>negative := neg,
                           fractional := \<not> list_all (\<lambda>c. c = CHR ''0'') (drop fractionStart digits')\<rparr>
                  in Some (if point > 20 then number\<lparr>outsideMagnitude := True\<rparr>
                           else (case magnitude_loop digits' 0 (nat point) 0 of
                                   None \<Rightarrow> number\<lparr>outsideMagnitude := True\<rparr>
                                 | Some m \<Rightarrow> number\<lparr>magnitude := m\<rparr>), decs))"

definition hex_prefix :: "string \<Rightarrow> bool" where
  "hex_prefix body \<longleftrightarrow> length body \<ge> 2 \<and> body ! 0 = CHR ''0'' \<and> (body ! 1 = CHR ''x'' \<or> body ! 1 = CHR ''X'')"

definition parseNumber :: "'d fp \<Rightarrow> string \<Rightarrow> bool \<Rightarrow> 'd Number option" where
  "parseNumber fp input0 hex =
    (if length input0 > 4096 then None
     else let input = trim_of blank input0 in
     if input = [] then None
     else let signed = (hd input = CHR ''+'' \<or> hd input = CHR ''-'');
              neg = (hd input = CHR ''-'');
              body = (if signed then tl input else input) in
     if body = [] then None
     else if hex \<or> hex_prefix body then parse_hex fp neg (if hex_prefix body then drop 2 body else body)
     else let token = map (\<lambda>c. if c = CHR '','' then CHR ''.'' else c) input;
              start = (if hd token = CHR ''+'' then tl token else token) in
     case fp_from_chars fp start of
       None \<Rightarrow> None
     | Some d \<Rightarrow>
         if \<not> fp_isfinite fp d then
           let special = map lower_ascii body in
           if special \<noteq> ''nan'' \<and> special \<noteq> ''inf'' \<and> special \<noteq> ''infinity'' then None
           else Some \<lparr>integer = new_integer\<lparr>negative := neg, unordered := fp_isnan fp d, outsideMagnitude := \<not> fp_isnan fp d\<rparr>,
                      floating = d, decimals = 0\<rparr>
         else case parse_decimal neg body of
           None \<Rightarrow> None
         | Some (n, decs) \<Rightarrow> Some \<lparr>integer = n, floating = d, decimals = decs\<rparr>)"

definition integerHint :: "AllIntegerValue \<Rightarrow> int" where
  "integerHint value =
    (if unordered value \<or> outsideMagnitude value \<or> fractional value \<or>
        magnitude value > (if negative value then 2 ^ 63 else 2 ^ 63 - 1) then 0
     else if negative value then - int (magnitude value) else int (magnitude value))"

text \<open>\<^verbatim>\<open>AllIntegerValue::compare\<close> for a current value of 64 bits.\<close>

definition compare :: "AllIntegerValue \<Rightarrow> int \<Rightarrow> int" where
  "compare value current =
    (if unordered value then 2
     else if outsideMagnitude value then (if negative value then 1 else - 1)
     else let currentNegative = (current < 0) in
     if currentNegative \<noteq> negative value then (if currentNegative then - 1 else 1)
     else let absolute = nat \<bar>current\<bar>;
              order = (if absolute < magnitude value then - 1 else if absolute > magnitude value then 1
                       else if fractional value then - 1 else 0)
          in if negative value then - order else order)"

section \<open>The value of a literal\<close>

text \<open>
  What the text of a decimal literal denotes: the digits as a whole number, scaled by the exponent as
  written, without the bound of the parser, and by the digits after the separator.
\<close>

definition exponent_value :: "string \<Rightarrow> int" where
  "exponent_value rest =
    (if rest = [] then 0
     else if tl rest \<noteq> [] \<and> hd (tl rest) = CHR ''-'' then - int (run_value 10 (tl (tl rest)))
     else if tl rest \<noteq> [] \<and> hd (tl rest) = CHR ''+'' then int (run_value 10 (tl (tl rest)))
     else int (run_value 10 (tl rest)))"

definition literal_value :: "bool \<Rightarrow> string \<Rightarrow> rat" where
  "literal_value neg body =
    (case digit_run False body of (digits, f, rest) \<Rightarrow>
       (if neg then - 1 else 1) * of_nat (run_value 10 digits) * 10 powi (exponent_value rest - int f))"

text \<open>A value and a literal agree when comparing with the one is comparing with the other.\<close>

definition int64_range :: "int \<Rightarrow> bool" where
  "int64_range c \<longleftrightarrow> - (2 ^ 63) \<le> c \<and> c < 2 ^ 63"

lemma order_exact:
  fixes r :: rat
  assumes "0 \<le> r" "r < 1"
  shows "of_int (if a < m then - 1 else if m < a then 1 else if r \<noteq> 0 then - 1 else 0) = sgn (of_nat a - (of_nat m + r))"
proof -
  consider "a < m" | "a = m" | "m < a" by linarith
  then show ?thesis
  proof cases
    case 1
    then have "(of_nat a :: rat) < of_nat m" by simp
    with assms 1 show ?thesis by (simp add: sgn_if)
  next
    case 3
    then have "(of_nat (Suc m) :: rat) \<le> of_nat a" by (subst of_nat_le_iff) simp
    with assms 3 show ?thesis by (simp add: sgn_if)
  qed (use assms in \<open>simp add: sgn_if\<close>)
qed

lemma compare_exact:
  fixes q :: rat
  assumes "\<not> unordered v" "int64_range c" "0 < q"
    and out: "outsideMagnitude v \<Longrightarrow> 2 ^ 64 \<le> q"
    and inside: "\<not> outsideMagnitude v \<Longrightarrow> \<exists>r. q = of_nat (magnitude v) + r \<and> 0 \<le> r \<and> r < 1 \<and> (fractional v \<longleftrightarrow> r \<noteq> 0)"
  shows "of_int (compare v c) = sgn (of_int c - (if negative v then - q else q))"
proof (cases "outsideMagnitude v")
  case True
  have "(of_int (- (2 ^ 63)) :: rat) \<le> of_int c" "(of_int c :: rat) < of_int (2 ^ 63)"
    using assms(2) unfolding int64_range_def of_int_le_iff of_int_less_iff by simp_all
  with True out assms show ?thesis by (auto simp: compare_def sgn_if)
next
  case False
  then obtain r where r: "q = of_nat (magnitude v) + r" "0 \<le> r" "r < 1" "fractional v \<longleftrightarrow> r \<noteq> 0" using inside by auto
  let ?a = "nat \<bar>c\<bar>"
  let ?o = "if ?a < magnitude v then - 1 else if magnitude v < ?a then 1 else if fractional v then - 1 else 0 :: int"
  have o: "of_int ?o = sgn (of_nat ?a - q)" unfolding r(1) r(4) by (rule order_exact [OF r(2,3)])
  consider "c < 0" "negative v" | "0 \<le> c" "\<not> negative v" | "c < 0" "\<not> negative v" | "0 \<le> c" "negative v" by linarith
  then show ?thesis
  proof cases
    case 1
    then have "(of_int c :: rat) = - of_nat ?a" by (simp add: of_nat_nat)
    then have "of_int c - - q = - (of_nat ?a - q)" by simp
    moreover have "sgn (- x) = - sgn x" for x :: rat by (simp add: sgn_if)
    ultimately show ?thesis using 1 False assms(1) o by (simp only: compare_def Let_def if_True if_False of_int_minus simp_thms)
  next
    case 2
    then have "(of_int c :: rat) = of_nat ?a" by (simp add: of_nat_nat)
    with 2 False assms(1) o show ?thesis by (simp only: compare_def Let_def if_True if_False not_less [symmetric] simp_thms)
  next
    case 3
    then have "(of_int c :: rat) < 0" by simp
    with 3 False assms(1,3) show ?thesis by (simp add: compare_def sgn_if)
  next
    case 4
    then have "0 \<le> (of_int c :: rat)" by simp
    with 4 False assms(1,3) show ?thesis by (simp add: compare_def sgn_if)
  qed
qed

section \<open>The decimal parser keeps the value\<close>

lemma run_value_append: "run_value b (xs @ ys) = run_value b xs * b ^ length ys + run_value b ys"
proof -
  have "foldl (\<lambda>v c. v * b + digit_or_0 c) a ys = a * b ^ length ys + foldl (\<lambda>v c. v * b + digit_or_0 c) 0 ys" for a
  proof (induction ys arbitrary: a)
    case (Cons y ys)
    show ?case
      unfolding foldl_Cons Cons.IH [of "a * b + digit_or_0 y"] Cons.IH [of "0 * b + digit_or_0 y"]
      by (simp only: length_Cons power_Suc distrib_right mult_0 add_0_left mult.assoc add.assoc)
  qed simp
  then show ?thesis unfolding run_value_def foldl_append .
qed

lemma run_value_Nil [simp]: "run_value b [] = 0"
  by (simp add: run_value_def)

lemma run_value_Cons: "run_value b (c # cs) = digit_or_0 c * b ^ length cs + run_value b cs"
  using run_value_append [of b "[c]" cs] by (simp add: run_value_def)

lemma is_decimal_digit: "is_decimal c \<Longrightarrow> digit_or_0 c < 10 \<and> (digit_or_0 c = 0 \<longleftrightarrow> c = CHR ''0'')"
proof -
  assume "is_decimal c"
  moreover have "c = CHR ''0'' \<longleftrightarrow> char_code c = 48"
    using of_char_eq_iff [of c "CHR ''0''", where ?'a = nat] by (simp add: char_code_def)
  ultimately show ?thesis by (auto simp: is_decimal_def digit_or_0_def digit_value_def)
qed

lemma run_value_bound:
  assumes "\<forall>c \<in> set ds. is_decimal c"
  shows "run_value 10 ds < 10 ^ length ds"
  using assms
proof (induction ds)
  case (Cons c cs)
  then have "digit_or_0 c \<le> 9" "run_value 10 cs < 10 ^ length cs" using is_decimal_digit [of c] by auto
  then have "digit_or_0 c * 10 ^ length cs + run_value 10 cs < 9 * 10 ^ length cs + 10 ^ length cs"
    by (intro add_le_less_mono mult_le_mono1)
  then show ?case by (simp add: run_value_Cons)
qed simp

lemma run_value_zero_iff:
  assumes "\<forall>c \<in> set ds. is_decimal c"
  shows "run_value 10 ds = 0 \<longleftrightarrow> list_all (\<lambda>c. c = CHR ''0'') ds"
  using assms by (induction ds) (auto simp: run_value_Cons is_decimal_digit)

lemma digit_run_decimal: "digit_run sep cs = (ds, f, rest) \<Longrightarrow> (\<forall>c \<in> set ds. is_decimal c) \<and> f \<le> length ds"
proof (induction cs arbitrary: sep ds f rest)
  case (Cons c cs)
  obtain ds' f' rest' where run: "digit_run sep cs = (ds', f', rest')" by (cases "digit_run sep cs") auto
  show ?case
  proof (cases "is_decimal c")
    case True
    with Cons.prems Cons.IH [OF run] run show ?thesis by (auto split: if_splits)
  next
    case False
    with Cons.prems Cons.IH [of True ds f rest] show ?thesis by (auto split: if_splits)
  qed
qed simp

text \<open>The magnitude loop computes the digits before the point, padded with zeros, or finds them too large.\<close>

definition padded :: "string \<Rightarrow> nat \<Rightarrow> nat \<Rightarrow> string" where
  "padded digits i n = map (\<lambda>k. if k < length digits then digits ! k else CHR ''0'') [i..<i + n]"

lemma magnitude_loop_value:
  assumes "\<forall>c \<in> set digits. is_decimal c" "m < 2 ^ 64"
  shows "magnitude_loop digits i n m =
    (let v = m * 10 ^ n + run_value 10 (padded digits i n) in if v < 2 ^ 64 then Some v else None)"
  using assms(2)
proof (induction n arbitrary: i m)
  case (Suc n)
  let ?d = "if i < length digits then digit_or_0 (digits ! i) else 0"
  have d: "?d < 10" using assms(1) is_decimal_digit nth_mem by auto
  have pad: "run_value 10 (padded digits i (Suc n)) = ?d * 10 ^ n + run_value 10 (padded digits (Suc i) n)"
    by (simp add: padded_def upt_conv_Cons run_value_Cons del: upt_Suc) (simp add: digit_or_0_def digit_value_def char_code_def)
  have v: "m * 10 ^ Suc n + run_value 10 (padded digits i (Suc n)) =
      (m * 10 + ?d) * 10 ^ n + run_value 10 (padded digits (Suc i) n)"
    unfolding pad by (simp add: algebra_simps)
  have fits: "m \<le> (2 ^ 64 - 1 - ?d) div 10 \<longleftrightarrow> m * 10 + ?d < 2 ^ 64"
    using d by (subst less_eq_div_iff_mult_less_eq) auto
  show ?case
  proof (cases "m * 10 + ?d < 2 ^ 64")
    case True
    then show ?thesis
      unfolding v magnitude_loop.simps Let_def using fits Suc.IH [OF True, of "Suc i"] by (simp add: Let_def)
  next
    case False
    moreover have "m * 10 + ?d \<le> (m * 10 + ?d) * 10 ^ n" by simp
    ultimately have "2 ^ 64 \<le> (m * 10 + ?d) * 10 ^ n" by linarith
    then show ?thesis unfolding v magnitude_loop.simps Let_def using fits False by simp
  qed
qed (simp add: padded_def)

lemma padded_within: "n \<le> length ds \<Longrightarrow> padded ds 0 n = take n ds"
  by (rule nth_equalityI) (simp_all add: padded_def)

lemma padded_beyond: "length ds \<le> n \<Longrightarrow> padded ds 0 n = ds @ replicate (n - length ds) CHR ''0''"
  by (rule nth_equalityI) (auto simp: padded_def nth_append)

lemma run_value_zeros: "run_value 10 (replicate k CHR ''0'') = 0"
  by (subst run_value_zero_iff) (auto simp: is_decimal_def char_code_def list_all_iff)

lemma run_value_lower:
  assumes "ds \<noteq> []" "is_decimal (hd ds)" "hd ds \<noteq> CHR ''0''"
  shows "10 ^ (length ds - 1) \<le> run_value 10 ds"
proof (cases ds)
  case (Cons d cs)
  then have "1 * 10 ^ length cs \<le> digit_or_0 d * 10 ^ length cs"
    using assms is_decimal_digit [of d] by (intro mult_le_mono1) auto
  then have "10 ^ length cs \<le> digit_or_0 d * 10 ^ length cs + run_value 10 cs" by linarith
  with Cons show ?thesis by (simp add: run_value_Cons)
qed (use assms in simp)

text \<open>The number of digits before the point decides what is kept of a nonzero value.\<close>

lemma exact_parts:
  fixes q :: rat
  assumes ds: "ds \<noteq> []" "\<forall>c \<in> set ds. is_decimal c" "hd ds \<noteq> CHR ''0''"
    and q: "q = of_nat (run_value 10 ds) * 10 powi (pt - int (length ds))"
  shows "20 < pt \<Longrightarrow> 2 ^ 64 \<le> q"
    and "pt \<le> 20 \<Longrightarrow>
      (case magnitude_loop ds 0 (nat pt) 0 of
         None \<Rightarrow> 2 ^ 64 \<le> q
       | Some m \<Rightarrow> \<exists>r. q = of_nat m + r \<and> 0 \<le> r \<and> r < 1 \<and> (\<not> list_all (\<lambda>c. c = CHR ''0'') (drop (nat pt) ds) \<longleftrightarrow> r \<noteq> 0))"
proof -
  let ?n = "length ds" and ?D = "run_value 10 ds"
  have lower: "10 ^ (?n - 1) \<le> ?D" using run_value_lower ds by (simp add: hd_in_set)
  have lower_rat: "(10 :: rat) ^ (?n - 1) \<le> of_nat ?D"
    using of_nat_mono [OF lower, where ?'a = rat] by (simp only: of_nat_power of_nat_numeral)
  have upper: "?D < 10 ^ ?n" by (rule run_value_bound [OF ds(2)])
  show "2 ^ 64 \<le> q" if "20 < pt"
  proof -
    have "(10 :: rat) powi 20 \<le> 10 powi (pt - 1)" by (rule power_int_increasing) (use that in simp_all)
    also have "\<dots> = 10 ^ (?n - 1) * 10 powi (pt - int ?n)"
    proof -
      have e: "pt - 1 = int (?n - 1) + (pt - int ?n)" using ds(1) by (cases ds) simp_all
      show ?thesis unfolding e by (subst power_int_add) (simp, simp only: power_int_of_nat)
    qed
    also have "\<dots> \<le> q" unfolding q by (rule mult_right_mono [OF lower_rat]) simp
    finally show ?thesis by simp
  qed
  let ?P = "padded ds 0 (nat pt)"
  have loop: "magnitude_loop ds 0 (nat pt) 0 = (let v = run_value 10 ?P in if v < 2 ^ 64 then Some v else None)"
    using magnitude_loop_value [OF ds(2), of 0 0 "nat pt"] by simp
  have parts: "\<exists>r. q = of_nat (run_value 10 ?P) + r \<and> 0 \<le> r \<and> r < 1 \<and>
      (\<not> list_all (\<lambda>c. c = CHR ''0'') (drop (nat pt) ds) \<longleftrightarrow> r \<noteq> 0)"
  proof (cases "int ?n \<le> pt")
    case True
    then have "?P = ds @ replicate (nat pt - ?n) CHR ''0''" by (intro padded_beyond) simp
    then have P: "run_value 10 ?P = ?D * 10 ^ (nat pt - ?n)" by (simp only: run_value_append run_value_zeros length_replicate add_0_right)
    have e: "pt - int ?n = int (nat pt - ?n)" using True by simp
    have "q = of_nat (run_value 10 ?P)"
      unfolding q P e by (simp only: power_int_of_nat of_nat_mult of_nat_power of_nat_numeral)
    with True show ?thesis by (intro exI [of _ 0]) simp
  next
    case False
    define p where "p = nat pt"
    define B where "B = run_value 10 (drop p ds)"
    have p: "p \<le> ?n" "?P = take p ds" using False by (simp_all add: p_def padded_within)
    have D: "?D = run_value 10 ?P * 10 ^ (?n - p) + B"
      using run_value_append [of 10 "take p ds" "drop p ds"] by (simp add: p B_def)
    have dec: "\<forall>c \<in> set (drop p ds). is_decimal c" using ds(2) by (auto dest: in_set_dropD)
    have B: "B < 10 ^ (?n - p)" "B = 0 \<longleftrightarrow> list_all (\<lambda>c. c = CHR ''0'') (drop p ds)"
      using run_value_bound [OF dec] run_value_zero_iff [OF dec] by (simp_all add: B_def)
    define s :: rat where "s = 10 powi (pt - int ?n)"
    show ?thesis
    proof (cases "0 \<le> pt")
      case True
      then have e: "pt - int ?n = - int (?n - p)" using p(1) by (simp add: p_def)
      have "s = 1 / 10 ^ (?n - p)" unfolding s_def e by (simp add: power_int_minus power_int_of_nat divide_inverse)
      moreover have "(of_nat B :: rat) < 10 ^ (?n - p)" 
        using of_nat_less_iff [where ?'a = rat, THEN iffD2, OF B(1)] by (simp only: of_nat_power of_nat_numeral)
      ultimately show ?thesis
        unfolding q s_def [symmetric] D using B(2)
        by (intro exI [of _ "of_nat B * s"]) (simp add: p_def distrib_right add_divide_distrib)
    next
      case False
      then have p0: "p = 0" by (simp add: p_def)
      have "s < 1 / 10 ^ ?n"
      proof -
        have "s < 10 powi (- int ?n)" unfolding s_def by (rule power_int_strict_increasing) (use False in simp_all)
        then show ?thesis by (simp add: power_int_minus power_int_of_nat field_simps)
      qed
      moreover have "0 < s" by (simp add: s_def)
      moreover have "(of_nat ?D :: rat) < 10 ^ ?n" 
        using of_nat_less_iff [where ?'a = rat, THEN iffD2, OF upper] by (simp only: of_nat_power of_nat_numeral)
      ultimately have "of_nat ?D * s < 10 ^ ?n * (1 / 10 ^ ?n)" by (intro mult_strict_mono) simp_all
      moreover have "0 < ?D" using lower by (metis le_zero_eq not_gr_zero power_not_zero zero_neq_numeral)
      ultimately show ?thesis
        unfolding q s_def [symmetric] using p(2) p0 \<open>0 < s\<close> B D
        by (intro exI [of _ "of_nat ?D * s"]) (auto simp: p_def)
    qed
  qed
  from parts show "case magnitude_loop ds 0 (nat pt) 0 of
         None \<Rightarrow> 2 ^ 64 \<le> q
       | Some m \<Rightarrow> \<exists>r. q = of_nat m + r \<and> 0 \<le> r \<and> r < 1 \<and> (\<not> list_all (\<lambda>c. c = CHR ''0'') (drop (nat pt) ds) \<longleftrightarrow> r \<noteq> 0)"
  proof (cases "run_value 10 ?P < 2 ^ 64")
    case False
    then have "(of_nat (2 ^ 64) :: rat) \<le> of_nat (run_value 10 ?P)" by (subst of_nat_le_iff) simp
    with parts False show ?thesis by (auto simp: loop)
  qed (auto simp: loop)
qed

subsection \<open>The exponent is bounded without effect\<close>

lemma exponent_of_min: "exponent_of ds = min 8192 (run_value 10 ds)"
proof (induction ds rule: rev_induct)
  case (snoc c ds)
  have "exponent_of (ds @ [c]) = min 8192 (exponent_of ds * 10 + digit_or_0 c)" by (simp add: exponent_of_def)
  moreover have "run_value 10 (ds @ [c]) = run_value 10 ds * 10 + digit_or_0 c" by (simp add: run_value_def)
  ultimately show ?case using snoc by (simp add: min_def)
qed (simp add: exponent_of_def)

lemma parse_exponent_value:
  assumes "parse_exponent rest = Some (e, [])"
  shows "e = max (- 8192) (min 8192 (exponent_value rest))"
proof (cases "rest \<noteq> [] \<and> (hd rest = CHR ''e'' \<or> hd rest = CHR ''E'')")
  case True
  define t where "t = tl rest"
  define u where "u = (if t \<noteq> [] \<and> (hd t = CHR ''+'' \<or> hd t = CHR ''-'') then tl t else t)"
  have "dropWhile is_decimal u = []" and e: "e = (if t \<noteq> [] \<and> (hd t = CHR ''+'' \<or> hd t = CHR ''-'') \<and> hd t = CHR ''-''
      then - int (exponent_of (takeWhile is_decimal u)) else int (exponent_of (takeWhile is_decimal u)))"
    using assms True by (auto simp: parse_exponent_def Let_def t_def u_def split: if_splits)
  then have "takeWhile is_decimal u = u" by (metis append_Nil2 takeWhile_dropWhile_id)
  then show ?thesis using e True by (auto simp: exponent_of_min exponent_value_def t_def [symmetric] u_def)
qed (use assms in \<open>auto simp: parse_exponent_def exponent_value_def split: if_splits\<close>)

lemma digit_run_length: "digit_run sep cs = (ds, f, rest) \<Longrightarrow> length ds \<le> length cs"
proof (induction cs arbitrary: sep ds f rest)
  case (Cons c cs)
  obtain ds' f' rest' where run: "digit_run sep cs = (ds', f', rest')" by (cases "digit_run sep cs") auto
  show ?case
  proof (cases "is_decimal c")
    case True
    with Cons.prems Cons.IH [OF run] run show ?thesis by (auto split: if_splits)
  next
    case False
    with Cons.prems Cons.IH [of True ds f rest] show ?thesis by (auto split: if_splits)
  qed
qed simp

lemma leading_zeros:
  assumes "\<forall>c \<in> set ds. is_decimal c"
  shows "run_value 10 ds = run_value 10 (dropWhile (\<lambda>c. c = CHR ''0'') ds)"
  using assms
proof (induction ds)
  case (Cons c cs)
  then show ?case using is_decimal_digit [of c] by (auto simp: run_value_Cons)
qed simp

text \<open>Cutting the exponent at 8192 only happens where the value is far from every 64-bit integer anyway.\<close>

lemma cut_exponent:
  fixes D :: nat
  assumes "1 \<le> n" "D < 10 ^ n" "0 < D" "n \<le> 4096" "f \<le> 4096" "e = max (- 8192) (min 8192 E)" "e \<noteq> E"
  shows "20 < int n - int f + e \<and> (2 ^ 64 :: rat) \<le> of_nat D * 10 powi (E - int f) \<or>
    int n - int f + e \<le> 0 \<and> of_nat D * (10 :: rat) powi (E - int f) < 1"
proof (cases "8192 < E")
  case True
  have "(2 ^ 64 :: rat) \<le> 10 powi 20" by simp
  also have "\<dots> \<le> 10 powi (E - int f)" by (rule power_int_increasing) (use True assms(5) in simp_all)
  also have "\<dots> \<le> of_nat D * 10 powi (E - int f)" using assms(3) by simp
  finally show ?thesis using True assms by auto
next
  case False
  with assms have E: "E < - 8192" "e = - 8192" by (auto simp: min_def max_def split: if_splits)
  have "of_nat D * (10 :: rat) powi (E - int f) < 10 ^ n * 10 powi (E - int f)"
    using of_nat_less_iff [where ?'a = rat, THEN iffD2, OF assms(2)]
    by (intro mult_strict_right_mono) (simp_all only: of_nat_power of_nat_numeral, simp)
  also have "\<dots> = 10 powi (int n + (E - int f))" by (subst power_int_add) (simp, simp only: power_int_of_nat)
  also have "\<dots> \<le> 10 powi 0" by (rule power_int_increasing) (use E assms(4) in simp_all)
  finally show ?thesis using E assms(4,5) by simp
qed

lemma compare_integer:
  assumes "\<not> unordered v" "\<not> outsideMagnitude v" "\<not> fractional v" "negative v \<longleftrightarrow> k < 0" "magnitude v = nat \<bar>k\<bar>"
  shows "compare v c = sgn (c - k)"
  using assms by (auto simp: compare_def Let_def sgn_if)

lemma parse_decimal_exact:
  assumes "parse_decimal neg body = Some (v, decs)" "length body \<le> 4096" "int64_range c"
  shows "\<not> unordered v \<and> of_int (compare v c) = sgn (of_int c - literal_value neg body)"
proof -
  obtain ds f rest where run: "digit_run False body = (ds, f, rest)" by (cases "digit_run False body") auto
  note dec = digit_run_decimal [OF run] and len = digit_run_length [OF run]
  from assms(1) run obtain e where e: "parse_exponent rest = Some (e, [])"
    by (auto simp: parse_decimal_def split: if_splits option.splits prod.splits)
  let ?zero = "\<lambda>c. c = CHR ''0''"
  define E where "E = exponent_value rest"
  define sig where "sig = length (takeWhile ?zero ds)"
  define ds' where "ds' = dropWhile ?zero ds"
  have cut: "e = max (- 8192) (min 8192 E)" unfolding E_def by (rule parse_exponent_value [OF e])
  have drop: "drop sig ds = ds'" by (simp add: sig_def ds'_def dropWhile_eq_drop)
  have split: "length ds = sig + length ds'" using takeWhile_dropWhile_id [of ?zero ds] by (metis ds'_def length_append sig_def)
  have D: "run_value 10 ds = run_value 10 ds'" using leading_zeros dec by (simp add: ds'_def)
  define Q :: rat where "Q = of_nat (run_value 10 ds') * 10 powi (E - int f)"
  have lit: "literal_value neg body = (if neg then - Q else Q)"
    using run by (simp add: literal_value_def Q_def D E_def)
  show ?thesis
  proof (cases "ds' = []")
    case True
    with assms(1) run e split have "v = new_integer"
      by (auto simp: parse_decimal_def sig_def Let_def split: if_splits)
    moreover have "of_int (compare new_integer c) = (sgn (of_int c) :: rat)"
      using compare_integer [of new_integer 0 c] by (simp add: new_integer_def sgn_if)
    ultimately show ?thesis using True lit by (simp add: Q_def new_integer_def)
  next
    case False
    have ds': "\<forall>c \<in> set ds'. is_decimal c" "hd ds' \<noteq> CHR ''0''"
      using dec False hd_dropWhile [of ?zero ds] by (auto simp: ds'_def dest: set_dropWhileD)
    define pt where "pt = int (length ds') - int f + e"
    have v: "v = (let n = new_integer\<lparr>negative := neg, fractional := \<not> list_all ?zero (drop (nat pt) ds')\<rparr>
        in if pt > 20 then n\<lparr>outsideMagnitude := True\<rparr>
           else (case magnitude_loop ds' 0 (nat pt) 0 of None \<Rightarrow> n\<lparr>outsideMagnitude := True\<rparr> | Some m \<Rightarrow> n\<lparr>magnitude := m\<rparr>))"
      using assms(1) run e split False
      by (auto simp: parse_decimal_def Let_def drop pt_def sig_def [symmetric] algebra_simps split: if_splits)
    have pos: "0 < run_value 10 ds'" using run_value_lower [of ds'] ds' False
      by (metis hd_in_set le_zero_eq not_gr_zero power_not_zero zero_neq_numeral)
    then have "0 < Q" by (simp add: Q_def)
    have parts: "(20 < pt \<longrightarrow> 2 ^ 64 \<le> Q) \<and> (pt \<le> 20 \<longrightarrow> (case magnitude_loop ds' 0 (nat pt) 0 of
         None \<Rightarrow> 2 ^ 64 \<le> Q
       | Some m \<Rightarrow> \<exists>r. Q = of_nat m + r \<and> 0 \<le> r \<and> r < 1 \<and> (\<not> list_all ?zero (drop (nat pt) ds') \<longleftrightarrow> r \<noteq> 0)))"
    proof (cases "e = E")
      case True
      then have "Q = of_nat (run_value 10 ds') * 10 powi (pt - int (length ds'))" by (simp add: Q_def pt_def)
      from exact_parts [OF False ds' this] show ?thesis by blast
    next
      case cut': False
      have "1 \<le> length ds'" using False by (cases ds') simp_all
      moreover have "length ds' \<le> 4096" "f \<le> 4096" using dec len split assms(2) by auto
      ultimately consider "20 < pt" "2 ^ 64 \<le> Q" | "pt \<le> 0" "Q < 1"
        using cut_exponent [OF _ run_value_bound [OF ds'(1)] pos _ _ cut cut', of f] by (auto simp: Q_def pt_def)
      then show ?thesis
      proof cases
        case 2
        have "\<not> list_all ?zero ds'" using run_value_zero_iff [OF ds'(1)] pos by simp
        with 2 \<open>0 < Q\<close> show ?thesis by (auto intro!: exI [of _ Q])
      qed auto
    qed
    have "of_int (compare v c) = sgn (of_int c - (if negative v then - Q else Q))"
      by (rule compare_exact) (use parts assms(3) \<open>0 < Q\<close> in \<open>auto simp: v Let_def new_integer_def split: option.splits\<close>)
    then show ?thesis by (simp add: v lit Let_def new_integer_def split: option.splits)
  qed
qed

lemma hint_exact: "compare v k = 0 \<Longrightarrow> int64_range k \<Longrightarrow> integerHint v = k"
  by (auto simp: compare_def integerHint_def int64_range_def Let_def split: if_splits)

section \<open>Properties\<close>

text \<open>What the text denotes: a hexadecimal literal is a 64-bit pattern read as a signed number.\<close>

definition denoted :: "string \<Rightarrow> bool \<Rightarrow> rat" where
  "denoted text hex =
    (let input = trim_of blank text;
         neg = (hd input = CHR ''-'');
         body = (if hd input = CHR ''+'' \<or> neg then tl input else input);
         hexadecimal = (hex \<or> hex_prefix body)
     in if hexadecimal then
          (let n = run_value 16 (if hex_prefix body then drop 2 body else body)
           in of_int (sint (if neg then - of_nat n else of_nat n :: u64)))
        else literal_value neg body)"

lemma sgn_of_int_diff: "of_int (sgn (c - k)) = (sgn (of_int c - of_int k) :: rat)" for c k :: int
  by (simp add: sgn_if)

lemma parse_hex_exact:
  assumes "parse_hex fp neg body = Some number"
  shows "of_int (compare (integer number) c) =
    (sgn (of_int c - of_int (sint (if neg then - of_nat (run_value 16 body) else of_nat (run_value 16 body) :: u64))) :: rat)"
proof -
  define bits :: u64 where "bits = (if neg then - of_nat (run_value 16 body) else of_nat (run_value 16 body))"
  have range: "- (2 ^ 63) \<le> sint bits" "sint bits < 2 ^ 63"
    using sint_greater_eq [of bits] sint_less [of bits] by simp_all
  have mag: "unat (- bits) = nat (- sint bits)" if "sint bits < 0"
  proof -
    have "uint (word_of_int (- sint bits) :: u64) = take_bit 64 (- sint bits)" by (simp only: unsigned_of_int) simp
    then have "uint (- bits) = take_bit 64 (- sint bits)" by simp
    also have "\<dots> = - sint bits" by (rule take_bit_int_eq_self) (use that range in simp_all)
    finally show ?thesis by (simp add: unat_eq_nat_uint)
  qed
  have mag': "unat bits = nat (sint bits)" if "0 \<le> sint bits"
  proof -
    have "uint (word_of_int (sint bits) :: u64) = take_bit 64 (sint bits)" by (simp only: unsigned_of_int) simp
    then have "uint bits = take_bit 64 (sint bits)" by simp
    also have "\<dots> = sint bits" by (rule take_bit_int_eq_self) (use that range in simp_all)
    finally show ?thesis by (simp add: unat_eq_nat_uint)
  qed
  from assms have "integer number = new_integer\<lparr>negative := sint bits < 0,
      magnitude := if sint bits < 0 then unat (- bits) else unat bits\<rparr>"
    by (auto simp: parse_hex_def from_chars_u64_def Let_def bits_def split: if_splits)
  then have "compare (integer number) c = sgn (c - sint bits)"
    by (intro compare_integer) (auto simp: new_integer_def mag mag')
  then show ?thesis unfolding bits_def [symmetric] by (simp only: sgn_of_int_diff)
qed

lemma parseNumber_Some:
  assumes "parseNumber fp text hex = Some number"
    and input: "input = trim_of blank text" and neg: "neg = (hd input = CHR ''-'')"
    and body: "body = (if hd input = CHR ''+'' \<or> neg then tl input else input)"
  shows "length body \<le> 4096"
    and "hex \<or> hex_prefix body \<Longrightarrow> parse_hex fp neg (if hex_prefix body then drop 2 body else body) = Some number"
    and "\<not> (hex \<or> hex_prefix body) \<Longrightarrow> fp_isfinite fp (floating number) \<Longrightarrow>
      \<exists>decs. parse_decimal neg body = Some (integer number, decs)"
    and "\<not> (hex \<or> hex_prefix body) \<Longrightarrow> \<not> fp_isfinite fp (floating number) \<Longrightarrow>
      integer number = new_integer\<lparr>negative := neg, unordered := fp_isnan fp (floating number),
        outsideMagnitude := \<not> fp_isnan fp (floating number)\<rparr>"
proof -
  have "length (trim_of blank text) \<le> length text"
    unfolding trim_of_def by (metis length_dropWhile_le length_rev le_trans)
  moreover have "length text \<le> 4096" using assms(1) by (auto simp: parseNumber_def split: if_splits)
  ultimately show "length body \<le> 4096" by (auto simp: body input)
  note parsed = assms(1) [unfolded parseNumber_def Let_def, folded input, folded neg, folded body]
  show "parse_hex fp neg (if hex_prefix body then drop 2 body else body) = Some number" if "hex \<or> hex_prefix body"
    using parsed that by (simp only: if_True split: if_split_asm) auto
  show "\<exists>decs. parse_decimal neg body = Some (integer number, decs)"
    if "\<not> (hex \<or> hex_prefix body)" "fp_isfinite fp (floating number)"
    using parsed that by (auto split: if_splits option.splits)
  show "integer number = new_integer\<lparr>negative := neg, unordered := fp_isnan fp (floating number),
        outsideMagnitude := \<not> fp_isnan fp (floating number)\<rparr>"
    if "\<not> (hex \<or> hex_prefix body)" "\<not> fp_isfinite fp (floating number)"
    using parsed that by (auto split: if_splits option.splits)
qed

text \<open>
  C11: a scan compares an integer in memory with exactly what was typed. For every accepted literal and every
  64-bit value, the comparison is the sign of the difference between the value and the number the text
  denotes (the digits scaled by the exponent as written, however large, or the signed 64-bit pattern of a
  hexadecimal literal), with no rounding to a double; infinities are beyond every value and NaN compares with
  none. When the literal is a 64-bit integer, the hint the narrower scans use is that integer.
\<close>

theorem parseNumber_exact:
  assumes "parseNumber fp text hex = Some number" "int64_range c"
  shows "(let input = trim_of blank text;
              neg = (hd input = CHR ''-'');
              body = (if hd input = CHR ''+'' \<or> neg then tl input else input)
          in if hex \<or> hex_prefix body \<or> fp_isfinite fp (floating number) then
               of_int (compare (integer number) c) = sgn (of_int c - denoted text hex) \<and>
               (\<forall>k. denoted text hex = of_int k \<and> int64_range k \<longrightarrow> integerHint (integer number) = k)
             else compare (integer number) c = (if fp_isnan fp (floating number) then 2 else if neg then 1 else - 1))"
proof -
  define input where "input = trim_of blank text"
  define neg where "neg = (hd input = CHR ''-'')"
  define body where "body = (if hd input = CHR ''+'' \<or> neg then tl input else input)"
  note fold = input_def [symmetric] neg_def [symmetric] body_def [symmetric]
  note parsed = parseNumber_Some [OF assms(1) input_def neg_def body_def]
  have exact: "of_int (compare (integer number) c) = sgn (of_int c - denoted text hex)"
    if "hex \<or> hex_prefix body \<or> fp_isfinite fp (floating number)" "int64_range c" for c
  proof (cases "hex \<or> hex_prefix body")
    case True
    from parse_hex_exact [OF parsed(2) [OF True]] True show ?thesis unfolding denoted_def Let_def fold by simp
  next
    case False
    with parsed(3) that(1) obtain decs where "parse_decimal neg body = Some (integer number, decs)" by auto
    from parse_decimal_exact [OF this parsed(1) that(2)] False show ?thesis unfolding denoted_def Let_def fold by simp
  qed
  have hint: "integerHint (integer number) = k"
    if "hex \<or> hex_prefix body \<or> fp_isfinite fp (floating number)" "denoted text hex = of_int k" "int64_range k" for k
    using exact [OF that(1,3)] that by (intro hint_exact) simp_all
  have special: "compare (integer number) c = (if fp_isnan fp (floating number) then 2 else if neg then 1 else - 1)"
    if "\<not> (hex \<or> hex_prefix body \<or> fp_isfinite fp (floating number))"
    using parsed(4) that by (simp add: compare_def new_integer_def)
  show ?thesis
  proof (cases "hex \<or> hex_prefix body \<or> fp_isfinite fp (floating number)")
    case True
    with exact [OF True assms(2)] hint show ?thesis unfolding Let_def fold by simp
  next
    case False
    from special [OF this] False show ?thesis unfolding Let_def fold by (simp only: if_False)
  qed
qed

text \<open>A literal just above a 64-bit boundary: doubles cannot tell it from its neighbours, the comparison can.\<close>

definition toy_fp :: "rat fp" where
  "toy_fp = \<lparr>fp_from_chars = (\<lambda>s. Some (9223372036854775807)), fp_isfinite = (\<lambda>d. True), fp_isnan = (\<lambda>d. False),
    fp_of_int = of_int, fp_zero = 0, fp_below_zero = (\<lambda>d. d < 0), fp_negate = uminus\<rparr>"

theorem parseNumber_exact_witness:
  "\<exists>number. parseNumber toy_fp ''9223372036854775806.5'' False = Some number \<and>
     compare (integer number) 9223372036854775806 = - 1 \<and> compare (integer number) 9223372036854775807 = 1"
proof -
  have "parseNumber toy_fp ''9223372036854775806.5'' False \<noteq> None" by code_simp
  then obtain number where n: "parseNumber toy_fp ''9223372036854775806.5'' False = Some number" by auto
  have d: "denoted ''9223372036854775806.5'' False = 18446744073709551613 / 2"
    by code_simp
  have "of_int (compare (integer number) 9223372036854775806) = (sgn (- 1 / 2) :: rat)"
    "of_int (compare (integer number) 9223372036854775807) = (sgn (1 / 2) :: rat)"
    using parseNumber_exact [OF n, of 9223372036854775806] parseNumber_exact [OF n, of 9223372036854775807]
    by (simp_all add: Let_def d toy_fp_def int64_range_def)
  with n show ?thesis by (auto simp: sgn_if)
qed

end
