(* ===== verification/ScanConfig.thy ===== *)
theory ScanConfig
  imports ScanBuffer ScanNumber
begin

text \<open>
  The configuration of a scan (\<^verbatim>\<open>ScanConfig\<close> of \<^verbatim>\<open>scanner/memory_scanner.hpp\<close>) and what fills it in: the parsers of
  byte patterns, binary patterns and grouped expressions of \<^verbatim>\<open>scanner/memory_scanner.cpp\<close>, the literals of
  \<^verbatim>\<open>scanner/scan_number.cpp\<close>, the sizes of a match and the adjustment of a request to the target
  (\<^verbatim>\<open>targetScanConfig\<close>). An exception is the left part of a sum with its message. What lies outside the
  sources is an argument: \<^verbatim>\<open>iconv\<close> and the arithmetic of doubles.
\<close>

section \<open>The configuration\<close>

datatype ProtMatch = PM_Any | PM_Yes | PM_No

record 'd GroupedTerm =
  gt_valueType :: ValueType
  gt_offset :: nat
  gt_intValue :: int
  gt_floatValue :: 'd
  gt_stringValue :: string
  gt_byteArray :: "byte list"
  gt_byteArrayMask :: "byte list"
  gt_byteMask :: "byte list"

record 'd ScanConfig =
  sc_valueType :: ValueType
  sc_byteOrder :: ByteOrder
  sc_pointerWidth :: nat
  sc_compareType :: ScanCompare
  sc_alignment :: nat
  sc_startAddress :: u64
  sc_stopAddress :: u64
  sc_writableMatch :: ProtMatch
  sc_executableMatch :: ProtMatch
  sc_scanPrivate :: bool
  sc_scanImage :: bool
  sc_scanMapped :: bool
  sc_roundingType :: int
  sc_floatDecimals :: int
  sc_floatTolerance :: 'd
  sc_percentageScan :: bool
  sc_percentageValue :: 'd
  sc_percentageValue2 :: 'd
  sc_intValue :: int
  sc_intValue2 :: int
  sc_floatValue :: 'd
  sc_floatValue2 :: 'd
  sc_allIntegerValue :: "AllIntegerValue option"
  sc_allIntegerValue2 :: "AllIntegerValue option"
  sc_stringValue :: string
  sc_stringEncoding :: string
  sc_caseSensitive :: bool
  sc_byteArray :: "byte list"
  sc_byteArrayMask :: "byte list"
  sc_byteMask :: "byte list"
  sc_binaryString :: string
  sc_groupedTerms :: "'d GroupedTerm list"
  sc_groupedExpression :: string
  sc_customFormula :: string
  sc_customValueSize :: nat

definition new_term :: "'d fp \<Rightarrow> 'd GroupedTerm" where
  "new_term fp = \<lparr>gt_valueType = VT_Int32, gt_offset = 0, gt_intValue = 0, gt_floatValue = fp_zero fp, gt_stringValue = [],
     gt_byteArray = [], gt_byteArrayMask = [], gt_byteMask = []\<rparr>"

definition new_config :: "'d fp \<Rightarrow> 'd ScanConfig" where
  "new_config fp = \<lparr>sc_valueType = VT_Int32, sc_byteOrder = BO_Unknown, sc_pointerWidth = 0, sc_compareType = SC_Exact,
     sc_alignment = 4, sc_startAddress = 0, sc_stopAddress = - 1, sc_writableMatch = PM_Any, sc_executableMatch = PM_Any,
     sc_scanPrivate = True, sc_scanImage = True, sc_scanMapped = True, sc_roundingType = 0, sc_floatDecimals = - 1,
     sc_floatTolerance = fp_zero fp, sc_percentageScan = False, sc_percentageValue = fp_zero fp, sc_percentageValue2 = fp_zero fp,
     sc_intValue = 0, sc_intValue2 = 0, sc_floatValue = fp_zero fp, sc_floatValue2 = fp_zero fp,
     sc_allIntegerValue = None, sc_allIntegerValue2 = None, sc_stringValue = [], sc_stringEncoding = [], sc_caseSensitive = True,
     sc_byteArray = [], sc_byteArrayMask = [], sc_byteMask = [], sc_binaryString = [], sc_groupedTerms = [],
     sc_groupedExpression = [], sc_customFormula = [], sc_customValueSize = 4\<rparr>"

section \<open>Literals\<close>

definition needsLiteral :: "'d ScanConfig \<Rightarrow> bool" where
  "needsLiteral config =
    (if sc_percentageScan config \<and> sc_compareType config \<in> {SC_Greater, SC_Less, SC_Between, SC_Increased, SC_Decreased} then False
     else sc_compareType config \<in> {SC_Exact, SC_Greater, SC_Less, SC_Between, SC_IncreasedBy, SC_DecreasedBy})"

definition parseAllValues :: "'d fp \<Rightarrow> 'd ScanConfig \<Rightarrow> string \<Rightarrow> string \<Rightarrow> bool \<Rightarrow> bool \<times> 'd ScanConfig" where
  "parseAllValues fp config first second hex =
    (if \<not> needsLiteral config then (True, config\<lparr>sc_allIntegerValue := None, sc_allIntegerValue2 := None\<rparr>)
     else let between = (sc_compareType config = SC_Between);
              lower = parseNumber fp first hex;
              upper = (if between then parseNumber fp second hex else None)
       in case lower of
            None \<Rightarrow> (False, config)
          | Some lo \<Rightarrow>
              if between \<and> upper = None then (False, config)
              else let c = config\<lparr>sc_allIntegerValue := Some (integer lo), sc_intValue := integerHint (integer lo),
                             sc_floatValue := floating lo, sc_floatDecimals := int (decimals lo),
                             sc_allIntegerValue2 := map_option integer upper\<rparr>
                in (True, case upper of
                      None \<Rightarrow> c
                    | Some up \<Rightarrow> c\<lparr>sc_intValue2 := integerHint (integer up), sc_floatValue2 := floating up\<rparr>))"

definition parseFloatingValues :: "'d fp \<Rightarrow> 'd ScanConfig \<Rightarrow> string \<Rightarrow> string \<Rightarrow> bool \<times> 'd ScanConfig" where
  "parseFloatingValues fp config first second =
    (if \<not> needsLiteral config then (True, config)
     else let between = (sc_compareType config = SC_Between);
              lower = parseNumber fp first False;
              upper = (if between then parseNumber fp second False else None)
       in case lower of
            None \<Rightarrow> (False, config)
          | Some lo \<Rightarrow>
              if between \<and> upper = None then (False, config)
              else let c = config\<lparr>sc_floatValue := floating lo, sc_floatDecimals := int (decimals lo)\<rparr>
                in (True, case upper of None \<Rightarrow> c | Some up \<Rightarrow> c\<lparr>sc_floatValue2 := floating up\<rparr>))"

section \<open>Tokens\<close>

definition trimCopy :: "string \<Rightarrow> string" where
  "trimCopy value = rev (dropWhile is_space (rev (dropWhile is_space value)))"

definition lowerCopy :: "string \<Rightarrow> string" where
  "lowerCopy value = map lower_ascii value"

definition unquoteCopy :: "string \<Rightarrow> string" where
  "unquoteCopy value =
    (let trimmed = trimCopy value in
     if length trimmed \<ge> 2 \<and> (hd trimmed = CHR 0x22 \<and> last trimmed = CHR 0x22 \<or> hd trimmed = CHR 0x27 \<and> last trimmed = CHR 0x27)
     then butlast (tl trimmed) else trimmed)"

text \<open>The text a \<^verbatim>\<open>c_str\<close> shows, and \<^verbatim>\<open>strtoll(text, &end, 0)\<close> next to the \<^verbatim>\<open>strtoull\<close> of the text theory.\<close>

definition c_str :: "string \<Rightarrow> string" where
  "c_str s = takeWhile (\<lambda>c. c \<noteq> CHR 0x00) s"

definition strtoll0 :: "string \<Rightarrow> int \<times> string \<times> bool" where
  "strtoll0 s =
    (let t = dropWhile is_space s;
         neg = (t \<noteq> [] \<and> hd t = CHR ''-'');
         u = (if t \<noteq> [] \<and> (hd t = CHR ''-'' \<or> hd t = CHR ''+'') then tl t else t);
         hexp = (length u \<ge> 3 \<and> u ! 0 = CHR ''0'' \<and> (u ! 1 = CHR ''x'' \<or> u ! 1 = CHR ''X'') \<and> is_digit_of 16 (u ! 2));
         base = (if hexp then 16 else if u \<noteq> [] \<and> hd u = CHR ''0'' then 8 else 10);
         body = (if hexp then drop 2 u else u);
         ds = takeWhile (is_digit_of base) body
     in if ds = [] then (0, s, False)
        else let n = int (run_value base ds); v = (if neg then - n else n); rest = dropWhile (is_digit_of base) body in
          if v \<ge> 2 ^ 63 then (2 ^ 63 - 1, rest, True)
          else if v < - (2 ^ 63) then (- (2 ^ 63), rest, True)
          else (v, rest, False))"

definition parseInt64Token :: "string \<Rightarrow> int option" where
  "parseInt64Token text =
    (let token = trimCopy text in
     if token = [] then None
     else case strtoll0 (c_str token) of (parsed, rest, erange) \<Rightarrow>
       if erange \<or> length rest = length (c_str token) \<or> rest \<noteq> [] then None else Some parsed)"

definition parseSizeToken :: "string \<Rightarrow> nat option" where
  "parseSizeToken text =
    (let token = trimCopy text in
     if token = [] then None
     else case strtoull0 (c_str token) of (parsed, rest, erange) \<Rightarrow>
       if erange \<or> length rest = length (c_str token) \<or> rest \<noteq> [] then None else Some (unat parsed))"

definition parseDoubleToken :: "'d fp \<Rightarrow> string \<Rightarrow> 'd option" where
  "parseDoubleToken fp text =
    (let token = map (\<lambda>c. if c = CHR '','' then CHR ''.'' else c) (trimCopy text) in
     if token = [] then None
     else fp_from_chars fp (if hd token = CHR ''+'' then tl token else token))"

section \<open>Encodings\<close>

definition isUtf8Encoding :: "string \<Rightarrow> bool" where
  "isUtf8Encoding encoding = (let normalized = lowerCopy (trimCopy encoding) in normalized = [] \<or> normalized = ''utf8'' \<or> normalized = ''utf-8'')"

text \<open>
  \<^verbatim>\<open>iconv\<close> from UTF-8 to an encoding: \<^const>\<open>None\<close> when the encoding cannot be opened, \<open>Some None\<close> when the text
  does not convert.
\<close>

type_synonym iconv = "string \<Rightarrow> string \<Rightarrow> byte list option option"

definition text_bytes :: "string \<Rightarrow> byte list" where
  "text_bytes s = map (\<lambda>c. of_nat (char_code c)) s"

definition encodeStringBytes :: "iconv \<Rightarrow> string \<Rightarrow> string \<Rightarrow> string + byte list" where
  "encodeStringBytes iconv text encoding =
    (if isUtf8Encoding encoding then Inr (text_bytes text)
     else case iconv encoding text of
       None \<Rightarrow> Inl (''unsupported string encoding: '' @ encoding)
     | Some None \<Rightarrow> Inl (''string encoding conversion failed for '' @ encoding)
     | Some (Some bs) \<Rightarrow> Inr bs)"

definition utf16Bytes :: "iconv \<Rightarrow> string \<Rightarrow> ByteOrder \<Rightarrow> string + byte list" where
  "utf16Bytes iconv text order = encodeStringBytes iconv text (if order = BO_Big then ''UTF-16BE'' else ''UTF-16LE'')"

definition upper_ascii :: "char \<Rightarrow> char" where
  "upper_ascii c = (if 97 \<le> char_code c \<and> char_code c \<le> 122 then char_of (char_code c - 32) else c)"

definition encodingUnitWidth :: "string \<Rightarrow> nat" where
  "encodingUnitWidth encoding =
    (let upper = map upper_ascii encoding;
         dash = (\<lambda>p s. if take 3 s = p \<and> take 4 s \<noteq> p @ ''-'' then p @ ''-'' @ drop 3 s else s);
         upper = dash ''UCS'' (dash ''UTF'' upper)
     in if upper \<in> set [''UTF-16'', ''UTF-16LE'', ''UTF-16BE'', ''UCS-2'', ''UCS-2LE'', ''UCS-2BE'', ''UCS-2-INTERNAL'', ''UCS-2-SWAPPED''] then 2
        else if upper \<in> set [''UTF-32'', ''UTF-32LE'', ''UTF-32BE'', ''UCS-4'', ''UCS-4LE'', ''UCS-4BE'', ''UCS-4-INTERNAL'', ''UCS-4-SWAPPED''] then 4
        else 1)"

section \<open>Byte patterns\<close>

text \<open>The nibble of a character: its value, its mask and whether it is legal.\<close>

definition nib :: "char \<Rightarrow> byte \<times> byte \<times> bool" where
  "nib c =
    (if c = CHR ''?'' \<or> c = CHR ''*'' then (0, 0, True)
     else case digit_value c of Some d \<Rightarrow> (of_nat d, 0xF, True) | None \<Rightarrow> (0, 0, False))"

definition isHex :: "char \<Rightarrow> bool" where
  "isHex c = (digit_value c \<noteq> None)"

text \<open>The whitespace-separated words of a text, as \<^verbatim>\<open>>>\<close> reads them.\<close>

function words :: "string \<Rightarrow> string list" where
  "words s =
    (let t = dropWhile is_space s
     in if t = [] then [] else takeWhile (\<lambda>c. \<not> is_space c) t # words (dropWhile (\<lambda>c. \<not> is_space c) t))"
  by auto

termination
proof (relation "measure length", goal_cases)
  case (2 s t)
  obtain c cs where t: "t = c # cs" using 2 by (meson list.exhaust)
  have "\<not> is_space (hd t)" using 2 hd_dropWhile [of is_space s] by metis
  with t have "\<not> is_space c" by simp
  then have "length (dropWhile (\<lambda>c. \<not> is_space c) t) < length t"
    using length_dropWhile_le [of "\<lambda>c. \<not> is_space c" cs] by (simp add: t)
  also have "\<dots> \<le> length s" by (simp add: 2 length_dropWhile_le)
  finally show ?case by simp
qed simp

declare words.simps [simp del]

type_synonym aob_state = "bool \<times> byte list \<times> byte list"

definition push_pair :: "char \<Rightarrow> char \<Rightarrow> aob_state \<Rightarrow> aob_state" where
  "push_pair h l st =
    (case st of (valid, bs, ms) \<Rightarrow>
     case nib h of (hv, hm, hok) \<Rightarrow> case nib l of (lv, lm, lok) \<Rightarrow>
       (valid \<and> hok \<and> lok, bs @ [push_bit 4 hv OR lv], ms @ [push_bit 4 hm OR lm]))"

fun push_pairs :: "string \<Rightarrow> aob_state \<Rightarrow> aob_state" where
  "push_pairs (h # l # cs) st = push_pairs cs (push_pair h l st)"
| "push_pairs cs st = st"

definition aob_token :: "string \<Rightarrow> aob_state \<Rightarrow> aob_state" where
  "aob_token token st =
    (case st of (valid, bs, ms) \<Rightarrow>
     if token = ''??'' \<or> token = ''?'' \<or> token = ''*'' then (valid, bs @ [0], ms @ [0])
     else if length token = 2 then push_pair (token ! 0) (token ! 1) st
     else if length token > 2 then
       (let valid = (valid \<and> list_all isHex token) in
        if \<not> valid \<or> length token mod 2 \<noteq> 0 then (False, bs, ms) else push_pairs token (valid, bs, ms))
     else (valid \<and> list_all isHex token, bs @ [of_nat (digit_or_0 (token ! 0))], ms @ [0xFF]))"

definition parseAOB :: "'d ScanConfig \<Rightarrow> string \<Rightarrow> bool \<times> 'd ScanConfig" where
  "parseAOB config pattern =
    (case foldl (\<lambda>st token. aob_token token st) (True, [], []) (words pattern) of (valid, bs, ms) \<Rightarrow>
       (valid \<and> bs \<noteq> [], config\<lparr>sc_byteArray := bs, sc_byteArrayMask := ms\<rparr>))"

text \<open>One character of a binary pattern: the finished bytes and masks, then the open byte, its mask and its bits.\<close>

definition binary_char :: "char \<Rightarrow> byte list \<times> byte list \<times> byte \<times> byte \<times> nat \<Rightarrow> byte list \<times> byte list \<times> byte \<times> byte \<times> nat" where
  "binary_char c st =
    (case st of (bs, ms, currentByte, currentMask, bitCount) \<Rightarrow>
     if c = CHR ''0'' \<or> c = CHR ''1'' \<or> c = CHR ''?'' \<or> c = CHR ''*'' then
       let b = push_bit 1 currentByte OR (if c = CHR ''1'' then 1 else 0);
           m = push_bit 1 currentMask OR (if c = CHR ''1'' \<or> c = CHR ''0'' then 1 else 0)
       in if bitCount + 1 = 8 then (bs @ [b], ms @ [m], 0, 0, 0) else (bs, ms, b, m, bitCount + 1)
     else st)"

definition parseBinary :: "'d ScanConfig \<Rightarrow> string \<Rightarrow> 'd ScanConfig" where
  "parseBinary config pattern =
    (case foldl (\<lambda>st c. binary_char c st) ([], [], 0, 0, 0) pattern of (bs, ms, b, m, n) \<Rightarrow>
       let bs' = (if n > 0 then bs @ [push_bit (8 - n) b] else bs);
           ms' = (if n > 0 then ms @ [push_bit (8 - n) m] else ms)
       in config\<lparr>sc_byteArray := bs', sc_byteMask := ms', sc_binaryString := pattern, sc_byteArrayMask := ms'\<rparr>)"

section \<open>Grouped expressions\<close>

definition groupedTermValueSize :: "iconv \<Rightarrow> 'd GroupedTerm \<Rightarrow> nat \<Rightarrow> string + nat" where
  "groupedTermValueSize iconv tm width =
    (case gt_valueType tm of
       VT_Byte \<Rightarrow> Inr 1
     | VT_Int16 \<Rightarrow> Inr 2
     | VT_Int32 \<Rightarrow> Inr 4
     | VT_Float \<Rightarrow> Inr 4
     | VT_Pointer \<Rightarrow> Inr width
     | VT_Int64 \<Rightarrow> Inr 8
     | VT_Double \<Rightarrow> Inr 8
     | VT_String \<Rightarrow> Inr (max 1 (length (gt_stringValue tm)))
     | VT_UnicodeString \<Rightarrow>
         (case utf16Bytes iconv (gt_stringValue tm) BO_Little of Inl e \<Rightarrow> Inl e | Inr bs \<Rightarrow> Inr (max 2 (length bs)))
     | VT_ByteArray \<Rightarrow> Inr (max 1 (length (gt_byteArray tm)))
     | VT_Binary \<Rightarrow> Inr (max 1 (length (gt_byteArray tm)))
     | _ \<Rightarrow> Inr 0)"

fun fields :: "char \<Rightarrow> string \<Rightarrow> string list" where
  "fields sep [] = [[]]"
| "fields sep (c # cs) =
    (if c = sep then [] # fields sep cs
     else case fields sep cs of f # fs \<Rightarrow> (c # f) # fs | [] \<Rightarrow> [[c]])"

definition before_first :: "char \<Rightarrow> string \<Rightarrow> string" where
  "before_first c s = takeWhile (\<lambda>x. x \<noteq> c) s"

definition after_first :: "char \<Rightarrow> string \<Rightarrow> string" where
  "after_first c s = tl (dropWhile (\<lambda>x. x \<noteq> c) s)"

definition before_last :: "char \<Rightarrow> string \<Rightarrow> string" where
  "before_last c s = rev (tl (dropWhile (\<lambda>x. x \<noteq> c) (rev s)))"

text \<open>A failed parse is reported, an unknown character set inside it throws.\<close>

datatype grouped_error = Reported string | Thrown string

definition term_number :: "nat \<Rightarrow> string" where
  "term_number i = show_base 10 i"

definition integer_term :: "ValueType \<Rightarrow> string \<Rightarrow> string \<Rightarrow> nat \<Rightarrow> 'd GroupedTerm \<Rightarrow> grouped_error + 'd GroupedTerm" where
  "integer_term vt name value i tm =
    (case parseInt64Token value of
       None \<Rightarrow> Inl (Reported (''invalid '' @ name @ '' value in grouped term '' @ term_number i))
     | Some v \<Rightarrow> Inr (tm\<lparr>gt_valueType := vt, gt_intValue := v\<rparr>))"

definition floating_term :: "'d fp \<Rightarrow> ValueType \<Rightarrow> string \<Rightarrow> string \<Rightarrow> nat \<Rightarrow> 'd GroupedTerm \<Rightarrow> grouped_error + 'd GroupedTerm" where
  "floating_term fp vt name value i tm =
    (case parseDoubleToken fp value of
       None \<Rightarrow> Inl (Reported (''invalid '' @ name @ '' value in grouped term '' @ term_number i))
     | Some v \<Rightarrow> Inr (tm\<lparr>gt_valueType := vt, gt_floatValue := v\<rparr>))"

definition text_term :: "ValueType \<Rightarrow> string \<Rightarrow> string \<Rightarrow> nat \<Rightarrow> 'd GroupedTerm \<Rightarrow> grouped_error + 'd GroupedTerm" where
  "text_term vt name value i tm =
    (let s = unquoteCopy value in
     if s = [] then Inl (Reported (''empty '' @ name @ '' in grouped term '' @ term_number i))
     else Inr (tm\<lparr>gt_valueType := vt, gt_stringValue := s\<rparr>))"

text \<open>The value of a term by the name of its type. The pattern parser's verdict on a byte array is not used.\<close>

definition term_value :: "'d fp \<Rightarrow> string \<Rightarrow> string \<Rightarrow> nat \<Rightarrow> 'd GroupedTerm \<Rightarrow> grouped_error + 'd GroupedTerm" where
  "term_value fp typeToken valueToken i tm =
    (if typeToken \<in> set [''byte'', ''i8'', ''int8'', ''1''] then integer_term VT_Byte ''byte'' valueToken i tm
     else if typeToken \<in> set [''i16'', ''int16'', ''short'', ''word'', ''2''] then integer_term VT_Int16 ''i16'' valueToken i tm
     else if typeToken \<in> set [''i32'', ''int32'', ''dword'', ''int'', ''4''] then integer_term VT_Int32 ''i32'' valueToken i tm
     else if typeToken \<in> set [''i64'', ''int64'', ''long'', ''qword'', ''8''] then integer_term VT_Int64 ''i64'' valueToken i tm
     else if typeToken \<in> set [''pointer'', ''ptr''] then integer_term VT_Pointer ''pointer'' valueToken i tm
     else if typeToken \<in> set [''float'', ''single''] then floating_term fp VT_Float ''float'' valueToken i tm
     else if typeToken = ''double'' then floating_term fp VT_Double ''double'' valueToken i tm
     else if typeToken \<in> set [''string'', ''str''] then text_term VT_String ''string'' valueToken i tm
     else if typeToken \<in> set [''unicode'', ''utf16'', ''wstring''] then text_term VT_UnicodeString ''unicode string'' valueToken i tm
     else if typeToken \<in> set [''aob'', ''bytearray''] then
       (let temp = snd (parseAOB (new_config fp) valueToken) in
        if sc_byteArray temp = [] then Inl (Reported (''empty AOB pattern in grouped term '' @ term_number i))
        else Inr (tm\<lparr>gt_valueType := VT_ByteArray, gt_byteArray := sc_byteArray temp, gt_byteArrayMask := sc_byteArrayMask temp\<rparr>))
     else if typeToken \<in> set [''binary'', ''bin''] then
       (let temp = parseBinary (new_config fp) valueToken in
        if sc_byteArray temp = [] then Inl (Reported (''empty binary pattern in grouped term '' @ term_number i))
        else Inr (tm\<lparr>gt_valueType := VT_Binary, gt_byteArray := sc_byteArray temp, gt_byteMask := sc_byteMask temp,
                       gt_byteArrayMask := sc_byteArrayMask temp\<rparr>))
     else Inl (Reported (''unknown grouped value type '' @ [CHR 0x27] @ typeToken @ [CHR 0x27] @ '' in term '' @ term_number i)))"

definition grouped_term :: "'d fp \<Rightarrow> iconv \<Rightarrow> string \<Rightarrow> nat \<Rightarrow> grouped_error + 'd GroupedTerm" where
  "grouped_term fp iconv termText i =
    (if CHR ''@'' \<notin> set termText then Inl (Reported (''missing @offset in grouped term '' @ term_number i))
     else let lhs = trimCopy (before_last (CHR ''@'') termText);
              offsetToken = trimCopy (after_last (CHR ''@'') termText) in
     case parseSizeToken offsetToken of
       None \<Rightarrow> Inl (Reported (''invalid offset in grouped term '' @ term_number i))
     | Some off \<Rightarrow>
         if CHR '':'' \<notin> set lhs then Inl (Reported (''missing type:value in grouped term '' @ term_number i))
         else let typeToken = lowerCopy (trimCopy (before_first (CHR '':'') lhs));
                  valueToken = trimCopy (after_first (CHR '':'') lhs) in
         if valueToken = [] then Inl (Reported (''missing value in grouped term '' @ term_number i))
         else case term_value fp typeToken valueToken i ((new_term fp)\<lparr>gt_offset := off\<rparr>) of
           Inl e \<Rightarrow> Inl e
         | Inr tm \<Rightarrow>
             (case groupedTermValueSize iconv tm 8 of
                Inl e \<Rightarrow> Inl (Thrown e)
              | Inr termSize \<Rightarrow>
                  if termSize = 0 then Inl (Reported (''unsupported grouped value type in term '' @ term_number i))
                  else if gt_offset tm > 2 ^ 64 - 1 - termSize then Inl (Reported (''offset overflow in grouped term '' @ term_number i))
                  else Inr tm))"

text \<open>The terms read so far and, when one of them is wrong, the error.\<close>

fun grouped_terms :: "'d fp \<Rightarrow> iconv \<Rightarrow> nat \<Rightarrow> string list \<Rightarrow> 'd GroupedTerm list \<Rightarrow> grouped_error option \<times> 'd GroupedTerm list" where
  "grouped_terms fp iconv i [] acc = (None, acc)"
| "grouped_terms fp iconv i (raw # raws) acc =
    (let termText = trimCopy raw in
     if termText = [] then grouped_terms fp iconv i raws acc
     else case grouped_term fp iconv termText (Suc i) of
       Inl e \<Rightarrow> (Some e, acc)
     | Inr tm \<Rightarrow> grouped_terms fp iconv (Suc i) raws (acc @ [tm]))"

definition parseGrouped :: "'d fp \<Rightarrow> iconv \<Rightarrow> 'd ScanConfig \<Rightarrow> string \<Rightarrow> (grouped_error + unit) \<times> 'd ScanConfig" where
  "parseGrouped fp iconv config expression =
    (let config = config\<lparr>sc_groupedTerms := [], sc_groupedExpression := expression\<rparr>;
         expr = trimCopy expression in
     if expr = [] then (Inl (Reported ''grouped expression is empty''), config)
     else case grouped_terms fp iconv 0 (fields (CHR '';'') expr) [] of
       (Some (Reported e), terms) \<Rightarrow> (Inl (Reported e), config)
     | (Some (Thrown e), terms) \<Rightarrow> (Inl (Thrown e), config\<lparr>sc_groupedTerms := terms\<rparr>)
     | (None, terms) \<Rightarrow>
         if terms = [] then (Inl (Reported ''grouped expression produced no terms''), config)
         else (Inr (), config\<lparr>sc_groupedTerms := terms\<rparr>))"

section \<open>Sizes of a match\<close>

fun grouped_block :: "iconv \<Rightarrow> nat \<Rightarrow> 'd GroupedTerm list \<Rightarrow> nat \<Rightarrow> string + nat" where
  "grouped_block iconv width [] blockSize = Inr blockSize"
| "grouped_block iconv width (tm # terms) blockSize =
    (case groupedTermValueSize iconv tm width of
       Inl e \<Rightarrow> Inl e
     | Inr termSize \<Rightarrow>
         if termSize = 0 then grouped_block iconv width terms blockSize
         else if gt_offset tm > 2 ^ 64 - 1 - termSize then Inr 0
         else grouped_block iconv width terms (max blockSize (gt_offset tm + termSize)))"

definition groupedValueSize :: "iconv \<Rightarrow> 'd ScanConfig \<Rightarrow> string + nat" where
  "groupedValueSize iconv config =
    grouped_block iconv (if sc_pointerWidth config \<noteq> 0 then sc_pointerWidth config else 8) (sc_groupedTerms config) 0"

definition stringValueSize :: "iconv \<Rightarrow> 'd ScanConfig \<Rightarrow> string + nat" where
  "stringValueSize iconv config =
    (case encodeStringBytes iconv (sc_stringValue config) (sc_stringEncoding config) of Inl e \<Rightarrow> Inl e | Inr bs \<Rightarrow> Inr (length bs))"

definition valueSizeForConfig :: "iconv \<Rightarrow> 'd ScanConfig \<Rightarrow> string + nat" where
  "valueSizeForConfig iconv config =
    (case sc_valueType config of
       VT_String \<Rightarrow> (case stringValueSize iconv config of Inl e \<Rightarrow> Inl e | Inr n \<Rightarrow> Inr (max 1 n))
     | VT_UnicodeString \<Rightarrow>
         (case utf16Bytes iconv (sc_stringValue config) (sc_byteOrder config) of Inl e \<Rightarrow> Inl e | Inr bs \<Rightarrow> Inr (max 2 (length bs)))
     | VT_ByteArray \<Rightarrow> Inr (max 1 (length (sc_byteArray config)))
     | VT_Binary \<Rightarrow> Inr (max 1 (length (sc_byteArray config)))
     | VT_All \<Rightarrow> Inr 8
     | VT_Grouped \<Rightarrow> (case groupedValueSize iconv config of Inl e \<Rightarrow> Inl e | Inr n \<Rightarrow> Inr (max 1 n))
     | VT_Custom \<Rightarrow> Inr (max 1 (sc_customValueSize config))
     | VT_Byte \<Rightarrow> Inr 1
     | VT_Int16 \<Rightarrow> Inr 2
     | VT_Int32 \<Rightarrow> Inr 4
     | VT_Float \<Rightarrow> Inr 4
     | VT_Pointer \<Rightarrow> Inr (sc_pointerWidth config)
     | VT_Int64 \<Rightarrow> Inr 8
     | VT_Double \<Rightarrow> Inr 8)"

definition memoryTypeAllowed :: "'d ScanConfig \<Rightarrow> MemType \<Rightarrow> bool" where
  "memoryTypeAllowed config t =
    (case t of MT_Private \<Rightarrow> sc_scanPrivate config | MT_Image \<Rightarrow> sc_scanImage config | MT_Mapped \<Rightarrow> sc_scanMapped config)"

section \<open>Adjusting a request to the target\<close>

definition scanNeedsByteOrder :: "'d ScanConfig \<Rightarrow> bool" where
  "scanNeedsByteOrder config =
    (if sc_valueType config = VT_Grouped then
       list_ex (\<lambda>tm. gt_valueType tm \<noteq> VT_Byte \<and> gt_valueType tm \<noteq> VT_ByteArray \<and> gt_valueType tm \<noteq> VT_String \<and> gt_valueType tm \<noteq> VT_Binary)
         (sc_groupedTerms config)
     else sc_valueType config \<notin> {VT_Byte, VT_ByteArray, VT_Binary, VT_String, VT_Custom})"

definition scanNeedsPointerWidth :: "'d ScanConfig \<Rightarrow> bool" where
  "scanNeedsPointerWidth config =
    (sc_valueType config = VT_Pointer \<or> list_ex (\<lambda>tm. gt_valueType tm = VT_Pointer) (sc_groupedTerms config))"

text \<open>The limits of \<^verbatim>\<open>checkIntegerRange\<close> with the name of the type, when there are any.\<close>

definition integer_limits :: "ValueType \<Rightarrow> ScanCompare \<Rightarrow> (string \<times> int \<times> int) option" where
  "integer_limits vt cmp =
    (let limits = (\<lambda>name bits unsignedCompare.
         let signedMin = - (2 ^ (bits - 1)); signedMax = 2 ^ (bits - 1) - 1; unsignedMax = 2 ^ bits - 1 in
         if cmp = SC_Exact then Some (name, signedMin, unsignedMax)
         else if cmp \<in> {SC_Greater, SC_Less, SC_Between} then
           Some (name, if unsignedCompare then 0 else signedMin, if unsignedCompare then unsignedMax else signedMax)
         else if cmp \<in> {SC_IncreasedBy, SC_DecreasedBy} then Some (name, - unsignedMax, unsignedMax)
         else None)
     in case vt of
          VT_Byte \<Rightarrow> limits ''Byte'' (8 :: nat) True
        | VT_Int16 \<Rightarrow> limits ''2 Bytes'' 16 False
        | VT_Int32 \<Rightarrow> limits ''4 Bytes'' 32 False
        | _ \<Rightarrow> None)"

definition checkIntegerRange :: "'d ScanConfig \<Rightarrow> string + unit" where
  "checkIntegerRange config =
    (case integer_limits (sc_valueType config) (sc_compareType config) of
       None \<Rightarrow> Inr ()
     | Some (name, low, high) \<Rightarrow>
         let check = (\<lambda>v. if v < low \<or> v > high
                then Inl (show_int v @ '' does not fit in '' @ name @ '' for this scan ('' @ show_int low @ '' to '' @ show_int high @ '')'')
                else Inr ())
         in case check (sc_intValue config) of
              Inl e \<Rightarrow> Inl e
            | Inr _ \<Rightarrow> if sc_compareType config = SC_Between then check (sc_intValue2 config) else Inr ())"

definition flip_compare :: "ScanCompare \<Rightarrow> ScanCompare" where
  "flip_compare c = (if c = SC_IncreasedBy then SC_DecreasedBy else SC_IncreasedBy)"

text \<open>A negative amount of change turned into a positive one of the other direction.\<close>

definition normalise_amount :: "'d fp \<Rightarrow> 'd ScanConfig \<Rightarrow> string + 'd ScanConfig" where
  "normalise_amount fp config =
    (if sc_compareType config = SC_IncreasedBy \<or> sc_compareType config = SC_DecreasedBy then
       if sc_valueType config = VT_Float \<or> sc_valueType config = VT_Double then
         (if fp_below_zero fp (sc_floatValue config)
          then Inr (config\<lparr>sc_floatValue := fp_negate fp (sc_floatValue config), sc_compareType := flip_compare (sc_compareType config)\<rparr>)
          else Inr config)
       else if sc_intValue config < 0 then
         (if sc_intValue config = - (2 ^ 63) then Inl ''The amount changed by is out of range''
          else let c = config\<lparr>sc_intValue := - sc_intValue config\<rparr>;
                   c = (if sc_valueType c = VT_All \<and> fp_below_zero fp (sc_floatValue c)
                        then c\<lparr>sc_floatValue := fp_negate fp (sc_floatValue c)\<rparr> else c)
               in Inr (c\<lparr>sc_compareType := flip_compare (sc_compareType config)\<rparr>))
       else Inr config
     else Inr config)"

fun encode_terms :: "iconv \<Rightarrow> ByteOrder \<Rightarrow> 'd GroupedTerm list \<Rightarrow> string + 'd GroupedTerm list" where
  "encode_terms iconv order [] = Inr []"
| "encode_terms iconv order (tm # tms) =
    (case (if gt_valueType tm = VT_UnicodeString
           then case utf16Bytes iconv (gt_stringValue tm) order of Inl e \<Rightarrow> Inl e | Inr bs \<Rightarrow> Inr (tm\<lparr>gt_byteArray := bs\<rparr>)
           else Inr tm) of
       Inl e \<Rightarrow> Inl e
     | Inr tm' \<Rightarrow> (case encode_terms iconv order tms of Inl e \<Rightarrow> Inl e | Inr tms' \<Rightarrow> Inr (tm' # tms')))"

definition pointer_fits :: "'d ScanConfig \<Rightarrow> bool" where
  "pointer_fits config =
    (let fits = (\<lambda>v. 0 \<le> v \<and> v < (2 ^ 32 :: int));
         ordered = (sc_compareType config \<in> {SC_Exact, SC_Greater, SC_Less, SC_Between})
     in \<not> (ordered \<and> (\<not> fits (sc_intValue config) \<or> (sc_compareType config = SC_Between \<and> \<not> fits (sc_intValue2 config)))))"

definition targetScanConfig :: "'d fp \<Rightarrow> iconv \<Rightarrow> TargetDescription \<Rightarrow> 'd ScanConfig \<Rightarrow> string + 'd ScanConfig \<times> bool" where
  "targetScanConfig fp iconv description requested =
    (case checkIntegerRange requested of
       Inl e \<Rightarrow> Inl e
     | Inr _ \<Rightarrow>
       let gdbTarget = (transport description = TT_Gdb \<or> transport description = TT_CEServer) in
       if \<not> live description then Inl ''Scan target disconnected or exited''
       else if sc_startAddress requested > sc_stopAddress requested then Inl ''Scan From must not exceed To''
       else let config = requested;
                config = (if sc_byteOrder config = BO_Unknown then config\<lparr>sc_byteOrder := byteOrder (program description)\<rparr> else config) in
       if scanNeedsByteOrder config \<and> sc_byteOrder config = BO_Unknown then
         Inl ''Target data byte order is unknown; select the scan byte order explicitly''
       else let config = (if sc_pointerWidth config = 0 then config\<lparr>sc_pointerWidth := pointerWidth (program description)\<rparr> else config) in
       if sc_pointerWidth config \<noteq> 0 \<and> sc_pointerWidth config \<noteq> 4 \<and> sc_pointerWidth config \<noteq> 8 then
         Inl ''Scan pointer width must be 4 or 8 bytes''
       else if scanNeedsPointerWidth config \<and> sc_pointerWidth config = 0 then
         Inl ''Target pointer width is unknown; select the scan pointer width explicitly''
       else case encode_terms iconv (sc_byteOrder config) (sc_groupedTerms config) of
         Inl e \<Rightarrow> Inl e
       | Inr terms \<Rightarrow>
         (case normalise_amount fp (config\<lparr>sc_groupedTerms := terms\<rparr>) of
            Inl e \<Rightarrow> Inl e
          | Inr config \<Rightarrow>
              if sc_valueType config = VT_Pointer \<and> sc_pointerWidth config = 4 \<and> \<not> pointer_fits config then
                Inl ''The search value does not fit a 4-byte pointer (0 to 0xFFFFFFFF)''
              else Inr (config, gdbTarget)))"

section \<open>Properties\<close>

subsection \<open>Byte patterns\<close>

text \<open>A pattern as it is written: a byte with a mask that takes whole nibbles.\<close>

definition nibble_text :: "byte \<Rightarrow> byte \<Rightarrow> char" where
  "nibble_text v m = (if m = 0 then CHR ''?'' else digit_char (unat v))"

definition aob_text :: "byte \<times> byte \<Rightarrow> string" where
  "aob_text p = [nibble_text (drop_bit 4 (fst p)) (drop_bit 4 (snd p)), nibble_text (fst p AND 0xF) (snd p AND 0xF)]"

definition aob_pattern :: "(byte \<times> byte) list \<Rightarrow> string" where
  "aob_pattern ps = concat (map (\<lambda>p. aob_text p @ '' '') ps)"

definition nibble_mask :: "byte \<Rightarrow> bool" where
  "nibble_mask m \<longleftrightarrow> m \<in> {0, 0x0F, 0xF0, 0xFF}"

lemma words_blank: "words [] = []"
  by (subst words.simps) simp

lemma words_word:
  assumes "t \<noteq> []" "\<forall>c \<in> set t. \<not> is_space c"
  shows "words (t @ CHR '' '' # s) = t # words s"
proof -
  have sp: "is_space (CHR '' '')" by (simp add: is_space_def char_code_def)
  have drop: "dropWhile is_space (t @ CHR '' '' # s) = t @ CHR '' '' # s"
    using assms by (cases t) auto
  have "takeWhile (\<lambda>c. \<not> is_space c) (t @ CHR '' '' # s) = t"
    "dropWhile (\<lambda>c. \<not> is_space c) (t @ CHR '' '' # s) = CHR '' '' # s"
    using assms(2) sp by (simp_all add: takeWhile_append2 dropWhile_append2)
  moreover have "words (CHR '' '' # s) = words s"
    using sp by (subst (1 2) words.simps) simp
  ultimately show ?thesis using assms(1) by (subst words.simps) (simp add: drop Let_def)
qed

lemma nibble_digit: "unat (v :: byte) < 16 \<Longrightarrow> digit_char (unat v) \<noteq> CHR ''?'' \<and> digit_char (unat v) \<noteq> CHR ''*'' \<and> \<not> is_space (digit_char (unat v))"
  by (erule less_16_cases) (simp_all add: digit_char_def is_space_def char_code_def)

lemma nib_nibble_text:
  assumes "unat v < 16" "m = 0 \<and> v = 0 \<or> m = 0xF"
  shows "nib (nibble_text v m) = (v, m, True)"
  using assms nibble_digit [OF assms(1)] by (auto simp: nib_def nibble_text_def)

lemma nibble_text_space: "unat v < 16 \<Longrightarrow> \<not> is_space (nibble_text v m)"
  using nibble_digit [of v] by (auto simp: nibble_text_def is_space_def char_code_def)

lemma nibbles_less: "unat (drop_bit 4 (b :: byte)) < 16" "unat (b AND 0xF) < 16"
proof -
  have "unat (drop_bit 4 b) = unat b div 16" by (simp add: drop_bit_eq_div unat_div)
  then show "unat (drop_bit 4 b) < 16" using unat_byte_less [of b] by (simp add: div_less_iff_less_mult)
  have "b AND 0xF \<le> 0xF" by (rule word_and_le1)
  then show "unat (b AND 0xF) < 16" by (simp add: word_le_nat_alt)
qed

lemma nibbles_join: "push_bit 4 (drop_bit 4 b) OR (b AND 0xF) = (b :: byte)"
proof -
  have "(0xF :: byte) = mask 4" by (simp add: mask_eq_exp_minus_1)
  then show ?thesis
    by (auto simp: bit_eq_iff bit_or_iff bit_push_bit_iff bit_drop_bit_eq bit_and_iff bit_mask_iff)
qed

lemma nibble_mask_parts:
  assumes "nibble_mask m" "b AND m = b"
  shows "drop_bit 4 m = 0 \<and> drop_bit 4 b = 0 \<or> drop_bit 4 m = 0xF" "m AND 0xF = 0 \<and> b AND 0xF = 0 \<or> m AND 0xF = 0xF"
proof -
  have "drop_bit 4 (b AND m) = drop_bit 4 b AND drop_bit 4 m" "(b AND m) AND 0xF = (b AND 0xF) AND (m AND 0xF)"
    by (rule drop_bit_and, auto simp: bit_eq_iff bit_and_iff)
  then have d: "drop_bit 4 b = drop_bit 4 b AND drop_bit 4 m" "b AND 0xF = (b AND 0xF) AND (m AND 0xF)"
    unfolding assms(2) .
  have m: "drop_bit 4 m = 0 \<or> drop_bit 4 m = 0xF" "m AND 0xF = 0 \<or> m AND 0xF = 0xF"
    using assms(1) by (auto simp: nibble_mask_def)
  show "drop_bit 4 m = 0 \<and> drop_bit 4 b = 0 \<or> drop_bit 4 m = 0xF" using m(1) d(1) by auto
  show "m AND 0xF = 0 \<and> b AND 0xF = 0 \<or> m AND 0xF = 0xF" using m(2) d(2) by auto
qed

lemma aob_token_text:
  assumes "nibble_mask (snd p)" "fst p AND snd p = fst p"
  shows "aob_token (aob_text p) (True, bs, ms) = (True, bs @ [fst p], ms @ [snd p])"
proof -
  obtain b m where p: "p = (b, m)" by (cases p)
  note parts = nibble_mask_parts [of m b]
  have pair: "push_pair (nibble_text (drop_bit 4 b) (drop_bit 4 m)) (nibble_text (b AND 0xF) (m AND 0xF)) (True, bs, ms) =
      (True, bs @ [b], ms @ [m])"
    using assms parts nib_nibble_text [OF nibbles_less(1) [of b], of "drop_bit 4 m"]
      nib_nibble_text [OF nibbles_less(2) [of b], of "m AND 0xF"]
    by (auto simp: p push_pair_def nibbles_join)
  show ?thesis
  proof (cases "aob_text p = ''??''")
    case True
    then have "push_pair (CHR ''?'') (CHR ''?'') (True, bs, ms) = (True, bs @ [b], ms @ [m])"
      using pair by (simp add: aob_text_def p)
    then have "b = 0" "m = 0" by (simp_all add: push_pair_def nib_def)
    with True show ?thesis by (simp add: aob_token_def p)
  next
    case False
    have "length (aob_text p) = 2" by (simp add: aob_text_def)
    with False pair show ?thesis
      by (auto simp: aob_token_def) (simp_all add: aob_text_def p)
  qed
qed


definition toy_config :: "rat ScanConfig" where
  "toy_config = new_config toy_fp"


text \<open>
  A byte array inside a grouped expression is taken even when the pattern parser rejects it: the byte whose
  text is neither hexadecimal nor a wildcard matches everything.
\<close>

theorem grouped_pattern_typo_accepted:
  "fst (parseAOB toy_config ''48 zz'') = False"
  "fst (parseGrouped toy_fp iconv toy_config ''aob:48 zz@0'') = Inr ()"
  "map gt_byteArrayMask (sc_groupedTerms (snd (parseGrouped toy_fp iconv toy_config ''aob:48 zz@0''))) = [[0xFF, 0]]"
  by code_simp+

end
