(* ===== verification/ResidentPages.thy ===== *)
theory ResidentPages
  imports Memory
begin

text \<open>
  The runs of pages of a range that hold data (\<^verbatim>\<open>LinuxProcessHandle::residentRanges\<close> of
  \<^verbatim>\<open>platform/linux/linux_process.cpp\<close>), read from the page map of the process. A loop over addresses that wrap at
  the top of the address space may not end; the model returns \<^const>\<open>None\<close> then, and the theorem shows that it does
  not happen below the last page.
\<close>

unbundle bit_operations_syntax

section \<open>The runs of a range\<close>

text \<open>An entry of the page map: bit 63 says that the page is present, bit 62 that it is swapped out.\<close>

definition worth :: "u64 \<Rightarrow> bool" where
  "worth ent \<longleftrightarrow> bit ent 63 \<or> bit ent 62"

type_synonym run_state = "(u64 \<times> u64) list \<times> u64 \<times> bool"

text \<open>The end of a run, clipped to the range asked for.\<close>

definition endRun :: "u64 \<Rightarrow> u64 \<Rightarrow> u64 \<Rightarrow> u64 \<Rightarrow> (u64 \<times> u64) list" where
  "endRun base fin runStart runEnd = (let a = max runStart base; b = min runEnd fin in if b > a then [(a, b)] else [])"

fun scan_entries :: "u64 \<Rightarrow> u64 \<Rightarrow> u64 \<Rightarrow> u64 \<Rightarrow> u64 list \<Rightarrow> run_state \<Rightarrow> run_state" where
  "scan_entries pageSize base fin pageAddr [] st = st"
| "scan_entries pageSize base fin pageAddr (ent # es) (runs, runStart, inRun) =
    scan_entries pageSize base fin (pageAddr + pageSize) es
      (if worth ent \<and> \<not> inRun then (runs, pageAddr, True)
       else if \<not> worth ent \<and> inRun then (runs @ endRun base fin runStart pageAddr, runStart, False)
       else (runs, runStart, inRun))"

text \<open>
  \<open>entries p n\<close> is what the reads of \<open>n\<close> entries from page \<open>p\<close> on give, \<^const>\<open>None\<close> when one fails. The outer
  option is the loop that does not end, the inner one the failed read.
\<close>

partial_function (option) resident_loop ::
  "(u64 \<Rightarrow> nat \<Rightarrow> u64 list option) \<Rightarrow> u64 \<Rightarrow> u64 \<Rightarrow> u64 \<Rightarrow> u64 \<Rightarrow> run_state \<Rightarrow> run_state option option" where
  "resident_loop entries pageSize base fin addr st =
    (if addr < fin then
       let pagesLeft = (fin - addr + pageSize - 1) div pageSize;
           n = min 4096 (unat pagesLeft)
       in case entries (addr div pageSize) n of
            None \<Rightarrow> Some None
          | Some es \<Rightarrow> resident_loop entries pageSize base fin (addr + of_nat n * pageSize) (scan_entries pageSize base fin addr es st)
     else Some (Some st))"

text \<open>\<open>pageSize\<close> is the answer of \<^verbatim>\<open>sysconf\<close>; \<open>opened\<close> says that the process is the one attached to and its page map opens.\<close>

definition residentRanges ::
  "(u64 \<Rightarrow> nat \<Rightarrow> u64 list option) \<Rightarrow> int \<Rightarrow> bool \<Rightarrow> u64 \<Rightarrow> nat \<Rightarrow> (u64 \<times> u64) list option" where
  "residentRanges entries ps opened base n =
    (let whole = [(base, base + of_nat n)] in
     if ps \<le> 0 \<or> n = 0 then Some whole
     else if \<not> opened then Some whole
     else let pageSize = of_int ps;
              start = base AND NOT (pageSize - 1);
              fin = base + of_nat n
       in case resident_loop entries pageSize base fin start ([], 0, False) of
            None \<Rightarrow> None
          | Some None \<Rightarrow> Some whole
          | Some (Some (runs, runStart, inRun)) \<Rightarrow> Some (runs @ (if inRun then endRun base fin runStart fin else [])))"

declare resident_loop.simps [code]

section \<open>Runs of pages\<close>

text \<open>
  Runs of pages inside \<open>[L, T)\<close>, in increasing order: each begins at a page or at the bottom \<open>B\<close> of the region
  and ends at a page or at its top.
\<close>

fun page_runs :: "nat \<Rightarrow> nat \<Rightarrow> nat \<Rightarrow> nat \<Rightarrow> (nat \<times> nat) list \<Rightarrow> bool" where
  "page_runs ps B T L [] \<longleftrightarrow> L \<le> T"
| "page_runs ps B T L ((b, e) # rs) \<longleftrightarrow>
    L \<le> b \<and> b < e \<and> e \<le> T \<and> (b = B \<or> ps dvd b) \<and> (e = T \<or> ps dvd e) \<and> page_runs ps B T e rs"

definition in_runs :: "(nat \<times> nat) list \<Rightarrow> nat \<Rightarrow> bool" where
  "in_runs rs a \<longleftrightarrow> (\<exists>(b, e) \<in> set rs. b \<le> a \<and> a < e)"

lemma page_runs_bounds: "page_runs ps B T L rs \<Longrightarrow> (b, e) \<in> set rs \<Longrightarrow> L \<le> b \<and> b < e \<and> e \<le> T \<and> (b = B \<or> ps dvd b) \<and> (e = T \<or> ps dvd e)"
  by (induction ps B T L rs rule: page_runs.induct) (auto dest: order.strict_implies_order)

lemma page_runs_le: "page_runs ps B T L rs \<Longrightarrow> L \<le> T"
  by (cases rs) auto

lemma page_runs_snoc:
  assumes "page_runs ps B T L rs" "\<forall>(x, y) \<in> set rs. y \<le> b" "L \<le> b" "b < e" "e \<le> T" "b = B \<or> ps dvd b" "e = T \<or> ps dvd e"
  shows "page_runs ps B T L (rs @ [(b, e)])"
  using assms by (induction ps B T L rs rule: page_runs.induct) auto

lemma in_runs_snoc: "in_runs (rs @ [(b, e)]) a \<longleftrightarrow> in_runs rs a \<or> b \<le> a \<and> a < e"
  by (auto simp: in_runs_def)

lemma not_in_runs: "\<forall>(x, y) \<in> set rs. y \<le> b \<Longrightarrow> b \<le> a \<Longrightarrow> \<not> in_runs rs a"
  by (fastforce simp: in_runs_def)

section \<open>The runs are exactly the resident pages\<close>

text \<open>
  After the pages below \<open>A\<close> of the range from \<open>B\<close> to \<open>T\<close>, with \<open>g p\<close> saying that page \<open>p\<close> is worth reading: the
  closed runs are those of the pages before the open run, or before \<open>A\<close> when none is open.
\<close>

definition runs_inv :: "nat \<Rightarrow> (nat \<Rightarrow> bool) \<Rightarrow> nat \<Rightarrow> nat \<Rightarrow> nat \<Rightarrow> (nat \<times> nat) list \<Rightarrow> nat \<Rightarrow> bool \<Rightarrow> bool" where
  "runs_inv ps g B T A rs r inRun \<longleftrightarrow>
    page_runs ps B T B rs \<and> ps dvd A \<and> B div ps * ps \<le> A \<and>
    (\<forall>(x, y) \<in> set rs. y \<le> (if inRun then r else A)) \<and>
    (inRun \<longrightarrow> ps dvd r \<and> B div ps * ps \<le> r \<and> r < A \<and> r < T \<and> (\<forall>a. r \<le> a \<and> a < A \<longrightarrow> g (a div ps))) \<and>
    (\<forall>a. B \<le> a \<and> a < (if inRun then r else A) \<and> a < T \<longrightarrow> (in_runs rs a \<longleftrightarrow> g (a div ps)))"

lemma page_of:
  assumes "ps dvd A" "A \<le> a" "a < A + ps"
  shows "a div ps = A div (ps :: nat)"
proof -
  from assms(1) obtain q where "A = ps * q" ..
  with assms(2,3) show ?thesis using div_nat_eqI [of ps q a] by (cases "ps = 0") (simp_all add: mult.commute)
qed

lemma later_page:
  assumes "ps dvd A" "ps dvd r" "r < A"
  shows "r + ps \<le> (A :: nat)"
proof -
  have "ps dvd A - r" using assms(1,2) by (rule dvd_diff_nat)
  with assms(3) show ?thesis using dvd_imp_le [of ps "A - r"] by simp
qed

lemma runs_open:
  assumes "runs_inv ps g B T A rs r False" "0 < ps" "A < T" "g (A div ps)"
  shows "runs_inv ps g B T (A + ps) rs A True"
proof -
  have "g (a div ps)" if "A \<le> a" "a < A + ps" for a
    using assms that page_of [of ps A a] by (simp add: runs_inv_def)
  with assms show ?thesis by (simp add: runs_inv_def)
qed

lemma runs_keep:
  assumes "runs_inv ps g B T A rs r True" "0 < ps" "g (A div ps)"
  shows "runs_inv ps g B T (A + ps) rs r True"
proof -
  have "g (a div ps)" if "r \<le> a" "a < A + ps" for a
    using assms that page_of [of ps A a] by (cases "a < A") (auto simp: runs_inv_def)
  with assms show ?thesis by (auto simp: runs_inv_def)
qed

lemma runs_skip:
  assumes "runs_inv ps g B T A rs r False" "0 < ps" "\<not> g (A div ps)"
  shows "runs_inv ps g B T (A + ps) rs r False"
proof -
  have "in_runs rs a \<longleftrightarrow> g (a div ps)" if "B \<le> a" "a < A + ps" "a < T" for a
  proof (cases "a < A")
    case False
    with assms that page_of [of ps A a] not_in_runs [of rs A a] show ?thesis by (auto simp: runs_inv_def)
  qed (use assms that in \<open>auto simp: runs_inv_def\<close>)
  moreover have "\<forall>(x, y) \<in> set rs. y \<le> A + ps" using assms(1) by (fastforce simp: runs_inv_def)
  ultimately show ?thesis using assms(1) by (auto simp: runs_inv_def)
qed

text \<open>An open run that ends at \<open>E\<close>, a page of the range or its top.\<close>

lemma runs_close:
  assumes "runs_inv ps g B T A rs r True" "0 < ps" "E \<le> A" "E \<le> T" "max r B < E" "E = T \<or> ps dvd E"
  defines "rs' \<equiv> rs @ [(max r B, E)]"
  shows "page_runs ps B T B rs'" "\<forall>(x, y) \<in> set rs'. y \<le> E"
    "\<forall>a. B \<le> a \<and> a < E \<longrightarrow> (in_runs rs' a \<longleftrightarrow> g (a div ps))"
proof -
  have inv: "page_runs ps B T B rs" "ps dvd r" "\<And>x y. (x, y) \<in> set rs \<Longrightarrow> y \<le> r" "\<And>a. r \<le> a \<Longrightarrow> a < A \<Longrightarrow> g (a div ps)"
    "\<And>a. B \<le> a \<Longrightarrow> a < r \<Longrightarrow> a < T \<Longrightarrow> in_runs rs a \<longleftrightarrow> g (a div ps)"
    using assms(1) by (auto simp: runs_inv_def)
  have before: "\<forall>(x, y) \<in> set rs. y \<le> max r B" using inv(3) by fastforce
  show "page_runs ps B T B rs'"
    unfolding rs'_def by (rule page_runs_snoc [OF inv(1) before]) (use assms(4,5,6) inv(2) in \<open>auto simp: max_def\<close>)
  show "\<forall>(x, y) \<in> set rs'. y \<le> E" using before assms(5) by (fastforce simp: rs'_def)
  show "\<forall>a. B \<le> a \<and> a < E \<longrightarrow> (in_runs rs' a \<longleftrightarrow> g (a div ps))"
  proof (intro allI impI)
    fix a assume a: "B \<le> a \<and> a < E"
    then show "in_runs rs' a \<longleftrightarrow> g (a div ps)"
      using inv(4) [of a] inv(5) [of a] assms(3,4) not_in_runs [of rs r a] inv(3)
      by (cases "a < r") (auto simp: rs'_def in_runs_snoc)
  qed
qed

lemma runs_closed:
  assumes inv: "runs_inv ps g B T A rs r True" and "0 < ps" "A < T" "\<not> g (A div ps)"
  shows "runs_inv ps g B T (A + ps) (rs @ [(max r B, A)]) r False" "max r B < A"
proof -
  have "B < B div ps * ps + ps" using \<open>0 < ps\<close> dividend_less_div_times [of ps B] by simp
  moreover have "r + ps \<le> A" using inv by (intro later_page) (auto simp: runs_inv_def)
  moreover have "B div ps * ps \<le> r" "ps dvd A" using inv by (auto simp: runs_inv_def)
  ultimately show less: "max r B < A" using \<open>0 < ps\<close> by simp
  have "runs_inv ps g B T A (rs @ [(max r B, A)]) r False"
    using inv runs_close [OF inv \<open>0 < ps\<close> order.refl] less assms(3) \<open>ps dvd A\<close> unfolding runs_inv_def [of _ _ _ _ _ _ _ False]
    by (auto simp: runs_inv_def)
  then show "runs_inv ps g B T (A + ps) (rs @ [(max r B, A)]) r False" using assms(2,4) by (rule runs_skip)
qed

definition nat_runs :: "(u64 \<times> u64) list \<Rightarrow> (nat \<times> nat) list" where
  "nat_runs rs = map (\<lambda>(b, e). (unat b, unat e)) rs"

lemma nat_runs_append: "nat_runs (xs @ ys) = nat_runs xs @ nat_runs ys"
  by (simp add: nat_runs_def)

lemma unat_max: "unat (max a b) = max (unat a) (unat b)"
  by (simp add: max_def word_le_nat_alt)

lemma unat_min: "unat (min a b) = min (unat a) (unat b)"
  by (simp add: min_def word_le_nat_alt)

lemma endRun_runs:
  assumes "max (unat r) (unat base) < unat e" "unat e \<le> unat fin"
  shows "nat_runs (endRun base fin r e) = [(max (unat r) (unat base), unat e)]"
proof -
  have "min e fin = e" "max r base < e" using assms by (simp_all add: min_def word_le_nat_alt word_less_nat_alt unat_max)
  then show ?thesis by (simp add: endRun_def nat_runs_def unat_max)
qed

lemma scan_entries_inv:
  assumes "runs_inv ps g (unat base) (unat fin) (unat pa) (nat_runs runs) (unat r) inRun" "unat pageSize = ps" "0 < ps"
    "\<forall>i < length es. unat pa + i * ps < unat fin" "unat fin + ps \<le> 2 ^ 64"
    "\<forall>i < length es. worth (es ! i) = g (unat pa div ps + i)"
    "scan_entries pageSize base fin pa es (runs, r, inRun) = (runs', r', inRun')"
  shows "runs_inv ps g (unat base) (unat fin) (unat pa + length es * ps) (nat_runs runs') (unat r') inRun'"
  using assms
proof (induction es arbitrary: pa runs r inRun)
  case (Cons ent es)
  have A: "unat pa < unat fin" "worth ent = g (unat pa div ps)" using Cons.prems(4,6) by auto
  have "unat pa + unat pageSize < 2 ^ 64" using A(1) Cons.prems(2,5) by simp
  then have next_page: "unat (pa + pageSize) = unat pa + ps" by (simp add: unat_word_ariths Cons.prems(2))
  note inv = Cons.prems(1) and closed = runs_closed [OF _ Cons.prems(3) A(1)]
  have step: "runs_inv ps g (unat base) (unat fin) (unat pa + ps) (nat_runs runs1) (unat r1) in1"
    if "(if worth ent \<and> \<not> inRun then (runs, pa, True)
       else if \<not> worth ent \<and> inRun then (runs @ endRun base fin r pa, r, False)
       else (runs, r, inRun)) = (runs1, r1, in1)" for runs1 r1 in1
    using inv that A Cons.prems(3) runs_open [of ps g _ _ "unat pa"] runs_keep [of ps g _ _ "unat pa"] runs_skip [of ps g _ _ "unat pa"]
      closed endRun_runs [of r base pa fin]
    by (cases inRun; cases "worth ent") (auto simp: nat_runs_append)
  obtain runs1 r1 in1 where st: "(if worth ent \<and> \<not> inRun then (runs, pa, True)
       else if \<not> worth ent \<and> inRun then (runs @ endRun base fin r pa, r, False)
       else (runs, r, inRun)) = (runs1, r1, in1)" by (metis prod_cases3)
  have "runs_inv ps g (unat base) (unat fin) (unat (pa + pageSize) + length es * ps) (nat_runs runs') (unat r') inRun'"
  proof (rule Cons.IH)
    show "runs_inv ps g (unat base) (unat fin) (unat (pa + pageSize)) (nat_runs runs1) (unat r1) in1"
      using step [OF st] by (simp add: next_page)
    show "\<forall>i < length es. unat (pa + pageSize) + i * ps < unat fin" using Cons.prems(4) by (fastforce simp: next_page)
    show "\<forall>i < length es. worth (es ! i) = g (unat (pa + pageSize) div ps + i)"
    proof (intro allI impI)
      fix i assume "i < length es"
      with Cons.prems(6) have "worth ((ent # es) ! Suc i) = g (unat pa div ps + Suc i)" by (metis Suc_less_eq length_Cons)
      with Cons.prems(3) show "worth (es ! i) = g (unat (pa + pageSize) div ps + i)" by (simp add: next_page div_add_self2)
    qed
    show "scan_entries pageSize base fin (pa + pageSize) es (runs1, r1, in1) = (runs', r', inRun')"
      using Cons.prems(7) by (simp only: scan_entries.simps st)
  qed (use Cons.prems in simp_all)
  then show ?case by (simp add: next_page algebra_simps)
qed simp

text \<open>
  The loop over the windows of the page map ends below the last page of the address space and finds the state
  after all pages, or a read failed.
\<close>

lemma resident_loop_ends:
  assumes "runs_inv ps g (unat base) (unat fin) (unat addr) (nat_runs runs) (unat r) inRun" "unat pageSize = ps" "0 < ps"
    "unat fin + ps \<le> 2 ^ 64" "\<And>p n es. entries p n = Some es \<Longrightarrow> length es = n \<and> (\<forall>i < n. worth (es ! i) = g (unat p + i))"
  shows "resident_loop entries pageSize base fin addr (runs, r, inRun) = Some None \<or>
    (\<exists>runs' r' inRun' A. resident_loop entries pageSize base fin addr (runs, r, inRun) = Some (Some (runs', r', inRun')) \<and>
      unat fin \<le> A \<and> runs_inv ps g (unat base) (unat fin) A (nat_runs runs') (unat r') inRun')"
  using assms(1)
proof (induction "unat fin + ps - unat addr" arbitrary: addr runs r inRun rule: less_induct)
  case less
  show ?case
  proof (cases "addr < fin")
    case False
    then have "unat fin \<le> unat addr" by (simp add: word_less_nat_alt not_less)
    moreover have "resident_loop entries pageSize base fin addr (runs, r, inRun) = Some (Some (runs, r, inRun))"
      using False by (subst resident_loop.simps) simp
    ultimately show ?thesis using less.prems by blast
  next
    case True
    then have addr: "unat addr < unat fin" by (simp add: word_less_nat_alt)
    define n where "n = min 4096 (unat ((fin - addr + pageSize - 1) div pageSize))"
    define X where "X = unat fin - unat addr"
    have "fin - addr = of_nat X" using addr by (simp add: X_def of_nat_diff)
    moreover have "pageSize = of_nat ps" by (simp flip: assms(2))
    ultimately have "fin - addr + pageSize - 1 = of_nat (X + ps - 1)" using assms(3) by (simp add: of_nat_diff)
    moreover have "X + ps - 1 < 2 ^ 64" using assms(3,4) by (simp add: X_def)
    ultimately have "unat (fin - addr + pageSize - 1) = X + ps - 1" by (simp add: unat_of_nat_64)
    then have n_eq: "n = min 4096 ((X + ps - 1) div ps)" by (simp add: n_def unat_div assms(2))
    have X: "0 < X" using addr by (simp add: X_def)
    have n: "0 < n" "i < n \<Longrightarrow> i * ps < X" for i
    proof -
      show "0 < n" using X assms(3) by (simp add: n_eq div_greater_zero_iff)
      assume "i < n"
      then have "Suc i * ps \<le> (X + ps - 1) div ps * ps" by (intro mult_le_mono1) (simp add: n_eq)
      also have "\<dots> \<le> X + ps - 1" by (rule div_times_less_eq_dividend)
      finally show "i * ps < X" using X by simp
    qed
    then have inside: "\<forall>i < n. unat addr + i * ps < unat fin" using addr by (fastforce simp: X_def)
    have "(n - 1) * ps < X" using n by simp
    then have past: "n * ps < X + ps" using n(1) by (cases n) simp_all
    then have "unat addr + n * ps < 2 ^ 64" using addr assms(4) by (simp add: X_def)
    moreover have "addr + of_nat n * pageSize = of_nat (unat addr + n * ps)" by (simp add: \<open>pageSize = of_nat ps\<close>)
    ultimately have next_addr: "unat (addr + of_nat n * pageSize) = unat addr + n * ps" by (simp only: unat_of_nat_64)
    have progress: "0 < n * ps" using n(1) assms(3) by simp
    show ?thesis
    proof (cases "entries (addr div pageSize) n")
      case None
      with True show ?thesis by (subst (1) resident_loop.simps) (simp add: n_def [symmetric] Let_def)
    next
      case (Some es)
      note es = assms(5) [OF Some]
      obtain runs1 r1 in1 where st: "scan_entries pageSize base fin addr es (runs, r, inRun) = (runs1, r1, in1)" by (metis prod_cases3)
      have "runs_inv ps g (unat base) (unat fin) (unat addr + length es * ps) (nat_runs runs1) (unat r1) in1"
        by (rule scan_entries_inv [OF less.prems assms(2,3) _ assms(4) _ st]) (use inside es assms(2) in \<open>simp_all add: unat_div\<close>)
      then have inv: "runs_inv ps g (unat base) (unat fin) (unat (addr + of_nat n * pageSize)) (nat_runs runs1) (unat r1) in1"
        using es by (simp add: next_addr)
      have "resident_loop entries pageSize base fin addr (runs, r, inRun) =
          resident_loop entries pageSize base fin (addr + of_nat n * pageSize) (runs1, r1, in1)"
        by (subst resident_loop.simps) (simp add: True Let_def n_def [symmetric] Some st)
      moreover have "unat fin + ps - unat (addr + of_nat n * pageSize) < unat fin + ps - unat addr"
        using addr progress unfolding next_addr by linarith
      ultimately show ?thesis using less.hyps [OF _ inv] by simp
    qed
  qed
qed

lemma unat_page_start: "unat (base AND NOT (2 ^ k - 1) :: u64) = unat base div 2 ^ k * 2 ^ k"
proof -
  have "base AND NOT (2 ^ k - 1) = push_bit k (drop_bit k base)"
    by (rule bit_word_eqI) (auto simp: bit_simps mask_eq_exp_minus_1 [symmetric])
  moreover have "unat (push_bit k (drop_bit k base)) = take_bit 64 (unat base div 2 ^ k * 2 ^ k)"
    unfolding unsigned_push_bit_eq unsigned_drop_bit_eq by (simp add: push_bit_eq_mult drop_bit_eq_div take_bit_nat_eq_self unsigned_less [of base, where ?'a = nat, simplified])
  moreover have "unat base div 2 ^ k * 2 ^ k < 2 ^ 64"
    by (rule le_less_trans [OF div_times_less_eq_dividend]) (use unsigned_less [of base, where ?'a = nat] in simp)
  ultimately show ?thesis by (simp add: take_bit_nat_eq_self)
qed

lemma residentRanges_runs:
  assumes "unat base + n + 2 ^ k \<le> 2 ^ 64" "0 < n"
    and kernel: "\<And>p m es. entries p m = Some es \<Longrightarrow> es = map (\<lambda>i. ent (unat p + i)) [0..<m]"
  shows "\<exists>runs. residentRanges entries (2 ^ k) opened base n = Some runs \<and>
    (runs = [(base, base + of_nat n)] \<or>
     (\<forall>a. unat base \<le> a \<and> a < unat base + n \<longrightarrow> (in_runs (nat_runs runs) a \<longleftrightarrow> worth (ent (a div 2 ^ k))))) \<and>
    page_runs (2 ^ k) (unat base) (unat base + n) (unat base) (nat_runs runs)"
proof -
  let ?fin = "base + of_nat n" and ?start = "base AND NOT (2 ^ k - 1)" and ?g = "\<lambda>p. worth (ent p)"
  have "(2 :: nat) ^ k < 2 ^ 64" using assms(1,2) by linarith
  then have "k < 64" by (rule power_less_imp_less_exp [rotated]) simp
  have ps: "unat (2 ^ k :: u64) = 2 ^ k" using unat_of_nat_64 [OF \<open>2 ^ k < 2 ^ 64\<close>] by simp
  have "?fin = of_nat (unat base + n)" by simp
  moreover have "0 < (2 :: nat) ^ k" by simp
  then have "unat base + n < 2 ^ 64" using assms(1) by linarith
  ultimately have fin: "unat ?fin = unat base + n" by (simp only: unat_of_nat_64)
  have whole: "page_runs (2 ^ k) (unat base) (unat base + n) (unat base) (nat_runs [(base, ?fin)])"
    using assms(2) by (simp add: nat_runs_def fin)
  have inv: "runs_inv (2 ^ k) ?g (unat base) (unat ?fin) (unat ?start) (nat_runs []) (unat 0) False"
  proof -
    have "\<not> (unat base \<le> a \<and> a < unat base div 2 ^ k * 2 ^ k)" for a
      using div_times_less_eq_dividend [of "unat base" "2 ^ k"] by linarith
    then show ?thesis unfolding runs_inv_def unat_page_start fin by (auto simp: nat_runs_def)
  qed
  have "length es = m \<and> (\<forall>i < m. worth (es ! i) = ?g (unat p + i))" if "entries p m = Some es" for p m es
    using kernel [OF that] by simp
  note read = this
  have "resident_loop entries (2 ^ k) base ?fin ?start ([], 0, False) = Some None \<or>
    (\<exists>runs' r' inRun' A. resident_loop entries (2 ^ k) base ?fin ?start ([], 0, False) = Some (Some (runs', r', inRun')) \<and>
      unat ?fin \<le> A \<and> runs_inv (2 ^ k) ?g (unat base) (unat ?fin) A (nat_runs runs') (unat r') inRun')"
    by (rule resident_loop_ends [OF inv]) (use read assms(1) fin ps in auto)
  then consider "\<not> opened \<or> resident_loop entries (2 ^ k) base ?fin ?start ([], 0, False) = Some None"
    | runs r inRun A where "opened" "resident_loop entries (2 ^ k) base ?fin ?start ([], 0, False) = Some (Some (runs, r, inRun))"
      "unat ?fin \<le> A" "runs_inv (2 ^ k) ?g (unat base) (unat ?fin) A (nat_runs runs) (unat r) inRun" by blast
  then show ?thesis
  proof cases
    case 1
    then have "residentRanges entries (2 ^ k) opened base n = Some [(base, ?fin)]"
      using assms(2) by (auto simp: residentRanges_def Let_def)
    with whole show ?thesis by auto
  next
    case (2 runs r inRun A)
    show ?thesis
    proof (cases inRun)
      case False
      then have "residentRanges entries (2 ^ k) opened base n = Some runs"
        using assms(2) 2(1,2) by (simp add: residentRanges_def Let_def)
      moreover have "\<forall>a. unat base \<le> a \<and> a < unat base + n \<longrightarrow> (in_runs (nat_runs runs) a \<longleftrightarrow> worth (ent (a div 2 ^ k)))"
        "page_runs (2 ^ k) (unat base) (unat base + n) (unat base) (nat_runs runs)"
        using 2(3,4) False by (auto simp: runs_inv_def fin)
      ultimately show ?thesis by blast
    next
      case True
      have less: "max (unat r) (unat base) < unat ?fin" using 2(4) True assms(2) by (simp add: runs_inv_def fin)
      have "residentRanges entries (2 ^ k) opened base n = Some (runs @ endRun base ?fin r ?fin)"
        using assms(2) 2(1,2) True by (simp add: residentRanges_def Let_def)
      moreover have "nat_runs (runs @ endRun base ?fin r ?fin) = nat_runs runs @ [(max (unat r) (unat base), unat ?fin)]"
        using less by (simp add: nat_runs_append endRun_runs)
      moreover have "runs_inv (2 ^ k) ?g (unat base) (unat ?fin) A (nat_runs runs) (unat r) True" using 2(4) True by simp
      note runs_close [OF this, of "unat ?fin", OF _ 2(3) order.refl less, simplified]
      ultimately show ?thesis by (metis (no_types, lifting) fin)
    qed
  qed
qed

text \<open>
  C38: below the last page of the address space \<^verbatim>\<open>residentRanges\<close> returns, and unless it had to fall back to the
  whole range the runs are exact: in increasing order, disjoint, at page boundaries except for the two ends of the
  range, and an address of the range lies in a run exactly when its page is present or swapped out.
\<close>

theorem residentRanges_exact:
  assumes "unat base + n + 2 ^ k \<le> 2 ^ 64" "0 < n"
    and kernel: "\<And>p m es. entries p m = Some es \<Longrightarrow> es = map (\<lambda>i. ent (unat p + i)) [0..<m]"
  shows "\<exists>runs. residentRanges entries (2 ^ k) opened base n = Some runs \<and>
    (runs = [(base, base + of_nat n)] \<or>
     (\<forall>a. unat base \<le> a \<and> a < unat base + n \<longrightarrow> (in_runs (nat_runs runs) a \<longleftrightarrow> worth (ent (a div 2 ^ k))))) \<and>
    page_runs (2 ^ k) (unat base) (unat base + n) (unat base) (nat_runs runs)"
  using assms by (rule residentRanges_runs)

definition sample_entry :: "nat \<Rightarrow> u64" where
  "sample_entry p = (if p = 1 then 0x8000000000000000 else if p = 3 then 0x4000000000000001 else 0)"

theorem residentRanges_exact_witness:
  "residentRanges (\<lambda>p m. Some (map (\<lambda>i. sample_entry (unat p + i)) [0..<m])) (2 ^ 12) True 0x1800 0x2800 =
      Some [(0x1800, 0x2000), (0x3000, 0x4000)] \<and>
    page_runs (2 ^ 12) 0x1800 0x4000 0x1800 [(0x1800, 0x2000), (0x3000, 0x4000)]"
proof -
  let ?entries = "\<lambda>p m. Some (map (\<lambda>i. sample_entry (unat p + i)) [0..<m])"
  have runs: "residentRanges ?entries (2 ^ 12) True 0x1800 0x2800 = Some [(0x1800, 0x2000), (0x3000, 0x4000)]"
    by code_simp
  have "\<exists>runs. residentRanges ?entries (2 ^ 12) True 0x1800 0x2800 = Some runs \<and>
    (runs = [(0x1800, 0x1800 + of_nat 0x2800)] \<or>
     (\<forall>a. unat (0x1800 :: u64) \<le> a \<and> a < unat (0x1800 :: u64) + 0x2800 \<longrightarrow> (in_runs (nat_runs runs) a \<longleftrightarrow> worth (sample_entry (a div 2 ^ 12))))) \<and>
    page_runs (2 ^ 12) (unat (0x1800 :: u64)) (unat (0x1800 :: u64) + 0x2800) (unat (0x1800 :: u64)) (nat_runs runs)"
    by (rule residentRanges_exact) (auto)
  with runs show ?thesis by (simp add: nat_runs_def)
qed

end
