(* ===== verification/FirstScan.thy ===== *)
theory FirstScan
  imports ScanConfig ResidentPages
begin

text \<open>
  The first scan (\<^verbatim>\<open>MemoryScanner::firstScan\<close> of \<^verbatim>\<open>scanner/memory_scanner.cpp\<close>): the dispatch on the value type,
  the clipping of the target's regions, the cutting into chunks that read a little ahead, the skipping of pages
  that were never touched, the division among worker threads and their interleaved execution. The scanners of
  floating-point values and the formula of a custom scan are arguments of the model.
\<close>

unbundle bit_operations_syntax

section \<open>Scanning a buffer for any type\<close>

text \<open>
  Outside the model: the single-type floating scan of a buffer, the floating comparison of a candidate of an
  all-types scan and of a grouped term (with the bytes of the candidate), a formula evaluated on the current
  and the previous bytes (\<^const>\<open>None\<close> when it fails; a formula that keeps no state), and \<^verbatim>\<open>iconv\<close>.
\<close>

record 'd scan_ops =
  so_scan_floating :: "'d ScanConfig \<Rightarrow> byte list \<Rightarrow> u64 \<Rightarrow> emission list"
  so_match_floating :: "'d ScanConfig \<Rightarrow> byte list \<Rightarrow> bool"
  so_match_term :: "'d ScanConfig \<Rightarrow> 'd GroupedTerm \<Rightarrow> byte list \<Rightarrow> bool"
  so_formula :: "string \<Rightarrow> byte list \<Rightarrow> byte list \<Rightarrow> nat \<Rightarrow> bool \<Rightarrow> bool option"
  so_iconv :: iconv

subsection \<open>All types\<close>

definition otherSignedness :: "int_type \<Rightarrow> int \<Rightarrow> int" where
  "otherSignedness T v =
    (if int_signed T then take_bit (8 * int_bytes T) v else signed_take_bit (8 * int_bytes T - 1) v)"

definition compareAllIntegerLiteral :: "'d ScanConfig \<Rightarrow> int \<Rightarrow> bool" where
  "compareAllIntegerLiteral config current =
    (case sc_allIntegerValue config of
       None \<Rightarrow> getCompare (sc_compareType config) current (sc_intValue config) (sc_intValue2 config)
     | Some lower \<Rightarrow>
         if sc_compareType config \<notin> {SC_Exact, SC_Greater, SC_Less, SC_Between}
         then getCompare (sc_compareType config) current (sc_intValue config) (sc_intValue2 config)
         else if unordered lower then False
         else let order = compare lower current in
           (case sc_compareType config of
              SC_Exact \<Rightarrow> order = 0
            | SC_Greater \<Rightarrow> order > 0
            | SC_Less \<Rightarrow> order < 0
            | SC_Between \<Rightarrow>
                (case sc_allIntegerValue2 config of
                   None \<Rightarrow> False
                 | Some up \<Rightarrow>
                     if unordered up then False
                     else let upper = compare up current in (order \<ge> 0 \<and> upper \<le> 0) \<or> (upper \<ge> 0 \<and> order \<le> 0))
            | _ \<Rightarrow> False))"

definition matchesUnsigned64 :: "'d ScanConfig \<Rightarrow> nat \<Rightarrow> bool" where
  "matchesUnsigned64 config current =
    (case sc_allIntegerValue config of
       None \<Rightarrow> False
     | Some v \<Rightarrow> sc_compareType config = SC_Exact \<and> \<not> negative v \<and> \<not> fractional v \<and> \<not> outsideMagnitude v \<and> \<not> unordered v \<and>
         magnitude v > 2 ^ 63 - 1 \<and> magnitude v = current)"

definition allCandidateWidths :: "nat list" where
  "allCandidateWidths = [1, 2, 4, 8, 4, 8]"

definition all_integer_matches :: "'d ScanConfig \<Rightarrow> int_type \<Rightarrow> byte list \<Rightarrow> bool" where
  "all_integer_matches config T bs =
    (let current = readScanScalar T bs (sc_byteOrder config) in
     compareAllIntegerLiteral config current \<or>
     (sc_compareType config = SC_Exact \<and> int_bytes T < 8 \<and> compareAllIntegerLiteral config (otherSignedness T current)) \<or>
     (int_bytes T = 8 \<and> matchesUnsigned64 config (nat (take_bit 64 current))))"

text \<open>The types of a candidate, from the bytes of the buffer at its offset: bit \<open>i\<close> is the \<open>i\<close>-th candidate.\<close>

definition all_types_mask :: "'d scan_ops \<Rightarrow> 'd ScanConfig \<Rightarrow> byte list \<Rightarrow> byte" where
  "all_types_mask ops config avail =
    (let int_bit = (\<lambda>T k. if int_bytes T \<le> length avail \<and> all_integer_matches config T (take (int_bytes T) avail) then 2 ^ k else 0 :: byte);
         fp_bit = (\<lambda>w k. if w \<le> length avail \<and> so_match_floating ops config (take w avail) then 2 ^ k else 0 :: byte)
     in int_bit U8 0 OR int_bit I16 1 OR int_bit I32 2 OR int_bit I64 3 OR fp_bit 4 4 OR fp_bit 8 5)"

definition pad8 :: "byte list \<Rightarrow> byte list" where
  "pad8 bs = bs @ replicate (8 - length bs) 0"

definition scanBufferAllTypes :: "'d scan_ops \<Rightarrow> 'd ScanConfig \<Rightarrow> nat \<Rightarrow> byte list \<Rightarrow> u64 \<Rightarrow> nat \<Rightarrow> emission list" where
  "scanBufferAllTypes ops config alignment buf baseAddr emitLimit =
    stride_loop (min emitLimit (length buf)) (max 1 alignment)
      (\<lambda>off. let m = all_types_mask ops config (window buf off 8)
             in if m = 0 then [] else [AddAllTypeResult (baseAddr + of_nat off) (pad8 (window buf off 8)) m]) 0"

subsection \<open>Grouped values\<close>

definition groupedTermMatches :: "'d scan_ops \<Rightarrow> byte list \<Rightarrow> 'd GroupedTerm \<Rightarrow> 'd ScanConfig \<Rightarrow> bool" where
  "groupedTermMatches ops v tm config =
    (let order = sc_byteOrder config; n = gt_intValue tm in
     case gt_valueType tm of
       VT_Byte \<Rightarrow> copy_scalar U8 v = int_cast U8 n
     | VT_Int16 \<Rightarrow> readScanScalar I16 v order = int_cast I16 n
     | VT_Int32 \<Rightarrow> readScanScalar I32 v order = int_cast I32 n
     | VT_Int64 \<Rightarrow> readScanScalar I64 v order = n
     | VT_Pointer \<Rightarrow>
         (if sc_pointerWidth config = 4 then readScanScalar U32 v order = int_cast U32 n
          else readScanScalar U64 v order = int_cast U64 n)
     | VT_Float \<Rightarrow> so_match_term ops config tm (take 4 v)
     | VT_Double \<Rightarrow> so_match_term ops config tm (take 8 v)
     | VT_String \<Rightarrow> stringBytesMatch v (text_bytes (gt_stringValue tm)) (length (gt_stringValue tm)) (sc_caseSensitive config) False BO_Little
     | VT_UnicodeString \<Rightarrow> stringBytesMatch v (gt_byteArray tm) (length (gt_byteArray tm)) (sc_caseSensitive config) True order
     | VT_ByteArray \<Rightarrow> gt_byteArray tm \<noteq> [] \<and>
         list_all (\<lambda>i. let m = (if i < length (gt_byteArrayMask tm) then gt_byteArrayMask tm ! i else 0xFF)
                       in v ! i AND m = gt_byteArray tm ! i AND m) [0..<length (gt_byteArray tm)]
     | VT_Binary \<Rightarrow> length (gt_byteMask tm) = length (gt_byteArray tm) \<and> masked_match v (gt_byteArray tm) (gt_byteMask tm)
     | _ \<Rightarrow> False)"

text \<open>The sizes were computed before without an exception, so that none can be thrown here.\<close>

definition groupedBlockMatches :: "'d scan_ops \<Rightarrow> byte list \<Rightarrow> nat \<Rightarrow> 'd ScanConfig \<Rightarrow> bool" where
  "groupedBlockMatches ops block blockSize config =
    list_all (\<lambda>tm.
      case groupedTermValueSize (so_iconv ops) tm (sc_pointerWidth config) of
        Inl e \<Rightarrow> False
      | Inr termSize \<Rightarrow>
          \<not> (termSize = 0 \<or> termSize > blockSize \<or> gt_offset tm > blockSize - termSize) \<and>
          groupedTermMatches ops (drop (gt_offset tm) block) tm config) (sc_groupedTerms config)"

definition grouped_size :: "'d scan_ops \<Rightarrow> 'd ScanConfig \<Rightarrow> nat" where
  "grouped_size ops config = (case groupedValueSize (so_iconv ops) config of Inl e \<Rightarrow> 0 | Inr n \<Rightarrow> n)"

definition scanBufferGrouped :: "'d scan_ops \<Rightarrow> byte list \<Rightarrow> u64 \<Rightarrow> nat \<Rightarrow> 'd ScanConfig \<Rightarrow> emission list" where
  "scanBufferGrouped ops buf baseAddr alignment config =
    (if sc_groupedTerms config = [] then []
     else let blockSize = grouped_size ops config in
     if blockSize = 0 \<or> length buf < blockSize then []
     else let alignment = (if alignment = 0 then 1 else alignment)
       in stride_loop (length buf - blockSize + 1) alignment
         (\<lambda>off. if groupedBlockMatches ops (window buf off blockSize) blockSize config
                then [AddResult (baseAddr + of_nat off) (window buf off blockSize)] else []) 0)"

subsection \<open>Dispatch\<close>

text \<open>The integer type of a single-type integer scan.\<close>

definition scan_int_type :: "'d ScanConfig \<Rightarrow> int_type" where
  "scan_int_type config =
    (case sc_valueType config of
       VT_Byte \<Rightarrow> U8 | VT_Int16 \<Rightarrow> I16 | VT_Int32 \<Rightarrow> I32 | VT_Int64 \<Rightarrow> I64
     | _ \<Rightarrow> if sc_pointerWidth config = 4 then U32 else U64)"

definition scan_custom :: "'d scan_ops \<Rightarrow> 'd ScanConfig \<Rightarrow> byte list \<Rightarrow> u64 \<Rightarrow> emission list" where
  "scan_custom ops config buf base =
    (let customSize = max 1 (sc_customValueSize config) in
     if length buf < customSize then []
     else stride_loop (length buf - customSize + 1) (max 1 (sc_alignment config))
       (\<lambda>off. if sc_compareType config = SC_Unknown \<or>
                 so_formula ops (sc_customFormula config) (window buf off customSize) (window buf off customSize) customSize False = Some True
              then [AddResult (base + of_nat off) (window buf off customSize)] else []) 0)"

definition scanRegion :: "'d scan_ops \<Rightarrow> SimdMode \<Rightarrow> 'd ScanConfig \<Rightarrow> byte list \<Rightarrow> u64 \<Rightarrow> nat \<Rightarrow> emission list" where
  "scanRegion ops mode config buf base emitLimit =
    (let integers = (let T = scan_int_type config in
           scanIntegerTarget mode T buf base (sc_alignment config) (int_cast T (sc_intValue config)) (int_cast T (sc_intValue2 config))
             (sc_compareType config) (sc_byteOrder config))
     in case sc_valueType config of
       VT_Byte \<Rightarrow> integers
     | VT_Int16 \<Rightarrow> integers
     | VT_Int32 \<Rightarrow> integers
     | VT_Int64 \<Rightarrow> integers
     | VT_Pointer \<Rightarrow> integers
     | VT_Float \<Rightarrow> so_scan_floating ops config buf base
     | VT_Double \<Rightarrow> so_scan_floating ops config buf base
     | VT_String \<Rightarrow>
         (case encodeStringBytes (so_iconv ops) (sc_stringValue config) (sc_stringEncoding config) of
            Inl e \<Rightarrow> []
          | Inr needle \<Rightarrow> scanBufferString mode buf base needle (\<not> sc_caseSensitive config))
     | VT_UnicodeString \<Rightarrow>
         (case utf16Bytes (so_iconv ops) (sc_stringValue config) (sc_byteOrder config) of
            Inl e \<Rightarrow> []
          | Inr needle \<Rightarrow> scanBufferUnicode buf base needle (\<not> sc_caseSensitive config) (sc_byteOrder config))
     | VT_ByteArray \<Rightarrow> scanBufferAOB mode buf base (sc_byteArray config) (sc_byteArrayMask config)
     | VT_Binary \<Rightarrow> scanBufferBinary buf base (sc_byteArray config) (sc_byteMask config) (sc_alignment config)
     | VT_All \<Rightarrow> scanBufferAllTypes ops config (sc_alignment config) buf base emitLimit
     | VT_Grouped \<Rightarrow>
         (if sc_compareType config = SC_Unknown then scanBufferUnknown buf base (sc_alignment config) (grouped_size ops config)
          else scanBufferGrouped ops buf base (sc_alignment config) config)
     | VT_Custom \<Rightarrow> scan_custom ops config buf base)"

section \<open>The contract of a buffer scanner\<close>

text \<open>
  What cutting memory into chunks relies on: a scanner looks at the candidates on a grid of its stride, one
  after the other, and what it emits for a candidate depends on nothing but the next \<open>width\<close> bytes (fewer at
  the end of the buffer). The limit is the number of bytes whose candidates belong to this call; the bytes
  after it, at most \<open>width - 1\<close>, are only looked at.
\<close>

locale window_scanner =
  fixes scan :: "byte list \<Rightarrow> u64 \<Rightarrow> nat \<Rightarrow> emission list"
    and stride :: nat
    and width :: nat
    and row :: "u64 \<Rightarrow> byte list \<Rightarrow> emission list"
  assumes stride_pos: "0 < stride"
    and width_pos: "0 < width"
    and scan_rows: "limit \<le> length buf \<Longrightarrow> length buf \<le> limit + (width - 1) \<Longrightarrow>
      scan buf base limit = concat (map (\<lambda>off. row (base + of_nat off) (window buf off width)) (filter (\<lambda>off. stride dvd off) [0..<limit]))"
begin

text \<open>Every row of a run of bytes, and the rows from one offset on.\<close>

definition rows_from :: "byte list \<Rightarrow> u64 \<Rightarrow> nat \<Rightarrow> emission list" where
  "rows_from bytes base k =
    concat (map (\<lambda>off. row (base + of_nat off) (window bytes off width)) (filter (\<lambda>off. stride dvd off) [k..<length bytes]))"

lemma rows_from_end: "length bytes \<le> k \<Longrightarrow> rows_from bytes base k = []"
  by (simp add: rows_from_def)

text \<open>A chunk emits the rows of the bytes it owns.\<close>

lemma chunk_rows:
  assumes "stride dvd k" "k + owned \<le> length bytes" "n = owned + min (width - 1) (length bytes - k - owned)"
  shows "scan (window bytes k n) (base + of_nat k) owned @ rows_from bytes base (k + owned) = rows_from bytes base k"
proof -
  have len: "length (window bytes k n) = n" using assms by (intro length_window) simp
  have win: "window (window bytes k n) off width = window bytes (k + off) width" if "off < owned" for off
  proof -
    have "window (window bytes k n) off width = take (min width (n - off)) (drop (k + off) bytes)"
      by (simp add: window_def drop_take add.commute)
    moreover have "min width (n - off) = width \<or> length bytes - (k + off) \<le> min width (n - off) \<and> length bytes - (k + off) \<le> width"
      using that assms(2,3) by linarith
    ultimately show ?thesis by (auto simp: window_def)
  qed
  have "scan (window bytes k n) (base + of_nat k) owned =
      concat (map (\<lambda>off. row (base + of_nat k + of_nat off) (window (window bytes k n) off width)) (filter (\<lambda>off. stride dvd off) [0..<owned]))"
    by (rule scan_rows) (use len assms(3) in auto)
  also have "\<dots> = concat (map (\<lambda>off. row (base + of_nat (k + off)) (window bytes (k + off) width)) (filter (\<lambda>off. stride dvd k + off) [0..<owned]))"
    using assms(1) by (intro arg_cong [where f = concat] map_cong) (auto simp: win dvd_add_right_iff add.assoc)
  also have "\<dots> = concat (map (\<lambda>off. row (base + of_nat off) (window bytes off width)) (filter (\<lambda>off. stride dvd off) [k..<k + owned]))"
    by (simp add: upt_shift filter_map comp_def)
  finally show ?thesis
    using assms(2) upt_add_eq_append [of k "k + owned" "length bytes - (k + owned)"] by (simp add: rows_from_def)
qed

end

text \<open>A scanner that emits the matching windows of full width meets the contract.\<close>

definition match_row :: "nat \<Rightarrow> (byte list \<Rightarrow> bool) \<Rightarrow> u64 \<Rightarrow> byte list \<Rightarrow> emission list" where
  "match_row sz P a bs = (if length bs = sz \<and> P bs then [AddResult a bs] else [])"

lemma hits_window_scanner:
  assumes "0 < stride" "0 < sz" "\<And>buf base lim. scan buf base lim = hits stride sz P buf base"
  shows "window_scanner scan stride sz (match_row sz P)"
proof
  fix lim base and buf :: "byte list"
  assume lim: "lim \<le> length buf" "length buf \<le> lim + (sz - 1)"
  let ?k = "length buf + 1 - sz"
  let ?row = "\<lambda>off. match_row sz P (base + of_nat off) (window buf off sz)"
  let ?g = "\<lambda>off. stride dvd off"
  have "?k \<le> lim" using lim assms(2) by auto
  then have "[0..<lim] = [0..<?k] @ [?k..<lim]" using upt_add_eq_append [of 0 ?k "lim - ?k"] by simp
  moreover have "concat (map ?row (filter ?g [?k..<lim])) = []"
    using assms(2) by (auto simp: concat_eq_Nil_conv match_row_def window_def min_def)
  moreover have "concat (map ?row (filter ?g [0..<?k])) = hits stride sz P buf base"
  proof -
    have "concat (map ?row (filter ?g [0..<?k])) =
        concat (map (\<lambda>off. if P (window buf off sz) then [AddResult (base + of_nat off) (window buf off sz)] else []) (filter ?g [0..<?k]))"
      by (intro arg_cong [where f = concat] map_cong) (auto simp: match_row_def window_def)
    then show ?thesis by (simp only: concat_map_if hits_def matches_at_def grid_offsets_def)
  qed
  ultimately show "scan buf base lim = concat (map ?row (filter ?g [0..<lim]))" by (simp add: assms(3))
qed (use assms in simp_all)

definition all_types_row :: "'d scan_ops \<Rightarrow> 'd ScanConfig \<Rightarrow> u64 \<Rightarrow> byte list \<Rightarrow> emission list" where
  "all_types_row ops config a bs =
    (let m = all_types_mask ops config bs in if m = 0 then [] else [AddAllTypeResult a (pad8 bs) m])"

interpretation all_types: window_scanner "scanBufferAllTypes ops config al" "max 1 al" 8 "all_types_row ops config"
  for ops :: "'d scan_ops" and config and al
proof
  fix lim base and buf :: "byte list"
  assume "lim \<le> length buf"
  then show "scanBufferAllTypes ops config al buf base lim =
      concat (map (\<lambda>off. all_types_row ops config (base + of_nat off) (window buf off 8)) (filter (\<lambda>off. max 1 al dvd off) [0..<lim]))"
    by (simp add: scanBufferAllTypes_def stride_loop_0 all_types_row_def min_def)
qed simp_all

subsection \<open>Every scan meets the contract\<close>

text \<open>The stride, the width and the predicate of a scan.\<close>

definition scan_stride :: "'d ScanConfig \<Rightarrow> nat" where
  "scan_stride config =
    (case sc_valueType config of
       VT_String \<Rightarrow> 1 | VT_ByteArray \<Rightarrow> 1 | VT_UnicodeString \<Rightarrow> 2 | _ \<Rightarrow> max 1 (sc_alignment config))"

definition int_matches :: "'d ScanConfig \<Rightarrow> byte list \<Rightarrow> bool" where
  "int_matches config bs =
    (let T = scan_int_type config in
     getCompare (sc_compareType config) (readScanScalar T bs (sc_byteOrder config)) (int_cast T (sc_intValue config)) (int_cast T (sc_intValue2 config)))"

definition scan_matches :: "'d scan_ops \<Rightarrow> 'd ScanConfig \<Rightarrow> byte list \<Rightarrow> bool" where
  "scan_matches ops config bs =
    (case sc_valueType config of
       VT_String \<Rightarrow>
         (case encodeStringBytes (so_iconv ops) (sc_stringValue config) (sc_stringEncoding config) of
            Inl e \<Rightarrow> False | Inr needle \<Rightarrow> stringBytesMatch bs needle (length needle) (sc_caseSensitive config) False BO_Little)
     | VT_UnicodeString \<Rightarrow>
         (case utf16Bytes (so_iconv ops) (sc_stringValue config) (sc_byteOrder config) of
            Inl e \<Rightarrow> False | Inr needle \<Rightarrow> stringBytesMatch bs needle (length needle) (sc_caseSensitive config) True (sc_byteOrder config))
     | VT_ByteArray \<Rightarrow> masked_match bs (sc_byteArray config) (sc_byteArrayMask config)
     | VT_Binary \<Rightarrow> masked_match bs (sc_byteArray config) (sc_byteMask config)
     | VT_Grouped \<Rightarrow> sc_compareType config = SC_Unknown \<or> groupedBlockMatches ops bs (grouped_size ops config) config
     | VT_Custom \<Rightarrow> sc_compareType config = SC_Unknown \<or>
         so_formula ops (sc_customFormula config) bs bs (max 1 (sc_customValueSize config)) False = Some True
     | _ \<Rightarrow> int_matches config bs)"

text \<open>What a user of the scan has filled in: a needle that is not empty and a mask of its length.\<close>

definition needle_ok :: "'d scan_ops \<Rightarrow> 'd ScanConfig \<Rightarrow> bool" where
  "needle_ok ops config =
    (case sc_valueType config of
       VT_String \<Rightarrow>
         (case encodeStringBytes (so_iconv ops) (sc_stringValue config) (sc_stringEncoding config) of Inl e \<Rightarrow> False | Inr n \<Rightarrow> n \<noteq> [])
     | VT_UnicodeString \<Rightarrow>
         (case utf16Bytes (so_iconv ops) (sc_stringValue config) (sc_byteOrder config) of Inl e \<Rightarrow> False | Inr n \<Rightarrow> 2 \<le> length n)
     | VT_ByteArray \<Rightarrow> sc_byteArray config \<noteq> [] \<and> length (sc_byteArrayMask config) = length (sc_byteArray config)
     | VT_Binary \<Rightarrow> sc_byteArray config \<noteq> [] \<and> length (sc_byteMask config) = length (sc_byteArray config)
     | VT_Grouped \<Rightarrow> sc_groupedTerms config \<noteq> [] \<and> grouped_size ops config \<noteq> 0
     | VT_Pointer \<Rightarrow> sc_pointerWidth config = 4 \<or> sc_pointerWidth config = 8
     | VT_Float \<Rightarrow> False
     | VT_Double \<Rightarrow> False
     | _ \<Rightarrow> True)"

definition scan_row :: "'d scan_ops \<Rightarrow> 'd ScanConfig \<Rightarrow> nat \<Rightarrow> u64 \<Rightarrow> byte list \<Rightarrow> emission list" where
  "scan_row ops config sz =
    (if sc_valueType config = VT_All then all_types_row ops config else match_row sz (scan_matches ops config))"

lemma grouped_hits:
  assumes "sc_groupedTerms config \<noteq> []" "grouped_size ops config \<noteq> 0"
  shows "scanBufferGrouped ops buf base al config =
    hits (max 1 al) (grouped_size ops config) (\<lambda>bs. groupedBlockMatches ops bs (grouped_size ops config) config) buf base"
proof -
  have "(if al = 0 then 1 else al) = max 1 al" by simp
  with assms grid_hits [of "grouped_size ops config" buf "max 1 al" al
      "\<lambda>bs. groupedBlockMatches ops bs (grouped_size ops config) config" base] show ?thesis
    by (cases "length buf < grouped_size ops config") (simp_all add: scanBufferGrouped_def hits_short Let_def)
qed

lemma custom_hits:
  "scan_custom ops config buf base = hits (max 1 (sc_alignment config)) (max 1 (sc_customValueSize config))
    (\<lambda>bs. sc_compareType config = SC_Unknown \<or> so_formula ops (sc_customFormula config) bs bs (max 1 (sc_customValueSize config)) False = Some True) buf base"
proof -
  define sz where "sz = max 1 (sc_customValueSize config)"
  let ?P = "\<lambda>bs. sc_compareType config = SC_Unknown \<or> so_formula ops (sc_customFormula config) bs bs sz False = Some True"
  show ?thesis
    unfolding scan_custom_def Let_def sz_def [symmetric]
    using grid_hits [of sz buf "max 1 (sc_alignment config)" "sc_alignment config" ?P base]
    by (cases "length buf < sz") (simp_all add: hits_short)
qed

lemma int_cast_scan_type: "valueSizeForConfig iconv config = Inr sz \<Longrightarrow>
    sc_valueType config \<in> {VT_Byte, VT_Int16, VT_Int32, VT_Int64} \<or>
    sc_valueType config = VT_Pointer \<and> (sc_pointerWidth config = 4 \<or> sc_pointerWidth config = 8) \<Longrightarrow>
    int_bytes (scan_int_type config) = sz"
  by (auto simp: valueSizeForConfig_def scan_int_type_def)

lemma integer_window:
  assumes "int_bytes (scan_int_type config) = sz" "\<And>buf base lim. scanRegion ops mode config buf base lim =
      (let T = scan_int_type config in
       scanIntegerTarget mode T buf base (sc_alignment config) (int_cast T (sc_intValue config)) (int_cast T (sc_intValue2 config))
         (sc_compareType config) (sc_byteOrder config))"
  shows "window_scanner (scanRegion ops mode config) (max 1 (sc_alignment config)) sz (match_row sz (int_matches config))"
proof (rule hits_window_scanner)
  show "scanRegion ops mode config buf base lim = hits (max 1 (sc_alignment config)) sz (int_matches config) buf base" for buf base lim
    unfolding assms(2) Let_def int_matches_def assms(1) [symmetric] by (rule scanIntegerTarget_hits) simp
qed (use assms(1) in auto)

text \<open>Whatever the type of the value, \<^const>\<open>scanRegion\<close> is a scanner of windows of the size of a match.\<close>

lemma scanRegion_window:
  assumes "needle_ok ops config" "valueSizeForConfig (so_iconv ops) config = Inr sz"
  shows "window_scanner (scanRegion ops mode config) (scan_stride config) sz (scan_row ops config sz)"
proof -
  let ?int = "sc_valueType config \<in> {VT_Byte, VT_Int16, VT_Int32, VT_Int64} \<or> sc_valueType config = VT_Pointer"
  show ?thesis
  proof (cases ?int)
    case True
    have "int_bytes (scan_int_type config) = sz"
      by (rule int_cast_scan_type [OF assms(2)]) (use True assms(1) in \<open>auto simp: needle_ok_def\<close>)
    then have "window_scanner (scanRegion ops mode config) (max 1 (sc_alignment config)) sz (match_row sz (int_matches config))"
      by (rule integer_window) (use True in \<open>auto simp: scanRegion_def\<close>)
    moreover have "scan_row ops config sz = match_row sz (int_matches config)" "scan_stride config = max 1 (sc_alignment config)"
      using True by (auto simp: scan_row_def scan_matches_def fun_eq_iff scan_stride_def match_row_def)
    ultimately show ?thesis by simp
  next
    case other: False
    show ?thesis
    proof (cases "sc_valueType config = VT_All")
      case True
      have "scanRegion ops mode config = scanBufferAllTypes ops config (sc_alignment config)"
        using True by (simp add: fun_eq_iff scanRegion_def)
      with True assms(2) all_types.window_scanner_axioms [of ops config "sc_alignment config"] show ?thesis
        by (simp add: scan_row_def scan_stride_def valueSizeForConfig_def)
    next
      case False
      have "window_scanner (scanRegion ops mode config) (scan_stride config) sz (match_row sz (scan_matches ops config))"
      proof (rule hits_window_scanner)
        show "0 < scan_stride config" by (auto simp: scan_stride_def split: ValueType.splits)
        show "0 < sz" using assms False other by (auto simp: valueSizeForConfig_def needle_ok_def split: ValueType.splits sum.splits)
        fix buf base lim
        show "scanRegion ops mode config buf base lim = hits (scan_stride config) sz (scan_matches ops config) buf base"
        proof (cases "sc_valueType config")
          case VT_String
          with assms show ?thesis
            by (auto simp: scanRegion_def needle_ok_def valueSizeForConfig_def stringValueSize_def scan_stride_def scan_matches_def [abs_def]
                scanBufferString_hits max_absorb2 Suc_leI split: sum.splits)
        next
          case VT_UnicodeString
          with assms show ?thesis
            by (auto simp: scanRegion_def needle_ok_def valueSizeForConfig_def scan_stride_def scan_matches_def [abs_def]
                max_absorb2 split: sum.splits) (subst scanBufferUnicode_hits, auto)
        next
          case VT_ByteArray
          with assms show ?thesis
            by (auto simp: scanRegion_def needle_ok_def valueSizeForConfig_def scan_stride_def scan_matches_def [abs_def]
                scanBufferAOB_hits max_absorb2 Suc_leI)
        next
          case VT_Binary
          with assms show ?thesis
            by (auto simp: scanRegion_def needle_ok_def valueSizeForConfig_def scan_stride_def scan_matches_def [abs_def]
                scanBufferBinary_hits max_absorb2 Suc_leI)
        next
          case VT_Grouped
          with assms show ?thesis
            by (auto simp: scanRegion_def needle_ok_def valueSizeForConfig_def scan_stride_def scan_matches_def [abs_def] grouped_size_def
                scanBufferUnknown_hits grouped_hits max_absorb2 Suc_leI split: sum.splits)
        next
          case VT_Custom
          with assms show ?thesis
            by (auto simp: scanRegion_def valueSizeForConfig_def scan_stride_def scan_matches_def [abs_def] custom_hits)
        qed (use assms other False in \<open>auto simp: needle_ok_def\<close>)
      qed
      with False show ?thesis by (simp add: scan_row_def)
    qed
  qed
qed

section \<open>What is scanned\<close>

subsection \<open>Regions\<close>

definition protAllowed :: "ProtMatch \<Rightarrow> bool \<Rightarrow> bool" where
  "protAllowed m has = (m = PM_Any \<or> (m = PM_Yes) = has)"

definition scan_grid :: "'d ScanConfig \<Rightarrow> nat" where
  "scan_grid config =
    (if sc_valueType config \<in> {VT_Byte, VT_Int16, VT_Int32, VT_Int64, VT_Float, VT_Double, VT_Pointer, VT_All}
     then max (sc_alignment config) 1
     else if sc_valueType config = VT_UnicodeString then 2 else 1)"

text \<open>The first address of the grid from an address on; there is none when it lies above the top of the address space.\<close>

definition grid_start :: "nat \<Rightarrow> u64 \<Rightarrow> u64 option" where
  "grid_start grid s =
    (let off_grid = (grid > 1 \<and> unat s mod grid \<noteq> 0); add = grid - unat s mod grid in
     if off_grid \<and> unat s + add > 2 ^ 64 - 1 then None
     else Some (if off_grid then s + of_nat add else s))"

text \<open>The part of a region that is scanned, if any; an impossible region fails the scan.\<close>

definition clip_region :: "'d ScanConfig \<Rightarrow> MemoryRegion \<Rightarrow> string + MemoryRegion option" where
  "clip_region config r =
    (if r_state r \<noteq> MS_Committed then Inr None
     else if \<not> prot_has (r_protection r) Prot_Read then Inr None
     else if \<not> protAllowed (sc_writableMatch config) (prot_has (r_protection r) Prot_Write) then Inr None
     else if \<not> protAllowed (sc_executableMatch config) (prot_has (r_protection r) Prot_Exec) then Inr None
     else if \<not> memoryTypeAllowed config (r_type r) then Inr None
     else if r_size r = 0 then Inr None
     else if span_overflows (r_base r) (r_size r) then Inl ''Target memory region overflows the address space''
     else case grid_start (scan_grid config) (max (r_base r) (sc_startAddress config)) of
       None \<Rightarrow> Inr None
     | Some scanStart \<Rightarrow>
         if scanStart > sc_stopAddress config \<or> unat (scanStart - r_base r) \<ge> r_size r then Inr None
         else let remaining = r_size r - unat (scanStart - r_base r);
                  distance = unat (sc_stopAddress config - scanStart)
           in Inr (Some (r\<lparr>r_base := scanStart, r_size := if distance < remaining - 1 then distance + 1 else remaining\<rparr>)))"

fun clip_regions :: "'d ScanConfig \<Rightarrow> MemoryRegion list \<Rightarrow> string + MemoryRegion list" where
  "clip_regions config [] = Inr []"
| "clip_regions config (r # rs) =
    (case clip_region config r of
       Inl e \<Rightarrow> Inl e
     | Inr c \<Rightarrow> (case clip_regions config rs of
                   Inl e \<Rightarrow> Inl e
                 | Inr cs \<Rightarrow> Inr (case c of None \<Rightarrow> cs | Some r' \<Rightarrow> r' # cs)))"

subsection \<open>Chunks\<close>

datatype chunk = Chunk (c_base: u64) (c_owned: nat) (c_readLen: nat)

function range_chunks :: "nat \<Rightarrow> nat \<Rightarrow> u64 \<Rightarrow> nat \<Rightarrow> nat \<Rightarrow> chunk list" where
  "range_chunks ownedLen overlap rbase rsize off =
    (if off < rsize \<and> 0 < ownedLen then
       let owned = min ownedLen (rsize - off);
           readLen = owned + min overlap (rsize - off - owned)
       in Chunk (rbase + of_nat off) owned readLen # range_chunks ownedLen overlap rbase rsize (off + owned)
     else [])"
  by auto

termination
  by (relation "measure (\<lambda>(ownedLen, overlap, rbase, rsize, off). rsize - off)") auto

declare range_chunks.simps [simp del]

text \<open>\<^verbatim>\<open>strtoul(text, &end, 10)\<close> of a plain number, as the tuning variable \<^verbatim>\<open>CE_SCAN_CHUNK_KB\<close> is read.\<close>

definition strtoul10 :: "string \<Rightarrow> u64 \<times> string \<times> bool" where
  "strtoul10 s =
    (let t = dropWhile is_space s;
         neg = (t \<noteq> [] \<and> hd t = CHR ''-'');
         u = (if t \<noteq> [] \<and> (hd t = CHR ''-'' \<or> hd t = CHR ''+'') then tl t else t);
         ds = takeWhile (is_digit_of 10) u
     in if ds = [] then (0, s, False)
        else let n = run_value 10 ds; rest = dropWhile (is_digit_of 10) u in
          if n \<ge> 2 ^ 64 then (- 1, rest, True) else (if neg then - of_nat n else of_nat n, rest, False))"

definition chunk_bytes :: "int option \<Rightarrow> string option \<Rightarrow> nat" where
  "chunk_bytes l2 env =
    (let k = (case l2 of
                Some n \<Rightarrow> if n > 0 then max (64 * 1024) (min (1024 * 1024) (nat n div 2)) else 128 * 1024
              | None \<Rightarrow> 128 * 1024)
     in case env of
          None \<Rightarrow> k
        | Some e \<Rightarrow> (case strtoul10 e of (kb, rest, erange) \<Rightarrow>
            if \<not> erange \<and> length rest \<noteq> length e \<and> rest = [] \<and> kb > 0 \<and> unat kb \<le> (2 ^ 64 - 1) div 1024 then unat kb * 1024 else k))"

definition owned_len :: "nat \<Rightarrow> nat \<Rightarrow> nat" where
  "owned_len kChunkBytes alignment = (let n = kChunkBytes div alignment * alignment in if n = 0 then alignment else n)"

subsection \<open>Pages that were never touched\<close>

record scan_host =
  h_mode :: SimdMode
  h_threads :: nat
  h_chunkBytes :: nat
  h_pageSize :: int
  h_pagemapOff :: bool
  h_concurrentReads :: bool

definition bytewise :: "ValueType \<Rightarrow> bool" where
  "bytewise t \<longleftrightarrow> t \<in> {VT_String, VT_UnicodeString, VT_ByteArray, VT_Binary}"

definition skipNonResident :: "'d scan_ops \<Rightarrow> scan_host \<Rightarrow> 'd ScanConfig \<Rightarrow> nat \<Rightarrow> bool" where
  "skipNonResident ops hst config maxMatchSize =
    (let alignment = max 1 (sc_alignment config);
         stride = (if bytewise (sc_valueType config) then 1 else alignment);
         ps = h_pageSize hst;
         cannotStraddle = (ps > 0 \<and> stride \<ge> maxMatchSize \<and> nat ps mod stride = 0)
     in if \<not> h_pagemapOff hst \<and> cannotStraddle \<and> sc_valueType config \<noteq> VT_Custom then
          let zeroWindow = replicate (max (maxMatchSize * 4) 64) 0
          in scanRegion ops (h_mode hst) config zeroWindow 0x1000 (length zeroWindow) = []
        else False)"

abbreviation kPagemapMinRegion :: nat where "kPagemapMinRegion \<equiv> 256 * 1024"

fun resident_ranges :: "MemoryRegion \<Rightarrow> (u64 \<times> u64) list \<Rightarrow> string + (u64 \<times> nat) list" where
  "resident_ranges region [] = Inr []"
| "resident_ranges region ((b, e) # rs) =
    (if b < r_base region \<or> e \<le> b \<or> e > r_base region + of_nat (r_size region) then Inl ''Resident memory span exceeds its target region''
     else case resident_ranges region rs of Inl m \<Rightarrow> Inl m | Inr l \<Rightarrow> Inr ((b, unat (e - b)) # l))"

text \<open>\<open>resident\<close> is \<^verbatim>\<open>ProcessHandle::residentRanges\<close> of the target.\<close>

definition region_ranges :: "bool \<Rightarrow> (u64 \<Rightarrow> nat \<Rightarrow> (u64 \<times> u64) list) \<Rightarrow> MemoryRegion \<Rightarrow> string + (u64 \<times> nat) list" where
  "region_ranges skip resident region =
    (if skip \<and> r_type region = MT_Private \<and> r_size region \<ge> kPagemapMinRegion \<and> r_size region \<le> unat (- 1 - r_base region)
     then resident_ranges region (resident (r_base region) (r_size region))
     else Inr [(r_base region, r_size region)])"

fun all_ranges :: "bool \<Rightarrow> (u64 \<Rightarrow> nat \<Rightarrow> (u64 \<times> u64) list) \<Rightarrow> MemoryRegion list \<Rightarrow> string + (u64 \<times> nat) list" where
  "all_ranges skip resident [] = Inr []"
| "all_ranges skip resident (r # rs) =
    (case region_ranges skip resident r of
       Inl e \<Rightarrow> Inl e
     | Inr l \<Rightarrow> (case all_ranges skip resident rs of Inl e \<Rightarrow> Inl e | Inr ls \<Rightarrow> Inr (l @ ls)))"

subsection \<open>Threads\<close>

text \<open>The chunks one thread takes and the rest: until it has its share, or all of them for the last thread.\<close>

fun take_run :: "nat \<Rightarrow> bool \<Rightarrow> nat \<Rightarrow> chunk list \<Rightarrow> chunk list \<times> chunk list" where
  "take_run perThread lastThread acc [] = ([], [])"
| "take_run perThread lastThread acc (c # cs) =
    (if acc < perThread \<or> lastThread then
       (case take_run perThread lastThread (acc + c_owned c) cs of (run, rest) \<Rightarrow> (c # run, rest))
     else ([], c # cs))"

fun thread_runs :: "nat \<Rightarrow> nat \<Rightarrow> chunk list \<Rightarrow> chunk list list" where
  "thread_runs perThread 0 cs = []"
| "thread_runs perThread (Suc n) cs =
    (case take_run perThread (n = 0) 0 cs of (run, rest) \<Rightarrow> run # thread_runs perThread n rest)"

subsection \<open>The plan of a first scan\<close>

definition first_scan_checks :: "'d scan_ops \<Rightarrow> 'd ScanConfig \<Rightarrow> string + unit" where
  "first_scan_checks ops config =
    (if sc_compareType config \<in> {SC_Changed, SC_Unchanged, SC_Increased, SC_Decreased, SC_IncreasedBy, SC_DecreasedBy, SC_SameAsFirst} then
       Inl ''This compare needs a previous scan: run a first scan (Exact or Unknown initial value) first''
     else if sc_valueType config = VT_Grouped then
       (if sc_groupedTerms config = [] then Inl ''ValueType::Grouped requires grouped terms (use parseGrouped)''
        else case groupedValueSize (so_iconv ops) config of
          Inl e \<Rightarrow> Inl e
        | Inr n \<Rightarrow>
            if n = 0 then Inl ''ValueType::Grouped has invalid grouped terms''
            else if sc_compareType config \<noteq> SC_Exact \<and> sc_compareType config \<noteq> SC_Unknown then
              Inl ''ValueType::Grouped first scan supports only Exact or Unknown compare''
            else Inr ())
     else if sc_valueType config = VT_Custom then
       (if sc_customValueSize config = 0 then Inl ''ValueType::Custom requires customValueSize > 0''
        else if sc_compareType config = SC_Exact \<and> sc_customFormula config = [] then Inl ''ValueType::Custom exact scan requires customFormula''
        else if sc_compareType config \<noteq> SC_Exact \<and> sc_compareType config \<noteq> SC_Unknown then
          Inl ''ValueType::Custom first scan supports only Exact or Unknown compare''
        else Inr ())
     else Inr ())"

record 'd scan_plan =
  pl_config :: "'d ScanConfig"
  pl_gdbTarget :: bool
  pl_regions :: "MemoryRegion list"
  pl_ranges :: "(u64 \<times> nat) list"
  pl_runs :: "chunk list list"
  pl_total :: nat

definition run_chunks :: "scan_host \<Rightarrow> chunk list \<Rightarrow> chunk list list" where
  "run_chunks hst chunks =
    (let totalMem = sum_list (map c_owned chunks) in
     if totalMem = 0 then []
     else let maxThreads = (if h_concurrentReads hst then h_threads hst else 1);
              nThreads = min maxThreads (max 1 (length chunks));
              perThread = (totalMem + nThreads - 1) div nThreads;
              perThread = (if perThread = 0 then 1 else perThread)
       in thread_runs perThread nThreads chunks)"

text \<open>
  Everything up to the start of the workers: the configuration, the ranges and the chunks of each thread. A
  target that reports no regions over a remote connection is asked again whether it is live.
\<close>

definition first_scan_plan ::
  "'d fp \<Rightarrow> 'd scan_ops \<Rightarrow> scan_host \<Rightarrow> TargetDescription \<Rightarrow> bool \<Rightarrow> MemoryRegion list \<Rightarrow> (u64 \<Rightarrow> nat \<Rightarrow> (u64 \<times> u64) list) \<Rightarrow>
    'd ScanConfig \<Rightarrow> string + 'd scan_plan" where
  "first_scan_plan fp ops hst description stillLive regions resident requested =
    (case targetScanConfig fp (so_iconv ops) description requested of
       Inl e \<Rightarrow> Inl e
     | Inr (config, gdbTarget) \<Rightarrow>
     case first_scan_checks ops config of
       Inl e \<Rightarrow> Inl e
     | Inr _ \<Rightarrow>
     if gdbTarget \<and> regions = [] then
       Inl (if \<not> stillLive then ''The remote target disconnected before scanning''
            else ''The target reported no memory map; for a GDB stub supply explicit guest ranges before scanning'')
     else case clip_regions config regions of
       Inl e \<Rightarrow> Inl e
     | Inr scanRegions \<Rightarrow>
     if sum_list (map r_size scanRegions) > 2 ^ 64 - 1 then Inl ''Total scan span exceeds the frontend size limit''
     else if sum_list (map r_size scanRegions) = 0 then
       Inr \<lparr>pl_config = config, pl_gdbTarget = gdbTarget, pl_regions = scanRegions, pl_ranges = [], pl_runs = [], pl_total = 0\<rparr>
     else case valueSizeForConfig (so_iconv ops) config of
       Inl e \<Rightarrow> Inl e
     | Inr n \<Rightarrow>
         let alignment = max 1 (sc_alignment config);
             maxMatchSize = max 1 n;
             overlap = maxMatchSize - 1;
             ownedLen = owned_len (h_chunkBytes hst) alignment
         in case all_ranges (skipNonResident ops hst config maxMatchSize) resident scanRegions of
              Inl e \<Rightarrow> Inl e
            | Inr ranges \<Rightarrow>
                let chunks = concat (map (\<lambda>(b, n). range_chunks ownedLen overlap b n 0) ranges)
                in Inr \<lparr>pl_config = config, pl_gdbTarget = gdbTarget, pl_regions = scanRegions, pl_ranges = ranges,
                         pl_runs = run_chunks hst chunks, pl_total = sum_list (map c_owned chunks)\<rparr>)"

subsection \<open>Workers\<close>

record 'w worker_state =
  ws_world :: 'w
  ws_todo :: "chunk list list"
  ws_out :: "emission list list"
  ws_scanned :: nat
  ws_cancelled :: bool
  ws_failed :: bool

definition start_workers :: "'w \<Rightarrow> chunk list list \<Rightarrow> 'w worker_state" where
  "start_workers w runs = \<lparr>ws_world = w, ws_todo = runs, ws_out = map (\<lambda>_. []) runs, ws_scanned = 0, ws_cancelled = False, ws_failed = False\<rparr>"

text \<open>What a worker does with the answer to a chunk's read.\<close>

definition chunk_emits :: "(byte list \<Rightarrow> u64 \<Rightarrow> nat \<Rightarrow> emission list) \<Rightarrow> chunk \<Rightarrow> byte list result \<Rightarrow> emission list" where
  "chunk_emits scan c r =
    (case r of Inl e \<Rightarrow> [] | Inr xs \<Rightarrow> if xs = [] then [] else scan xs (c_base c) (min (length xs) (c_owned c)))"

definition chunk_scanned :: "chunk \<Rightarrow> byte list result \<Rightarrow> nat" where
  "chunk_scanned c r = (case r of Inl e \<Rightarrow> 0 | Inr xs \<Rightarrow> min (length xs) (c_owned c))"

text \<open>
  One step of the workers, in any order: a thread scans its next chunk unless the scan was cancelled or another
  thread failed; the user cancels; a thread throws and is finished; a thread sees a flag and is finished.
\<close>

inductive worker_step :: "'w reader \<Rightarrow> (byte list \<Rightarrow> u64 \<Rightarrow> nat \<Rightarrow> emission list) \<Rightarrow> 'w worker_state \<Rightarrow> 'w worker_state \<Rightarrow> bool"
  for rd scan where
  scan_chunk: "t < length (ws_todo s) \<Longrightarrow> ws_todo s ! t = c # cs \<Longrightarrow> \<not> ws_cancelled s \<Longrightarrow> \<not> ws_failed s \<Longrightarrow>
    rd (ws_world s) (c_base c) (c_readLen c) = (r, w') \<Longrightarrow>
    worker_step rd scan s (s\<lparr>ws_world := w', ws_todo := (ws_todo s)[t := cs],
      ws_out := (ws_out s)[t := ws_out s ! t @ chunk_emits scan c r], ws_scanned := ws_scanned s + chunk_scanned c r\<rparr>)"
| cancel: "worker_step rd scan s (s\<lparr>ws_cancelled := True\<rparr>)"
| throw: "t < length (ws_todo s) \<Longrightarrow> worker_step rd scan s (s\<lparr>ws_failed := True, ws_todo := (ws_todo s)[t := []]\<rparr>)"
| stop: "t < length (ws_todo s) \<Longrightarrow> ws_cancelled s \<or> ws_failed s \<Longrightarrow> worker_step rd scan s (s\<lparr>ws_todo := (ws_todo s)[t := []]\<rparr>)"

inductive_cases worker_stepE: "worker_step rd scan s s'"

definition workers_done :: "'w worker_state \<Rightarrow> bool" where
  "workers_done s \<longleftrightarrow> (\<forall>cs \<in> set (ws_todo s). cs = [])"

text \<open>What \<^verbatim>\<open>firstScan\<close> makes of the workers' results once all have joined.\<close>

definition finish_scan :: "bool \<Rightarrow> bool \<Rightarrow> 'w worker_state \<Rightarrow> string + emission list" where
  "finish_scan gdbTarget stillLive s =
    (if ws_failed s then Inl ''worker exception''
     else if gdbTarget \<and> \<not> stillLive then Inl ''The remote target disconnected during scanning''
     else Inr (concat (ws_out s)))"

section \<open>Chunks and threads cover the ranges\<close>

lemma take_run_append: "take_run per lst acc cs = (run, rest) \<Longrightarrow> run @ rest = cs"
  by (induction cs arbitrary: acc run rest) (auto split: if_splits prod.splits)

lemma take_run_last: "snd (take_run per True acc cs) = []"
  by (induction cs arbitrary: acc) (auto simp: split_beta)

lemma concat_thread_runs: "concat (thread_runs per (Suc n) cs) = cs"
proof (induction n arbitrary: cs)
  case 0
  obtain run rest where r: "take_run per True 0 cs = (run, rest)" by (cases "take_run per True 0 cs")
  with take_run_append [OF r] take_run_last [of per 0 cs] show ?case by simp
next
  case (Suc n)
  obtain run rest where r: "take_run per False 0 cs = (run, rest)" by (cases "take_run per False 0 cs")
  with take_run_append [OF r] Suc [of rest] show ?case by simp
qed

lemma sum_list_0_chunks: "\<forall>c \<in> set cs. 0 < c_owned c \<Longrightarrow> sum_list (map c_owned cs) = 0 \<Longrightarrow> cs = []"
  by (cases cs) auto

lemma concat_run_chunks:
  assumes "0 < h_threads hst" "\<forall>c \<in> set cs. 0 < c_owned c"
  shows "concat (run_chunks hst cs) = cs"
proof (cases "sum_list (map c_owned cs) = 0")
  case True
  with sum_list_0_chunks [OF assms(2)] show ?thesis by (simp add: run_chunks_def)
next
  case False
  define n where "n = min (if h_concurrentReads hst then h_threads hst else 1) (max 1 (length cs))"
  have "0 < n" using assms(1) by (simp add: n_def)
  then obtain k where k: "n = Suc k" by (cases n) auto
  from False show ?thesis unfolding run_chunks_def Let_def n_def [symmetric] k by (simp only: if_False concat_thread_runs)
qed

lemma range_chunks_owned: "c \<in> set (range_chunks ownedLen overlap b n off) \<Longrightarrow> 0 < c_owned c \<and> c_owned c \<le> c_readLen c \<and> c_readLen c \<le> c_owned c + overlap"
proof (induction ownedLen overlap b n off rule: range_chunks.induct)
  case (1 ownedLen overlap b n off)
  then show ?case
    by (subst (asm) (2) range_chunks.simps) (auto simp: Let_def split: if_splits)
qed

text \<open>A chunk lies in its range, and its candidates are those of the range.\<close>

lemma range_chunks_inside:
  "c \<in> set (range_chunks ownedLen overlap b n off) \<Longrightarrow> \<exists>k. c_base c = b + of_nat k \<and> k + c_owned c \<le> n \<and> k + c_readLen c \<le> n"
proof (induction ownedLen overlap b n off rule: range_chunks.induct)
  case (1 ownedLen overlap b n off)
  show ?case
  proof (cases "off < n \<and> 0 < ownedLen")
    case True
    let ?owned = "min ownedLen (n - off)"
    from True 1(2) have "c = Chunk (b + of_nat off) ?owned (?owned + min overlap (n - off - ?owned)) \<or>
        c \<in> set (range_chunks ownedLen overlap b n (off + ?owned))"
      by (subst (asm) range_chunks.simps) (auto simp: Let_def)
    then show ?thesis
    proof
      assume "c \<in> set (range_chunks ownedLen overlap b n (off + ?owned))"
      with 1(1) [OF True refl refl] show ?thesis .
    qed (use True in \<open>auto intro!: exI [of _ off]\<close>)
  qed (use 1(2) in \<open>subst (asm) range_chunks.simps, simp\<close>)
qed

lemma span_bytes_window: "off + n \<le> k \<Longrightarrow> span_bytes m (b + of_nat off) n = window (span_bytes m b k) off n"
  by (rule nth_equalityI) (simp_all add: nth_window add.assoc)

context window_scanner
begin

lemma range_rows:
  assumes "stride dvd ownedLen" "0 < ownedLen" "stride dvd off"
  shows "concat (map (\<lambda>c. scan (span_bytes m (c_base c) (c_readLen c)) (c_base c) (c_owned c)) (range_chunks ownedLen (width - 1) b n off)) =
    rows_from (span_bytes m b n) b off"
  using assms(3)
proof (induction "n - off" arbitrary: off rule: less_induct)
  case less
  show ?case
  proof (cases "off < n")
    case True
    define owned where "owned = min ownedLen (n - off)"
    define len where "len = owned + min (width - 1) (n - off - owned)"
    have owned: "0 < owned" "off + owned \<le> n" using True assms(2) by (auto simp: owned_def)
    have "off + len \<le> n" using owned by (auto simp: len_def)
    then have bytes: "span_bytes m (b + of_nat off) len = window (span_bytes m b n) off len" by (rule span_bytes_window)
    have rest: "concat (map (\<lambda>c. scan (span_bytes m (c_base c) (c_readLen c)) (c_base c) (c_owned c))
        (range_chunks ownedLen (width - 1) b n (off + owned))) = rows_from (span_bytes m b n) b (off + owned)"
    proof (cases "off + owned < n")
      case True
      then have "owned = ownedLen" by (auto simp: owned_def)
      with True owned less.prems assms(1) show ?thesis by (intro less.hyps) auto
    qed (subst range_chunks.simps, simp add: rows_from_end)
    have "scan (span_bytes m (b + of_nat off) len) (b + of_nat off) owned @ rows_from (span_bytes m b n) b (off + owned) =
        rows_from (span_bytes m b n) b off"
      unfolding bytes by (rule chunk_rows) (use less.prems owned in \<open>auto simp: len_def\<close>)
    moreover have "range_chunks ownedLen (width - 1) b n off =
        Chunk (b + of_nat off) owned len # range_chunks ownedLen (width - 1) b n (off + owned)"
      by (subst range_chunks.simps) (use True assms(2) in \<open>simp only: Let_def owned_def len_def if_True simp_thms\<close>)
    ultimately show ?thesis using rest by simp
  qed (subst range_chunks.simps, simp add: rows_from_end)
qed

end

section \<open>Every interleaving of the workers\<close>

text \<open>The rows of a run of target memory: the candidates on the grid, each looking at the bytes up to the end of the run.\<close>

definition memory_rows :: "(u64 \<Rightarrow> byte list \<Rightarrow> emission list) \<Rightarrow> nat \<Rightarrow> nat \<Rightarrow> (u64 \<Rightarrow> byte) \<Rightarrow> u64 \<Rightarrow> nat \<Rightarrow> emission list" where
  "memory_rows row stride width m b n =
    concat (map (\<lambda>off. row (b + of_nat off) (span_bytes m (b + of_nat off) (min width (n - off)))) (filter (\<lambda>off. stride dvd off) [0..<n]))"

context window_scanner
begin

lemma rows_from_memory: "rows_from (span_bytes m b n) b 0 = memory_rows row stride width m b n"
proof -
  have "window (span_bytes m b n) off width = span_bytes m (b + of_nat off) (min width (n - off))" if "off < n" for off
  proof -
    have "window (span_bytes m b n) off width = window (span_bytes m b n) off (min width (n - off))"
      by (simp add: window_def min_def)
    with that span_bytes_window [of off "min width (n - off)" n m b] show ?thesis by simp
  qed
  then show ?thesis
    unfolding rows_from_def memory_rows_def by (intro arg_cong [where f = concat] map_cong) auto
qed

text \<open>Every row a scan emits is a row of some candidate it owns.\<close>

lemma scan_row_origin:
  assumes "e \<in> set (scan xs b l)" "l \<le> length xs" "length xs \<le> l + (width - 1)"
  obtains off where "off < l" "stride dvd off" "e \<in> set (row (b + of_nat off) (window xs off width))"
  using assms(1) unfolding scan_rows [OF assms(2,3)] by auto

end

definition full_emits :: "(byte list \<Rightarrow> u64 \<Rightarrow> nat \<Rightarrow> emission list) \<Rightarrow> (u64 \<Rightarrow> byte) \<Rightarrow> chunk \<Rightarrow> emission list" where
  "full_emits scan m c = scan (span_bytes m (c_base c) (c_readLen c)) (c_base c) (c_owned c)"

text \<open>
  The invariants of the workers over memory \<open>m\<close>: a thread only scans chunks of its share; its rows come from chunks
  that were read; and as long as nothing was cancelled and nothing failed, its rows and those of the chunks it has
  left make up its share.
\<close>

definition workers_frame :: "('w \<Rightarrow> u64 \<Rightarrow> byte) \<Rightarrow> ('w \<Rightarrow> bool) \<Rightarrow> (u64 \<Rightarrow> byte) \<Rightarrow> chunk list list \<Rightarrow> 'w worker_state \<Rightarrow> bool" where
  "workers_frame mem ok m runs s \<longleftrightarrow>
    mem (ws_world s) = m \<and> ok (ws_world s) \<and> length (ws_todo s) = length runs \<and> length (ws_out s) = length runs \<and>
    (\<forall>t < length runs. set (ws_todo s ! t) \<subseteq> set (runs ! t))"

definition shares_kept :: "(byte list \<Rightarrow> u64 \<Rightarrow> nat \<Rightarrow> emission list) \<Rightarrow> (u64 \<Rightarrow> byte) \<Rightarrow> chunk list list \<Rightarrow> 'w worker_state \<Rightarrow> bool" where
  "shares_kept scan m runs s \<longleftrightarrow>
    (\<not> ws_cancelled s \<and> \<not> ws_failed s \<longrightarrow>
      (\<forall>t < length runs. ws_out s ! t @ concat (map (full_emits scan m) (ws_todo s ! t)) = concat (map (full_emits scan m) (runs ! t))))"

definition rows_sound :: "(byte list \<Rightarrow> u64 \<Rightarrow> nat \<Rightarrow> emission list) \<Rightarrow> (u64 \<Rightarrow> byte) \<Rightarrow> chunk list list \<Rightarrow> 'w worker_state \<Rightarrow> bool" where
  "rows_sound scan m runs s \<longleftrightarrow>
    (\<forall>t < length runs. \<forall>e \<in> set (ws_out s ! t). \<exists>c \<in> set (runs ! t). \<exists>k \<le> c_readLen c.
      e \<in> set (scan (span_bytes m (c_base c) k) (c_base c) (min k (c_owned c))))"

definition reads_complete :: "'w reader \<Rightarrow> ('w \<Rightarrow> bool) \<Rightarrow> chunk list list \<Rightarrow> bool" where
  "reads_complete rd ok runs \<longleftrightarrow>
    (\<forall>c \<in> set (concat runs). 0 < c_readLen c \<and> c_owned c \<le> c_readLen c \<and>
      (\<forall>w. ok w \<longrightarrow> (\<exists>xs. fst (rd w (c_base c) (c_readLen c)) = Inr xs \<and> length xs = c_readLen c)))"

lemma workers_start:
  "mem w = m \<Longrightarrow> ok w \<Longrightarrow> workers_frame mem ok m runs (start_workers w runs)"
  "rows_sound scan m runs (start_workers w runs)"
  "shares_kept scan m runs (start_workers w runs)"
  by (simp_all add: workers_frame_def rows_sound_def shares_kept_def start_workers_def)

context memory_port
begin

lemma worker_step_frame:
  assumes "worker_step rd scan s s'" "workers_frame mem ok m runs s" and kept: "\<And>w a n. ok w \<Longrightarrow> ok (snd (rd w a n))"
  shows "workers_frame mem ok m runs s'"
  using assms(1)
proof (cases rule: worker_step.cases)
  case (scan_chunk t c cs r w')
  then have "mem w' = m" "ok w'" using rd_same assms(2) kept [of "ws_world s" "c_base c" "c_readLen c"] by (auto simp: workers_frame_def)
  moreover have "set cs \<subseteq> set (runs ! t)" using assms(2) scan_chunk by (force simp: workers_frame_def)
  ultimately show ?thesis using assms(2) scan_chunk by (simp add: workers_frame_def nth_list_update)
qed (use assms(2) in \<open>simp_all add: workers_frame_def nth_list_update\<close>)

lemma worker_step_sound:
  assumes "worker_step rd scan s s'" "workers_frame mem ok m runs s" "rows_sound scan m runs s"
  shows "rows_sound scan m runs s'"
  using assms(1)
proof (cases rule: worker_step.cases)
  case (scan_chunk t c cs r w')
  have t: "c \<in> set (runs ! t)" "t < length runs" "length (ws_out s) = length runs" "mem (ws_world s) = m"
    using scan_chunk assms(2) by (force simp: workers_frame_def)+
  have new: "\<exists>k \<le> c_readLen c. e \<in> set (scan (span_bytes m (c_base c) k) (c_base c) (min k (c_owned c)))"
    if "e \<in> set (chunk_emits scan c r)" for e
  proof -
    from that obtain xs where xs: "r = Inr xs" "e \<in> set (scan xs (c_base c) (min (length xs) (c_owned c)))"
      by (auto simp: chunk_emits_def split: sum.splits if_splits)
    with rd_bytes [of "ws_world s" "c_base c" "c_readLen c" xs] scan_chunk t(4) show ?thesis by (metis fst_conv)
  qed
  show ?thesis
    unfolding rows_sound_def
  proof (intro allI impI ballI)
    fix t' e assume "t' < length runs" "e \<in> set (ws_out s' ! t')"
    then consider "e \<in> set (ws_out s ! t')" | "t' = t" "e \<in> set (chunk_emits scan c r)"
      using t scan_chunk(1) by (auto simp: nth_list_update split: if_splits)
    then show "\<exists>c \<in> set (runs ! t'). \<exists>k \<le> c_readLen c. e \<in> set (scan (span_bytes m (c_base c) k) (c_base c) (min k (c_owned c)))"
    proof cases
      case 1
      with assms(3) \<open>t' < length runs\<close> show ?thesis by (auto simp: rows_sound_def)
    next
      case 2
      with new t(1) show ?thesis by blast
    qed
  qed
qed (use assms(3) in \<open>simp_all add: rows_sound_def\<close>)

lemma worker_step_shares:
  assumes "worker_step rd scan s s'" "workers_frame mem ok m runs s" "reads_complete rd ok runs" "shares_kept scan m runs s"
  shows "shares_kept scan m runs s'"
  using assms(1)
proof (cases rule: worker_step.cases)
  case (scan_chunk t c cs r w')
  have frame: "mem (ws_world s) = m" "ok (ws_world s)" "length (ws_todo s) = length runs" "length (ws_out s) = length runs" "t < length runs"
    "c \<in> set (concat runs)" using assms(2) scan_chunk by (force simp: workers_frame_def)+
  with assms(3) obtain xs where xs: "r = Inr xs" "length xs = c_readLen c" "0 < c_readLen c" "c_owned c \<le> c_readLen c"
    using scan_chunk(6) unfolding reads_complete_def by (metis fst_conv)
  have "xs = span_bytes m (c_base c) (c_readLen c)"
    using rd_full [of "ws_world s" "c_base c" "c_readLen c" xs w'] scan_chunk(6) xs frame(1) by simp
  moreover have "xs \<noteq> []" using xs(2,3) by auto
  ultimately have "chunk_emits scan c r = full_emits scan m c"
    using xs by (simp add: chunk_emits_def full_emits_def min_def)
  with assms(4) scan_chunk frame show ?thesis by (auto simp: shares_kept_def nth_list_update)
qed (use assms(4) in \<open>auto simp: shares_kept_def nth_list_update\<close>)

lemma workers_reachable:
  assumes "(worker_step rd scan)\<^sup>*\<^sup>* (start_workers w runs) s" and ok: "ok w" "\<And>w a n. ok w \<Longrightarrow> ok (snd (rd w a n))"
  shows "workers_frame mem ok (mem w) runs s" "rows_sound scan (mem w) runs s"
    "reads_complete rd ok runs \<Longrightarrow> shares_kept scan (mem w) runs s"
proof -
  show "workers_frame mem ok (mem w) runs s"
    using assms(1) by (induction rule: rtranclp_induct) (auto intro: workers_start worker_step_frame ok)
  have "workers_frame mem ok (mem w) runs s \<and> rows_sound scan (mem w) runs s"
    using assms(1) by (induction rule: rtranclp_induct) (auto intro: workers_start worker_step_frame ok worker_step_sound)
  then show "rows_sound scan (mem w) runs s" by simp
  assume rc: "reads_complete rd ok runs"
  have "workers_frame mem ok (mem w) runs s \<and> shares_kept scan (mem w) runs s"
    using assms(1) by (induction rule: rtranclp_induct) (auto intro: workers_start worker_step_frame ok worker_step_shares [OF _ _ rc])
  then show "shares_kept scan (mem w) runs s" by simp
qed

lemma workers_complete:
  assumes "(worker_step rd scan)\<^sup>*\<^sup>* (start_workers w runs) s" and ok: "ok w" "\<And>w a n. ok w \<Longrightarrow> ok (snd (rd w a n))" and "reads_complete rd ok runs"
    "workers_done s" "\<not> ws_cancelled s" "\<not> ws_failed s"
  shows "concat (ws_out s) = concat (map (full_emits scan (mem w)) (concat runs))"
proof -
  note frame = workers_reachable(1) [OF assms(1) ok] and share = workers_reachable(3) [OF assms(1) ok assms(4)]
  have "ws_out s = map (\<lambda>run. concat (map (full_emits scan (mem w)) run)) runs"
  proof (rule nth_equalityI)
    show len: "length (ws_out s) = length (map (\<lambda>run. concat (map (full_emits scan (mem w)) run)) runs)"
      using frame by (simp add: workers_frame_def)
    fix t assume "t < length (ws_out s)"
    then have t: "t < length runs" using len by simp
    then have "ws_todo s ! t = []" using assms(5) frame by (auto simp: workers_done_def workers_frame_def)
    with share assms(6,7) t show "ws_out s ! t = map (\<lambda>run. concat (map (full_emits scan (mem w)) run)) runs ! t"
      by (auto simp: shares_kept_def)
  qed
  moreover have "concat (map (\<lambda>run. concat (map f run)) runs) = concat (map f (concat runs))" for f :: "chunk \<Rightarrow> emission list"
    by (induction runs) simp_all
  ultimately show ?thesis by simp
qed

end

section \<open>Skipping pages that hold no data\<close>

lemma runs_concat:
  assumes "page_runs ps B T L rs" "\<And>a. L \<le> a \<Longrightarrow> a < T \<Longrightarrow> g a \<Longrightarrow> \<not> in_runs rs a \<Longrightarrow> R a = []"
  shows "concat (map R (filter g [L..<T])) = concat (map (\<lambda>(b, e). concat (map R (filter g [b..<e]))) rs)"
  using assms
proof (induction ps B T L rs rule: page_runs.induct)
  case (1 ps B T L)
  then show ?case by (auto simp: concat_eq_Nil_conv in_runs_def)
next
  case (2 ps B T L b e rs)
  have split: "[L..<T] = [L..<b] @ [b..<e] @ [e..<T]"
    using 2(2) upt_add_eq_append [of L b "T - b"] upt_add_eq_append [of b e "T - e"] by auto
  have "R a = []" if a: "L \<le> a" "a < b" "g a" for a
  proof (rule 2(3) [OF a(1) _ a(3)])
    show "a < T" using 2(2) a(2) by simp
    show "\<not> in_runs ((b, e) # rs) a"
    proof
      assume "in_runs ((b, e) # rs) a"
      then obtain b' e' where "(b', e') \<in> set rs" "b' \<le> a" using a(2) by (auto simp: in_runs_def)
      with page_runs_bounds [of ps B T e rs b' e'] 2(2) a(2) show False by simp
    qed
  qed
  then have "concat (map R (filter g [L..<b])) = []" by (auto simp: concat_eq_Nil_conv)
  moreover have "concat (map R (filter g [e..<T])) = concat (map (\<lambda>(b, e). concat (map R (filter g [b..<e]))) rs)"
    using 2(2) by (intro 2(1)) (auto intro!: 2(3) simp: in_runs_def)
  ultimately show ?case by (simp add: split)
qed

text \<open>A candidate of a stride that divides the page cannot reach from outside the runs into them.\<close>

lemma outside_runs:
  assumes "page_runs ps B T L rs" "s dvd ps" "s dvd a" "w \<le> s" "B \<le> a" "\<not> in_runs rs a" "a \<le> x" "x < a + w"
  shows "\<not> in_runs rs x"
proof
  assume "in_runs rs x"
  then obtain b e where be: "(b, e) \<in> set rs" "b \<le> x" "x < e" by (auto simp: in_runs_def)
  with assms(6,7) have "a < b" by (auto simp: in_runs_def intro!: bexI [of _ "(b, e)"])
  with page_runs_bounds [OF assms(1) be(1)] assms(2,5) have "s dvd b" by (auto intro: dvd_trans)
  with dvd_between [OF assms(3) \<open>a < b\<close>] be(2) assms(4,8) show False by simp
qed

text \<open>The rows of a region are those of its runs when memory outside them is zero and zeros do not match.\<close>

lemma runs_rows:
  assumes runs: "page_runs ps B T B rs" and s: "s dvd ps" "0 < s" "w \<le> s" "s dvd B"
    and zero: "\<And>a. B \<le> a \<Longrightarrow> a < T \<Longrightarrow> \<not> in_runs rs a \<Longrightarrow> m (of_nat a) = 0"
    and none: "\<And>a n. n \<le> w \<Longrightarrow> row a (replicate n 0) = []"
    and T: "T \<le> 2 ^ 64"
  shows "memory_rows row s w m (of_nat B) (T - B) =
    concat (map (\<lambda>(b, e). memory_rows row s w m (of_nat b) (e - b)) rs)"
proof -
  define R where "R a = row (of_nat a) (span_bytes m (of_nat a) (min w (T - a)))" for a
  have rows: "memory_rows row s w m (of_nat b) (e - b) = concat (map R (filter (\<lambda>a. s dvd a) [b..<e]))"
    if "s dvd b" "b \<le> e" "e = T \<or> s dvd e" "e \<le> T" for b e
  proof -
    have "[b..<e] = map ((+) b) [0..<e - b]" using upt_shift [of b "e - b"] that(2) by simp
    moreover have "min w (e - b - off) = min w (T - (b + off))" if "off < e - b" "s dvd b + off" for off
    proof (cases "e = T")
      case False
      with \<open>e = T \<or> s dvd e\<close> have "s dvd e - (b + off)" using that by (simp add: dvd_diff_nat)
      then have "s \<le> e - (b + off)" using that by (auto dest: dvd_imp_le)
      with s(3) \<open>e \<le> T\<close> show ?thesis by auto
    qed simp
    ultimately show ?thesis
      unfolding memory_rows_def using \<open>s dvd b\<close>
      by (auto simp: R_def filter_map comp_def dvd_add_right_iff intro!: arg_cong [where f = concat] map_cong)
  qed
  have "R a = []" if a: "B \<le> a" "a < T" "s dvd a" "\<not> in_runs rs a" for a
  proof -
    have "span_bytes m (of_nat a) n = replicate n 0" if "n \<le> w" "a + n \<le> T" for n
    proof (rule nth_equalityI)
      fix i assume "i < length (span_bytes m (of_nat a) n)"
      then have i: "i < n" by simp
      then have "\<not> in_runs rs (a + i)"
        using outside_runs [OF runs s(1) a(3) s(3) a(1,4), of "a + i"] that by simp
      with zero [of "a + i"] a i that show "span_bytes m (of_nat a) n ! i = replicate n 0 ! i" by simp
    qed simp
    from this [of "min w (T - a)"] none [of "min w (T - a)"] a show ?thesis by (simp add: R_def)
  qed
  with runs_concat [OF runs, of "\<lambda>a. s dvd a" R] have "concat (map R (filter (\<lambda>a. s dvd a) [B..<T])) =
      concat (map (\<lambda>(b, e). concat (map R (filter (\<lambda>a. s dvd a) [b..<e]))) rs)" by blast
  moreover have "memory_rows row s w m (of_nat b) (e - b) = concat (map R (filter (\<lambda>a. s dvd a) [b..<e]))"
    if "(b, e) \<in> set rs" for b e
    using page_runs_bounds [OF runs that] s(1,4) by (intro rows) (auto intro: dvd_trans)
  then have "concat (map (\<lambda>(b, e). memory_rows row s w m (of_nat b) (e - b)) rs) =
      concat (map (\<lambda>(b, e). concat (map R (filter (\<lambda>a. s dvd a) [b..<e]))) rs)"
    by (intro arg_cong [where f = concat] map_cong) auto
  ultimately show ?thesis using rows [of B T] s(4) page_runs_le [OF runs] by simp
qed

section \<open>The regions of a scan\<close>

lemma unat_diff_le: "a \<le> b \<Longrightarrow> unat (b - a :: u64) = unat b - unat a"
  by (simp add: unat_sub)

lemma in_span_iff: "unat b + n \<le> 2 ^ 64 \<Longrightarrow> in_span b n a \<longleftrightarrow> unat b \<le> unat a \<and> unat a < unat b + n"
  by (auto simp: in_span_def unat_sub_if')

lemma next_multiple:
  assumes "\<not> grid dvd (s :: nat)" "0 < grid"
  shows "grid dvd s + (grid - s mod grid)" "\<And>a. grid dvd a \<Longrightarrow> s \<le> a \<Longrightarrow> s + (grid - s mod grid) \<le> a"
proof -
  have eq: "s + (grid - s mod grid) = s div grid * grid + grid"
    using div_mult_mod_eq [of s grid] mod_less_divisor [OF assms(2), of s] by linarith
  show "grid dvd s + (grid - s mod grid)" unfolding eq by simp
  fix a assume a: "grid dvd a" "s \<le> a"
  then have "s < a" using assms(1) by (cases "s = a") auto
  then have "s div grid * grid < a" using div_times_less_eq_dividend [of s grid] by linarith
  with a(1) show "s + (grid - s mod grid) \<le> a" unfolding eq by (intro later_page) simp_all
qed

text \<open>What the filters of a scan select.\<close>

definition region_selected :: "'d ScanConfig \<Rightarrow> MemoryRegion \<Rightarrow> bool" where
  "region_selected config r \<longleftrightarrow>
    r_state r = MS_Committed \<and> prot_has (r_protection r) Prot_Read \<and>
    protAllowed (sc_writableMatch config) (prot_has (r_protection r) Prot_Write) \<and>
    protAllowed (sc_executableMatch config) (prot_has (r_protection r) Prot_Exec) \<and>
    memoryTypeAllowed config (r_type r)"

lemma grid_start_Some:
  assumes "grid_start grid s = Some t" "0 < grid"
  shows "grid dvd unat t" "unat s \<le> unat t" "\<And>a. grid dvd a \<Longrightarrow> unat s \<le> a \<Longrightarrow> unat t \<le> a"
proof -
  let ?off = "grid > 1 \<and> unat s mod grid \<noteq> 0"
  have "grid dvd unat t \<and> unat s \<le> unat t \<and> (\<forall>a. grid dvd a \<and> unat s \<le> a \<longrightarrow> unat t \<le> a)"
  proof (cases ?off)
    case True
    then have dvd: "\<not> grid dvd unat s" by (simp add: dvd_eq_mod_eq_0)
    have t: "t = s + of_nat (grid - unat s mod grid)" and le: "unat s + (grid - unat s mod grid) < 2 ^ 64"
      using assms(1) True by (auto simp: grid_start_def Let_def split: if_splits)
    have "t = of_nat (unat s + (grid - unat s mod grid))" by (simp add: t)
    then have "unat t = unat s + (grid - unat s mod grid)" using le by (simp only: unat_of_nat_64)
    with next_multiple [OF dvd assms(2)] show ?thesis by simp
  next
    case False
    then have "grid = 1 \<or> grid dvd unat s" using assms(2) by (auto simp: dvd_eq_mod_eq_0)
    moreover have "t = s" using assms(1) False by (simp add: grid_start_def Let_def split: if_splits)
    ultimately show ?thesis by auto
  qed
  then show "grid dvd unat t" "unat s \<le> unat t" "\<And>a. grid dvd a \<Longrightarrow> unat s \<le> a \<Longrightarrow> unat t \<le> a" by blast+
qed

lemma grid_start_None:
  assumes "grid_start grid s = None" "grid dvd a" "unat s \<le> a"
  shows "2 ^ 64 \<le> a"
proof -
  have off: "1 < grid" "unat s mod grid \<noteq> 0" "unat s + (grid - unat s mod grid) > 2 ^ 64 - 1"
    using assms(1) by (auto simp: grid_start_def Let_def split: if_splits)
  then have "\<not> grid dvd unat s" by (simp add: dvd_eq_mod_eq_0)
  with next_multiple(2) [of grid "unat s" a] off assms(2,3) show ?thesis by simp
qed

lemma scan_grid_pos: "0 < scan_grid config"
  by (auto simp: scan_grid_def max_def)

lemma clip_region_grid:
  assumes "clip_region config r = Inr c" "region_selected config r" "r_size r \<noteq> 0"
  shows "unat (r_base r) + r_size r \<le> 2 ^ 64"
    "c = (case grid_start (scan_grid config) (max (r_base r) (sc_startAddress config)) of
       None \<Rightarrow> None
     | Some t \<Rightarrow>
         if t > sc_stopAddress config \<or> unat t - unat (r_base r) \<ge> r_size r then None
         else Some (r\<lparr>r_base := t, r_size := min (unat (sc_stopAddress config) - unat t + 1) (r_size r - (unat t - unat (r_base r)))\<rparr>))"
proof -
  let ?t = "grid_start (scan_grid config) (max (r_base r) (sc_startAddress config))"
  have ok: "\<not> span_overflows (r_base r) (r_size r)"
    using assms by (auto simp: clip_region_def region_selected_def)
  with assms(3) show "unat (r_base r) + r_size r \<le> 2 ^ 64" using span_overflows_iff [of "r_size r" "r_base r"] by (simp add: span_ok_def)
  have c: "(Inr c :: string + MemoryRegion option) = (case ?t of None \<Rightarrow> Inr None | Some t \<Rightarrow>
      if t > sc_stopAddress config \<or> unat (t - r_base r) \<ge> r_size r then Inr None
      else let remaining = r_size r - unat (t - r_base r); distance = unat (sc_stopAddress config - t)
        in Inr (Some (r\<lparr>r_base := t, r_size := if distance < remaining - 1 then distance + 1 else remaining\<rparr>)))"
    unfolding assms(1) [symmetric] clip_region_def using assms(2,3) ok by (simp add: region_selected_def split del: if_split)
  show "c = (case ?t of
       None \<Rightarrow> None
     | Some t \<Rightarrow>
         if t > sc_stopAddress config \<or> unat t - unat (r_base r) \<ge> r_size r then None
         else Some (r\<lparr>r_base := t, r_size := min (unat (sc_stopAddress config) - unat t + 1) (r_size r - (unat t - unat (r_base r)))\<rparr>))"
  proof (cases ?t)
    case None
    with c show ?thesis by simp
  next
    case (Some t)
    from grid_start_Some(2) [OF Some scan_grid_pos] have "r_base r \<le> t" by (simp add: word_le_nat_alt unat_max)
    then have "unat (t - r_base r) = unat t - unat (r_base r)" by (rule unat_diff_le)
    moreover have "\<not> t > sc_stopAddress config \<Longrightarrow> unat (sc_stopAddress config - t) = unat (sc_stopAddress config) - unat t"
      by (rule unat_diff_le) simp
    moreover have "(if d < n - 1 then d + 1 else n) = min (d + 1) n" for d n :: nat by auto
    ultimately show ?thesis using c unfolding Some Let_def by (auto split: if_splits)
  qed
qed

lemma clip_region_Some:
  assumes "clip_region config r = Inr (Some r')"
  shows "region_selected config r" "r_size r \<noteq> 0"
    "scan_grid config dvd unat (r_base r')" "0 < r_size r'" "r_type r' = r_type r"
    "unat (r_base r) \<le> unat (r_base r')" "unat (r_base r') + r_size r' \<le> unat (r_base r) + r_size r" "unat (r_base r') + r_size r' \<le> 2 ^ 64"
proof -
  show sel: "region_selected config r" "r_size r \<noteq> 0"
    using assms by (auto simp: clip_region_def region_selected_def split: if_splits)
  note clip = clip_region_grid [OF assms sel]
  obtain t where t: "grid_start (scan_grid config) (max (r_base r) (sc_startAddress config)) = Some t"
    "unat t - unat (r_base r) < r_size r"
    "r' = r\<lparr>r_base := t, r_size := min (unat (sc_stopAddress config) - unat t + 1) (r_size r - (unat t - unat (r_base r)))\<rparr>"
    using clip(2) by (auto split: option.splits if_splits)
  note start = grid_start_Some [OF t(1) scan_grid_pos]
  have base: "unat (r_base r) \<le> unat t" using start(2) by (simp add: unat_max)
  show "scan_grid config dvd unat (r_base r')" "0 < r_size r'" "r_type r' = r_type r" "unat (r_base r) \<le> unat (r_base r')"
    "unat (r_base r') + r_size r' \<le> unat (r_base r) + r_size r"
    using start(1) t(2) base by (auto simp: t(3))
  with clip(1) show "unat (r_base r') + r_size r' \<le> 2 ^ 64" by linarith
qed

text \<open>
  C36: clipping loses no candidate and invents none. When the regions are accepted, an address on the scan's grid lies
  in the clipped part of a region exactly when the region passes the filters (committed, readable, the wanted
  protections and type), the address lies in the region, and it lies between the From and the To address, both
  included, up to the last byte of the address space.
\<close>

theorem clip_region_exact:
  assumes "clip_region config r = Inr c" "scan_grid config dvd unat a"
  shows "(\<exists>r'. c = Some r' \<and> in_span (r_base r') (r_size r') a) \<longleftrightarrow>
    region_selected config r \<and> in_span (r_base r) (r_size r) a \<and> sc_startAddress config \<le> a \<and> a \<le> sc_stopAddress config"
proof (cases "region_selected config r \<and> r_size r \<noteq> 0")
  case False
  then have "c = None \<or> \<not> region_selected config r" "c = None \<or> r_size r \<noteq> 0"
    using assms(1) by (cases c; auto dest: clip_region_Some)+
  with False assms(1) show ?thesis by (auto dest: clip_region_Some(1,2))
next
  case True
  note clip = clip_region_grid [OF assms(1)] and sel = conjunct1 [OF True] conjunct2 [OF True]
  let ?s = "max (r_base r) (sc_startAddress config)"
  have region: "in_span (r_base r) (r_size r) a \<longleftrightarrow> unat (r_base r) \<le> unat a \<and> unat a < unat (r_base r) + r_size r"
    by (rule in_span_iff [OF clip(1) [OF sel]])
  show ?thesis
  proof (cases "grid_start (scan_grid config) ?s")
    case None
    have "\<not> unat ?s \<le> unat a" using grid_start_None [OF None assms(2)] unsigned_less [of a, where ?'a = nat] by fastforce
    with None clip(2) [OF sel] region show ?thesis by (auto simp: unat_max word_le_nat_alt)
  next
    case (Some t)
    note start = grid_start_Some [OF Some scan_grid_pos]
    have t: "unat t \<le> unat a \<longleftrightarrow> unat (r_base r) \<le> unat a \<and> unat (sc_startAddress config) \<le> unat a"
      using start(2) start(3) [OF assms(2)] by (auto simp: unat_max)
    have base: "unat (r_base r) \<le> unat t" using start(2) by (simp add: unat_max)
    have "(\<exists>r'. c = Some r' \<and> in_span (r_base r') (r_size r') a) \<longleftrightarrow>
        unat t \<le> unat a \<and> unat a < unat (r_base r) + r_size r \<and> unat a \<le> unat (sc_stopAddress config)"
    proof (cases c)
      case None
      with clip(2) [OF sel] Some have "t > sc_stopAddress config \<or> unat t - unat (r_base r) \<ge> r_size r" by (auto split: if_splits)
      with None base show ?thesis by (auto simp: word_less_nat_alt)
    next
      case (Some r')
      note bounds = clip_region_Some(8) [OF assms(1) [unfolded Some]]
      have "r_base r' = t" "r_size r' = min (unat (sc_stopAddress config) - unat t + 1) (r_size r - (unat t - unat (r_base r)))"
        "unat t \<le> unat (sc_stopAddress config)" "unat t - unat (r_base r) < r_size r"
        using clip(2) [OF sel] Some \<open>grid_start (scan_grid config) ?s = Some t\<close> by (auto simp: word_less_nat_alt not_less split: if_splits)
      with Some base in_span_iff [OF bounds, of a] show ?thesis by auto
    qed
    with sel(1) region t show ?thesis by (auto simp: word_le_nat_alt)
  qed
qed

section \<open>What a first scan finds\<close>

lemma clip_regions_mem: "clip_regions config rs = Inr cs \<Longrightarrow> r' \<in> set cs \<Longrightarrow> \<exists>r \<in> set rs. clip_region config r = Inr (Some r')"
  by (induction rs arbitrary: cs) (auto split: sum.splits option.splits)

text \<open>The pieces of an accepted plan.\<close>

lemma first_scan_plan_cases:
  assumes "first_scan_plan fp ops hst description alive regions resident requested = Inr pl" "valueSizeForConfig (so_iconv ops) (pl_config pl) = Inr sz"
  shows "clip_regions (pl_config pl) regions = Inr (pl_regions pl)"
    "pl_regions pl = [] \<and> pl_ranges pl = [] \<and> pl_runs pl = [] \<or>
     all_ranges (skipNonResident ops hst (pl_config pl) (max 1 sz)) resident (pl_regions pl) = Inr (pl_ranges pl) \<and>
     pl_runs pl = run_chunks hst (concat (map (\<lambda>(b, n). range_chunks (owned_len (h_chunkBytes hst) (max 1 (sc_alignment (pl_config pl)))) (max 1 sz - 1) b n 0) (pl_ranges pl)))"
proof -
  show clip: "clip_regions (pl_config pl) regions = Inr (pl_regions pl)"
    using assms(1) by (auto simp: first_scan_plan_def Let_def split: sum.splits if_splits)
  have "r_size r > 0" if "r \<in> set (pl_regions pl)" for r
    using clip_regions_mem [OF clip that] clip_region_Some(4) by blast
  then have "sum_list (map r_size (pl_regions pl)) = 0 \<Longrightarrow> pl_regions pl = []" by (cases "pl_regions pl") fastforce+
  then show "pl_regions pl = [] \<and> pl_ranges pl = [] \<and> pl_runs pl = [] \<or>
     all_ranges (skipNonResident ops hst (pl_config pl) (max 1 sz)) resident (pl_regions pl) = Inr (pl_ranges pl) \<and>
     pl_runs pl = run_chunks hst (concat (map (\<lambda>(b, n). range_chunks (owned_len (h_chunkBytes hst) (max 1 (sc_alignment (pl_config pl)))) (max 1 sz - 1) b n 0) (pl_ranges pl)))"
    using assms by (auto simp: first_scan_plan_def Let_def split: sum.splits if_splits)
qed

lemma owned_len_pos: "0 < al \<Longrightarrow> 0 < owned_len k al \<and> al dvd owned_len k al"
  by (auto simp: owned_len_def Let_def)

lemma stride_dvd_owned:
  assumes "sc_valueType config = VT_UnicodeString \<Longrightarrow> even (owned_len k (max 1 (sc_alignment config)))"
  shows "scan_stride config dvd owned_len k (max 1 (sc_alignment config))"
  using assms owned_len_pos [of "max 1 (sc_alignment config)" k] by (cases "sc_valueType config") (simp_all add: scan_stride_def)

lemma all_ranges_concat:
  assumes "all_ranges skip resident rs = Inr ls" "\<And>r l. r \<in> set rs \<Longrightarrow> region_ranges skip resident r = Inr l \<Longrightarrow> concat (map F l) = G r"
  shows "concat (map F ls) = concat (map G rs)"
  using assms by (induction rs arbitrary: ls) (auto split: sum.splits)

lemma resident_ranges_eq:
  "resident_ranges region rs = Inr l \<Longrightarrow> l = map (\<lambda>(b, e). (b, unat (e - b))) rs \<and> (\<forall>(b, e) \<in> set rs. r_base region \<le> b \<and> b < e)"
  by (induction region rs arbitrary: l rule: resident_ranges.induct) (auto split: if_splits sum.splits)

text \<open>A search that finds nothing in a window of zeros finds nothing in any zeros.\<close>

lemma all_types_zero: "all_types_mask ops config (replicate 8 0) = 0 \<Longrightarrow> n \<le> 8 \<Longrightarrow> all_types_mask ops config (replicate n 0) = 0"
  by (auto simp: all_types_mask_def Let_def or_eq_0_iff min_def split: if_splits)

lemma zero_rows:
  assumes "window_scanner (scanRegion ops mode config) st sz (scan_row ops config sz)" "valueSizeForConfig (so_iconv ops) config = Inr sz"
    "scanRegion ops mode config (replicate N 0) b N = []" "sz \<le> N" "n \<le> sz"
  shows "scan_row ops config sz a (replicate n 0) = []"
proof -
  have "0 < sz" using assms(1) by (simp add: window_scanner_def)
  have "concat (map (\<lambda>off. scan_row ops config sz (b + of_nat off) (window (replicate N 0) off sz)) (filter (\<lambda>off. st dvd off) [0..<N])) = []"
    using window_scanner.scan_rows [OF assms(1), of N "replicate N 0" b] assms(3) by simp
  moreover have "0 \<in> set (filter (\<lambda>off. st dvd off) [0..<N])" using \<open>0 < sz\<close> assms(4) by simp
  ultimately have "scan_row ops config sz (b + of_nat 0) (window (replicate N 0) 0 sz) = []"
    unfolding concat_eq_Nil_conv by (metis (mono_tags, lifting) image_eqI list.set_map)
  then have "scan_row ops config sz b (replicate sz 0) = []" using assms(4) by (simp add: window_def min_def)
  then show ?thesis
    using all_types_zero [of ops config n] assms(2,5)
    by (auto simp: scan_row_def match_row_def all_types_row_def valueSizeForConfig_def Let_def split: if_splits)
qed

text \<open>
  What the skipping of pages relies on: the runs of a region are runs of pages, and the bytes of the region outside
  them are zero.
\<close>

definition residency :: "(u64 \<Rightarrow> byte) \<Rightarrow> nat \<Rightarrow> (u64 \<Rightarrow> nat \<Rightarrow> (u64 \<times> u64) list) \<Rightarrow> MemoryRegion \<Rightarrow> bool" where
  "residency m ps resident r \<longleftrightarrow>
    (let B = unat (r_base r); T = B + r_size r; runs = nat_runs (resident (r_base r) (r_size r)) in
     page_runs ps B T B runs \<and> (\<forall>a. B \<le> a \<and> a < T \<and> \<not> in_runs runs a \<longrightarrow> m (of_nat a) = 0))"

lemma residentRanges_residency:
  assumes "residentRanges entries (2 ^ k) opened (r_base r) (r_size r) = Some (resident (r_base r) (r_size r))" "0 < r_size r"
    "unat (r_base r) + r_size r + 2 ^ k \<le> 2 ^ 64" "\<And>p m es. entries p m = Some es \<Longrightarrow> es = map (\<lambda>i. ent (unat p + i)) [0..<m]"
    "\<And>a. in_span (r_base r) (r_size r) a \<Longrightarrow> \<not> worth (ent (unat a div 2 ^ k)) \<Longrightarrow> m a = 0"
  shows "residency m (2 ^ k) resident r"
proof -
  let ?B = "unat (r_base r)" and ?runs = "resident (r_base r) (r_size r)"
  have "\<exists>runs. residentRanges entries (2 ^ k) opened (r_base r) (r_size r) = Some runs \<and>
      (runs = [(r_base r, r_base r + of_nat (r_size r))] \<or>
       (\<forall>a. ?B \<le> a \<and> a < ?B + r_size r \<longrightarrow> (in_runs (nat_runs runs) a \<longleftrightarrow> worth (ent (a div 2 ^ k))))) \<and>
      page_runs (2 ^ k) ?B (?B + r_size r) ?B (nat_runs runs)"
    by (rule residentRanges_runs [OF assms(3,2,4)])
  then have runs: "?runs = [(r_base r, r_base r + of_nat (r_size r))] \<or>
      (\<forall>a. ?B \<le> a \<and> a < ?B + r_size r \<longrightarrow> (in_runs (nat_runs ?runs) a \<longleftrightarrow> worth (ent (a div 2 ^ k))))"
    "page_runs (2 ^ k) ?B (?B + r_size r) ?B (nat_runs ?runs)" by (simp_all add: assms(1))
  have end_pos: "unat (r_base r + of_nat (r_size r)) = ?B + r_size r"
  proof -
    have "0 < (2 :: nat) ^ k" by simp
    then have "?B + r_size r < 2 ^ 64" using assms(3) by linarith
    moreover have "r_base r + of_nat (r_size r) = of_nat (?B + r_size r)" by simp
    ultimately show ?thesis by (simp only: unat_of_nat_64)
  qed
  have "m (of_nat a) = 0" if a: "?B \<le> a" "a < ?B + r_size r" "\<not> in_runs (nat_runs ?runs) a" for a
  proof -
    have "a < 2 ^ 64" using a(2) assms(3) by linarith
    then have idx: "unat (of_nat a :: u64) = a" by (rule unat_of_nat_64)
    have "?B + r_size r \<le> 2 ^ 64" using assms(3) by linarith
    from in_span_iff [OF this, of "of_nat a"] a(1,2) have "in_span (r_base r) (r_size r) (of_nat a)" by (simp only: idx simp_thms)
    moreover have "\<not> worth (ent (a div 2 ^ k))" using runs(1) a by (auto simp: nat_runs_def in_runs_def end_pos)
    ultimately show ?thesis using assms(5) [of "of_nat a", unfolded idx] by blast
  qed
  with runs(2) show ?thesis by (simp add: residency_def)
qed

lemma skip_stride:
  assumes "skipNonResident ops hst config (max 1 sz)" "scan_grid config = scan_stride config" "valueSizeForConfig (so_iconv ops) config = Inr sz"
  shows "scan_stride config dvd nat (h_pageSize hst)" "sz \<le> scan_stride config"
    "scanRegion ops (h_mode hst) config (replicate (max (max 1 sz * 4) 64) 0) 0x1000 (max (max 1 sz * 4) 64) = []"
proof -
  define st where "st = (if bytewise (sc_valueType config) then 1 else max 1 (sc_alignment config))"
  have skip: "max 1 sz \<le> st" "nat (h_pageSize hst) mod st = 0"
    "scanRegion ops (h_mode hst) config (replicate (max (max 1 sz * 4) 64) 0) 0x1000 (max (max 1 sz * 4) 64) = []"
    using assms(1) unfolding skipNonResident_def Let_def st_def [symmetric] by (auto split: if_splits)
  have "sc_valueType config \<noteq> VT_UnicodeString"
  proof
    assume "sc_valueType config = VT_UnicodeString"
    with assms(3) have "2 \<le> sz" by (auto simp: valueSizeForConfig_def split: sum.splits)
    with skip(1) \<open>sc_valueType config = VT_UnicodeString\<close> show False by (simp add: st_def bytewise_def)
  qed
  then have "scan_stride config = st"
    using assms(2) by (cases "sc_valueType config") (simp_all add: scan_stride_def st_def bytewise_def scan_grid_def)
  with skip(1,2) show "scan_stride config dvd nat (h_pageSize hst)" "sz \<le> scan_stride config" by (auto simp: dvd_eq_mod_eq_0)
  show "scanRegion ops (h_mode hst) config (replicate (max (max 1 sz * 4) 64) 0) 0x1000 (max (max 1 sz * 4) 64) = []" by (rule skip(3))
qed

lemma region_rows:
  assumes scanner: "window_scanner (scanRegion ops (h_mode hst) config) (scan_stride config) sz (scan_row ops config sz)"
    and sz: "valueSizeForConfig (so_iconv ops) config = Inr sz"
    and r: "scan_grid config dvd unat (r_base r)" "unat (r_base r) + r_size r \<le> 2 ^ 64"
    and l: "region_ranges (skipNonResident ops hst config (max 1 sz)) resident r = Inr l"
    and skip: "skipNonResident ops hst config (max 1 sz) \<Longrightarrow> scan_grid config = scan_stride config"
    and res: "r_type r = MT_Private \<Longrightarrow> residency m (nat (h_pageSize hst)) resident r"
  shows "concat (map (\<lambda>(b, n). memory_rows (scan_row ops config sz) (scan_stride config) sz m b n) l) =
    memory_rows (scan_row ops config sz) (scan_stride config) sz m (r_base r) (r_size r)"
proof (cases "skipNonResident ops hst config (max 1 sz) \<and> r_type r = MT_Private \<and> l \<noteq> [(r_base r, r_size r)]")
  case False
  with l have "l = [(r_base r, r_size r)]" by (auto simp: region_ranges_def split: if_splits)
  then show ?thesis by simp
next
  case True
  then have grid: "scan_grid config = scan_stride config" and priv: "r_type r = MT_Private" using skip by auto
  note st = skip_stride [OF conjunct1 [OF True] grid sz]
  let ?rs = "resident (r_base r) (r_size r)" and ?rows = "memory_rows (scan_row ops config sz) (scan_stride config) sz m"
  have l_eq: "l = map (\<lambda>(b, e). (b, unat (e - b))) ?rs" "\<forall>(b, e) \<in> set ?rs. r_base r \<le> b \<and> b < e"
    using l True resident_ranges_eq [of r ?rs l] by (auto simp: region_ranges_def split: if_splits)
  have "?rows (of_nat (unat (r_base r))) (unat (r_base r) + r_size r - unat (r_base r)) =
      concat (map (\<lambda>(b, e). ?rows (of_nat b) (e - b)) (nat_runs ?rs))"
  proof (rule runs_rows)
    show "page_runs (nat (h_pageSize hst)) (unat (r_base r)) (unat (r_base r) + r_size r) (unat (r_base r)) (nat_runs ?rs)"
      using res [OF priv] by (simp add: residency_def Let_def)
    show "m (of_nat a) = 0" if "unat (r_base r) \<le> a" "a < unat (r_base r) + r_size r" "\<not> in_runs (nat_runs ?rs) a" for a
      using res [OF priv] that by (simp add: residency_def Let_def)
    show "scan_row ops config sz a (replicate n 0) = []" if "n \<le> sz" for a n
      by (rule zero_rows [OF scanner sz st(3)]) (use that in auto)
    show "0 < scan_stride config" using scan_grid_pos [of config] grid by simp
  qed (use st r grid in auto)
  moreover have "unat e - unat b = unat (e - b)" if "(b, e) \<in> set ?rs" for b e
    using l_eq(2) that by (auto simp: unat_diff_le order.strict_implies_order)
  then have "map (\<lambda>(b, e). ?rows (of_nat b) (e - b)) (nat_runs ?rs) = map (\<lambda>(b, n). ?rows b n) l"
    by (auto simp: nat_runs_def l_eq(1))
  ultimately show ?thesis by simp
qed

lemma plan_chunks:
  assumes "c \<in> set (concat (map (\<lambda>(b, n). range_chunks ownedLen overlap b n 0) ranges))"
  obtains b n k where "(b, n) \<in> set ranges" "c_base c = b + of_nat k" "k + c_owned c \<le> n" "k + c_readLen c \<le> n" "0 < c_owned c" "c_owned c \<le> c_readLen c"
proof -
  from assms obtain b n where bn: "(b, n) \<in> set ranges" "c \<in> set (range_chunks ownedLen overlap b n 0)" by auto
  from range_chunks_inside [OF bn(2)] obtain k where "c_base c = b + of_nat k" "k + c_owned c \<le> n" "k + c_readLen c \<le> n" by blast
  with that bn range_chunks_owned [OF bn(2)] show ?thesis by blast
qed

lemma range_in_region:
  assumes "region_ranges skip resident r = Inr l" "(b, n) \<in> set l"
  shows "\<exists>j. b = r_base r + of_nat j \<and> j + n \<le> r_size r"
proof (cases "l = [(r_base r, r_size r)]")
  case True
  with assms(2) show ?thesis by (auto intro: exI [of _ 0])
next
  case False
  let ?rs = "resident (r_base r) (r_size r)" and ?top = "r_base r + of_nat (r_size r)"
  have l: "resident_ranges r ?rs = Inr l" and top: "r_size r \<le> unat (- 1 - r_base r)"
    using False assms(1) by (auto simp: region_ranges_def split: if_splits)
  have inside: "r_base r \<le> b \<and> b < e \<and> e \<le> ?top" if "(b, e) \<in> set rs" "resident_ranges r rs = Inr l" for b e rs l
    using that by (induction r rs arbitrary: l rule: resident_ranges.induct) (auto split: if_splits sum.splits)
  from resident_ranges_eq [OF l] assms(2) obtain e where e: "(b, e) \<in> set ?rs" "n = unat (e - b)" by auto
  note be = inside [OF e(1) l]
  have "unat (- 1 - r_base r) = unat (- 1 :: u64) - unat (r_base r)" by (rule unat_diff_le) simp
  then have "unat (r_base r) + r_size r < 2 ^ 64"
    using top unsigned_less [of "r_base r", where ?'a = nat] by (simp add: unsigned_minus_1_eq_mask mask_eq_exp_minus_1)
  moreover have "?top = of_nat (unat (r_base r) + r_size r)" by simp
  ultimately have "unat ?top = unat (r_base r) + r_size r" by (simp only: unat_of_nat_64)
  then have "unat (r_base r) \<le> unat b" "unat b < unat e" "unat e \<le> unat (r_base r) + r_size r"
    using be by (simp_all add: word_le_nat_alt word_less_nat_alt)
  moreover have "n = unat e - unat b" "unat (b - r_base r) = unat b - unat (r_base r)"
    using be e(2) by (simp_all add: unat_diff_le order.strict_implies_order)
  ultimately have "unat (b - r_base r) + n \<le> r_size r" by linarith
  then show ?thesis by (intro exI [of _ "unat (b - r_base r)"]) simp
qed

lemma all_ranges_mem: "all_ranges skip resident rs = Inr ls \<Longrightarrow> x \<in> set ls \<Longrightarrow> \<exists>r \<in> set rs. \<exists>l. region_ranges skip resident r = Inr l \<and> x \<in> set l"
  by (induction rs arbitrary: ls) (fastforce split: sum.splits)+

lemma plan_concat:
  assumes "first_scan_plan fp ops hst description alive regions resident requested = Inr pl" "valueSizeForConfig (so_iconv ops) (pl_config pl) = Inr sz"
    "0 < h_threads hst"
  shows "concat (pl_runs pl) =
    concat (map (\<lambda>(b, n). range_chunks (owned_len (h_chunkBytes hst) (max 1 (sc_alignment (pl_config pl)))) (max 1 sz - 1) b n 0) (pl_ranges pl))"
    (is "_ = ?chunks")
  using first_scan_plan_cases(2) [OF assms(1,2)]
proof
  assume "all_ranges (skipNonResident ops hst (pl_config pl) (max 1 sz)) resident (pl_regions pl) = Inr (pl_ranges pl) \<and>
    pl_runs pl = run_chunks hst ?chunks"
  moreover have "\<forall>c \<in> set ?chunks. 0 < c_owned c" by (blast elim: plan_chunks)
  ultimately show ?thesis using concat_run_chunks [OF assms(3)] by simp
qed simp

lemma plan_range_in_region:
  assumes "first_scan_plan fp ops hst description alive regions resident requested = Inr pl" "valueSizeForConfig (so_iconv ops) (pl_config pl) = Inr sz"
    "(b, n) \<in> set (pl_ranges pl)"
  shows "\<exists>r \<in> set (pl_regions pl). \<exists>j. b = r_base r + of_nat j \<and> j + n \<le> r_size r"
  using first_scan_plan_cases(2) [OF assms(1,2)]
proof
  assume "all_ranges (skipNonResident ops hst (pl_config pl) (max 1 sz)) resident (pl_regions pl) = Inr (pl_ranges pl) \<and>
    pl_runs pl = run_chunks hst (concat (map (\<lambda>(b, n). range_chunks (owned_len (h_chunkBytes hst) (max 1 (sc_alignment (pl_config pl)))) (max 1 sz - 1) b n 0) (pl_ranges pl)))"
  with all_ranges_mem [OF _ assms(3)] range_in_region [of _ resident _ _ b n] show ?thesis by blast
qed (use assms(3) in simp)

lemma first_scan_complete:
  assumes port: "memory_port mem rd wr"
    and plan: "first_scan_plan fp ops hst description alive regions resident requested = Inr pl"
    and config: "needle_ok ops (pl_config pl)" "valueSizeForConfig (so_iconv ops) (pl_config pl) = Inr sz"
    and unicode: "sc_valueType (pl_config pl) = VT_UnicodeString \<Longrightarrow> even (owned_len (h_chunkBytes hst) (max 1 (sc_alignment (pl_config pl))))"
    and threads: "0 < h_threads hst"
    and skip: "skipNonResident ops hst (pl_config pl) (max 1 sz) \<Longrightarrow> scan_grid (pl_config pl) = scan_stride (pl_config pl)"
    and res: "\<And>r. r \<in> set (pl_regions pl) \<Longrightarrow> r_type r = MT_Private \<Longrightarrow> residency (mem w) (nat (h_pageSize hst)) resident r"
    and readable: "\<And>b n k l w'. (b, n) \<in> set (pl_ranges pl) \<Longrightarrow> k + l \<le> n \<Longrightarrow> ok w' \<Longrightarrow>
      \<exists>xs. fst (rd w' (b + of_nat k) l) = Inr xs \<and> length xs = l"
    and ok: "ok w" "\<And>w a n. ok w \<Longrightarrow> ok (snd (rd w a n))"
    and run: "(worker_step rd (scanRegion ops (h_mode hst) (pl_config pl)))\<^sup>*\<^sup>* (start_workers w (pl_runs pl)) s"
    and fin: "workers_done s" "\<not> ws_cancelled s" "\<not> ws_failed s"
  shows "concat (ws_out s) = concat (map (\<lambda>r. memory_rows (scan_row ops (pl_config pl) sz) (scan_stride (pl_config pl)) sz (mem w) (r_base r) (r_size r)) (pl_regions pl))"
proof -
  let ?c = "pl_config pl" and ?scan = "scanRegion ops (h_mode hst) (pl_config pl)"
  let ?rows = "memory_rows (scan_row ops ?c sz) (scan_stride ?c) sz (mem w)"
  define ownedLen where "ownedLen = owned_len (h_chunkBytes hst) (max 1 (sc_alignment ?c))"
  define chunks where "chunks = concat (map (\<lambda>(b, n). range_chunks ownedLen (max 1 sz - 1) b n 0) (pl_ranges pl))"
  have scanner: "window_scanner ?scan (scan_stride ?c) sz (scan_row ops ?c sz)" by (rule scanRegion_window [OF config])
  then have "0 < sz" by (simp add: window_scanner_def)
  note parts = first_scan_plan_cases [OF plan config(2), folded ownedLen_def]
  have owned: "scan_stride ?c dvd ownedLen" "0 < ownedLen"
    unfolding ownedLen_def using stride_dvd_owned [OF unicode] owned_len_pos [of "max 1 (sc_alignment ?c)"] by auto
  have runs: "concat (pl_runs pl) = chunks"
    unfolding chunks_def ownedLen_def by (rule plan_concat [OF plan config(2) threads])
  have "reads_complete rd ok (pl_runs pl)"
    unfolding reads_complete_def runs
  proof (intro ballI conjI allI impI)
    fix c w' assume c: "c \<in> set chunks"
    then obtain b n k where "(b, n) \<in> set (pl_ranges pl)" "c_base c = b + of_nat k" "k + c_readLen c \<le> n" "0 < c_owned c" "c_owned c \<le> c_readLen c"
      unfolding chunks_def by (rule plan_chunks)
    with readable [of b n k "c_readLen c"] show "0 < c_readLen c" "c_owned c \<le> c_readLen c"
      "ok w' \<Longrightarrow> \<exists>xs. fst (rd w' (c_base c) (c_readLen c)) = Inr xs \<and> length xs = c_readLen c" by auto
  qed
  from memory_port.workers_complete [where ok = ok, OF port run ok this fin] have "concat (ws_out s) = concat (map (full_emits ?scan (mem w)) chunks)"
    by (simp add: runs)
  also have "\<dots> = concat (map (\<lambda>(b, n). ?rows b n) (pl_ranges pl))"
  proof -
    have "concat (map (full_emits ?scan (mem w)) (range_chunks ownedLen (max 1 sz - 1) b n 0)) = ?rows b n" for b n
      using window_scanner.range_rows [OF scanner owned, of 0 "mem w" b n] window_scanner.rows_from_memory [OF scanner, of "mem w" b n] \<open>0 < sz\<close>
      by (simp add: full_emits_def [abs_def] max_def)
    then have "concat (map (full_emits ?scan (mem w)) (concat (map (\<lambda>(b, n). range_chunks ownedLen (max 1 sz - 1) b n 0) rs))) =
        concat (map (\<lambda>(b, n). ?rows b n) rs)" for rs
      by (induction rs) auto
    then show ?thesis by (simp add: chunks_def)
  qed
  also have "\<dots> = concat (map (\<lambda>r. ?rows (r_base r) (r_size r)) (pl_regions pl))"
    using parts(2)
  proof
    assume "all_ranges (skipNonResident ops hst ?c (max 1 sz)) resident (pl_regions pl) = Inr (pl_ranges pl) \<and>
      pl_runs pl = run_chunks hst (concat (map (\<lambda>(b, n). range_chunks ownedLen (max 1 sz - 1) b n 0) (pl_ranges pl)))"
    then have ranges: "all_ranges (skipNonResident ops hst ?c (max 1 sz)) resident (pl_regions pl) = Inr (pl_ranges pl)" ..
    show ?thesis
    proof (rule all_ranges_concat [OF ranges])
      fix r l assume r: "r \<in> set (pl_regions pl)" and l: "region_ranges (skipNonResident ops hst ?c (max 1 sz)) resident r = Inr l"
      from clip_regions_mem [OF parts(1) r] obtain r0 where "clip_region ?c r0 = Inr (Some r)" by blast
      note clipped = clip_region_Some [OF this]
      show "concat (map (\<lambda>(b, n). ?rows b n) l) = ?rows (r_base r) (r_size r)"
        by (rule region_rows [OF scanner config(2) clipped(3,8) l skip res [OF r]])
    qed
  qed simp
  finally show ?thesis .
qed

subsection \<open>Every result is in memory\<close>

text \<open>What a reported row says about the memory.\<close>

definition row_true :: "'d scan_ops \<Rightarrow> 'd ScanConfig \<Rightarrow> nat \<Rightarrow> (u64 \<Rightarrow> byte) \<Rightarrow> MemoryRegion list \<Rightarrow> emission \<Rightarrow> bool" where
  "row_true ops config sz m regions e \<longleftrightarrow>
    (case e of
       AddResult a bs \<Rightarrow> bs = span_bytes m a sz \<and> scan_matches ops config bs \<and>
         (\<exists>r \<in> set regions. \<exists>off. a = r_base r + of_nat off \<and> off + sz \<le> r_size r)
     | AddAllTypeResult a bs types \<Rightarrow> types \<noteq> 0 \<and>
         (\<exists>n \<le> 8. bs = pad8 (span_bytes m a n) \<and> types = all_types_mask ops config (span_bytes m a n) \<and>
           (\<exists>r \<in> set regions. \<exists>off. a = r_base r + of_nat off \<and> off + n \<le> r_size r)))"

lemma first_scan_rows:
  assumes port: "memory_port mem rd wr"
    and plan: "first_scan_plan fp ops hst description alive regions resident requested = Inr pl"
    and config: "needle_ok ops (pl_config pl)" "valueSizeForConfig (so_iconv ops) (pl_config pl) = Inr sz"
    and threads: "0 < h_threads hst"
    and run: "(worker_step rd (scanRegion ops (h_mode hst) (pl_config pl)))\<^sup>*\<^sup>* (start_workers w (pl_runs pl)) s"
    and e: "e \<in> set (concat (ws_out s))"
  shows "row_true ops (pl_config pl) sz (mem w) (pl_regions pl) e"
proof -
  let ?c = "pl_config pl" and ?scan = "scanRegion ops (h_mode hst) (pl_config pl)"
  have scanner: "window_scanner ?scan (scan_stride ?c) sz (scan_row ops ?c sz)" by (rule scanRegion_window [OF config])
  then have "0 < sz" by (simp add: window_scanner_def)
  note frame = memory_port.workers_reachable(1) [where ok = "\<lambda>_. True", OF port run] and sound = memory_port.workers_reachable(2) [where ok = "\<lambda>_. True", OF port run, simplified]
  from e obtain row where "row \<in> set (ws_out s)" "e \<in> set row" by auto
  then obtain t where t: "t < length (pl_runs pl)" "e \<in> set (ws_out s ! t)" using frame by (metis (no_types, lifting) in_set_conv_nth workers_frame_def)
  with sound obtain c k where "c \<in> set (pl_runs pl ! t)" and ck': "k \<le> c_readLen c"
    "e \<in> set (?scan (span_bytes (mem w) (c_base c) k) (c_base c) (min k (c_owned c)))" unfolding rows_sound_def by blast
  then have ck: "c \<in> set (concat (pl_runs pl))" "k \<le> c_readLen c"
    "e \<in> set (?scan (span_bytes (mem w) (c_base c) k) (c_base c) (min k (c_owned c)))" using nth_mem [OF t(1)] by auto
  obtain b n j where range: "(b, n) \<in> set (pl_ranges pl)" "c_base c = b + of_nat j" "j + c_readLen c \<le> n" "c_owned c \<le> c_readLen c"
    and over: "c_readLen c \<le> c_owned c + (sz - 1)"
  proof -
    from ck(1) obtain b n where bn: "(b, n) \<in> set (pl_ranges pl)"
      "c \<in> set (range_chunks (owned_len (h_chunkBytes hst) (max 1 (sc_alignment ?c))) (max 1 sz - 1) b n 0)"
      unfolding plan_concat [OF plan config(2) threads] by auto
    from that bn(1) range_chunks_inside [OF bn(2)] range_chunks_owned [OF bn(2)] \<open>0 < sz\<close> show ?thesis by auto
  qed
  from plan_range_in_region [OF plan config(2) range(1)] obtain r i where r: "r \<in> set (pl_regions pl)" "b = r_base r + of_nat i" "i + n \<le> r_size r"
    by blast
  have len: "min k (c_owned c) \<le> length (span_bytes (mem w) (c_base c) k)" "length (span_bytes (mem w) (c_base c) k) \<le> min k (c_owned c) + (sz - 1)"
    using ck(2) over by auto
  from window_scanner.scan_row_origin [OF scanner ck(3) len] obtain off where off: "off < min k (c_owned c)"
    "e \<in> set (scan_row ops ?c sz (c_base c + of_nat off) (window (span_bytes (mem w) (c_base c) k) off sz))" by blast
  define a where "a = c_base c + of_nat off"
  define l where "l = min sz (k - off)"
  have "window (span_bytes (mem w) (c_base c) k) off sz = window (span_bytes (mem w) (c_base c) k) off l"
    by (simp add: window_def l_def min_def)
  also have "\<dots> = span_bytes (mem w) a l"
    unfolding a_def by (rule span_bytes_window [symmetric]) (use off(1) in \<open>auto simp: l_def\<close>)
  finally have row: "e \<in> set (scan_row ops ?c sz a (span_bytes (mem w) a l))" using off(2) by (simp add: a_def)
  have "a = r_base r + of_nat (i + j + off)" by (simp add: a_def range(2) r(2) add.assoc)
  moreover have "off < k" "l \<le> k - off" using off(1) by (simp_all add: l_def)
  then have "i + j + off + l \<le> r_size r" using r(3) range(3) ck(2) by linarith
  ultimately have region: "\<exists>r \<in> set (pl_regions pl). \<exists>off. a = r_base r + of_nat off \<and> off + l \<le> r_size r" using r(1) by blast
  have "l \<le> sz" by (simp add: l_def)
  with row region config(2) show ?thesis
    by (auto simp: row_true_def scan_row_def match_row_def all_types_row_def Let_def valueSizeForConfig_def split: if_splits)
qed

subsection \<open>The workers finish\<close>

definition chunks_left :: "'w worker_state \<Rightarrow> nat" where
  "chunks_left s = sum_list (map length (ws_todo s))"

lemma sum_length_update:
  "t < length xs \<Longrightarrow> sum_list (map length (xs[t := v])) + length (xs ! t) = sum_list (map length xs) + length v"
proof (induction xs arbitrary: t)
  case (Cons x xs)
  then show ?case by (cases t) fastforce+
qed simp

lemma sum_list_update_le: "t < length xs \<Longrightarrow> length v \<le> length (xs ! t) \<Longrightarrow> sum_list (map length (xs[t := v])) \<le> sum_list (map length xs)"
  using sum_length_update [of t xs v] by linarith

lemma sum_list_update_less: "t < length xs \<Longrightarrow> length v < length (xs ! t) \<Longrightarrow> sum_list (map length (xs[t := v])) < sum_list (map length xs)"
  using sum_length_update [of t xs v] by linarith

lemma chunks_left_step: "worker_step rd scan s s' \<Longrightarrow> chunks_left s' \<le> chunks_left s"
  by (cases rule: worker_step.cases) (auto simp: chunks_left_def intro!: sum_list_update_le)

lemma workers_done_left: "workers_done s \<longleftrightarrow> chunks_left s = 0"
  by (auto simp: workers_done_def chunks_left_def)

text \<open>A worker with a chunk left can always go on, and no flag is raised by that.\<close>

lemma worker_progress:
  assumes "\<not> workers_done s"
  shows "\<exists>s'. worker_step rd scan s s' \<and> chunks_left s' < chunks_left s \<and> ws_cancelled s' = ws_cancelled s \<and> ws_failed s' = ws_failed s"
proof -
  from assms obtain t c cs where t: "t < length (ws_todo s)" "ws_todo s ! t = c # cs"
    by (auto simp: workers_done_def in_set_conv_nth neq_Nil_conv)
  show ?thesis
  proof (cases "ws_cancelled s \<or> ws_failed s")
    case True
    with t have "worker_step rd scan s (s\<lparr>ws_todo := (ws_todo s)[t := []]\<rparr>)" by (intro worker_step.stop)
    with t show ?thesis by (intro exI [of _ "s\<lparr>ws_todo := (ws_todo s)[t := []]\<rparr>"] conjI) (auto simp: chunks_left_def intro!: sum_list_update_less)
  next
    case False
    obtain r w' where "rd (ws_world s) (c_base c) (c_readLen c) = (r, w')" by (cases "rd (ws_world s) (c_base c) (c_readLen c)")
    from False have "\<not> ws_cancelled s" "\<not> ws_failed s" by simp_all
    define s' where "s' = s\<lparr>ws_world := w', ws_todo := (ws_todo s)[t := cs],
      ws_out := (ws_out s)[t := ws_out s ! t @ chunk_emits scan c r], ws_scanned := ws_scanned s + chunk_scanned c r\<rparr>"
    have "worker_step rd scan s s'" unfolding s'_def by (rule worker_step.scan_chunk) fact+
    moreover have "chunks_left s' < chunks_left s" using t by (auto simp: s'_def chunks_left_def intro!: sum_list_update_less)
    ultimately show ?thesis by (intro exI [of _ s']) (simp add: s'_def)
  qed
qed

lemma workers_finish:
  "\<exists>s'. (worker_step rd scan)\<^sup>*\<^sup>* s s' \<and> workers_done s' \<and> ws_cancelled s' = ws_cancelled s \<and> ws_failed s' = ws_failed s"
proof (induction "chunks_left s" arbitrary: s rule: less_induct)
  case less
  show ?case
  proof (cases "workers_done s")
    case False
    from worker_progress [OF this] obtain s1 where s1: "worker_step rd scan s s1" "chunks_left s1 < chunks_left s"
      "ws_cancelled s1 = ws_cancelled s" "ws_failed s1 = ws_failed s" by blast
    from less [OF s1(2)] s1 show ?thesis by (metis converse_rtranclp_into_rtranclp)
  qed blast
qed


section \<open>The properties of a first scan\<close>



section \<open>A small scan\<close>

text \<open>Sixteen bytes of a process in two chunks for two threads, searched for the 4-byte value 42.\<close>

definition toy_ops :: "rat scan_ops" where
  "toy_ops = \<lparr>so_scan_floating = (\<lambda>_ _ _. []), so_match_floating = (\<lambda>_ _. False), so_match_term = (\<lambda>_ _ _. False),
     so_formula = (\<lambda>_ _ _ _ _. None), so_iconv = (\<lambda>_ _. None)\<rparr>"

definition toy_host :: scan_host where
  "toy_host = \<lparr>h_mode = AVX2, h_threads = 2, h_chunkBytes = 8, h_pageSize = 4096, h_pagemapOff = True, h_concurrentReads = True\<rparr>"

definition toy_description :: TargetDescription where
  "toy_description = \<lparr>host = default_machine, program = default_machine, transport = TT_Local, runtime = TR_Native, mixedCode = False,
     live = True, otherOwner = False, tracerPid = 0, pendingRecovery = False\<rparr>"

definition toy_region :: MemoryRegion where
  "toy_region = \<lparr>r_base = 0x1000, r_size = 16, r_protection = 3, r_type = MT_Private, r_state = MS_Committed, r_path = [], r_fileOffset = None\<rparr>"

definition toy_request :: "rat ScanConfig" where
  "toy_request = toy_config\<lparr>sc_byteOrder := BO_Little, sc_intValue := 42\<rparr>"

definition toy_plan :: "string + rat scan_plan" where
  "toy_plan = first_scan_plan toy_fp toy_ops toy_host toy_description True [toy_region] (\<lambda>b n. [(b, b + of_nat n)]) toy_request"

definition toy_space :: address_space where
  "toy_space = \<lparr>contents = (\<lambda>a. if a = 0x1008 \<or> a = 0x1005 then 42 else 0), mapped = (\<lambda>a. 0x1000 \<le> a \<and> a < 0x1010), retired = False\<rparr>"

lemmas toy_defs = toy_request_def toy_config_def new_config_def toy_description_def default_machine_def toy_host_def toy_region_def

lemma toy_target: "targetScanConfig toy_fp (so_iconv toy_ops) toy_description toy_request = Inr (toy_request, False)"
  by (simp add: targetScanConfig_def checkIntegerRange_def integer_limits_def normalise_amount_def scanNeedsByteOrder_def
      scanNeedsPointerWidth_def pointer_fits_def toy_defs)

lemma toy_clip: "clip_region toy_request toy_region = Inr (Some toy_region)"
  by (simp add: clip_region_def grid_start_def scan_grid_def protAllowed_def prot_has_def memoryTypeAllowed_def span_overflows_def toy_defs)

lemma toy_size: "valueSizeForConfig (so_iconv toy_ops) toy_request = Inr 4"
  by (simp add: valueSizeForConfig_def toy_defs)

lemma toy_chunks: "range_chunks 8 3 0x1000 16 0 = [Chunk 0x1000 8 11, Chunk 0x1008 8 8]"
  by (simp add: range_chunks.simps)

lemma toy_plan_eq:
  "toy_plan = Inr \<lparr>pl_config = toy_request, pl_gdbTarget = False, pl_regions = [toy_region], pl_ranges = [(0x1000, 16)],
     pl_runs = [[Chunk 0x1000 8 11], [Chunk 0x1008 8 8]], pl_total = 16\<rparr>"
proof -
  have "first_scan_checks toy_ops toy_request = Inr ()" by (simp add: first_scan_checks_def toy_defs)
  moreover have "\<not> skipNonResident toy_ops toy_host toy_request 4" by (simp add: skipNonResident_def toy_host_def)
  moreover have "r_base toy_region = 0x1000" "r_size toy_region = 16" by (simp_all add: toy_region_def)
  moreover have "run_chunks toy_host [Chunk 0x1000 8 11, Chunk 0x1008 8 8] = [[Chunk 0x1000 8 11], [Chunk 0x1008 8 8]]"
  proof -
    have "thread_runs 8 2 [Chunk 0x1000 8 11, Chunk 0x1008 8 8] = [[Chunk 0x1000 8 11], [Chunk 0x1008 8 8]]"
      by (simp add: numeral_2_eq_2)
    moreover have "17 div Suc (Suc 0) = 8" by (simp flip: numeral_2_eq_2)
    ultimately show ?thesis by (simp add: run_chunks_def toy_host_def Let_def)
  qed
  moreover have "owned_len (h_chunkBytes toy_host) (max 1 (sc_alignment toy_request)) = 8" by (simp add: owned_len_def toy_defs)
  ultimately show ?thesis
    by (simp add: toy_plan_def first_scan_plan_def toy_target toy_clip toy_size toy_chunks Let_def region_ranges_def)
qed

lemma toy_read:
  assumes "i + l \<le> 16"
  shows "\<exists>xs. fst (as_pread toy_space (0x1000 + of_nat i) l) = Inr xs \<and> length xs = l"
proof (cases "l = 0")
  case False
  have "mapped toy_space (0x1000 + of_nat i + of_nat j)" if "j < l" for j
  proof -
    have "0x1000 + of_nat i + of_nat j = (of_nat (0x1000 + i + j) :: u64)" by simp
    moreover have "unat (of_nat (0x1000 + i + j) :: u64) = 0x1000 + i + j" using that assms by (intro unat_of_nat_64) simp
    ultimately show ?thesis using that assms by (simp only: toy_space_def) (simp add: word_le_nat_alt word_less_nat_alt)
  qed
  note mapped = this
  then have "reachable_bytes toy_space (0x1000 + of_nat i) l = l" by (simp add: reachable_bytes_def takeWhile_eq_all_conv [THEN iffD2])
  moreover have "mapped toy_space (0x1000 + of_nat i)" using mapped [of 0] False by simp
  moreover have "\<not> retired toy_space" by (simp add: toy_space_def)
  ultimately show ?thesis using False by (simp add: as_pread_def)
qed (simp add: as_pread_def toy_space_def)




theorem clip_region_exact_witness:
  "\<exists>c. clip_region (toy_request\<lparr>sc_startAddress := 0x1001\<rparr>) toy_region = Inr c \<and>
    (\<exists>r'. c = Some r' \<and> in_span (r_base r') (r_size r') 0x1004)"
proof -
  let ?c = "toy_request\<lparr>sc_startAddress := 0x1001\<rparr>"
  have clip: "clip_region ?c toy_region = Inr (Some (toy_region\<lparr>r_base := 0x1004, r_size := 12\<rparr>))"
    by (simp add: clip_region_def grid_start_def scan_grid_def protAllowed_def prot_has_def memoryTypeAllowed_def span_overflows_def toy_defs)
  have "scan_grid ?c dvd unat (0x1004 :: u64)" by (simp add: scan_grid_def toy_defs)
  from clip_region_exact [OF clip this] clip show ?thesis
    by (simp add: region_selected_def protAllowed_def prot_has_def memoryTypeAllowed_def in_span_def toy_defs)
qed

end
