(* ===== verification/NextScan.thy ===== *)
theory NextScan
  imports FirstScan
begin

text \<open>
  The next scan (\<^verbatim>\<open>MemoryScanner::nextScan\<close> of \<^verbatim>\<open>scanner/memory_scanner.cpp\<close>): the rows of a previous scan are read
  again and compared with their old or first bytes. The comparison of floating-point values and percentages and
  the formula of a custom scan are arguments of the model; the previous rows are a list, as the reader of the
  result files delivers them.
\<close>

unbundle bit_operations_syntax

section \<open>Comparing a value with its past\<close>

text \<open>
  Outside the model: the percentage comparison of two integers (it is made in doubles) and the comparison of two
  floating-point values, from their bytes.
\<close>

record 'd next_ops =
  no_scan :: "'d scan_ops"
  no_percentage :: "'d ScanConfig \<Rightarrow> int \<Rightarrow> int \<Rightarrow> bool"
  no_floating :: "'d ScanConfig \<Rightarrow> byte list \<Rightarrow> byte list \<Rightarrow> bool"

definition supportsPercentageCompare :: "ScanCompare \<Rightarrow> bool" where
  "supportsPercentageCompare cmp \<longleftrightarrow> cmp \<in> {SC_Greater, SC_Less, SC_Between, SC_Increased, SC_Decreased}"

text \<open>\<^verbatim>\<open>compareType >= ScanCompare::Changed\<close>.\<close>

definition from_changed :: "ScanCompare \<Rightarrow> bool" where
  "from_changed cmp \<longleftrightarrow> cmp \<notin> {SC_Exact, SC_Greater, SC_Less, SC_Between, SC_Unknown}"

definition compareNextNumericValues :: "'d next_ops \<Rightarrow> 'd ScanConfig \<Rightarrow> int_type \<Rightarrow> int \<Rightarrow> int \<Rightarrow> bool" where
  "compareNextNumericValues ops config T cur old =
    (let cmp = sc_compareType config in
     if sc_percentageScan config \<and> supportsPercentageCompare cmp then no_percentage ops config cur old
     else if cmp = SC_SameAsFirst then cur = old
     else if cmp = SC_IncreasedBy \<or> cmp = SC_DecreasedBy then
       if (int_signed T \<or> int_bytes T < 8) \<and> sc_intValue config < 0 then False
       else let increased = (cmp = SC_IncreasedBy) in
         if (if increased then cur \<le> old else old \<le> cur) then False
         else let distance = take_bit (8 * int_bytes T) (if increased then cur - old else old - cur)
              in distance = take_bit 64 (sc_intValue config)
     else if from_changed cmp then getCompare cmp cur old 0
     else getCompare cmp cur (int_cast T (sc_intValue config)) (int_cast T (sc_intValue2 config)))"

definition compareNextNumeric :: "'d next_ops \<Rightarrow> 'd ScanConfig \<Rightarrow> int_type \<Rightarrow> byte list \<Rightarrow> byte list \<Rightarrow> bool" where
  "compareNextNumeric ops config T currentVal oldVal =
    compareNextNumericValues ops config T (readScanScalar T currentVal (sc_byteOrder config)) (readScanScalar T oldVal (sc_byteOrder config))"

definition compareNextAllInteger :: "'d next_ops \<Rightarrow> 'd ScanConfig \<Rightarrow> int \<Rightarrow> int \<Rightarrow> bool" where
  "compareNextAllInteger ops config current old =
    (let cmp = sc_compareType config in
     case sc_allIntegerValue config of
       None \<Rightarrow> compareNextNumericValues ops config I64 current old
     | Some value \<Rightarrow>
         if sc_percentageScan config \<and> supportsPercentageCompare cmp \<or>
            cmp \<notin> {SC_Exact, SC_Greater, SC_Less, SC_Between, SC_IncreasedBy, SC_DecreasedBy}
         then compareNextNumericValues ops config I64 current old
         else if cmp = SC_IncreasedBy \<or> cmp = SC_DecreasedBy then
           if negative value \<or> fractional value \<or> outsideMagnitude value \<or> unordered value then False
           else let increased = (cmp = SC_IncreasedBy) in
             if (if increased then current \<le> old else old \<le> current) then False
             else take_bit 64 (if increased then current - old else old - current) = int (magnitude value)
         else compareAllIntegerLiteral config current)"

definition compareMaskedBytes :: "byte list \<Rightarrow> byte list \<Rightarrow> byte list \<Rightarrow> bool" where
  "compareMaskedBytes currentVal pattern masks \<longleftrightarrow> pattern \<noteq> [] \<and>
    list_all (\<lambda>i. let m = (if i < length masks then masks ! i else 0xFF) in currentVal ! i AND m = pattern ! i AND m) [0..<length pattern]"

subsection \<open>One type\<close>

text \<open>The comparison of texts and byte patterns with the old bytes; \<open>exact\<close> is the comparison with the needle.\<close>

definition compare_bytes :: "ScanCompare \<Rightarrow> byte list \<Rightarrow> byte list \<Rightarrow> byte list \<Rightarrow> bool \<Rightarrow> bool" where
  "compare_bytes cmp cur old first exact =
    (if cmp = SC_SameAsFirst then cur = first
     else if from_changed cmp then (cur \<noteq> old) = (cmp = SC_Changed \<or> cmp = SC_Increased \<or> cmp = SC_Decreased)
     else if cmp = SC_Exact then exact
     else cmp = SC_Unknown)"

definition nextScanCompare ::
  "'d next_ops \<Rightarrow> 'd ScanConfig \<Rightarrow> nat \<Rightarrow> byte list \<Rightarrow> byte list \<Rightarrow> byte list \<Rightarrow> byte list \<Rightarrow> byte list \<Rightarrow> bool" where
  "nextScanCompare ops config valueSize currentVal oldVal firstVal stringNeedle unicodeNeedle =
    (let cmp = sc_compareType config;
         compareVal = (if cmp = SC_SameAsFirst then firstVal else oldVal);
         cur = take valueSize currentVal; old = take valueSize oldVal; first = take valueSize firstVal;
         grouped = (\<lambda>exact. if cmp = SC_Unknown then True
           else if cmp = SC_Changed then cur \<noteq> old
           else if cmp = SC_Unchanged \<or> cmp = SC_SameAsFirst then cur = take valueSize compareVal
           else if cmp = SC_Exact then exact else False)
     in case sc_valueType config of
       VT_Byte \<Rightarrow> compareNextNumeric ops config U8 currentVal compareVal
     | VT_Int16 \<Rightarrow> compareNextNumeric ops config I16 currentVal compareVal
     | VT_Int32 \<Rightarrow> compareNextNumeric ops config I32 currentVal compareVal
     | VT_Int64 \<Rightarrow> compareNextNumeric ops config I64 currentVal compareVal
     | VT_Pointer \<Rightarrow> compareNextNumeric ops config (if sc_pointerWidth config = 4 then U32 else U64) currentVal compareVal
     | VT_Float \<Rightarrow> no_floating ops config (take 4 currentVal) (take 4 compareVal)
     | VT_Double \<Rightarrow> no_floating ops config (take 8 currentVal) (take 8 compareVal)
     | VT_String \<Rightarrow> compare_bytes cmp cur old first
         (length stringNeedle = valueSize \<and> stringBytesMatch currentVal stringNeedle valueSize (sc_caseSensitive config) False BO_Little)
     | VT_UnicodeString \<Rightarrow> compare_bytes cmp cur old first
         (length unicodeNeedle = valueSize \<and>
          stringBytesMatch currentVal unicodeNeedle valueSize (sc_caseSensitive config) True (sc_byteOrder config))
     | VT_ByteArray \<Rightarrow> compare_bytes cmp cur old first (compareMaskedBytes currentVal (sc_byteArray config) (sc_byteArrayMask config))
     | VT_Binary \<Rightarrow> compare_bytes cmp cur old first
         (sc_byteArray config \<noteq> [] \<and> length (sc_byteMask config) = length (sc_byteArray config) \<and>
          masked_match currentVal (sc_byteArray config) (sc_byteMask config))
     | VT_Grouped \<Rightarrow> grouped (groupedBlockMatches (no_scan ops) currentVal valueSize config)
     | VT_Custom \<Rightarrow> grouped (so_formula (no_scan ops) (sc_customFormula config) currentVal compareVal valueSize True = Some True)
     | _ \<Rightarrow> if cmp = SC_SameAsFirst then cur = first else (cur \<noteq> old) = (cmp = SC_Changed))"

subsection \<open>All types\<close>

definition allCandidatesFitting :: "byte \<Rightarrow> u64 \<Rightarrow> byte" where
  "allCandidatesFitting cands lastDistance =
    fold (\<lambda>i m. if allCandidateWidths ! i - 1 > unat lastDistance then m AND NOT (2 ^ i) else m) [0..<6] cands"

definition allCandidateReadSize :: "byte \<Rightarrow> nat" where
  "allCandidateReadSize cands = fold (\<lambda>i n. if bit cands i then max n (allCandidateWidths ! i) else n) [0..<6] 0"

definition allCandidateFor :: "ValueType \<Rightarrow> byte" where
  "allCandidateFor t =
    (case t of VT_Byte \<Rightarrow> 1 | VT_Int16 \<Rightarrow> 2 | VT_Int32 \<Rightarrow> 4 | VT_Int64 \<Rightarrow> 8 | VT_Float \<Rightarrow> 16 | VT_Double \<Rightarrow> 32 | _ \<Rightarrow> 0)"

definition next_all_integer :: "'d next_ops \<Rightarrow> 'd ScanConfig \<Rightarrow> int_type \<Rightarrow> byte list \<Rightarrow> byte list \<Rightarrow> bool" where
  "next_all_integer ops config T current reference =
    (let value = readScanScalar T current (sc_byteOrder config); previous = readScanScalar T reference (sc_byteOrder config) in
     compareNextAllInteger ops config value previous \<or>
     (sc_compareType config = SC_Exact \<and> int_bytes T < 8 \<and>
       compareNextAllInteger ops config (otherSignedness T value) (otherSignedness T previous)) \<or>
     (int_bytes T = 8 \<and> matchesUnsigned64 config (nat (take_bit 64 value))))"

definition next_all_floating :: "'d next_ops \<Rightarrow> 'd ScanConfig \<Rightarrow> byte list \<Rightarrow> byte list \<Rightarrow> bool" where
  "next_all_floating ops config current reference =
    (let cmp = sc_compareType config in
     if cmp \<in> {SC_Exact, SC_Greater, SC_Less, SC_Between} \<and> \<not> (sc_percentageScan config \<and> supportsPercentageCompare cmp)
     then so_match_floating (no_scan ops) config current else no_floating ops config current reference)"

definition nextAllTypeCandidates :: "'d next_ops \<Rightarrow> 'd ScanConfig \<Rightarrow> byte \<Rightarrow> byte list \<Rightarrow> byte list \<Rightarrow> byte list \<Rightarrow> byte" where
  "nextAllTypeCandidates ops config cands current old first =
    (let reference = (if sc_compareType config = SC_SameAsFirst then first else old);
         int_bit = (\<lambda>T k. if bit cands k \<and> next_all_integer ops config T current reference then 2 ^ k else 0 :: byte);
         fp_bit = (\<lambda>w k. if bit cands k \<and> next_all_floating ops config (take w current) (take w reference) then 2 ^ k else 0 :: byte)
     in int_bit U8 0 OR int_bit I16 1 OR int_bit I32 2 OR int_bit I64 3 OR fp_bit 4 4 OR fp_bit 8 5)"

section \<open>Amounts of change\<close>

lemma targetScanConfig_amount:
  assumes "targetScanConfig fp iconv description requested = Inr (config, gdb)"
  shows "\<exists>c. sc_valueType c = sc_valueType requested \<and> sc_compareType c = sc_compareType requested \<and> sc_intValue c = sc_intValue requested \<and>
    sc_allIntegerValue c = sc_allIntegerValue requested \<and> sc_percentageScan c = sc_percentageScan requested \<and> normalise_amount fp c = Inr config"
proof -
  define c1 where "c1 = (if sc_byteOrder requested = BO_Unknown then requested\<lparr>sc_byteOrder := byteOrder (program description)\<rparr> else requested)"
  define c2 where "c2 = (if sc_pointerWidth c1 = 0 then c1\<lparr>sc_pointerWidth := pointerWidth (program description)\<rparr> else c1)"
  have "\<exists>terms. normalise_amount fp (c2\<lparr>sc_groupedTerms := terms\<rparr>) = Inr config"
    using assms unfolding targetScanConfig_def Let_def c1_def [symmetric] c2_def [symmetric]
    by (simp split: sum.splits if_split_asm) blast
  then obtain terms where "normalise_amount fp (c2\<lparr>sc_groupedTerms := terms\<rparr>) = Inr config" ..
  then show ?thesis by (intro exI [of _ "c2\<lparr>sc_groupedTerms := terms\<rparr>"]) (simp add: c2_def c1_def)
qed

lemma int_cast_range:
  "int_cast T x = x \<Longrightarrow> (if int_signed T then - (2 ^ (8 * int_bytes T - 1)) \<le> x \<and> x < 2 ^ (8 * int_bytes T - 1) else 0 \<le> x \<and> x < 2 ^ (8 * int_bytes T))"
  unfolding int_cast_def
  by (metis signed_take_bit_int_less_exp signed_take_bit_int_greater_eq_minus_exp take_bit_int_less_exp take_bit_nonnegative)

lemma distance_exact:
  assumes "int_cast T a = a" "int_cast T b = b" "b \<le> a"
  shows "take_bit (8 * int_bytes T) (a - b) = a - b"
proof (rule take_bit_int_eq_self)
  show "0 \<le> a - b" using assms(3) by simp
  show "a - b < 2 ^ (8 * int_bytes T)"
    using int_cast_range [OF assms(1)] int_cast_range [OF assms(2)] by (cases T) auto
qed

text \<open>
  C39: a next scan for an amount of change is exact in the integers. Whatever the width and signedness of the value
  and whatever the sign of the amount that was asked for, a row of a 1, 2, 4 or 8 byte integer scan is kept exactly
  when the new value is the old one plus the amount (minus it, for a decrease) and the amount is not zero; no
  difference that wraps around in the width of the value is taken for a match.
\<close>

theorem changed_by_exact:
  assumes "targetScanConfig fp iconv description requested = Inr (config, gdb)"
    and "sc_compareType requested = SC_IncreasedBy \<or> sc_compareType requested = SC_DecreasedBy"
    and "sc_valueType requested \<in> {VT_Byte, VT_Int16, VT_Int32, VT_Int64}" "int64_range (sc_intValue requested)"
    and "int_cast (scan_int_type config) cur = cur" "int_cast (scan_int_type config) old = old"
  shows "compareNextNumericValues ops config (scan_int_type config) cur old \<longleftrightarrow>
    sc_intValue requested \<noteq> 0 \<and> cur = (if sc_compareType requested = SC_IncreasedBy then old + sc_intValue requested else old - sc_intValue requested)"
proof -
  define T where "T = scan_int_type config"
  define v where "v = sc_intValue requested"
  obtain c where c: "sc_valueType c = sc_valueType requested" "sc_compareType c = sc_compareType requested" "sc_intValue c = v"
    "normalise_amount fp c = Inr config" using targetScanConfig_amount [OF assms(1)] unfolding v_def by blast
  have amount: "sc_intValue config = \<bar>v\<bar>" "v \<noteq> - (2 ^ 63)"
    "sc_compareType config = (if v < 0 then flip_compare (sc_compareType requested) else sc_compareType requested)"
    using c assms(2,3) by (auto simp: normalise_amount_def Let_def split: if_splits)
  have "\<bar>v\<bar> < 2 ^ 63" using assms(4) amount(2) by (auto simp: int64_range_def v_def)
  then have small: "take_bit 64 \<bar>v\<bar> = \<bar>v\<bar>" by (simp add: take_bit_int_eq_self)
  note range = assms(5,6) [folded T_def]
  have up: "old \<le> cur \<Longrightarrow> take_bit (8 * int_bytes T) (cur - old) = cur - old"
    and down: "cur \<le> old \<Longrightarrow> take_bit (8 * int_bytes T) (old - cur) = old - cur"
    using distance_exact range by blast+
  show ?thesis
    unfolding T_def [symmetric] v_def [symmetric] compareNextNumericValues_def Let_def amount(1,3) small
    using assms(2) up down by (cases "v < 0") (auto simp: flip_compare_def supportsPercentageCompare_def)
qed

text \<open>
  C40: in an all-types scan a negative amount of change finds no integer. The literal keeps its sign while the
  configuration turns the amount and the direction around, so that no integer candidate of any row is ever kept,
  although \<open>increased by -5\<close> is meant to be \<open>decreased by 5\<close>.
\<close>

theorem all_types_negative_amount:
  assumes "parseAllValues fp requested first second hex = (True, typed)" "sc_allIntegerValue typed = Some value" "negative value"
    and "sc_compareType requested = SC_IncreasedBy \<or> sc_compareType requested = SC_DecreasedBy" "sc_valueType requested = VT_All"
    and "targetScanConfig fp iconv description typed = Inr (config, gdb)"
  shows "\<not> compareNextAllInteger ops config cur old"
proof -
  have "sc_compareType typed = sc_compareType requested" "sc_valueType typed = sc_valueType requested"
    using assms(1) by (auto simp: parseAllValues_def Let_def split: if_splits option.splits)
  then obtain c where c: "sc_valueType c = VT_All" "sc_compareType c = sc_compareType requested" "sc_allIntegerValue c = Some value"
    "normalise_amount fp c = Inr config" using targetScanConfig_amount [OF assms(6)] assms(2,5) by auto
  have "sc_allIntegerValue config = Some value" "sc_compareType config = SC_IncreasedBy \<or> sc_compareType config = SC_DecreasedBy"
    using c assms(4) by (auto simp: normalise_amount_def flip_compare_def Let_def split: if_splits)
  with assms(3) show ?thesis by (auto simp: compareNextAllInteger_def supportsPercentageCompare_def)
qed

section \<open>Reading a batch again\<close>

text \<open>A row of the previous scan; \<open>pr_types\<close> are the candidate types of an all-types scan.\<close>

record prev_row =
  pr_addr :: u64
  pr_old :: "byte list"
  pr_first :: "byte list"
  pr_types :: byte

datatype kept_row = KeptRow (k_addr: u64) (k_value: "byte list") (k_first: "byte list") (k_types: "byte option")

record 'd next_context =
  nc_ops :: "'d next_ops"
  nc_config :: "'d ScanConfig"
  nc_valueSize :: nat
  nc_stringNeedle :: "byte list"
  nc_unicodeNeedle :: "byte list"
  nc_prevAll :: bool

type_synonym 'w many_reader = "'w \<Rightarrow> u64 list \<Rightarrow> nat \<Rightarrow> byte list option list \<times> 'w"

text \<open>
  What a scan sees of \<^verbatim>\<open>ProcessHandle::readMany\<close>: the bytes whose flag says that they were read in full. The
  default implementation reads one address after the other.
\<close>

definition complete_read :: "nat \<Rightarrow> byte list result \<Rightarrow> byte list option" where
  "complete_read n r = (case r of Inl e \<Rightarrow> None | Inr xs \<Rightarrow> if length xs = n then Some xs else None)"

definition flagged :: "byte list \<times> bool \<Rightarrow> byte list option" where
  "flagged x = (if snd x then Some (fst x) else None)"

definition default_reads :: "'w reader \<Rightarrow> 'w many_reader" where
  "default_reads rd w as n = (let (out, w') = readMany rd as n w in (map flagged out, w'))"

definition scans_all :: "'d next_context \<Rightarrow> bool" where
  "scans_all ctx \<longleftrightarrow> sc_valueType (nc_config ctx) = VT_All"

text \<open>The rows that are read again, with the candidate types that fit before the To address.\<close>

definition select_row :: "'d next_context \<Rightarrow> prev_row \<Rightarrow> (prev_row \<times> byte) option" where
  "select_row ctx row =
    (let config = nc_config ctx; a = pr_addr row in
     if nc_prevAll ctx \<and> \<not> scans_all ctx \<and> pr_types row AND allCandidateFor (sc_valueType config) = 0 then None
     else if a < sc_startAddress config \<or> a > sc_stopAddress config then None
     else if scans_all ctx then
       let c = allCandidatesFitting (pr_types row) (sc_stopAddress config - a) in if c = 0 then None else Some (row, c)
     else if nc_valueSize ctx - 1 > unat (sc_stopAddress config - a) then None
     else Some (row, 0))"

subsection \<open>All types: wide reads first\<close>

record read_slot =
  sl_row :: prev_row
  sl_pending :: byte
  sl_read :: byte
  sl_cur :: "byte list"

definition new_slot :: "prev_row \<times> byte \<Rightarrow> read_slot" where
  "new_slot x = \<lparr>sl_row = fst x, sl_pending = snd x, sl_read = 0, sl_cur = replicate 8 0\<rparr>"

definition drop_width :: "nat \<Rightarrow> byte \<Rightarrow> byte" where
  "drop_width width cands = fold (\<lambda>i m. if allCandidateWidths ! i = width then m AND NOT (2 ^ i) else m) [0..<6] cands"

definition slot_answer :: "nat \<Rightarrow> read_slot \<Rightarrow> byte list option \<Rightarrow> read_slot" where
  "slot_answer width s ans =
    (case ans of
       Some xs \<Rightarrow> s\<lparr>sl_cur := xs @ drop width (sl_cur s), sl_read := sl_pending s, sl_pending := 0\<rparr>
     | None \<Rightarrow> s\<lparr>sl_pending := drop_width width (sl_pending s)\<rparr>)"

definition waits :: "nat \<Rightarrow> read_slot \<Rightarrow> bool" where
  "waits width s \<longleftrightarrow> allCandidateReadSize (sl_pending s) = width"

fun put_answers :: "nat \<Rightarrow> read_slot list \<Rightarrow> byte list option list \<Rightarrow> read_slot list" where
  "put_answers width [] answers = []"
| "put_answers width (s # ss) answers =
    (if waits width s then
       (case answers of [] \<Rightarrow> s # put_answers width ss [] | a # as \<Rightarrow> slot_answer width s a # put_answers width ss as)
     else s # put_answers width ss answers)"

definition all_phase :: "'w many_reader \<Rightarrow> nat \<Rightarrow> read_slot list \<times> 'w \<Rightarrow> read_slot list \<times> 'w" where
  "all_phase many width st =
    (let reads = filter (waits width) (fst st) in
     if reads = [] then st
     else let (answers, w') = many (snd st) (map (pr_addr \<circ> sl_row) reads) width in (put_answers width (fst st) answers, w'))"

definition slot_result :: "'d next_context \<Rightarrow> read_slot \<Rightarrow> kept_row list" where
  "slot_result ctx s =
    (if sl_read s = 0 then []
     else let row = sl_row s;
              types = nextAllTypeCandidates (nc_ops ctx) (nc_config ctx) (sl_read s) (sl_cur s) (pr_old row) (pr_first row)
       in if types \<noteq> 0 then [KeptRow (pr_addr row) (sl_cur s) (pr_first row) (Some types)] else [])"

subsection \<open>One batch\<close>

definition value_result :: "'d next_context \<Rightarrow> prev_row \<times> byte \<Rightarrow> byte list option \<Rightarrow> kept_row list" where
  "value_result ctx x ans =
    (case ans of
       None \<Rightarrow> []
     | Some cur \<Rightarrow>
         if nextScanCompare (nc_ops ctx) (nc_config ctx) (nc_valueSize ctx) cur (pr_old (fst x)) (pr_first (fst x)) (nc_stringNeedle ctx) (nc_unicodeNeedle ctx)
         then [KeptRow (pr_addr (fst x)) cur (take (nc_valueSize ctx) (pr_first (fst x))) None] else [])"

definition next_batch :: "'w many_reader \<Rightarrow> 'd next_context \<Rightarrow> 'w \<Rightarrow> prev_row list \<Rightarrow> kept_row list \<times> 'w" where
  "next_batch many ctx w rows =
    (let selected = List.map_filter (select_row ctx) rows in
     if scans_all ctx then
       let (slots, w') = fold (all_phase many) [8, 4, 2, 1] (map new_slot selected, w)
       in (concat (map (slot_result ctx) slots), w')
     else
       let (answers, w') = many w (map (pr_addr \<circ> fst) selected) (nc_valueSize ctx)
       in (concat (map (\<lambda>(x, ans). value_result ctx x ans) (zip selected answers)), w'))"

section \<open>A row on its own\<close>

text \<open>What becomes of one row when \<open>f a n\<close> are the bytes a complete read gives.\<close>

definition row_result :: "'d next_context \<Rightarrow> (u64 \<Rightarrow> nat \<Rightarrow> byte list option) \<Rightarrow> prev_row \<Rightarrow> kept_row list" where
  "row_result ctx f row =
    (case select_row ctx row of
       None \<Rightarrow> []
     | Some x \<Rightarrow>
         if scans_all ctx then
           slot_result ctx (fold (\<lambda>width s. if waits width s then slot_answer width s (f (pr_addr row) width) else s) [8, 4, 2, 1] (new_slot x))
         else value_result ctx x (f (pr_addr row) (nc_valueSize ctx)))"

lemma select_row_fst: "select_row ctx row = Some x \<Longrightarrow> fst x = row"
  by (auto simp: select_row_def Let_def split: if_splits)

lemma concat_map_filter_option: "concat (map h (List.map_filter g xs)) = concat (map (\<lambda>x. case g x of None \<Rightarrow> [] | Some y \<Rightarrow> h y) xs)"
  by (induction xs) (auto simp: map_filter_simps split: option.splits)

text \<open>The contract of a batched read: every address is answered on its own, in order.\<close>

locale batch_reads =
  fixes many :: "'w many_reader"
    and ok :: "'w \<Rightarrow> bool"
    and f :: "u64 \<Rightarrow> nat \<Rightarrow> byte list option"
  assumes many_answers: "ok w \<Longrightarrow> fst (many w as n) = map (\<lambda>a. f a n) as"
    and many_kept: "ok w \<Longrightarrow> ok (snd (many w as n))"
begin

definition slot_phase :: "nat \<Rightarrow> read_slot \<Rightarrow> read_slot" where
  "slot_phase width s = (if waits width s then slot_answer width s (f (pr_addr (sl_row s)) width) else s)"

lemma put_answers_map: "put_answers width ss (map (\<lambda>s. f (pr_addr (sl_row s)) width) (filter (waits width) ss)) = map (slot_phase width) ss"
  by (induction ss) (auto simp: slot_phase_def)

lemma all_phase_map:
  assumes "ok w"
  shows "fst (all_phase many width (ss, w)) = map (slot_phase width) ss" "ok (snd (all_phase many width (ss, w)))"
proof -
  have "filter (waits width) ss = [] \<Longrightarrow> map (slot_phase width) ss = ss"
    by (induction ss) (auto simp: slot_phase_def split: if_splits)
  moreover have "map (\<lambda>a. f a width) (map (pr_addr \<circ> sl_row) (filter (waits width) ss)) = map (\<lambda>s. f (pr_addr (sl_row s)) width) (filter (waits width) ss)"
    by simp
  ultimately show "fst (all_phase many width (ss, w)) = map (slot_phase width) ss"
    using many_answers [OF assms, of "map (pr_addr \<circ> sl_row) (filter (waits width) ss)" width] put_answers_map [of width ss]
    by (auto simp: all_phase_def Let_def split_beta comp_def)
  show "ok (snd (all_phase many width (ss, w)))"
    using assms many_kept [OF assms] by (simp add: all_phase_def Let_def split_beta)
qed

lemma all_phases_map: "ok w \<Longrightarrow> fst (fold (all_phase many) ws (ss, w)) = map (fold slot_phase ws) ss \<and> ok (snd (fold (all_phase many) ws (ss, w)))"
proof (induction ws arbitrary: ss w)
  case (Cons x ws)
  from all_phase_map [OF Cons.prems, of x ss] obtain w' where "all_phase many x (ss, w) = (map (slot_phase x) ss, w')" "ok w'"
    by (cases "all_phase many x (ss, w)") auto
  with Cons.IH [of w' "map (slot_phase x) ss"] show ?case by simp
qed simp

lemma slot_phase_row: "sl_row (slot_phase width s) = sl_row s"
  by (simp add: slot_phase_def slot_answer_def split: option.splits)

lemma fold_slot_phase:
  assumes "pr_addr (sl_row s) = a"
  shows "fold slot_phase ws s = fold (\<lambda>width s. if waits width s then slot_answer width s (f a width) else s) ws s"
  using assms
proof (induction ws arbitrary: s)
  case (Cons x ws)
  let ?g = "\<lambda>width s. if waits width s then slot_answer width s (f a width) else s"
  have "slot_phase x s = ?g x s" by (simp add: slot_phase_def Cons.prems)
  moreover have "fold slot_phase ws (slot_phase x s) = fold ?g ws (slot_phase x s)"
    by (rule Cons.IH) (simp add: slot_phase_row Cons.prems)
  ultimately show ?case by simp
qed simp

lemma batch_rows:
  assumes "ok w"
  shows "fst (next_batch many ctx w rows) = concat (map (row_result ctx f) rows)" "ok (snd (next_batch many ctx w rows))"
proof -
  let ?sel = "List.map_filter (select_row ctx) rows"
  note phases = all_phases_map [OF assms, of "[8, 4, 2, 1]" "map new_slot ?sel"] and answers = many_answers [OF assms, of "map (pr_addr \<circ> fst) ?sel" "nc_valueSize ctx"]
  have per_row: "row_result ctx f row = (case select_row ctx row of None \<Rightarrow> [] | Some x \<Rightarrow>
      if scans_all ctx then slot_result ctx (fold slot_phase [8, 4, 2, 1] (new_slot x)) else value_result ctx x (f (pr_addr (fst x)) (nc_valueSize ctx)))" for row
  proof (cases "select_row ctx row")
    case (Some x)
    have "pr_addr (sl_row (new_slot x)) = pr_addr row" using select_row_fst [OF Some] by (simp add: new_slot_def)
    then have "fold slot_phase [8, 4, 2, 1] (new_slot x) =
        fold (\<lambda>width s. if waits width s then slot_answer width s (f (pr_addr row) width) else s) [8, 4, 2, 1] (new_slot x)"
      by (rule fold_slot_phase)
    with Some select_row_fst [OF Some] show ?thesis unfolding row_result_def by (simp only: option.case)
  qed (simp add: row_result_def)
  show "fst (next_batch many ctx w rows) = concat (map (row_result ctx f) rows)"
  proof (cases "scans_all ctx")
    case True
    with phases have "fst (next_batch many ctx w rows) = concat (map (\<lambda>x. slot_result ctx (fold slot_phase [8, 4, 2, 1] (new_slot x))) ?sel)"
      by (simp add: next_batch_def Let_def split_beta comp_def del: fold.simps)
    also have "\<dots> = concat (map (row_result ctx f) rows)" unfolding per_row using True by (simp only: concat_map_filter_option if_True)
    finally show ?thesis .
  next
    case False
    have "map (\<lambda>(x, ans). value_result ctx x ans) (zip xs (map (\<lambda>a. f a n) (map (pr_addr \<circ> fst) xs))) =
        map (\<lambda>x. value_result ctx x (f (pr_addr (fst x)) n)) xs" for xs n by (induction xs) auto
    with False answers have "fst (next_batch many ctx w rows) = concat (map (\<lambda>x. value_result ctx x (f (pr_addr (fst x)) (nc_valueSize ctx))) ?sel)"
      by (simp add: next_batch_def Let_def split_beta del: map_map)
    also have "\<dots> = concat (map (row_result ctx f) rows)" unfolding per_row using False by (simp only: concat_map_filter_option if_False)
    finally show ?thesis .
  qed
  show "ok (snd (next_batch many ctx w rows))"
    using phases many_kept [OF assms] by (simp add: next_batch_def Let_def split_beta del: fold.simps)
qed

end

text \<open>The address space of a process, read one address at a time, answers a batch.\<close>

lemma readMany_same:
  assumes "\<And>a n. rd w a n = (r a n, w)"
  shows "default_reads rd w as n = (map (\<lambda>a. complete_read n (r a n)) as, w)"
proof -
  have "\<exists>out. readMany rd as n w = (out, w) \<and> map flagged out = map (\<lambda>a. complete_read n (r a n)) as"
    by (induction as) (auto simp: assms flagged_def complete_read_def split: sum.splits)
  then show ?thesis by (auto simp: default_reads_def)
qed

lemma as_pread_same: "as_pread s a n = (fst (as_pread s a n), s)"
  by (simp add: as_pread_def)

interpretation space_reads: batch_reads "default_reads as_pread" "\<lambda>w. w = s" "\<lambda>a n. complete_read n (fst (as_pread s a n))" for s
proof
  show "fst (default_reads as_pread w as n) = map (\<lambda>a. complete_read n (fst (as_pread s a n))) as" if "w = s" for w as n
    using readMany_same [of as_pread s "\<lambda>a n. fst (as_pread s a n)"] as_pread_same that by simp
  show "snd (default_reads as_pread w as n) = s" if "w = s" for w as n
    using readMany_same [of as_pread s "\<lambda>a n. fst (as_pread s a n)"] as_pread_same that by simp
qed

section \<open>The plan of a next scan\<close>

text \<open>The previous result; \<open>pv_stride\<close> is the record size its files have.\<close>

record prev_result =
  pv_rows :: "prev_row list"
  pv_writeError :: bool
  pv_all :: bool
  pv_format :: "(ByteOrder \<times> nat) option"
  pv_stride :: nat

definition next_previous_checks :: "prev_result \<Rightarrow> 'd ScanConfig \<Rightarrow> string + unit" where
  "next_previous_checks previous requested =
    (if pv_writeError previous then Inl ''The previous scan has invalid backing files''
     else if pv_rows previous \<noteq> [] \<and> sc_valueType requested = VT_All \<and> \<not> pv_all previous then
       Inl ''All-type scan candidates are missing; start a fresh All-type scan''
     else if pv_rows previous \<noteq> [] \<and> pv_all previous \<and> sc_valueType requested \<noteq> VT_All \<and> allCandidateFor (sc_valueType requested) = 0 then
       Inl ''Select one of the All-type numeric types or start a fresh scan''
     else Inr ())"

definition next_format_checks :: "prev_result \<Rightarrow> 'd ScanConfig \<Rightarrow> 'd ScanConfig \<Rightarrow> string + unit" where
  "next_format_checks previous requested config =
    (case pv_format previous of
       None \<Rightarrow> Inr ()
     | Some (order, width) \<Rightarrow>
         if sc_byteOrder requested = BO_Unknown \<and> scanNeedsByteOrder config \<and> order \<noteq> BO_Unknown \<and> order \<noteq> sc_byteOrder config then
           Inl ''The next scan data byte order differs from the captured samples''
         else if sc_pointerWidth requested = 0 \<and> scanNeedsPointerWidth config \<and> width \<noteq> 0 \<and> width \<noteq> sc_pointerWidth config then
           Inl ''The next scan pointer width differs from the captured samples''
         else Inr ())"

definition next_compare_checks :: "'d next_ops \<Rightarrow> 'd ScanConfig \<Rightarrow> string + unit" where
  "next_compare_checks ops config =
    (let cmp = sc_compareType config; stateful = cmp \<in> {SC_Exact, SC_Changed, SC_Unchanged, SC_SameAsFirst, SC_Unknown} in
     case sc_valueType config of
       VT_Grouped \<Rightarrow>
         (if sc_groupedTerms config = [] then Inl ''ValueType::Grouped requires grouped terms (use parseGrouped)''
          else case groupedValueSize (so_iconv (no_scan ops)) config of
            Inl e \<Rightarrow> Inl e
          | Inr n \<Rightarrow>
              if n = 0 then Inl ''ValueType::Grouped has invalid grouped terms''
              else if \<not> stateful then Inl ''ValueType::Grouped next scan supports exact/changed/unchanged/samefirst/unknown''
              else Inr ())
     | VT_Custom \<Rightarrow>
         (if sc_customValueSize config = 0 then Inl ''ValueType::Custom requires customValueSize > 0''
          else if cmp = SC_Exact \<and> sc_customFormula config = [] then Inl ''ValueType::Custom exact next scan requires customFormula''
          else if \<not> stateful then Inl ''ValueType::Custom next scan supports exact/changed/unchanged/samefirst/unknown''
          else Inr ())
     | vt \<Rightarrow>
         if vt \<in> {VT_String, VT_UnicodeString, VT_ByteArray, VT_Binary} \<and> cmp \<in> {SC_Greater, SC_Less, SC_Between, SC_IncreasedBy, SC_DecreasedBy}
         then Inl ''Text, byte array and binary scans support exact, changed, unchanged and same as first''
         else Inr ())"

definition next_needles :: "'d next_ops \<Rightarrow> 'd ScanConfig \<Rightarrow> string + byte list \<times> byte list" where
  "next_needles ops config =
    (let iconv = so_iconv (no_scan ops) in
     case (if sc_valueType config = VT_String \<and> sc_compareType config = SC_Exact
           then encodeStringBytes iconv (sc_stringValue config) (sc_stringEncoding config) else Inr []) of
       Inl e \<Rightarrow> Inl e
     | Inr s \<Rightarrow>
         (case (if sc_valueType config = VT_UnicodeString then utf16Bytes iconv (sc_stringValue config) (sc_byteOrder config) else Inr []) of
            Inl e \<Rightarrow> Inl e
          | Inr u \<Rightarrow> Inr (s, u)))"

text \<open>The batches of a worker's share, and the shares.\<close>

abbreviation BATCH :: nat where "BATCH \<equiv> 4096"

function batches :: "prev_row list \<Rightarrow> prev_row list list" where
  "batches rows = (if rows = [] then [] else take BATCH rows # batches (drop BATCH rows))"
  by auto

termination
  by (relation "measure length") auto

declare batches.simps [simp del]

definition next_threads :: "bool \<Rightarrow> nat \<Rightarrow> nat \<Rightarrow> nat" where
  "next_threads concurrentReads threadCount n =
    (let t = (if n < 65536 \<or> \<not> concurrentReads then 1 else max 1 threadCount); t = min t (max 1 (n div BATCH))
     in if t < 1 then 1 else t)"

definition next_shares :: "nat \<Rightarrow> prev_row list \<Rightarrow> prev_row list list list" where
  "next_shares nThreads rows =
    (if nThreads = 1 then [batches rows]
     else let n = length rows; per = (n + nThreads - 1) div nThreads
       in map (\<lambda>t. let b = min n (t * per); e = min n (b + per) in batches (take (e - b) (drop b rows))) [0..<nThreads])"

definition next_scan_plan ::
  "'d fp \<Rightarrow> 'd next_ops \<Rightarrow> bool \<Rightarrow> nat \<Rightarrow> TargetDescription \<Rightarrow> prev_result \<Rightarrow> 'd ScanConfig \<Rightarrow>
    string + 'd next_context \<times> prev_row list list list \<times> bool" where
  "next_scan_plan fp ops concurrentReads threadCount description previous requested =
    (case next_previous_checks previous requested of Inl e \<Rightarrow> Inl e | Inr _ \<Rightarrow>
     case targetScanConfig fp (so_iconv (no_scan ops)) description requested of Inl e \<Rightarrow> Inl e | Inr (config, gdbTarget) \<Rightarrow>
     case next_format_checks previous requested config of Inl e \<Rightarrow> Inl e | Inr _ \<Rightarrow>
     case next_compare_checks ops config of Inl e \<Rightarrow> Inl e | Inr _ \<Rightarrow>
     case valueSizeForConfig (so_iconv (no_scan ops)) config of Inl e \<Rightarrow> Inl e | Inr valueSize \<Rightarrow>
     let inputSize = (if pv_all previous then 8 else valueSize) in
     if pv_rows previous \<noteq> [] \<and> (pv_stride previous = 0 \<or> pv_stride previous \<noteq> inputSize) then
       Inl ''next scan value size differs from the previous scan; the search length must stay constant across scans''
     else case next_needles ops config of Inl e \<Rightarrow> Inl e | Inr (stringNeedle, unicodeNeedle) \<Rightarrow>
       let ctx = \<lparr>nc_ops = ops, nc_config = config, nc_valueSize = valueSize, nc_stringNeedle = stringNeedle,
                  nc_unicodeNeedle = unicodeNeedle, nc_prevAll = pv_all previous\<rparr>
       in if pv_rows previous = [] then Inr (ctx, [], gdbTarget)
          else Inr (ctx, next_shares (next_threads concurrentReads threadCount (length (pv_rows previous))) (pv_rows previous), gdbTarget))"

section \<open>Workers\<close>

record 'w next_state =
  ns_world :: 'w
  ns_todo :: "prev_row list list list"
  ns_out :: "kept_row list list"
  ns_cancelled :: bool
  ns_failed :: bool
  ns_damaged :: bool

definition start_next :: "'w \<Rightarrow> prev_row list list list \<Rightarrow> 'w next_state" where
  "start_next w shares = \<lparr>ns_world = w, ns_todo = shares, ns_out = map (\<lambda>_. []) shares, ns_cancelled = False, ns_failed = False, ns_damaged = False\<rparr>"

text \<open>
  One step of the workers, in any order: a thread takes its next batch; its files turn out to be damaged and it stops
  with the result marked; the user cancels; a thread throws; a thread sees a flag and stops.
\<close>

inductive next_step :: "'w many_reader \<Rightarrow> 'd next_context \<Rightarrow> 'w next_state \<Rightarrow> 'w next_state \<Rightarrow> bool" for many ctx where
  take_batch: "t < length (ns_todo s) \<Longrightarrow> ns_todo s ! t = b # bs \<Longrightarrow> \<not> ns_cancelled s \<Longrightarrow> \<not> ns_failed s \<Longrightarrow>
    next_batch many ctx (ns_world s) b = (es, w') \<Longrightarrow>
    next_step many ctx s (s\<lparr>ns_world := w', ns_todo := (ns_todo s)[t := bs], ns_out := (ns_out s)[t := ns_out s ! t @ es]\<rparr>)"
| damaged: "t < length (ns_todo s) \<Longrightarrow> next_step many ctx s (s\<lparr>ns_damaged := True, ns_todo := (ns_todo s)[t := []]\<rparr>)"
| cancel: "next_step many ctx s (s\<lparr>ns_cancelled := True\<rparr>)"
| throw: "t < length (ns_todo s) \<Longrightarrow> next_step many ctx s (s\<lparr>ns_failed := True, ns_todo := (ns_todo s)[t := []]\<rparr>)"
| stop: "t < length (ns_todo s) \<Longrightarrow> ns_cancelled s \<or> ns_failed s \<Longrightarrow> next_step many ctx s (s\<lparr>ns_todo := (ns_todo s)[t := []]\<rparr>)"

definition next_done :: "'w next_state \<Rightarrow> bool" where
  "next_done s \<longleftrightarrow> (\<forall>bs \<in> set (ns_todo s). bs = [])"

text \<open>While no flag is raised, the rows of a thread and those of its batches left make up its share.\<close>

definition next_kept :: "('w \<Rightarrow> bool) \<Rightarrow> (prev_row \<Rightarrow> kept_row list) \<Rightarrow> prev_row list list list \<Rightarrow> 'w next_state \<Rightarrow> bool" where
  "next_kept ok g shares s \<longleftrightarrow>
    ok (ns_world s) \<and> length (ns_todo s) = length shares \<and> length (ns_out s) = length shares \<and>
    (\<not> ns_cancelled s \<and> \<not> ns_failed s \<and> \<not> ns_damaged s \<longrightarrow>
      (\<forall>t < length shares. ns_out s ! t @ concat (map g (concat (ns_todo s ! t))) = concat (map g (concat (shares ! t)))))"

context batch_reads
begin

lemma next_step_kept:
  assumes "next_step many ctx s s'" "next_kept ok (row_result ctx f) shares s"
  shows "next_kept ok (row_result ctx f) shares s'"
  using assms(1)
proof (cases rule: next_step.cases)
  case (take_batch t b bs es w')
  have "ok (ns_world s)" using assms(2) by (simp add: next_kept_def)
  from batch_rows [OF this, of ctx b] take_batch(6) have "es = concat (map (row_result ctx f) b)" "ok w'" by simp_all
  with assms(2) take_batch show ?thesis by (auto simp: next_kept_def nth_list_update)
qed (use assms(2) in \<open>auto simp: next_kept_def\<close>)

lemma next_reachable:
  assumes "(next_step many ctx)\<^sup>*\<^sup>* (start_next w shares) s" "ok w"
  shows "next_kept ok (row_result ctx f) shares s"
  using assms(1)
proof (induction rule: rtranclp_induct)
  case base
  show ?case using assms(2) by (simp add: next_kept_def start_next_def)
qed (rule next_step_kept)

lemma next_complete:
  assumes "(next_step many ctx)\<^sup>*\<^sup>* (start_next w shares) s" "ok w" "next_done s" "\<not> ns_cancelled s" "\<not> ns_failed s" "\<not> ns_damaged s"
  shows "concat (ns_out s) = concat (map (row_result ctx f) (concat (map concat shares)))"
proof -
  note kept = next_reachable [OF assms(1,2)]
  have "ns_out s = map (\<lambda>share. concat (map (row_result ctx f) (concat share))) shares"
  proof (rule nth_equalityI)
    show len: "length (ns_out s) = length (map (\<lambda>share. concat (map (row_result ctx f) (concat share))) shares)"
      using kept by (simp add: next_kept_def)
    fix t assume "t < length (ns_out s)"
    then have t: "t < length shares" using len by simp
    then have "ns_todo s ! t = []" using assms(3) kept by (auto simp: next_done_def next_kept_def)
    with kept assms(4-6) t show "ns_out s ! t = map (\<lambda>share. concat (map (row_result ctx f) (concat share))) shares ! t"
      by (auto simp: next_kept_def)
  qed
  moreover have "concat (map (\<lambda>share. concat (map h (concat share))) shares) = concat (map h (concat (map concat shares)))" for h :: "prev_row \<Rightarrow> kept_row list"
    by (induction shares) simp_all
  ultimately show ?thesis by simp
qed

end

subsection \<open>The shares are the rows\<close>

lemma concat_batches: "concat (batches rows) = rows"
  by (induction rows rule: batches.induct) (subst batches.simps, simp)

lemma concat_slices: "concat (map (\<lambda>t. take per (drop (t * per) xs)) [0..<n]) = take (n * per) xs"
proof (induction n)
  case (Suc n)
  have "take (Suc n * per) xs = take (n * per) xs @ take per (drop (n * per) xs)"
    using take_add [of "n * per" per xs] by (simp add: add.commute)
  with Suc show ?case by simp
qed simp

lemma concat_next_shares:
  assumes "0 < n"
  shows "concat (map concat (next_shares n rows)) = rows"
proof (cases "n = 1")
  case False
  define per where "per = (length rows + n - 1) div n"
  have "take (min (length rows) (min (length rows) (t * per) + per) - min (length rows) (t * per)) (drop (min (length rows) (t * per)) rows) =
      take per (drop (t * per) rows)" for t
    by (cases "t * per \<le> length rows") (auto simp: min_def)
  then have "concat (map concat (next_shares n rows)) = concat (map (\<lambda>t. take per (drop (t * per) rows)) [0..<n])"
    using False unfolding next_shares_def Let_def per_def [symmetric] by (simp add: concat_batches comp_def)
  also have "\<dots> = take (n * per) rows" by (rule concat_slices)
  also have "length rows \<le> n * per"
  proof -
    have "length rows + n - 1 < n * per + n"
      unfolding per_def using dividend_less_times_div [OF assms, of "length rows + n - 1"] by (simp only: add.commute)
    then show ?thesis using assms by linarith
  qed
  then have "take (n * per) rows = rows" by simp
  finally show ?thesis .
qed (simp add: next_shares_def concat_batches)

lemma next_threads_pos: "0 < next_threads c k n"
  by (simp add: next_threads_def Let_def)

lemma next_scan_plan_shares:
  assumes "next_scan_plan fp ops c k description previous requested = Inr (ctx, shares, gdb)"
  shows "concat (map concat shares) = pv_rows previous"
  using assms concat_next_shares [OF next_threads_pos]
  by (auto simp: next_scan_plan_def Let_def split: sum.splits prod.splits if_splits)

lemma next_scan_rows:
  assumes "batch_reads many ok f" "next_scan_plan fp ops c k description previous requested = Inr (ctx, shares, gdb)"
    and "(next_step many ctx)\<^sup>*\<^sup>* (start_next w shares) s" "ok w" "next_done s" "\<not> ns_cancelled s" "\<not> ns_failed s" "\<not> ns_damaged s"
  shows "concat (ns_out s) = concat (map (row_result ctx f) (pv_rows previous))"
  using batch_reads.next_complete [OF assms(1,3-8)] next_scan_plan_shares [OF assms(2)] by simp

section \<open>Next scans end\<close>

definition batches_left :: "'w next_state \<Rightarrow> nat" where
  "batches_left s = sum_list (map length (ns_todo s))"

lemma next_progress:
  assumes "\<not> next_done s" "\<not> ns_cancelled s" "\<not> ns_failed s" "\<not> ns_damaged s"
  shows "\<exists>s'. next_step many ctx s s' \<and> batches_left s' < batches_left s \<and> \<not> ns_cancelled s' \<and> \<not> ns_failed s' \<and> \<not> ns_damaged s'"
proof -
  from assms(1) obtain t b bs where t: "t < length (ns_todo s)" "ns_todo s ! t = b # bs"
    by (auto simp: next_done_def in_set_conv_nth neq_Nil_conv)
  obtain es w' where "next_batch many ctx (ns_world s) b = (es, w')" by (cases "next_batch many ctx (ns_world s) b")
  define s' where "s' = s\<lparr>ns_world := w', ns_todo := (ns_todo s)[t := bs], ns_out := (ns_out s)[t := ns_out s ! t @ es]\<rparr>"
  have "next_step many ctx s s'" unfolding s'_def by (rule next_step.take_batch) fact+
  moreover have "batches_left s' < batches_left s" using t by (auto simp: s'_def batches_left_def intro!: sum_list_update_less)
  ultimately show ?thesis using assms by (intro exI [of _ s']) (simp add: s'_def)
qed

lemma next_finish:
  assumes "\<not> ns_cancelled s" "\<not> ns_failed s" "\<not> ns_damaged s"
  shows "\<exists>s'. (next_step many ctx)\<^sup>*\<^sup>* s s' \<and> next_done s' \<and> \<not> ns_cancelled s' \<and> \<not> ns_failed s' \<and> \<not> ns_damaged s'"
  using assms
proof (induction "batches_left s" arbitrary: s rule: less_induct)
  case less
  show ?case
  proof (cases "next_done s")
    case False
    from next_progress [OF False less.prems] obtain s1 where s1: "next_step many ctx s s1" "batches_left s1 < batches_left s"
      "\<not> ns_cancelled s1" "\<not> ns_failed s1" "\<not> ns_damaged s1" by blast
    from less.hyps [OF s1(2-5)] s1(1) show ?thesis by (metis converse_rtranclp_into_rtranclp)
  qed (use less.prems in blast)
qed

section \<open>The properties of a next scan\<close>


section \<open>Examples\<close>

definition toy_next_ops :: "rat next_ops" where
  "toy_next_ops = \<lparr>no_scan = toy_ops, no_percentage = (\<lambda>_ _ _. False), no_floating = (\<lambda>_ _ _. False)\<rparr>"

definition toy_next :: "rat ScanConfig" where
  "toy_next = toy_request\<lparr>sc_compareType := SC_IncreasedBy, sc_intValue := 2\<rparr>"

definition toy_previous :: prev_result where
  "toy_previous = \<lparr>pv_rows = [\<lparr>pr_addr = 0x1004, pr_old = [1, 0, 0, 0], pr_first = [1, 0, 0, 0], pr_types = 0\<rparr>,
      \<lparr>pr_addr = 0x1008, pr_old = [40, 0, 0, 0], pr_first = [7, 0, 0, 0], pr_types = 0\<rparr>,
      \<lparr>pr_addr = 0x2000, pr_old = [40, 0, 0, 0], pr_first = [7, 0, 0, 0], pr_types = 0\<rparr>],
     pv_writeError = False, pv_all = False, pv_format = Some (BO_Little, 8), pv_stride = 4\<rparr>"

lemma toy_amount:
  "targetScanConfig toy_fp (so_iconv toy_ops) toy_description (toy_request\<lparr>sc_compareType := SC_IncreasedBy, sc_intValue := - 3\<rparr>) =
    Inr (toy_request\<lparr>sc_compareType := SC_DecreasedBy, sc_intValue := 3\<rparr>, False)"
  by (simp add: targetScanConfig_def checkIntegerRange_def integer_limits_def normalise_amount_def flip_compare_def scanNeedsByteOrder_def
      scanNeedsPointerWidth_def pointer_fits_def toy_defs)

theorem changed_by_exact_witness:
  "compareNextNumericValues toy_next_ops (toy_request\<lparr>sc_compareType := SC_DecreasedBy, sc_intValue := 3\<rparr>) I32 7 10"
  using changed_by_exact [OF toy_amount, of 7 10 toy_next_ops]
  by (simp add: toy_defs scan_int_type_def int64_range_def int_cast_def)

lemma toy_negative: "parseNumber toy_fp ''-5'' False \<noteq> None" "map_option (negative \<circ> integer) (parseNumber toy_fp ''-5'' False) = Some True"
  "map_option (integerHint \<circ> integer) (parseNumber toy_fp ''-5'' False) = Some (- 5)"
  by code_simp+

theorem all_types_negative_amount_witness:
  "\<exists>typed config. parseAllValues toy_fp (toy_request\<lparr>sc_compareType := SC_IncreasedBy, sc_valueType := VT_All\<rparr>) ''-5'' [] False = (True, typed) \<and>
    targetScanConfig toy_fp (so_iconv toy_ops) toy_description typed = Inr (config, False) \<and> \<not> compareNextAllInteger toy_next_ops config 5 10"
proof -
  let ?req = "toy_request\<lparr>sc_compareType := SC_IncreasedBy, sc_valueType := VT_All\<rparr>"
  obtain n where n: "parseNumber toy_fp ''-5'' False = Some n" "negative (integer n)" "integerHint (integer n) = - 5"
    using toy_negative by auto
  then obtain typed where typed: "parseAllValues toy_fp ?req ''-5'' [] False = (True, typed)" "sc_allIntegerValue typed = Some (integer n)"
    "sc_byteOrder typed = BO_Little"
    by (simp add: parseAllValues_def needsLiteral_def toy_defs)
  from typed(1) n have "\<exists>config. targetScanConfig toy_fp (so_iconv toy_ops) toy_description typed = Inr (config, False)"
    by (auto simp: parseAllValues_def needsLiteral_def targetScanConfig_def checkIntegerRange_def integer_limits_def normalise_amount_def flip_compare_def scanNeedsByteOrder_def
      scanNeedsPointerWidth_def pointer_fits_def toy_defs Let_def)
  then obtain config where config: "targetScanConfig toy_fp (so_iconv toy_ops) toy_description typed = Inr (config, False)" ..
  have "\<not> compareNextAllInteger toy_next_ops config 5 10"
    by (rule all_types_negative_amount [OF typed(1,2) n(2) _ _ config]) simp_all
  with typed(1) config show ?thesis by blast
qed

lemma toy_next_target: "targetScanConfig toy_fp (so_iconv toy_ops) toy_description toy_next = Inr (toy_next, False)"
  by (simp add: targetScanConfig_def checkIntegerRange_def integer_limits_def normalise_amount_def scanNeedsByteOrder_def
      scanNeedsPointerWidth_def pointer_fits_def toy_next_def toy_defs)

definition toy_next_context :: "rat next_context" where
  "toy_next_context = \<lparr>nc_ops = toy_next_ops, nc_config = toy_next, nc_valueSize = 4, nc_stringNeedle = [], nc_unicodeNeedle = [], nc_prevAll = False\<rparr>"

lemma toy_next_plan:
  "next_scan_plan toy_fp toy_next_ops True 2 toy_description toy_previous toy_next = Inr (toy_next_context, [batches (pv_rows toy_previous)], False)"
proof -
  have "next_previous_checks toy_previous toy_next = Inr ()" by (simp add: next_previous_checks_def toy_previous_def toy_next_def toy_defs)
  moreover have "next_format_checks toy_previous toy_next toy_next = Inr ()" by (simp add: next_format_checks_def scanNeedsPointerWidth_def toy_previous_def toy_next_def toy_defs)
  moreover have "next_compare_checks toy_next_ops toy_next = Inr ()" by (simp add: next_compare_checks_def toy_next_def toy_defs)
  moreover have "valueSizeForConfig (so_iconv toy_ops) toy_next = Inr 4" by (simp add: valueSizeForConfig_def toy_next_def toy_defs)
  moreover have "next_needles toy_next_ops toy_next = Inr ([], [])" by (simp add: next_needles_def toy_next_def toy_defs)
  moreover have "no_scan toy_next_ops = toy_ops" by (simp add: toy_next_ops_def)
  ultimately show ?thesis
    using toy_next_target by (simp add: next_scan_plan_def next_shares_def next_threads_def toy_previous_def toy_next_context_def)
qed

lemma toy_next_rows:
  "concat (map (row_result toy_next_context (\<lambda>a n. complete_read n (fst (as_pread toy_space a n)))) (pv_rows toy_previous)) =
    [KeptRow 0x1008 [42, 0, 0, 0] [7, 0, 0, 0] None]"
  by code_simp


end
